(* ===== verification/Prelude.thy ===== *)
theory Prelude
  imports Main "HOL-Library.Word" "HOL-Library.Monad_Syntax"
begin

text \<open>
  The vocabulary the component theories share.

  A C run that leaves defined behaviour (a NULL dereference, an access outside an array or an
  allocated block, a signed overflow, a failed \<open>assert\<close>) or that never returns has the value
  \<^term>\<open>None\<close>; every other run has the value \<^term>\<open>Some\<close> of its result, where the error codes
  the source returns are ordinary results. A theorem that a function returns \<^term>\<open>Some\<close>
  is therefore a memory-safety and termination theorem.

  The scalar types are those of \<open>src/server/typedefs.h\<close> and \<open>src/server/triedefs.h\<close> on the LP64
  targets the program is built for.
\<close>

unbundle bit_operations_syntax

section \<open>Scalar types\<close>

type_synonym uint8 = "8 word"
type_synonym uint16 = "16 word"
type_synonym uint32 = "32 word"

text \<open>A byte buffer, and a string held in one: the bytes before the terminating NUL.\<close>

type_synonym bytes = "uint8 list"

definition INT32_MIN :: int where
  "INT32_MIN = - 2147483648"

definition INT32_MAX :: int where
  "INT32_MAX = 2147483647"

definition is_int32 :: "int \<Rightarrow> bool" where
  "is_int32 i \<longleftrightarrow> INT32_MIN \<le> i \<and> i \<le> INT32_MAX"

lemmas int32_limits = is_int32_def INT32_MIN_def INT32_MAX_def

section \<open>Collections of facts\<close>

named_theorems accessors \<open>what a guarded read returns when its index is in range\<close>
named_theorems updates \<open>what a read returns after a write\<close>

section \<open>Guarded access to an array of the program\<close>

text \<open>
  An array of the program is a list, indexed by the machine integers the program uses, here
  \<^typ>\<open>int\<close>. A read or a write outside the allocated range is undefined.
\<close>

definition arr_get :: "'a list \<Rightarrow> int \<Rightarrow> 'a option" where
  "arr_get xs i = (if 0 \<le> i \<and> i < int (length xs) then Some (xs ! nat i) else None)"

definition arr_set :: "'a list \<Rightarrow> int \<Rightarrow> 'a \<Rightarrow> 'a list option" where
  "arr_set xs i x = (if 0 \<le> i \<and> i < int (length xs) then Some (xs[nat i := x]) else None)"

lemma arr_get_in [accessors]: "0 \<le> i \<Longrightarrow> i < int (length xs) \<Longrightarrow> arr_get xs i = Some (xs ! nat i)"
  by (simp add: arr_get_def)

lemma arr_set_in [accessors]:
  "0 \<le> i \<Longrightarrow> i < int (length xs) \<Longrightarrow> arr_set xs i x = Some (xs[nat i := x])"
  by (simp add: arr_set_def)

lemma arr_get_Some_iff:
  "arr_get xs i = Some x \<longleftrightarrow> 0 \<le> i \<and> i < int (length xs) \<and> x = xs ! nat i"
  by (auto simp: arr_get_def)

lemma arr_set_Some_iff:
  "arr_set xs i x = Some ys \<longleftrightarrow> 0 \<le> i \<and> i < int (length xs) \<and> ys = xs[nat i := x]"
  by (auto simp: arr_set_def)

section \<open>Addition and negation in the type \<open>int32\<close>\<close>

text \<open>Signed overflow is undefined in C.\<close>

definition add32 :: "int \<Rightarrow> int \<Rightarrow> int option" where
  "add32 a b = (if is_int32 (a + b) then Some (a + b) else None)"

lemma add32_in [accessors]: "is_int32 (a + b) \<Longrightarrow> add32 a b = Some (a + b)"
  by (simp add: add32_def)

definition neg32 :: "int \<Rightarrow> int option" where
  "neg32 a = (if is_int32 (- a) then Some (- a) else None)"

lemma neg32_in [accessors]: "is_int32 (- a) \<Longrightarrow> neg32 a = Some (- a)"
  by (simp add: neg32_def)

section \<open>Lists\<close>

lemma takeWhile_append_stop:
  "\<forall>x\<in>set xs. P x \<Longrightarrow> \<not> P y \<Longrightarrow> takeWhile P (xs @ y # ys) = xs"
  by (induction xs) auto

lemma nth_append_shift: "i < length ys \<Longrightarrow> (xs @ ys) ! (length xs + i) = ys ! i"
  by simp

lemma list_update_middle: "(xs @ y # ys)[length xs := z] = xs @ z # ys"
  by simp

section \<open>Words\<close>

lemma unat_ucast_mod: "unat (ucast (w :: 'a::len word) :: 'b::len word) = unat w mod 2 ^ LENGTH('b)"
  by (simp add: unsigned_ucast_eq unsigned_take_bit_eq take_bit_eq_mod)

text \<open>A word below half of its range reads the same signed and unsigned.\<close>

lemma sint_eq_unat:
  fixes w :: "'a :: len word"
  assumes "unat w < 2 ^ (LENGTH('a) - 1)"
  shows "sint w = int (unat w)"
proof -
  have u: "uint w = int (unat w)" by simp
  have "int (unat w) < int (2 ^ (LENGTH('a) - 1))" using assms by (simp only: of_nat_less_iff)
  then have a: "int (unat w) < 2 ^ (LENGTH('a) - 1)" unfolding of_nat_power of_nat_numeral .
  have "(0::int) \<le> int (unat w)" by (rule of_nat_0_le_iff)
  then have b: "- (2 ^ (LENGTH('a) - 1)) \<le> int (unat w)" by (rule order_trans [rotated]) simp
  show ?thesis unfolding sint_uint u
    using signed_take_bit_int_eq_self [of "LENGTH('a) - 1" "int (unat w)", OF b a] by (simp only: One_nat_def)
qed

lemma unat_less_8: "unat (a :: uint8) < 256"
  using unsigned_less [of a, where ?'a = nat] by simp

lemma unat_ucast8: "unat (ucast (a :: uint8) :: uint32) = unat a"
  using unat_less_8 [of a] by (simp add: unat_ucast_mod)

lemma is_int32_sint: "is_int32 (sint (w :: uint32))"
  using sint_range_size [of w] by (simp add: int32_limits word_size)

end
