(* ===== verification/FileUtils.thy ===== *)
theory FileUtils
  imports Prelude
begin

text \<open>
  The binary file layer, \<open>src/server/fileutils.c\<close>: big-endian 32- and 16-bit integers, bytes and
  runs of characters on a stdio stream.

  A stream is its contents, the file position and the number of bytes the medium can hold, so
  that short reads and short writes, the two failures the source tests for, both occur. The
  locale \<open>file_codec\<close> is the contract between a writer and a reader of one kind of value; it is
  interpreted here for the integers and characters and by the three serialisers of the trie for
  their records.
\<close>

section \<open>Streams\<close>

record FILE =
  contents :: bytes
  fpos :: nat
  room :: nat

text \<open>\<open>fread\<close> of \<open>n\<close> bytes and \<open>fwrite\<close> of a byte run, with what they transfer.\<close>

definition fread :: "nat \<Rightarrow> FILE \<Rightarrow> bytes \<times> FILE" where
  "fread n f = (let bs = take n (drop (fpos f) (contents f))
                in (bs, f\<lparr>fpos := fpos f + length bs\<rparr>))"

definition fwrite :: "bytes \<Rightarrow> FILE \<Rightarrow> nat \<times> FILE" where
  "fwrite bs f = (let bs' = take (room f - fpos f) bs
                  in (length bs',
                      f\<lparr>contents := take (fpos f) (contents f) @ bs'
                                    @ drop (fpos f + length bs') (contents f),
                        fpos := fpos f + length bs'\<rparr>))"

definition fseek_set :: "nat \<Rightarrow> FILE \<Rightarrow> FILE" where
  "fseek_set p f = f\<lparr>fpos := p\<rparr>"

section \<open>Integers and characters\<close>

text \<open>The four bytes \<open>file_write_int32\<close> builds, and the value \<open>file_read_int32\<close> rebuilds.\<close>

definition be32 :: "int \<Rightarrow> bytes" where
  "be32 val = [word_of_int (drop_bit 24 val AND 0xff), word_of_int (drop_bit 16 val AND 0xff),
               word_of_int (drop_bit 8 val AND 0xff), word_of_int (val AND 0xff)]"

definition from_be32 :: "bytes \<Rightarrow> int" where
  "from_be32 buff =
     sint (push_bit 24 (ucast (buff ! 0)) OR push_bit 16 (ucast (buff ! 1))
           OR push_bit 8 (ucast (buff ! 2)) OR (ucast (buff ! 3)) :: 32 word)"

definition be16 :: "int \<Rightarrow> bytes" where
  "be16 val = [word_of_int (drop_bit 8 val), word_of_int (val AND 0xff)]"

definition from_be16 :: "bytes \<Rightarrow> int" where
  "from_be16 buff = sint (push_bit 8 (ucast (buff ! 0)) OR (ucast (buff ! 1)) :: 16 word)"

definition file_read_int32 :: "FILE \<Rightarrow> int option \<times> FILE" where
  "file_read_int32 f = (let (buff, f') = fread 4 f
     in if length buff = 4 then (Some (from_be32 buff), f') else (None, f'))"

definition file_write_int32 :: "int \<Rightarrow> FILE \<Rightarrow> bool \<times> FILE" where
  "file_write_int32 val f = (let (n, f') = fwrite (be32 val) f in (n = 4, f'))"

definition file_read_int16 :: "FILE \<Rightarrow> int option \<times> FILE" where
  "file_read_int16 f = (let (buff, f') = fread 2 f
     in if length buff = 2 then (Some (from_be16 buff), f') else (None, f'))"

definition file_write_int16 :: "int \<Rightarrow> FILE \<Rightarrow> bool \<times> FILE" where
  "file_write_int16 val f = (let (n, f') = fwrite (be16 val) f in (n = 2, f'))"

definition file_read_int8 :: "FILE \<Rightarrow> int option \<times> FILE" where
  "file_read_int8 f = (let (buff, f') = fread 1 f
     in if length buff = 1 then (Some (sint (buff ! 0)), f') else (None, f'))"

definition file_write_int8 :: "int \<Rightarrow> FILE \<Rightarrow> bool \<times> FILE" where
  "file_write_int8 val f = (let (n, f') = fwrite [word_of_int val] f in (n = 1, f'))"

definition file_read_chars :: "nat \<Rightarrow> FILE \<Rightarrow> bytes option \<times> FILE" where
  "file_read_chars len f = (let (buff, f') = fread len f
     in if length buff = len then (Some buff, f') else (None, f'))"

definition file_write_chars :: "bytes \<Rightarrow> FILE \<Rightarrow> bool \<times> FILE" where
  "file_write_chars buff f = (let (n, f') = fwrite buff f in (n = length buff, f'))"

section \<open>Loops over the file\<close>

text \<open>
  The shape of every loop of the serialisers: write the elements one by one and stop at the
  first failure; read a counted run of elements and stop at the first failure.
\<close>

fun write_each :: "('a \<Rightarrow> FILE \<Rightarrow> bool \<times> FILE) \<Rightarrow> 'a list \<Rightarrow> FILE \<Rightarrow> bool \<times> FILE" where
  "write_each put [] f = (True, f)"
| "write_each put (x # xs) f =
     (case put x f of (False, f') \<Rightarrow> (False, f') | (True, f') \<Rightarrow> write_each put xs f')"

fun read_each ::
  "(FILE \<Rightarrow> ('a option \<times> FILE) option) \<Rightarrow> nat \<Rightarrow> FILE \<Rightarrow> ('a list option \<times> FILE) option" where
  "read_each get 0 f = Some (Some [], f)"
| "read_each get (Suc n) f =
     (case get f of
        None \<Rightarrow> None
      | Some (None, f') \<Rightarrow> Some (None, f')
      | Some (Some x, f') \<Rightarrow>
          (case read_each get n f' of
             None \<Rightarrow> None
           | Some (None, f'') \<Rightarrow> Some (None, f'')
           | Some (Some xs, f'') \<Rightarrow> Some (Some (x # xs), f'')))"

section \<open>Writing at the end, reading ahead\<close>

text \<open>
  Serialising appends to the stream; deserialising moves the position over bytes that lie ahead.
\<close>

definition at_end :: "FILE \<Rightarrow> bool" where
  "at_end f \<longleftrightarrow> fpos f = length (contents f)"

definition has_room :: "nat \<Rightarrow> FILE \<Rightarrow> bool" where
  "has_room n f \<longleftrightarrow> fpos f + n \<le> room f"

definition appended :: "bytes \<Rightarrow> FILE \<Rightarrow> FILE" where
  "appended bs f = f\<lparr>contents := contents f @ bs, fpos := fpos f + length bs\<rparr>"

definition ahead :: "FILE \<Rightarrow> bytes" where
  "ahead f = drop (fpos f) (contents f)"

definition advanced :: "nat \<Rightarrow> FILE \<Rightarrow> FILE" where
  "advanced n f = f\<lparr>fpos := fpos f + n\<rparr>"

named_theorems stream \<open>how the stream abstractions compose\<close>

lemma at_end_appended [stream]: "at_end f \<Longrightarrow> at_end (appended bs f)"
  by (simp add: at_end_def appended_def)

lemma has_room_appended [stream]: "has_room n (appended bs f) = has_room (length bs + n) f"
  by (simp add: has_room_def appended_def add.assoc)

lemma has_room_mono: "has_room n f \<Longrightarrow> m \<le> n \<Longrightarrow> has_room m f"
  by (simp add: has_room_def)

lemma appended_appended [stream]: "appended cs (appended bs f) = appended (bs @ cs) f"
  by (simp add: appended_def)

lemma appended_Nil [stream]: "appended [] f = f"
  by (simp add: appended_def)

lemma ahead_advanced [stream]:
  assumes "ahead f = bs @ r"
  shows "ahead (advanced (length bs) f) = r"
proof -
  have "ahead (advanced (length bs) f) = drop (length bs) (ahead f)"
    by (simp add: ahead_def advanced_def add.commute)
  then show ?thesis using assms by simp
qed

lemma advanced_advanced [stream]: "advanced m (advanced n f) = advanced (n + m) f"
  by (simp add: advanced_def add.assoc)

lemma advanced_0 [stream]: "advanced 0 f = f"
  by (simp add: advanced_def)

lemma fwrite_at_end:
  assumes "at_end f" and "has_room (length bs) f"
  shows "fwrite bs f = (length bs, appended bs f)"
  using assms by (simp add: fwrite_def at_end_def has_room_def appended_def Let_def)

lemma fread_ahead:
  assumes "ahead f = bs @ r"
  shows "fread (length bs) f = (bs, advanced (length bs) f)"
  using assms by (simp add: fread_def ahead_def advanced_def Let_def)

section \<open>The integer encodings\<close>

lemma length_be32 [simp]: "length (be32 v) = 4"
  by (simp add: be32_def)

lemma length_be16 [simp]: "length (be16 v) = 2"
  by (simp add: be16_def)

lemma be32_ne: "be32 v \<noteq> []" and be16_ne: "be16 v \<noteq> []"
  by (simp_all add: be32_def be16_def)

lemma mask8_bit: "bit (255::int) n \<longleftrightarrow> n < 8"
proof -
  have "(255::int) = mask 8" by (simp add: mask_eq_exp_minus_1)
  then show ?thesis by (simp only: bit_mask_iff) (simp add: possible_bit_def)
qed

lemma word32_of_bytes:
  "push_bit 24 (ucast (word_of_int (drop_bit 24 v AND 0xff) :: 8 word))
   OR push_bit 16 (ucast (word_of_int (drop_bit 16 v AND 0xff) :: 8 word))
   OR push_bit 8 (ucast (word_of_int (drop_bit 8 v AND 0xff) :: 8 word))
   OR ucast (word_of_int (v AND 0xff) :: 8 word) = (word_of_int v :: 32 word)"
proof (rule bit_word_eqI)
  fix n :: nat
  assume "n < LENGTH(32)"
  then have n: "n < 32" by simp
  consider "n < 8" | "8 \<le> n" "n < 16" | "16 \<le> n" "n < 24" | "24 \<le> n" "n < 32"
    using n by linarith
  then show "bit (push_bit 24 (ucast (word_of_int (drop_bit 24 v AND 0xff) :: 8 word))
   OR push_bit 16 (ucast (word_of_int (drop_bit 16 v AND 0xff) :: 8 word))
   OR push_bit 8 (ucast (word_of_int (drop_bit 8 v AND 0xff) :: 8 word))
   OR ucast (word_of_int (v AND 0xff) :: 8 word) :: 32 word) n = bit (word_of_int v :: 32 word) n"
    by cases (auto simp: bit_simps mask8_bit)
qed

lemma word16_of_bytes:
  "push_bit 8 (ucast (word_of_int (drop_bit 8 v) :: 8 word))
   OR ucast (word_of_int (v AND 0xff) :: 8 word) = (word_of_int v :: 16 word)"
proof (rule bit_word_eqI)
  fix n :: nat
  assume "n < LENGTH(16)"
  then have n: "n < 16" by simp
  consider "n < 8" | "8 \<le> n" "n < 16"
    using n by linarith
  then show "bit (push_bit 8 (ucast (word_of_int (drop_bit 8 v) :: 8 word))
   OR ucast (word_of_int (v AND 0xff) :: 8 word) :: 16 word) n = bit (word_of_int v :: 16 word) n"
    by cases (auto simp: bit_simps mask8_bit)
qed

lemma sint_word32: "is_int32 v \<Longrightarrow> sint (word_of_int v :: 32 word) = v"
  by (simp add: sint_sbintrunc' int32_limits signed_take_bit_int_eq_self)
lemma sint_word16: "- 32768 \<le> v \<Longrightarrow> v \<le> 32767 \<Longrightarrow> sint (word_of_int v :: 16 word) = v"
  by (simp add: sint_sbintrunc' signed_take_bit_int_eq_self)

lemma from_be32_be32: "is_int32 v \<Longrightarrow> from_be32 (be32 v) = v"
  by (simp add: from_be32_def be32_def word32_of_bytes sint_word32)

lemma from_be16_be16: "- 32768 \<le> v \<Longrightarrow> v \<le> 32767 \<Longrightarrow> from_be16 (be16 v) = v"
  by (simp add: from_be16_def be16_def word16_of_bytes sint_word16)

text \<open>Whatever the file holds, the integers read are in range.\<close>

lemma from_be32_range: "is_int32 (from_be32 bs)"
  using sint_range_size [of "push_bit 24 (ucast (bs ! 0)) OR push_bit 16 (ucast (bs ! 1))
           OR push_bit 8 (ucast (bs ! 2)) OR (ucast (bs ! 3)) :: 32 word"]
  by (simp add: from_be32_def int32_limits word_size)

section \<open>The contract of a writer and its reader\<close>

text \<open>
  A writer that appends exactly \<open>bs\<close>, or reports a failure when the medium has no room for it; a
  reader that consumes exactly \<open>bs\<close>, whatever follows, and returns \<open>x\<close>. Both compose.
\<close>

definition appends :: "(FILE \<Rightarrow> bool \<times> FILE) \<Rightarrow> bytes \<Rightarrow> bool" where
  "appends w bs \<longleftrightarrow> (\<forall>f. at_end f \<longrightarrow> fpos f \<le> room f \<longrightarrow>
     (if has_room (length bs) f then w f = (True, appended bs f) else \<not> fst (w f)))"

definition consumes :: "(FILE \<Rightarrow> ('a option \<times> FILE) option) \<Rightarrow> bytes \<Rightarrow> 'a \<Rightarrow> bool" where
  "consumes g bs x \<longleftrightarrow>
     (\<forall>f r. ahead f = bs @ r \<longrightarrow> g f = Some (Some x, advanced (length bs) f))"

text \<open>Short-circuit sequencing, the \<open>||\<close> of the failure tests.\<close>

definition write_seq :: "(FILE \<Rightarrow> bool \<times> FILE) \<Rightarrow> (FILE \<Rightarrow> bool \<times> FILE) \<Rightarrow> FILE \<Rightarrow> bool \<times> FILE" where
  "write_seq w1 w2 f = (case w1 f of (False, f') \<Rightarrow> (False, f') | (True, f') \<Rightarrow> w2 f')"

definition read_seq ::
  "(FILE \<Rightarrow> ('a option \<times> FILE) option) \<Rightarrow> ('a \<Rightarrow> FILE \<Rightarrow> ('b option \<times> FILE) option)
   \<Rightarrow> FILE \<Rightarrow> ('b option \<times> FILE) option" where
  "read_seq g h f = (case g f of None \<Rightarrow> None | Some (None, f') \<Rightarrow> Some (None, f')
     | Some (Some x, f') \<Rightarrow> h x f')"

lemma appendsI:
  assumes "\<And>f. at_end f \<Longrightarrow> fpos f \<le> room f \<Longrightarrow> has_room (length bs) f \<Longrightarrow> w f = (True, appended bs f)"
    and "\<And>f. at_end f \<Longrightarrow> fpos f \<le> room f \<Longrightarrow> \<not> has_room (length bs) f \<Longrightarrow> \<not> fst (w f)"
  shows "appends w bs"
  using assms by (auto simp: appends_def)

lemma appends_seq:
  assumes 1: "appends w1 bs" and 2: "appends w2 cs"
  shows "appends (write_seq w1 w2) (bs @ cs)"
proof (rule appendsI)
  fix f
  assume f: "at_end f" "fpos f \<le> room f" and r: "has_room (length (bs @ cs)) f"
  then have "has_room (length bs) f" by (auto elim: has_room_mono)
  with 1 f have w1: "w1 f = (True, appended bs f)" by (auto simp: appends_def)
  have f': "at_end (appended bs f)" "fpos (appended bs f) \<le> room (appended bs f)"
    "has_room (length cs) (appended bs f)"
    using f r by (auto simp: stream) (auto simp: appended_def has_room_def)
  with 2 have "w2 (appended bs f) = (True, appended cs (appended bs f))" by (auto simp: appends_def)
  with w1 show "write_seq w1 w2 f = (True, appended (bs @ cs) f)" by (simp add: write_seq_def stream)
next
  fix f
  assume f: "at_end f" "fpos f \<le> room f" and r: "\<not> has_room (length (bs @ cs)) f"
  show "\<not> fst (write_seq w1 w2 f)"
  proof (cases "has_room (length bs) f")
    case True
    with 1 f have w1: "w1 f = (True, appended bs f)" by (auto simp: appends_def)
    have "at_end (appended bs f)" "fpos (appended bs f) \<le> room (appended bs f)"
      "\<not> has_room (length cs) (appended bs f)"
      using f r True by (auto simp: stream) (auto simp: appended_def has_room_def)
    with 2 have "\<not> fst (w2 (appended bs f))" by (auto simp: appends_def)
    with w1 show ?thesis by (simp add: write_seq_def)
  next
    case False
    with 1 f have "\<not> fst (w1 f)" by (auto simp: appends_def)
    then show ?thesis by (auto simp: write_seq_def split: prod.splits bool.splits)
  qed
qed

lemma appends_nothing: "appends (\<lambda>f. (True, f)) []"
  by (auto simp: appends_def has_room_def stream)

lemma consumes_seq:
  assumes "consumes g bs x" and "consumes (h x) cs y"
  shows "consumes (read_seq g h) (bs @ cs) y"
  unfolding consumes_def
proof (intro allI impI)
  fix f r
  assume "ahead f = (bs @ cs) @ r"
  then have 1: "ahead f = bs @ (cs @ r)" by simp
  then have "ahead (advanced (length bs) f) = cs @ r" by (rule ahead_advanced)
  then have "h x (advanced (length bs) f) = Some (Some y, advanced (length cs) (advanced (length bs) f))"
    using assms(2) by (simp add: consumes_def)
  then show "read_seq g h f = Some (Some y, advanced (length (bs @ cs)) f)"
    using assms(1) 1 by (simp add: consumes_def read_seq_def stream)
qed

lemma consumes_nothing: "consumes (\<lambda>f. Some (Some x, f)) [] x"
  by (simp add: consumes_def stream)

lemma consumesD: "consumes g bs x \<Longrightarrow> ahead f = bs @ r \<Longrightarrow> g f = Some (Some x, advanced (length bs) f)"
  by (simp add: consumes_def)

lemma consumes_then:
  "consumes g bs x \<Longrightarrow> consumes (read_seq g (\<lambda>x f. Some (Some (F x), f))) bs (F x)"
  by (auto simp: consumes_def read_seq_def)

locale file_codec =
  fixes put :: "'a \<Rightarrow> FILE \<Rightarrow> bool \<times> FILE"
    and get :: "FILE \<Rightarrow> ('a option \<times> FILE) option"
    and enc :: "'a \<Rightarrow> bytes"
    and valid :: "'a \<Rightarrow> bool"
  assumes put_appends: "valid x \<Longrightarrow> appends (put x) (enc x)"
    and get_consumes: "valid x \<Longrightarrow> consumes get (enc x) x"
begin

definition enc_all :: "'a list \<Rightarrow> bytes" where
  "enc_all xs = concat (map enc xs)"

lemma enc_all_simps [simp]: "enc_all [] = []" "enc_all (x # xs) = enc x @ enc_all xs"
  by (simp_all add: enc_all_def)

lemma write_each_appends: "\<forall>x\<in>set xs. valid x \<Longrightarrow> appends (write_each put xs) (enc_all xs)"
proof (induction xs)
  case Nil
  then show ?case using appends_nothing by (simp add: appends_def)
next
  case (Cons x xs)
  have "write_each put (x # xs) = write_seq (put x) (write_each put xs)"
    by (simp add: fun_eq_iff write_seq_def)
  then show ?case using Cons by (simp add: appends_seq put_appends)
qed

lemma read_each_consumes: "\<forall>x\<in>set xs. valid x \<Longrightarrow> consumes (read_each get (length xs)) (enc_all xs) xs"
proof (induction xs)
  case Nil
  then show ?case using consumes_nothing [of "[]"] by (simp add: consumes_def)
next
  case (Cons x xs)
  have "read_each get (length (x # xs)) =
      read_seq get (\<lambda>x. read_seq (read_each get (length xs)) (\<lambda>xs f. Some (Some (x # xs), f)))"
    by (auto simp: fun_eq_iff read_seq_def split: option.splits prod.splits)
  moreover have "consumes (read_seq (read_each get (length xs)) (\<lambda>xs f. Some (Some (x # xs), f)))
      (enc_all xs) (x # xs)"
    using Cons consumes_then [of "read_each get (length xs)" "enc_all xs" xs "(#) x"] by simp
  ultimately show ?case using Cons.prems by (auto intro: consumes_seq [where x = x] get_consumes)
qed

text \<open>What a save writes to an empty file with enough room, a load reads back.\<close>

lemma save_load:
  assumes "valid x" and "length (enc x) \<le> n"
  shows "put x \<lparr>contents = [], fpos = 0, room = n\<rparr> = (True, \<lparr>contents = enc x, fpos = length (enc x), room = n\<rparr>)"
    and "get \<lparr>contents = enc x, fpos = 0, room = n\<rparr> =
           Some (Some x, \<lparr>contents = enc x, fpos = length (enc x), room = n\<rparr>)"
proof -
  show "put x \<lparr>contents = [], fpos = 0, room = n\<rparr> = (True, \<lparr>contents = enc x, fpos = length (enc x), room = n\<rparr>)"
    using put_appends [OF assms(1)] assms(2)
    by (auto simp: appends_def at_end_def has_room_def appended_def)
  have "ahead \<lparr>contents = enc x, fpos = 0, room = n\<rparr> = enc x @ []" by (simp add: ahead_def)
  then show "get \<lparr>contents = enc x, fpos = 0, room = n\<rparr> =
      Some (Some x, \<lparr>contents = enc x, fpos = length (enc x), room = n\<rparr>)"
    using get_consumes [OF assms(1)] by (fastforce simp: consumes_def advanced_def)
qed

end

section \<open>The primitive codecs\<close>

lemma fwrite_no_room: "\<not> has_room (length bs) f \<Longrightarrow> fst (fwrite bs f) < length bs \<or> bs = []"
  by (cases bs) (auto simp: fwrite_def has_room_def Let_def)

lemma appends_fwrite:
  assumes "bs \<noteq> []"
  shows "appends (\<lambda>f. let (n, f') = fwrite bs f in (n = length bs, f')) bs"
proof (rule appendsI)
  fix f
  assume "\<not> has_room (length bs) f"
  with assms fwrite_no_room show "\<not> fst (let (n, f') = fwrite bs f in (n = length bs, f'))"
    by (fastforce simp: Let_def split: prod.splits)
qed (simp add: fwrite_at_end)

lemma consumes_fread:
  assumes "dec bs = x"
  shows "consumes (\<lambda>f. Some (let (buff, f') = fread (length bs) f
     in if length buff = length bs then (Some (dec buff), f') else (None, f'))) bs x"
  using assms by (auto simp: consumes_def fread_ahead)

interpretation int32_codec: file_codec file_write_int32 "\<lambda>f. Some (file_read_int32 f)" be32 is_int32
proof unfold_locales
  fix x :: int
  show "appends (file_write_int32 x) (be32 x)"
    using appends_fwrite [of "be32 x"] by (simp add: file_write_int32_def [abs_def] be32_ne)
  assume "is_int32 x"
  then show "consumes (\<lambda>f. Some (file_read_int32 f)) (be32 x) x"
    using consumes_fread [of from_be32 "be32 x" x]
    by (simp add: file_read_int32_def [abs_def] from_be32_be32)
qed

interpretation int16_codec: file_codec file_write_int16 "\<lambda>f. Some (file_read_int16 f)" be16
  "\<lambda>v. - 32768 \<le> v \<and> v \<le> 32767"
proof unfold_locales
  fix x :: int
  show "appends (file_write_int16 x) (be16 x)"
    using appends_fwrite [of "be16 x"] by (simp add: file_write_int16_def [abs_def] be16_ne)
  assume "- 32768 \<le> x \<and> x \<le> 32767"
  then show "consumes (\<lambda>f. Some (file_read_int16 f)) (be16 x) x"
    using consumes_fread [of from_be16 "be16 x" x]
    by (simp add: file_read_int16_def [abs_def] from_be16_be16)
qed

text \<open>A run of characters whose length the reader already knows.\<close>

lemma write_chars_appends: "bs \<noteq> [] \<Longrightarrow> appends (file_write_chars bs) bs"
  using appends_fwrite [of bs] by (simp add: file_write_chars_def [abs_def])

lemma read_chars_consumes: "consumes (\<lambda>f. Some (file_read_chars (length bs) f)) bs bs"
  using consumes_fread [of "\<lambda>b. b" bs bs] by (simp add: file_read_chars_def [abs_def])

end
