(* ===== verification/TrieDefs.thy ===== *)
theory TrieDefs
  imports Prelude
begin

text \<open>
  The types and constants of \<open>src/server/triedefs.h\<close>, and the strings of the trie.

  A string of the program is a buffer: a list that holds a terminating zero, perhaps followed by
  more. A pointer into it is the rest of the list, so moving the pointer is taking the tail and
  reading past the end is undefined.
\<close>

type_synonym AlphaChar = uint32
type_synonym TrieChar = uint8
type_synonym TrieIndex = int
type_synonym TrieData = int

definition ALPHA_CHAR_ERROR :: AlphaChar where
  "ALPHA_CHAR_ERROR = NOT 0"

definition TRIE_CHAR_MAX :: TrieChar where
  "TRIE_CHAR_MAX = 255"

definition TRIE_INDEX_ERROR :: TrieIndex where
  "TRIE_INDEX_ERROR = 0"

definition TRIE_INDEX_MAX :: TrieIndex where
  "TRIE_INDEX_MAX = 0x7fffffff"

definition TRIE_DATA_ERROR :: TrieData where
  "TRIE_DATA_ERROR = - 1"

lemmas trie_consts =
  ALPHA_CHAR_ERROR_def TRIE_CHAR_MAX_def TRIE_INDEX_ERROR_def TRIE_INDEX_MAX_def TRIE_DATA_ERROR_def

section \<open>Terminated strings\<close>

text \<open>The character a pointer points to; the string in a buffer; a copy of it (\<open>strdup\<close>).\<close>

definition deref :: "'a list \<Rightarrow> 'a option" where
  "deref p = (case p of [] \<Rightarrow> None | c # _ \<Rightarrow> Some c)"

definition c_str :: "'a::zero list \<Rightarrow> 'a list option" where
  "c_str s = (if 0 \<in> set s then Some (takeWhile (\<lambda>c. c \<noteq> 0) s) else None)"

definition c_strlen :: "'a::zero list \<Rightarrow> nat option" where
  "c_strlen s = map_option length (c_str s)"

definition strdup :: "'a::zero list \<Rightarrow> 'a list option" where
  "strdup s = map_option (\<lambda>cs. cs @ [0]) (c_str s)"

lemma deref_simps [simp]: "deref [] = None" "deref (c # p) = Some c"
  by (simp_all add: deref_def)

lemma c_str_terminated [simp]:
  assumes "0 \<notin> set k"
  shows "c_str (k @ 0 # r) = Some k"
proof -
  have "\<forall>c\<in>set k. c \<noteq> 0" using assms by auto
  then have "takeWhile (\<lambda>c. c \<noteq> 0) (k @ 0 # r) = k"
    by (intro takeWhile_append_stop) auto
  then show ?thesis by (simp add: c_str_def)
qed

lemma c_str_Some_iff: "c_str s = Some k \<longleftrightarrow> (\<exists>r. s = k @ 0 # r \<and> 0 \<notin> set k)"
proof
  assume "c_str s = Some k"
  then have z: "0 \<in> set s" and k: "k = takeWhile (\<lambda>c. c \<noteq> 0) s"
    by (auto simp: c_str_def split: if_splits)
  from split_list_first [OF z] obtain ys zs where s: "s = ys @ 0 # zs" "0 \<notin> set ys" by blast
  then have "\<forall>c\<in>set ys. c \<noteq> 0" by auto
  then have "k = ys" unfolding k s(1) by (intro takeWhile_append_stop) auto
  with s show "\<exists>r. s = k @ 0 # r \<and> 0 \<notin> set k" by blast
next
  assume "\<exists>r. s = k @ 0 # r \<and> 0 \<notin> set k"
  then show "c_str s = Some k" by auto
qed

lemma c_strlen_terminated [simp]: "0 \<notin> set k \<Longrightarrow> c_strlen (k @ 0 # r) = Some (length k)"
  by (simp add: c_strlen_def)

lemma strdup_terminated [simp]: "0 \<notin> set k \<Longrightarrow> strdup (k @ 0 # r) = Some (k @ [0])"
  by (simp add: strdup_def)

end
