(* ===== verification/AlphaMap.thy ===== *)
theory AlphaMap
  imports FileUtils TrieDefs
begin

text \<open>
  The alphabet map, \<open>src/server/alpha-map.c\<close>: a set of character codes kept as a list of disjoint
  ranges, and the translation between alphabet characters and the small trie characters.

  The singly linked list of ranges is a list. Inside \<open>alpha_map_add_range\<close> the two cursors \<open>q\<close> and
  \<open>r\<close> cut it in two: the ranges up to \<open>q\<close> in reverse order (so \<open>q\<close> is the head) and the ranges from
  \<open>r\<close> on. The node pointers \<open>begin_node\<close> and \<open>end_node\<close> are NULL, or one of the two cursors.
\<close>

section \<open>Data\<close>

record AlphaRange =
  rbegin :: AlphaChar
  rend :: AlphaChar

record AlphaMap =
  first_range :: "AlphaRange list"

definition ALPHAMAP_SIGNATURE :: uint32 where
  "ALPHAMAP_SIGNATURE = 0xD9FCD9FC"

datatype node_ref = NoNode | NodeQ | NodeR

section \<open>Operations\<close>

definition alpha_map_new :: AlphaMap where
  "alpha_map_new = \<lparr>first_range = []\<rparr>"

text \<open>Skip first ranges till \<open>begin\<close> is covered.\<close>

fun skip_to_begin ::
  "AlphaChar \<Rightarrow> AlphaRange list \<Rightarrow> AlphaRange list \<Rightarrow> AlphaRange list \<times> AlphaRange list \<times> node_ref" where
  "skip_to_begin b qs [] = (qs, [], NoNode)"
| "skip_to_begin b qs (r # rs) =
     (if rbegin r \<le> b
      then if b \<le> rend r then (qs, r # rs, NodeR) else skip_to_begin b (r # qs) rs
      else (qs, r # rs, NoNode))"

text \<open>\<open>[begin, end]\<close> overlaps into \<open>r\<close>-begin: extend \<open>r\<close>-begin to include the range.\<close>

fun extend_begin ::
  "AlphaChar \<Rightarrow> AlphaChar \<Rightarrow> AlphaRange list \<Rightarrow> node_ref \<Rightarrow> AlphaRange list \<times> node_ref" where
  "extend_begin b e (r # rs) NoNode =
     (if rbegin r \<le> e then (r\<lparr>rbegin := b\<rparr> # rs, NodeR) else (r # rs, NoNode))"
| "extend_begin b e rs bn = (rs, bn)"

text \<open>Run up to the first range that exceeds \<open>end\<close>, removing the ranges it covers.\<close>

fun run_to_end ::
  "AlphaChar \<Rightarrow> node_ref \<Rightarrow> AlphaRange list \<Rightarrow> AlphaRange list
   \<Rightarrow> AlphaRange list \<times> AlphaRange list \<times> node_ref \<times> node_ref" where
  "run_to_end e bn qs [] = (qs, [], bn, NoNode)"
| "run_to_end e bn qs (r # rs) =
     (if rbegin r \<le> e
      then if e \<le> rend r then (qs, r # rs, bn, NodeR)
           else if bn \<noteq> NodeR then run_to_end e bn qs rs
           else run_to_end e NodeQ (r # qs) rs
      else (qs, r # rs, bn, NoNode))"

text \<open>\<open>[begin, end]\<close> overlaps \<open>q\<close> at the end: extend \<open>q\<close>-end to include the range.\<close>

fun extend_end ::
  "AlphaChar \<Rightarrow> AlphaChar \<Rightarrow> AlphaRange list \<Rightarrow> node_ref \<Rightarrow> AlphaRange list \<times> node_ref" where
  "extend_end b e (q # qs) NoNode =
     (if b \<le> rend q then (q\<lparr>rend := e\<rparr> # qs, NodeQ) else (q # qs, NoNode))"
| "extend_end b e qs en = (qs, en)"

text \<open>
  Merge the begin and end ranges together (the source asserts that they are neighbours), or
  insert a new range between \<open>q\<close> and \<open>r\<close>.
\<close>

fun join_nodes ::
  "AlphaChar \<Rightarrow> AlphaChar \<Rightarrow> AlphaRange list \<Rightarrow> AlphaRange list \<Rightarrow> node_ref \<Rightarrow> node_ref
   \<Rightarrow> AlphaRange list option" where
  "join_nodes b e qs rs NoNode NoNode = Some (rev qs @ \<lparr>rbegin = b, rend = e\<rparr> # rs)"
| "join_nodes b e (q # qs) (r # rs) NodeQ NodeR = Some (rev qs @ q\<lparr>rend := rend r\<rparr> # rs)"
| "join_nodes b e qs rs NodeR NodeQ = None"
| "join_nodes b e qs rs bn en = Some (rev qs @ rs)"

definition alpha_map_add_range :: "AlphaMap \<Rightarrow> AlphaChar \<Rightarrow> AlphaChar \<Rightarrow> (int \<times> AlphaMap) option" where
  "alpha_map_add_range am b e =
     (if b > e then Some (- 1, am)
      else let (qs, rs, bn) = skip_to_begin b [] (first_range am);
               (rs, bn) = extend_begin b e rs bn;
               (qs, rs, bn, en) = run_to_end e bn qs rs;
               (qs, en) = extend_end b e qs en
           in map_option (\<lambda>l. (0, am\<lparr>first_range := l\<rparr>)) (join_nodes b e qs rs bn en))"

text \<open>\<open>alpha_map_clone\<close> adds the ranges of the source one by one; a failure frees the copy.\<close>

fun add_ranges :: "AlphaMap \<Rightarrow> AlphaRange list \<Rightarrow> (AlphaMap option) option" where
  "add_ranges am [] = Some (Some am)"
| "add_ranges am (r # rs) =
     do {
       (res, am') \<leftarrow> alpha_map_add_range am (rbegin r) (rend r);
       if res \<noteq> 0 then Some None else add_ranges am' rs
     }"

definition alpha_map_clone :: "AlphaMap \<Rightarrow> (AlphaMap option) option" where
  "alpha_map_clone am = add_ranges alpha_map_new (first_range am)"

definition alpha_map_get_total_ranges :: "AlphaMap \<Rightarrow> nat" where
  "alpha_map_get_total_ranges am = length (first_range am)"

section \<open>Character translation\<close>

fun char_to_trie_from :: "uint8 \<Rightarrow> AlphaRange list \<Rightarrow> AlphaChar \<Rightarrow> TrieChar" where
  "char_to_trie_from alpha_begin [] ac = TRIE_CHAR_MAX"
| "char_to_trie_from alpha_begin (r # rs) ac =
     (if rbegin r \<le> ac \<and> ac \<le> rend r then ucast (ucast alpha_begin + (ac - rbegin r))
      else char_to_trie_from (ucast (ucast alpha_begin + (rend r - rbegin r + 1))) rs ac)"

definition alpha_map_char_to_trie :: "AlphaMap \<Rightarrow> AlphaChar \<Rightarrow> TrieChar" where
  "alpha_map_char_to_trie am ac = (if ac = 0 then 0 else char_to_trie_from 1 (first_range am) ac)"

fun trie_to_char_from :: "uint8 \<Rightarrow> AlphaRange list \<Rightarrow> TrieChar \<Rightarrow> AlphaChar" where
  "trie_to_char_from alpha_begin [] tc = ALPHA_CHAR_ERROR"
| "trie_to_char_from alpha_begin (r # rs) tc =
     (if ucast tc \<le> ucast alpha_begin + (rend r - rbegin r)
      then rbegin r + (ucast tc - ucast alpha_begin)
      else trie_to_char_from (ucast (ucast alpha_begin + (rend r - rbegin r + 1))) rs tc)"

definition alpha_map_trie_to_char :: "AlphaMap \<Rightarrow> TrieChar \<Rightarrow> AlphaChar" where
  "alpha_map_trie_to_char am tc = (if tc = 0 then 0 else trie_to_char_from 1 (first_range am) tc)"

definition alpha_char_strlen :: "AlphaChar list \<Rightarrow> nat option" where
  "alpha_char_strlen str = c_strlen str"

fun alpha_map_char_to_trie_str :: "AlphaMap \<Rightarrow> AlphaChar list \<Rightarrow> TrieChar list option" where
  "alpha_map_char_to_trie_str am [] = None"
| "alpha_map_char_to_trie_str am (c # str) =
     (if c \<noteq> 0
      then map_option (\<lambda>p. alpha_map_char_to_trie am c # p) (alpha_map_char_to_trie_str am str)
      else Some [0])"

fun alpha_map_trie_to_char_str :: "AlphaMap \<Rightarrow> TrieChar list \<Rightarrow> AlphaChar list option" where
  "alpha_map_trie_to_char_str am [] = None"
| "alpha_map_trie_to_char_str am (c # str) =
     (if c \<noteq> 0
      then map_option (\<lambda>p. alpha_map_trie_to_char am c # p) (alpha_map_trie_to_char_str am str)
      else Some [0])"

section \<open>Files\<close>

definition write_range :: "AlphaRange \<Rightarrow> FILE \<Rightarrow> bool \<times> FILE" where
  "write_range r f =
     (case file_write_int32 (sint (rbegin r)) f of
        (False, f') \<Rightarrow> (False, f')
      | (True, f') \<Rightarrow> file_write_int32 (sint (rend r)) f')"

definition alpha_map_fwrite_bin :: "AlphaMap \<Rightarrow> FILE \<Rightarrow> int \<times> FILE" where
  "alpha_map_fwrite_bin am f =
     (case file_write_int32 (sint ALPHAMAP_SIGNATURE) f of
        (False, f1) \<Rightarrow> (- 1, f1)
      | (True, f1) \<Rightarrow>
          (case file_write_int32 (int (alpha_map_get_total_ranges am)) f1 of
             (False, f2) \<Rightarrow> (- 1, f2)
           | (True, f2) \<Rightarrow>
               (case write_each write_range (first_range am) f2 of
                  (False, f3) \<Rightarrow> (- 1, f3)
                | (True, f3) \<Rightarrow> (0, f3))))"

definition read_range :: "FILE \<Rightarrow> AlphaRange option \<times> FILE" where
  "read_range f =
     (case file_read_int32 f of
        (None, f1) \<Rightarrow> (None, f1)
      | (Some b, f1) \<Rightarrow>
          (case file_read_int32 f1 of
             (None, f2) \<Rightarrow> (None, f2)
           | (Some e, f2) \<Rightarrow> (Some \<lparr>rbegin = word_of_int b, rend = word_of_int e\<rparr>, f2)))"

text \<open>
  The reading loop adds each range as it comes and ignores the result of \<open>alpha_map_add_range\<close>; a
  short read frees the map and moves the file back to where it was.
\<close>

fun read_ranges :: "nat \<Rightarrow> AlphaMap \<Rightarrow> FILE \<Rightarrow> (AlphaMap option \<times> FILE) option" where
  "read_ranges 0 am f = Some (Some am, f)"
| "read_ranges (Suc n) am f =
     (case read_range f of
        (None, f1) \<Rightarrow> Some (None, f1)
      | (Some r, f1) \<Rightarrow>
          do {
            (_, am') \<leftarrow> alpha_map_add_range am (rbegin r) (rend r);
            read_ranges n am' f1
          })"

definition alpha_map_fread_bin :: "FILE \<Rightarrow> (AlphaMap option \<times> FILE) option" where
  "alpha_map_fread_bin f =
     (let save_pos = fpos f in
      case file_read_int32 f of
        (None, f1) \<Rightarrow> Some (None, fseek_set save_pos f1)
      | (Some sig, f1) \<Rightarrow>
          if ALPHAMAP_SIGNATURE \<noteq> word_of_int sig then Some (None, fseek_set save_pos f1)
          else (case file_read_int32 f1 of
                  (None, f2) \<Rightarrow> Some (None, fseek_set save_pos f2)
                | (Some n_ranges, f2) \<Rightarrow>
                    do {
                      (res, f3) \<leftarrow> read_ranges (nat n_ranges) alpha_map_new f2;
                      case res of
                        None \<Rightarrow> Some (None, fseek_set save_pos f3)
                      | Some am \<Rightarrow> Some (Some am, f3)
                    }))"

section \<open>The set of characters, and the invariant\<close>

definition range_set :: "AlphaRange \<Rightarrow> AlphaChar set" where
  "range_set r = {rbegin r .. rend r}"

definition ranges_set :: "AlphaRange list \<Rightarrow> AlphaChar set" where
  "ranges_set rs = (\<Union>r\<in>set rs. range_set r)"

definition alpha_set :: "AlphaMap \<Rightarrow> AlphaChar set" where
  "alpha_set am = ranges_set (first_range am)"

definition ranges_ok :: "AlphaRange list \<Rightarrow> bool" where
  "ranges_ok rs \<longleftrightarrow> (\<forall>r\<in>set rs. rbegin r \<le> rend r) \<and> sorted_wrt (\<lambda>a b. rend a < rbegin b) rs"

definition alpha_map_ok :: "AlphaMap \<Rightarrow> bool" where
  "alpha_map_ok am \<longleftrightarrow> ranges_ok (first_range am)"

lemma ranges_set_simps [simp]:
  "ranges_set [] = {}" "ranges_set (r # rs) = range_set r \<union> ranges_set rs"
  "ranges_set (xs @ ys) = ranges_set xs \<union> ranges_set ys" "ranges_set (rev xs) = ranges_set xs"
  by (auto simp: ranges_set_def)

section \<open>Adding a range\<close>

lemma skip_to_begin_spec:
  assumes "skip_to_begin b qs rs = (qs', rs', bn)" and "\<forall>q\<in>set qs. rend q < b"
  shows "rev qs' @ rs' = rev qs @ rs \<and> (\<forall>q\<in>set qs'. rend q < b) \<and>
    (case bn of NodeR \<Rightarrow> \<exists>r us. rs' = r # us \<and> rbegin r \<le> b \<and> b \<le> rend r
     | NoNode \<Rightarrow> (\<forall>r us. rs' = r # us \<longrightarrow> b < rbegin r) | NodeQ \<Rightarrow> False)"
  using assms by (induction b qs rs rule: skip_to_begin.induct) (auto split: if_splits)

lemma run_to_end_NodeQ:
  "\<exists>ds rs' en. run_to_end e NodeQ qs rs = (qs, rs', NodeQ, en) \<and> rs = ds @ rs' \<and>
     (\<forall>d\<in>set ds. rbegin d \<le> e \<and> rend d < e) \<and>
     (case en of NodeR \<Rightarrow> \<exists>r us. rs' = r # us \<and> rbegin r \<le> e \<and> e \<le> rend r
      | NoNode \<Rightarrow> (\<forall>r us. rs' = r # us \<longrightarrow> e < rbegin r) | NodeQ \<Rightarrow> False)"
proof (induction rs)
  case Nil
  then show ?case by simp
next
  case (Cons r rs)
  then obtain ds rs' en where IH: "run_to_end e NodeQ qs rs = (qs, rs', NodeQ, en)" "rs = ds @ rs'"
     "\<forall>d\<in>set ds. rbegin d \<le> e \<and> rend d < e"
     "(case en of NodeR \<Rightarrow> \<exists>r us. rs' = r # us \<and> rbegin r \<le> e \<and> e \<le> rend r
      | NoNode \<Rightarrow> (\<forall>r us. rs' = r # us \<longrightarrow> e < rbegin r) | NodeQ \<Rightarrow> False)"
    by blast
  show ?case
  proof (cases "rbegin r \<le> e \<and> rend r < e")
    case True
    with IH show ?thesis
      by (intro exI [of _ "r # ds"] exI [of _ rs'] exI [of _ en]) auto
  next
    case False
    then show ?thesis
      by (intro exI [of _ "[]"] exI [of _ "r # rs"] exI [of _ "if rbegin r \<le> e then NodeR else NoNode"])
        auto
  qed
qed


text \<open>From the point where the begin node is \<open>r\<close>.\<close>

lemma add_range_from_begin:
  assumes ok: "ranges_ok (rev qs @ r # us)" and cov: "rbegin r \<le> b" "b \<le> rend r" and be: "b \<le> e"
  shows "\<exists>l. (let (qs1, rs1, bn1, en1) = run_to_end e NodeR qs (r # us);
                (qs2, en2) = extend_end b e qs1 en1
            in join_nodes b e qs2 rs1 bn1 en2) = Some l \<and>
         ranges_ok l \<and> ranges_set l = ranges_set (rev qs @ r # us) \<union> {b .. e}"
proof (cases "e \<le> rend r")
  case True
  with cov be have "{b .. e} \<subseteq> range_set r" by (auto simp: range_set_def)
  with True cov be ok show ?thesis by (auto simp: Let_def)
next
  case False
  obtain ds rs' en where run: "run_to_end e NodeQ (r # qs) us = (r # qs, rs', NodeQ, en)"
    and us: "us = ds @ rs'" and ds: "\<forall>d\<in>set ds. rbegin d \<le> e \<and> rend d < e"
    and en: "(case en of NodeR \<Rightarrow> \<exists>r us. rs' = r # us \<and> rbegin r \<le> e \<and> e \<le> rend r
      | NoNode \<Rightarrow> (\<forall>r us. rs' = r # us \<longrightarrow> e < rbegin r) | NodeQ \<Rightarrow> False)"
    using run_to_end_NodeQ [of e "r # qs" us] by blast
  have first: "run_to_end e NodeR qs (r # us) = (r # qs, rs', NodeQ, en)"
    using False run cov be by auto
  have ok': "ranges_ok (rev qs @ r # ds @ rs')" using ok us by simp
  have dsub: "range_set d \<subseteq> {rbegin r .. e}" if "d \<in> set ds" for d
  proof -
    have "rbegin r \<le> rend r" "rend r < rbegin d" "rend d < e"
      using ok' ds that by (auto simp: ranges_ok_def sorted_wrt_append)
    then show ?thesis by (auto simp: range_set_def)
  qed
  show ?thesis
  proof (cases en)
    case NodeR
    with en obtain r2 u2 where r2: "rs' = r2 # u2" "rbegin r2 \<le> e" "e \<le> rend r2" by auto
    let ?m = "r\<lparr>rend := rend r2\<rparr>"
    have "ranges_ok (rev qs @ ?m # u2)"
      using ok' r2 cov be by (auto simp: ranges_ok_def sorted_wrt_append)
    moreover have "range_set ?m = range_set r \<union> ranges_set ds \<union> range_set r2 \<union> {b .. e}"
    proof
      show "range_set ?m \<subseteq> range_set r \<union> ranges_set ds \<union> range_set r2 \<union> {b .. e}"
        using r2 cov by (auto simp: range_set_def)
      have "rend r < rbegin r2" using ok' r2 by (auto simp: ranges_ok_def sorted_wrt_append)
      moreover have "ranges_set ds \<subseteq> {rbegin r .. rend r2}"
        using dsub r2(3) by (fastforce simp: ranges_set_def)
      ultimately show "range_set r \<union> ranges_set ds \<union> range_set r2 \<union> {b .. e} \<subseteq> range_set ?m"
        using r2 cov be by (auto simp: range_set_def)
    qed
    ultimately show ?thesis using first NodeR r2 us by (auto simp: Let_def)
  next
    case NoNode
    let ?m = "r\<lparr>rend := e\<rparr>"
    have "ranges_ok (rev qs @ ?m # rs')"
      using ok' NoNode en cov be False
      by (cases rs') (auto simp: ranges_ok_def sorted_wrt_append)
    moreover have "range_set ?m = range_set r \<union> ranges_set ds \<union> {b .. e}"
      using dsub cov be False by (fastforce simp: range_set_def ranges_set_def)
    ultimately show ?thesis using first NoNode us cov by (auto simp: Let_def)
  qed (use en in auto)
qed

lemma add_range_lemma:
  assumes ok: "alpha_map_ok am" and be: "b \<le> e"
  shows "\<exists>am'. alpha_map_add_range am b e = Some (0, am') \<and> alpha_map_ok am' \<and>
           alpha_set am' = alpha_set am \<union> {b .. e}"
proof -
  obtain qs rs bn where sk: "skip_to_begin b [] (first_range am) = (qs, rs, bn)"
    by (metis prod_cases3)
  from skip_to_begin_spec [OF this] have
    l: "first_range am = rev qs @ rs" and qs: "\<forall>q\<in>set qs. rend q < b" and
    bn: "(case bn of NodeR \<Rightarrow> \<exists>r us. rs = r # us \<and> rbegin r \<le> b \<and> b \<le> rend r
     | NoNode \<Rightarrow> (\<forall>r us. rs = r # us \<longrightarrow> b < rbegin r) | NodeQ \<Rightarrow> False)"
    by auto
  have ok': "ranges_ok (rev qs @ rs)" using ok l by (simp add: alpha_map_ok_def)
  let ?rest = "\<lambda>rs bn. let (qs1, rs1, bn1, en1) = run_to_end e bn qs rs;
                          (qs2, en2) = extend_end b e qs1 en1
                      in join_nodes b e qs2 rs1 bn1 en2"
  have res: "alpha_map_add_range am b e =
      map_option (\<lambda>l. (0, am\<lparr>first_range := l\<rparr>))
        (?rest (fst (extend_begin b e rs bn)) (snd (extend_begin b e rs bn)))"
    using be sk by (simp add: alpha_map_add_range_def Let_def split_beta leD)
  have "\<exists>l. ?rest (fst (extend_begin b e rs bn)) (snd (extend_begin b e rs bn)) = Some l \<and>
      ranges_ok l \<and> ranges_set l = ranges_set (first_range am) \<union> {b .. e}"
  proof (cases "bn = NodeR \<or> (\<exists>r us. rs = r # us \<and> rbegin r \<le> e)")
    case False
    then have rs: "rs = [] \<or> (\<exists>r us. rs = r # us \<and> e < rbegin r)" and "bn = NoNode"
      using bn by (cases rs; cases bn; auto)+
    have "extend_end b e qs NoNode = (qs, NoNode)" using qs by (cases qs) auto
    moreover have "ranges_ok (rev qs @ \<lparr>rbegin = b, rend = e\<rparr> # rs)"
      using ok' qs rs be by (fastforce simp: ranges_ok_def sorted_wrt_append)
    ultimately show ?thesis
      using rs \<open>bn = NoNode\<close> l by (auto simp: Let_def range_set_def)
  next
    case True
    show ?thesis
    proof (cases bn)
      case NodeR
      with bn obtain r us where rs: "rs = r # us" "rbegin r \<le> b" "b \<le> rend r" by auto
      from add_range_from_begin [of qs r us b e] ok' rs be NodeR l show ?thesis by auto
    next
      case NoNode
      with True obtain r us where rs: "rs = r # us" "rbegin r \<le> e" by auto
      with bn NoNode have "b < rbegin r" by auto
      let ?r = "r\<lparr>rbegin := b\<rparr>"
      have "ranges_ok (rev qs @ ?r # us)"
        using ok' rs be qs \<open>b < rbegin r\<close> by (fastforce simp: ranges_ok_def sorted_wrt_append)
      moreover have "b \<le> rend ?r" using ok' rs \<open>b < rbegin r\<close> by (fastforce simp: ranges_ok_def)
      ultimately obtain l' where l': "?rest (?r # us) NodeR = Some l'" "ranges_ok l'"
        "ranges_set l' = ranges_set (rev qs @ ?r # us) \<union> {b .. e}"
        using add_range_from_begin [of qs ?r us b e] be by (auto simp: Let_def)
      have "range_set ?r \<union> {b .. e} = range_set r \<union> {b .. e}"
        using rs \<open>b < rbegin r\<close> by (auto simp: range_set_def)
      with l' have "ranges_set l' = ranges_set (first_range am) \<union> {b .. e}"
        unfolding l rs by (simp add: Un_ac)
      then show ?thesis using l' NoNode rs by (intro exI [of _ l']) simp
    qed (use bn in auto)
  qed
  with res show ?thesis by (auto simp: alpha_map_ok_def alpha_set_def)
qed


section \<open>Translating characters\<close>

text \<open>The number of characters; the codes below \<open>TRIE_CHAR_MAX\<close> are enough for 254 of them.\<close>

fun ranges_size :: "AlphaRange list \<Rightarrow> nat" where
  "ranges_size [] = 0"
| "ranges_size (r # rs) = Suc (unat (rend r) - unat (rbegin r)) + ranges_size rs"

lemma next_alpha_begin:
  fixes a :: uint8 and b e :: uint32
  assumes "b \<le> e" and "unat a + (unat e - unat b) < 255"
  shows "unat (ucast (ucast a + (e - b + 1)) :: uint8) = unat a + Suc (unat e - unat b)"
proof -
  have le: "unat b \<le> unat e" using assms(1) by (simp add: word_le_nat_alt)
  have d: "unat (e - b) = unat e - unat b" using assms(1) by (rule unat_sub)
  have 1: "unat (ucast a + (e - b + 1)) = unat a + Suc (unat e - unat b)"
    using assms(2) d by (simp add: unat_word_ariths unat_ucast8)
  show ?thesis using assms(2) by (simp add: unat_ucast_mod 1)
qed

lemma char_to_trie_from_in:
  assumes "ranges_ok rs" and "ac \<in> ranges_set rs" and "unat alpha_begin + ranges_size rs \<le> 255"
  shows "unat alpha_begin \<le> unat (char_to_trie_from alpha_begin rs ac) \<and>
         unat (char_to_trie_from alpha_begin rs ac) < unat alpha_begin + ranges_size rs \<and>
         trie_to_char_from alpha_begin rs (char_to_trie_from alpha_begin rs ac) = ac"
  using assms
proof (induction rs arbitrary: alpha_begin)
  case Nil
  then show ?case by simp
next
  case (Cons r rs)
  have re: "rbegin r \<le> rend r" and ok: "ranges_ok rs"
    using Cons.prems by (auto simp: ranges_ok_def)
  have small: "unat alpha_begin + (unat (rend r) - unat (rbegin r)) < 255"
    using Cons.prems by simp
  have top: "unat (ucast alpha_begin + (rend r - rbegin r) :: uint32)
      = unat alpha_begin + (unat (rend r) - unat (rbegin r))"
    using small re by (simp add: unat_word_ariths unat_ucast8 unat_sub)
  show ?case
  proof (cases "rbegin r \<le> ac \<and> ac \<le> rend r")
    case True
    have d: "unat (ac - rbegin r) = unat ac - unat (rbegin r)"
      using True by (simp add: unat_sub)
    have le: "unat (rbegin r) \<le> unat ac" "unat ac \<le> unat (rend r)"
      using True by (simp_all add: word_le_nat_alt)
    let ?w = "ucast alpha_begin + (ac - rbegin r) :: uint32"
    have w: "unat ?w = unat alpha_begin + (unat ac - unat (rbegin r))"
      using small le d by (simp add: unat_word_ariths unat_ucast8)
    have c: "unat (ucast ?w :: uint8) = unat ?w"
      using small le by (simp add: unat_ucast_mod w)
    have cw: "ucast (ucast ?w :: uint8) = ?w"
      by (rule word_unat_eq_iff [THEN iffD2]) (simp add: unat_ucast8 c)
    have "?w \<le> ucast alpha_begin + (rend r - rbegin r)"
      using w top le by (simp add: word_le_nat_alt)
    then have "trie_to_char_from alpha_begin (r # rs) (ucast ?w) = ac"
      using cw by simp
    moreover have "unat alpha_begin \<le> unat ?w"
      "unat ?w < unat alpha_begin + ranges_size (r # rs)"
      using w le by simp_all
    ultimately show ?thesis using True c by simp
  next
    case False
    then have ac: "ac \<in> ranges_set rs" using Cons.prems by (auto simp: range_set_def)
    let ?a = "ucast (ucast alpha_begin + (rend r - rbegin r + 1)) :: uint8"
    have a: "unat ?a = unat alpha_begin + Suc (unat (rend r) - unat (rbegin r))"
      using re small by (rule next_alpha_begin)
    then have "unat ?a + ranges_size rs \<le> 255" using Cons.prems(3) by simp
    note IH = Cons.IH [OF ok ac this]
    have "\<not> ucast (char_to_trie_from ?a rs ac) \<le> (ucast alpha_begin + (rend r - rbegin r) :: uint32)"
      using IH a top by (simp add: word_le_nat_alt unat_ucast8)
    then show ?thesis using False IH a by auto
  qed
qed

lemma char_to_trie_from_notin: "ac \<notin> ranges_set rs \<Longrightarrow> char_to_trie_from a rs ac = TRIE_CHAR_MAX"
  by (induction a rs ac rule: char_to_trie_from.induct) (auto simp: range_set_def)


text \<open>The whole map: \<open>alpha_map_char_to_trie\<close> and back.\<close>

definition alpha_size :: "AlphaMap \<Rightarrow> nat" where
  "alpha_size am = ranges_size (first_range am)"

text \<open>The alphabets the trie is meant for: disjoint ranges, at most 254 characters in all.\<close>

definition alphabet_ok :: "AlphaMap \<Rightarrow> bool" where
  "alphabet_ok am \<longleftrightarrow> alpha_map_ok am \<and> alpha_size am \<le> 254"

lemma char_to_trie_0 [simp]: "alpha_map_char_to_trie am 0 = 0"
  by (simp add: alpha_map_char_to_trie_def)

lemma char_to_trie_in:
  assumes "alphabet_ok am" and "ac \<in> alpha_set am" and "ac \<noteq> 0"
  shows "alpha_map_char_to_trie am ac \<noteq> 0" and "alpha_map_char_to_trie am ac \<noteq> TRIE_CHAR_MAX"
    and "alpha_map_trie_to_char am (alpha_map_char_to_trie am ac) = ac"
    and "unat (alpha_map_char_to_trie am ac) \<le> alpha_size am"
proof -
  let ?tc = "char_to_trie_from 1 (first_range am) ac"
  have *: "1 \<le> unat ?tc \<and> unat ?tc < 1 + alpha_size am \<and>
      trie_to_char_from 1 (first_range am) ?tc = ac"
    using char_to_trie_from_in [of "first_range am" ac 1] assms
    by (simp add: alphabet_ok_def alpha_map_ok_def alpha_set_def alpha_size_def)
  then have "?tc \<noteq> 0" by auto
  moreover have "?tc \<noteq> TRIE_CHAR_MAX"
    using * assms(1) by (auto simp: alphabet_ok_def TRIE_CHAR_MAX_def)
  ultimately show "alpha_map_char_to_trie am ac \<noteq> 0" "alpha_map_char_to_trie am ac \<noteq> TRIE_CHAR_MAX"
    "alpha_map_trie_to_char am (alpha_map_char_to_trie am ac) = ac"
    "unat (alpha_map_char_to_trie am ac) \<le> alpha_size am"
    using * assms(3) by (simp_all add: alpha_map_char_to_trie_def alpha_map_trie_to_char_def)
qed

lemma char_to_trie_notin:
  "ac \<notin> alpha_set am \<Longrightarrow> ac \<noteq> 0 \<Longrightarrow> alpha_map_char_to_trie am ac = TRIE_CHAR_MAX"
  by (simp add: alpha_map_char_to_trie_def alpha_set_def char_to_trie_from_notin)

lemma char_to_trie_inj:
  assumes "alphabet_ok am" and "a \<in> alpha_set am" and "a \<noteq> 0"
    and "alpha_map_char_to_trie am a = alpha_map_char_to_trie am b"
  shows "a = b"
proof (cases "b = 0 \<or> b \<notin> alpha_set am")
  case True
  then show ?thesis using assms char_to_trie_in(1,2) [OF assms(1-3)] char_to_trie_notin [of b am]
    by (cases "b = 0") auto
next
  case False
  then show ?thesis using assms char_to_trie_in(3) by metis
qed

text \<open>A key over the alphabet: what the trie can store.\<close>

definition alpha_key :: "AlphaMap \<Rightarrow> AlphaChar list \<Rightarrow> bool" where
  "alpha_key am k \<longleftrightarrow> 0 \<notin> set k \<and> set k \<subseteq> alpha_set am"

definition trie_key :: "AlphaMap \<Rightarrow> AlphaChar list \<Rightarrow> TrieChar list" where
  "trie_key am k = map (alpha_map_char_to_trie am) k"

lemma char_to_trie_str:
  "0 \<notin> set k \<Longrightarrow> alpha_map_char_to_trie_str am (k @ 0 # r) = Some (trie_key am k @ [0])"
  by (induction k) (auto simp: trie_key_def)

lemma trie_to_char_str:
  "0 \<notin> set k \<Longrightarrow>
   alpha_map_trie_to_char_str am (k @ 0 # r) = Some (map (alpha_map_trie_to_char am) k @ [0])"
  by (induction k) auto

lemma trie_key_range:
  assumes "alphabet_ok am" and "alpha_key am k" and "c \<in> set (trie_key am k)"
  shows "c \<noteq> 0" and "c \<noteq> TRIE_CHAR_MAX"
  using assms char_to_trie_in(1,2) [OF assms(1)] by (auto simp: alpha_key_def trie_key_def)

lemma trie_key_back:
  assumes "alphabet_ok am" and "alpha_key am k"
  shows "map (alpha_map_trie_to_char am) (trie_key am k) = k"
proof -
  have "alpha_map_trie_to_char am (alpha_map_char_to_trie am c) = c" if "c \<in> set k" for c
    using assms that char_to_trie_in(3) [OF assms(1), of c] by (auto simp: alpha_key_def)
  then show ?thesis by (auto simp: trie_key_def intro: map_idI)
qed


section \<open>Copies and files\<close>

lemma skip_to_begin_all:
  "\<forall>q\<in>set rs. rbegin q \<le> b \<and> rend q < b \<Longrightarrow> skip_to_begin b qs rs = (rev rs @ qs, [], NoNode)"
  by (induction b qs rs rule: skip_to_begin.induct) auto

lemma add_range_append:
  assumes "ranges_ok (l @ [r])"
  shows "alpha_map_add_range \<lparr>first_range = l\<rparr> (rbegin r) (rend r) = Some (0, \<lparr>first_range = l @ [r]\<rparr>)"
proof -
  have l: "\<forall>q\<in>set l. rbegin q \<le> rbegin r \<and> rend q < rbegin r" and r: "rbegin r \<le> rend r"
    using assms by (fastforce simp: ranges_ok_def sorted_wrt_append)+
  have "extend_end (rbegin r) (rend r) (rev l) NoNode = (rev l, NoNode)"
    using l by (cases l rule: rev_cases) auto
  with skip_to_begin_all [OF l, of "[]"] r show ?thesis
    by (simp add: alpha_map_add_range_def Let_def leD)
qed

lemma ranges_ok_prefix: "ranges_ok (l @ rs) \<Longrightarrow> ranges_ok l"
  by (simp add: ranges_ok_def sorted_wrt_append)

lemma add_ranges_append:
  "ranges_ok (l @ rs) \<Longrightarrow> add_ranges \<lparr>first_range = l\<rparr> rs = Some (Some \<lparr>first_range = l @ rs\<rparr>)"
proof (induction rs arbitrary: l)
  case (Cons r rs)
  then have "ranges_ok (l @ [r])" using ranges_ok_prefix [of "l @ [r]" rs] by simp
  with Cons show ?case by (simp add: add_range_append)
qed simp

lemma alpha_map_clone_lemma: "alpha_map_ok am \<Longrightarrow> alpha_map_clone am = Some (Some am)"
  using add_ranges_append [of "[]" "first_range am"]
  by (simp add: alpha_map_clone_def alpha_map_new_def alpha_map_ok_def)

definition enc_range :: "AlphaRange \<Rightarrow> bytes" where
  "enc_range r = be32 (sint (rbegin r)) @ be32 (sint (rend r))"

lemma length_enc_range [simp]: "length (enc_range r) = 8"
  by (simp add: enc_range_def)

interpretation range_codec: file_codec write_range "\<lambda>f. Some (read_range f)" enc_range "\<lambda>_. True"
proof unfold_locales
  fix r :: AlphaRange
  have "write_range r = write_seq (file_write_int32 (sint (rbegin r))) (file_write_int32 (sint (rend r)))"
    by (simp add: fun_eq_iff write_range_def write_seq_def)
  then show "appends (write_range r) (enc_range r)"
    by (simp add: enc_range_def appends_seq int32_codec.put_appends is_int32_sint)
  let ?mk = "\<lambda>b e. \<lparr>rbegin = word_of_int b, rend = word_of_int e\<rparr>"
  have "(\<lambda>f. Some (read_range f)) = read_seq (\<lambda>f. Some (file_read_int32 f))
      (\<lambda>b. read_seq (\<lambda>f. Some (file_read_int32 f)) (\<lambda>e f. Some (Some (?mk b e), f)))"
    by (auto simp: fun_eq_iff read_range_def read_seq_def split: option.splits prod.splits)
  moreover have "consumes (read_seq (\<lambda>f. Some (file_read_int32 f))
        (\<lambda>e f. Some (Some (?mk (sint (rbegin r)) e), f))) (be32 (sint (rend r))) r"
    using consumes_then [OF int32_codec.get_consumes [OF is_int32_sint [of "rend r"]],
        of "?mk (sint (rbegin r))"] by (cases r) simp
  ultimately show "consumes (\<lambda>f. Some (read_range f)) (enc_range r) r"
    unfolding enc_range_def
    by (simp only: consumes_seq [OF int32_codec.get_consumes [OF is_int32_sint]])
qed

lemma read_ranges_enc:
  assumes "ranges_ok (l @ rs)" and "ahead f = range_codec.enc_all rs @ s"
  shows "read_ranges (length rs) \<lparr>first_range = l\<rparr> f =
     Some (Some \<lparr>first_range = l @ rs\<rparr>, advanced (length (range_codec.enc_all rs)) f)"
  using assms
proof (induction rs arbitrary: l f)
  case Nil
  then show ?case by (simp add: stream)
next
  case (Cons r rs)
  have ok: "ranges_ok (l @ [r])" using Cons.prems ranges_ok_prefix [of "l @ [r]" rs] by simp
  have g: "read_range f = (Some r, advanced (length (enc_range r)) f)"
    using consumesD [OF range_codec.get_consumes, where f = f and r = "range_codec.enc_all rs @ s"] Cons.prems
    by simp
  have "ahead (advanced (length (enc_range r)) f) = range_codec.enc_all rs @ s"
    using Cons.prems by (intro ahead_advanced) simp
  then show ?case using Cons.IH [of "l @ [r]"] Cons.prems(1) g ok
    by (simp add: add_range_append stream)
qed

definition enc_alpha_map :: "AlphaMap \<Rightarrow> bytes" where
  "enc_alpha_map am = be32 (sint ALPHAMAP_SIGNATURE) @ be32 (int (length (first_range am)))
     @ range_codec.enc_all (first_range am)"

definition alpha_map_file_ok :: "AlphaMap \<Rightarrow> bool" where
  "alpha_map_file_ok am \<longleftrightarrow> alpha_map_ok am \<and> int (length (first_range am)) \<le> INT32_MAX"

text \<open>The whole map as a codec: saving appends, a full medium is reported, loading gives it back.\<close>

interpretation alpha_codec: file_codec
  "\<lambda>am f. (fst (alpha_map_fwrite_bin am f) = 0, snd (alpha_map_fwrite_bin am f))"
  alpha_map_fread_bin enc_alpha_map alpha_map_file_ok
proof unfold_locales
  fix am
  assume ok: "alpha_map_file_ok am"
  let ?n = "int (length (first_range am))"
  have n: "is_int32 ?n" and s: "is_int32 (sint ALPHAMAP_SIGNATURE)"
    using ok by (auto simp: alpha_map_file_ok_def int32_limits is_int32_sint [unfolded int32_limits])
  have "(\<lambda>f. (fst (alpha_map_fwrite_bin am f) = 0, snd (alpha_map_fwrite_bin am f))) =
      write_seq (file_write_int32 (sint ALPHAMAP_SIGNATURE))
        (write_seq (file_write_int32 ?n) (write_each write_range (first_range am)))"
    by (auto simp: fun_eq_iff alpha_map_fwrite_bin_def write_seq_def alpha_map_get_total_ranges_def
        split: prod.splits bool.splits)
  then show "appends (\<lambda>f. (fst (alpha_map_fwrite_bin am f) = 0, snd (alpha_map_fwrite_bin am f)))
      (enc_alpha_map am)"
    unfolding enc_alpha_map_def
    by (simp add: appends_seq int32_codec.put_appends n s range_codec.write_each_appends)
  have ok': "ranges_ok ([] @ first_range am)"
    using ok by (simp add: alpha_map_file_ok_def alpha_map_ok_def)
  show "consumes alpha_map_fread_bin (enc_alpha_map am) am"
    unfolding consumes_def
  proof (intro allI impI)
    fix f r
    assume a: "ahead f = enc_alpha_map am @ r"
    let ?all = "range_codec.enc_all (first_range am)"
    from a have 1: "ahead f = be32 (sint ALPHAMAP_SIGNATURE) @ be32 ?n @ ?all @ r"
      by (simp add: enc_alpha_map_def)
    from ahead_advanced [OF 1] have 2: "ahead (advanced 4 f) = be32 ?n @ ?all @ r" by simp
    from ahead_advanced [OF 2] have 3: "ahead (advanced 8 f) = ?all @ r" by (simp add: stream)
    show "alpha_map_fread_bin f = Some (Some am, advanced (length (enc_alpha_map am)) f)"
      using consumesD [OF int32_codec.get_consumes [OF s] 1]
        consumesD [OF int32_codec.get_consumes [OF n] 2] read_ranges_enc [OF ok' 3]
      by (simp add: alpha_map_fread_bin_def stream alpha_map_new_def enc_alpha_map_def)
  qed
qed

section \<open>The alphabet of the domain trie\<close>

text \<open>
  The ranges \<open>src/server/list2tri.c\<close> adds: \<open>-\<close> and \<open>.\<close>, the digits, the lower-case letters and
  the underscore; \<open>dns_alphabet\<close> is the map they make.
\<close>

definition list2tri_alphabet :: "AlphaMap option" where
  "list2tri_alphabet =
     do {
       (_, am) \<leftarrow> alpha_map_add_range alpha_map_new 0x2d 0x2e;
       (_, am) \<leftarrow> alpha_map_add_range am 0x30 0x39;
       (_, am) \<leftarrow> alpha_map_add_range am 0x61 0x7a;
       (_, am) \<leftarrow> alpha_map_add_range am 0x5f 0x5f;
       Some am
     }"

definition dns_alphabet :: AlphaMap where
  "dns_alphabet = \<lparr>first_range =
     [\<lparr>rbegin = 0x2d, rend = 0x2e\<rparr>, \<lparr>rbegin = 0x30, rend = 0x39\<rparr>,
      \<lparr>rbegin = 0x5f, rend = 0x5f\<rparr>, \<lparr>rbegin = 0x61, rend = 0x7a\<rparr>]\<rparr>"

lemma list2tri_alphabet_eq: "list2tri_alphabet = Some dns_alphabet"
  by (simp add: list2tri_alphabet_def dns_alphabet_def alpha_map_new_def alpha_map_add_range_def)

lemma dns_alphabet_ok: "alphabet_ok dns_alphabet"
  by (simp add: alphabet_ok_def alpha_map_ok_def ranges_ok_def alpha_size_def dns_alphabet_def)

section \<open>Properties\<close>

text \<open>C39: Adding a range to a well-formed map is set union: the list stays sorted and disjoint, the
  assertion about neighbouring nodes never fails, and a reversed range is refused unchanged.\<close>

theorem alpha_map_add_range_union:
  assumes "alpha_map_ok am"
  shows "\<exists>res am'. alpha_map_add_range am b e = Some (res, am') \<and> alpha_map_ok am' \<and>
           (if b \<le> e then res = 0 \<and> alpha_set am' = alpha_set am \<union> {b .. e}
            else res = - 1 \<and> am' = am)"
  using assms add_range_lemma [of am b e] by (cases "b \<le> e") (auto simp: alpha_map_add_range_def)

theorem alpha_map_add_range_union_witness:
  "\<exists>am'. alpha_map_add_range
       \<lparr>first_range = [\<lparr>rbegin = 0x61, rend = 0x63\<rparr>, \<lparr>rbegin = 0x70, rend = 0x72\<rparr>]\<rparr> 0x62 0x71 = Some (0, am') \<and>
     alpha_map_ok am' \<and> alpha_set am' = {0x61 .. 0x63} \<union> {0x70 .. 0x72} \<union> {0x62 .. 0x71}"
  using alpha_map_add_range_union
    [of "\<lparr>first_range = [\<lparr>rbegin = 0x61, rend = 0x63\<rparr>, \<lparr>rbegin = 0x70, rend = 0x72\<rparr>]\<rparr>" "0x62" "0x71"]
  by (simp add: alpha_map_ok_def ranges_ok_def alpha_set_def range_set_def)

text \<open>C40: Over an alphabet that is well formed (sorted, separate ranges without the terminator) and has at most
  254 characters, translating a key over it to trie characters gives a string of the same length without the
  terminator and without the code of unknown characters, and translating that back gives the key.\<close>

theorem alpha_key_roundtrip:
  assumes "alphabet_ok am" and "alpha_key am k"
  shows "\<exists>s. alpha_map_char_to_trie_str am (k @ [0]) = Some (s @ [0]) \<and> length s = length k \<and>
           (\<forall>c. c \<in> set s \<longrightarrow> c \<noteq> 0 \<and> c \<noteq> TRIE_CHAR_MAX) \<and>
           alpha_map_trie_to_char_str am (s @ [0]) = Some (k @ [0])"
proof -
  have "0 \<notin> set k" using assms(2) by (simp add: alpha_key_def)
  moreover have "0 \<notin> set (trie_key am k)" using trie_key_range(1) [OF assms] by auto
  ultimately show ?thesis
    using char_to_trie_str [of k am "[]"] trie_to_char_str [of "trie_key am k" am "[]"]
      trie_key_range [OF assms] trie_key_back [OF assms]
    by (intro exI [of _ "trie_key am k"]) (auto simp: trie_key_def)
qed

theorem alpha_key_roundtrip_witness:
  "\<exists>s. alpha_map_char_to_trie_str dns_alphabet ([0x61, 0x2e, 0x5f] @ [0]) = Some (s @ [0]) \<and>
       length s = length [0x61, 0x2e, 0x5f :: AlphaChar] \<and>
       (\<forall>c. c \<in> set s \<longrightarrow> c \<noteq> 0 \<and> c \<noteq> TRIE_CHAR_MAX) \<and>
       alpha_map_trie_to_char_str dns_alphabet (s @ [0]) = Some ([0x61, 0x2e, 0x5f] @ [0])"
proof (rule alpha_key_roundtrip)
  show "alphabet_ok dns_alphabet" by (rule dns_alphabet_ok)
  show "alpha_key dns_alphabet [0x61, 0x2e, 0x5f]"
    by (simp add: alpha_key_def dns_alphabet_def alpha_set_def range_set_def)
qed

text \<open>A well-formed alphabet map is written whole on a medium with room for it, and reading the
  file back gives the same map; with less room the write reports the failure.\<close>

theorem alpha_map_save_load:
  assumes "alpha_map_file_ok am"
  shows "let (res, f) = alpha_map_fwrite_bin am \<lparr>contents = [], fpos = 0, room = n\<rparr>
         in if length (enc_alpha_map am) \<le> n
            then res = 0 \<and> map_option fst (alpha_map_fread_bin (fseek_set 0 f)) = Some (Some am)
            else res \<noteq> 0"
proof (cases "length (enc_alpha_map am) \<le> n")
  case True
  show ?thesis
    using alpha_codec.save_load [OF assms True] True by (auto simp: fseek_set_def)
next
  case False
  then show ?thesis
    using alpha_codec.put_appends [OF assms, unfolded appends_def, rule_format,
        of "\<lparr>contents = [], fpos = 0, room = n\<rparr>"]
    by (auto simp: at_end_def has_room_def split: prod.splits)
qed

theorem alpha_map_save_load_witness:
  "let (res, f) = alpha_map_fwrite_bin dns_alphabet \<lparr>contents = [], fpos = 0, room = 40\<rparr>
   in res = 0 \<and> map_option fst (alpha_map_fread_bin (fseek_set 0 f)) = Some (Some dns_alphabet)"
proof -
  have "alpha_map_file_ok dns_alphabet"
    using dns_alphabet_ok by (simp add: alpha_map_file_ok_def alphabet_ok_def dns_alphabet_def INT32_MAX_def)
  moreover have "length (enc_alpha_map dns_alphabet) \<le> 40"
    by (simp add: enc_alpha_map_def dns_alphabet_def)
  ultimately show ?thesis using alpha_map_save_load [of dns_alphabet 40] by simp
qed

end
