(* ===== verification/Tail.thy ===== *)
theory Tail
  imports FileUtils TrieDefs
begin

text \<open>
  The suffix store of the trie, \<open>src/server/tail.c\<close>: an array of blocks, each with a suffix string
  and the data of its key, and a list of free blocks threaded through the array.

  A suffix is NULL or a heap string (a buffer with its terminator). Tail indices as the trie uses
  them are block numbers plus \<open>TAIL_START_BLOCKNO\<close>.
\<close>

section \<open>Data\<close>

record TailBlock =
  next_free :: TrieIndex
  tdata :: TrieData
  suffix :: "TrieChar list option"

record Tail =
  num_tails :: TrieIndex
  tails :: "TailBlock list"
  first_free :: TrieIndex

definition TAIL_SIGNATURE :: uint32 where
  "TAIL_SIGNATURE = 0xDFFCDFFC"

definition TAIL_START_BLOCKNO :: TrieIndex where
  "TAIL_START_BLOCKNO = 1"

definition tail_new :: Tail where
  "tail_new = \<lparr>num_tails = 0, tails = [], first_free = 0\<rparr>"

section \<open>Suffixes and data\<close>

definition tail_get_suffix :: "Tail \<Rightarrow> TrieIndex \<Rightarrow> (TrieChar list option) option" where
  "tail_get_suffix t index =
     (let i = index - TAIL_START_BLOCKNO
      in if i < num_tails t then map_option suffix (arr_get (tails t) i) else Some None)"

definition dup_suffix :: "TrieChar list option \<Rightarrow> (TrieChar list option) option" where
  "dup_suffix s = (case s of None \<Rightarrow> Some None | Some p \<Rightarrow> map_option Some (strdup p))"

definition tail_set_suffix :: "Tail \<Rightarrow> TrieIndex \<Rightarrow> TrieChar list option \<Rightarrow> (bool \<times> Tail) option" where
  "tail_set_suffix t index s =
     (let i = index - TAIL_START_BLOCKNO
      in if i < num_tails t
         then do {
           tmp \<leftarrow> dup_suffix s;
           b \<leftarrow> arr_get (tails t) i;
           ts \<leftarrow> arr_set (tails t) i (b\<lparr>suffix := tmp\<rparr>);
           Some (True, t\<lparr>tails := ts\<rparr>)
         }
         else Some (False, t))"

definition tail_get_data :: "Tail \<Rightarrow> TrieIndex \<Rightarrow> TrieData option" where
  "tail_get_data t index =
     (let i = index - TAIL_START_BLOCKNO
      in if i < num_tails t then map_option tdata (arr_get (tails t) i) else Some TRIE_DATA_ERROR)"

definition tail_set_data :: "Tail \<Rightarrow> TrieIndex \<Rightarrow> TrieData \<Rightarrow> (bool \<times> Tail) option" where
  "tail_set_data t index d =
     (let i = index - TAIL_START_BLOCKNO
      in if i < num_tails t
         then do {
           b \<leftarrow> arr_get (tails t) i;
           ts \<leftarrow> arr_set (tails t) i (b\<lparr>tdata := d\<rparr>);
           Some (True, t\<lparr>tails := ts\<rparr>)
         }
         else Some (False, t))"

section \<open>Allocation\<close>

text \<open>
  The array grows by one block when the free list is empty; the block is written whole before it
  is used.
\<close>

definition fresh_block :: TailBlock where
  "fresh_block = \<lparr>next_free = - 1, tdata = TRIE_DATA_ERROR, suffix = None\<rparr>"

definition tail_alloc_block :: "Tail \<Rightarrow> (TrieIndex \<times> Tail) option" where
  "tail_alloc_block t =
     (if first_free t \<noteq> 0
      then do {
        b \<leftarrow> arr_get (tails t) (first_free t);
        ts \<leftarrow> arr_set (tails t) (first_free t) fresh_block;
        Some (first_free t + TAIL_START_BLOCKNO, t\<lparr>tails := ts, first_free := next_free b\<rparr>)
      }
      else do {
        n \<leftarrow> add32 (num_tails t) 1;
        Some (num_tails t + TAIL_START_BLOCKNO, t\<lparr>tails := tails t @ [fresh_block], num_tails := n\<rparr>)
      })"

definition tail_add_suffix :: "Tail \<Rightarrow> TrieChar list option \<Rightarrow> (TrieIndex \<times> Tail) option" where
  "tail_add_suffix t s =
     do {
       (new_block, t1) \<leftarrow> tail_alloc_block t;
       (_, t2) \<leftarrow> tail_set_suffix t1 new_block s;
       Some (new_block, t2)
     }"

text \<open>
  The insertion point in the free list: \<open>j\<close> is the last free block before \<open>block\<close>, \<open>i\<close> the first
  one after it; 0 stands for none in both.
\<close>

partial_function (option) find_insertion ::
  "TailBlock list \<Rightarrow> TrieIndex \<Rightarrow> TrieIndex \<Rightarrow> TrieIndex \<Rightarrow> (TrieIndex \<times> TrieIndex) option" where
  [code]: "find_insertion bs block j i =
     (if i \<noteq> 0 \<and> i < block
      then do { b \<leftarrow> arr_get bs i; find_insertion bs block i (next_free b) }
      else Some (j, i))"

definition tail_free_block :: "Tail \<Rightarrow> TrieIndex \<Rightarrow> Tail option" where
  "tail_free_block t index =
     (let block = index - TAIL_START_BLOCKNO
      in if block \<ge> num_tails t then Some t
         else do {
           b \<leftarrow> arr_get (tails t) block;
           ts \<leftarrow> arr_set (tails t) block (b\<lparr>tdata := TRIE_DATA_ERROR, suffix := None\<rparr>);
           (j, i) \<leftarrow> find_insertion ts block 0 (first_free t);
           b \<leftarrow> arr_get ts block;
           ts \<leftarrow> arr_set ts block (b\<lparr>next_free := i\<rparr>);
           if 0 \<noteq> j
           then do {
             bj \<leftarrow> arr_get ts j;
             ts \<leftarrow> arr_set ts j (bj\<lparr>next_free := block\<rparr>);
             Some (t\<lparr>tails := ts\<rparr>)
           }
           else Some (t\<lparr>tails := ts, first_free := block\<rparr>)
         })"

definition tail_delete :: "Tail \<Rightarrow> TrieIndex \<Rightarrow> Tail option" where
  "tail_delete t index = tail_free_block t index"

section \<open>Walking\<close>

text \<open>The suffix position is a \<open>short\<close>: incrementing the largest one wraps.\<close>

definition short_inc :: "int \<Rightarrow> int" where
  "short_inc i = (if i = 32767 then - 32768 else i + 1)"

fun walk_suffix ::
  "TrieChar list \<Rightarrow> TrieChar list \<Rightarrow> nat \<Rightarrow> int \<Rightarrow> int \<Rightarrow> (int \<times> int) option" where
  "walk_suffix sfx str 0 i j = Some (i, j)"
| "walk_suffix sfx str (Suc n) i j =
     do {
       a \<leftarrow> arr_get str i;
       b \<leftarrow> arr_get sfx j;
       if a \<noteq> b then Some (i, j)
       else if b = 0 then Some (i + 1, j)
       else walk_suffix sfx str n (i + 1) (short_inc j)
     }"

definition tail_walk_str ::
  "Tail \<Rightarrow> TrieIndex \<Rightarrow> int \<Rightarrow> TrieChar list \<Rightarrow> int \<Rightarrow> (int \<times> int) option" where
  "tail_walk_str t s suffix_idx str len =
     do {
       sfx \<leftarrow> tail_get_suffix t s;
       case sfx of
         None \<Rightarrow> Some (0, suffix_idx)
       | Some p \<Rightarrow> walk_suffix p str (nat len) 0 suffix_idx
     }"

definition tail_walk_char :: "Tail \<Rightarrow> TrieIndex \<Rightarrow> int \<Rightarrow> TrieChar \<Rightarrow> (bool \<times> int) option" where
  "tail_walk_char t s suffix_idx c =
     do {
       sfx \<leftarrow> tail_get_suffix t s;
       case sfx of
         None \<Rightarrow> Some (False, suffix_idx)
       | Some p \<Rightarrow>
           do {
             suffix_char \<leftarrow> arr_get p suffix_idx;
             if suffix_char = c
             then Some (True, if suffix_char \<noteq> 0 then short_inc suffix_idx else suffix_idx)
             else Some (False, suffix_idx)
           }
     }"

text \<open>The macro \<open>tail_is_walkable_char\<close> of \<open>src/server/tail.h\<close> does not test for NULL.\<close>

definition tail_is_walkable_char :: "Tail \<Rightarrow> TrieIndex \<Rightarrow> int \<Rightarrow> TrieChar \<Rightarrow> bool option" where
  "tail_is_walkable_char t s suffix_idx c =
     do {
       sfx \<leftarrow> tail_get_suffix t s;
       p \<leftarrow> sfx;
       ch \<leftarrow> arr_get p suffix_idx;
       Some (ch = c)
     }"

section \<open>Files\<close>

text \<open>
  The length of a suffix is written as an \<open>int16\<close>, the low 16 bits of \<open>strlen\<close>; a NULL suffix
  has length 0. Reading a negative length writes before the buffer it allocates.
\<close>

definition suffix_length :: "TailBlock \<Rightarrow> int option" where
  "suffix_length b = (case suffix b of None \<Rightarrow> Some 0
     | Some p \<Rightarrow> map_option (\<lambda>n. sint (word_of_nat n :: 16 word)) (c_strlen p))"

definition suffix_chars :: "TailBlock \<Rightarrow> TrieChar list" where
  "suffix_chars b = (case suffix b of None \<Rightarrow> [] | Some p \<Rightarrow> p)"

definition write_block :: "TailBlock \<Rightarrow> FILE \<Rightarrow> (bool \<times> FILE) option" where
  "write_block b f =
     (case write_seq (file_write_int32 (next_free b)) (file_write_int32 (tdata b)) f of
        (False, f') \<Rightarrow> Some (False, f')
      | (True, f') \<Rightarrow>
          do {
            length \<leftarrow> suffix_length b;
            Some (write_seq (file_write_int16 length)
              (\<lambda>f. if length > 0 then file_write_chars (take (nat length) (suffix_chars b)) f
                   else (True, f)) f')
          })"

fun write_blocks :: "TailBlock list \<Rightarrow> nat \<Rightarrow> int \<Rightarrow> FILE \<Rightarrow> (bool \<times> FILE) option" where
  "write_blocks bs 0 i f = Some (True, f)"
| "write_blocks bs (Suc n) i f =
     do {
       b \<leftarrow> arr_get bs i;
       (ok, f') \<leftarrow> write_block b f;
       if ok then write_blocks bs n (i + 1) f' else Some (False, f')
     }"

definition tail_fwrite :: "Tail \<Rightarrow> FILE \<Rightarrow> (int \<times> FILE) option" where
  "tail_fwrite t f =
     (case write_seq (file_write_int32 (sint TAIL_SIGNATURE))
        (write_seq (file_write_int32 (first_free t)) (file_write_int32 (num_tails t))) f of
        (False, f') \<Rightarrow> Some (- 1, f')
      | (True, f') \<Rightarrow>
          do {
            (ok, f'') \<leftarrow> write_blocks (tails t) (nat (num_tails t)) 0 f';
            Some (if ok then 0 else - 1, f'')
          })"

definition read_suffix :: "int \<Rightarrow> FILE \<Rightarrow> (TrieChar list option \<times> FILE) option" where
  "read_suffix len f =
     (if len < 0 then None
      else if len > 0
      then (case file_read_chars (nat len) f of
              (None, f') \<Rightarrow> Some (None, f')
            | (Some cs, f') \<Rightarrow> Some (Some (cs @ [0]), f'))
      else Some (Some [0], f))"

definition read_block :: "FILE \<Rightarrow> (TailBlock option \<times> FILE) option" where
  "read_block =
     read_seq (\<lambda>f. Some (file_read_int32 f)) (\<lambda>nf.
     read_seq (\<lambda>f. Some (file_read_int32 f)) (\<lambda>d.
     read_seq (\<lambda>f. Some (file_read_int16 f)) (\<lambda>len.
     read_seq (read_suffix len) (\<lambda>s f.
       Some (Some \<lparr>next_free = nf, tdata = d, suffix = Some s\<rparr>, f)))))"

text \<open>A negative count exceeds the bound as a \<open>size_t\<close>. A failed load moves the file back.\<close>

definition read_tails :: "TrieIndex \<Rightarrow> TrieIndex \<Rightarrow> FILE \<Rightarrow> (Tail option \<times> FILE) option" where
  "read_tails ff n f =
     (if n < 0 then Some (None, f)
      else read_seq (read_each read_block (nat n)) (\<lambda>bs f.
        Some (Some \<lparr>num_tails = n, tails = bs, first_free = ff\<rparr>, f)) f)"

definition tail_fread :: "FILE \<Rightarrow> (Tail option \<times> FILE) option" where
  "tail_fread f =
     do {
       (res, f') \<leftarrow>
         read_seq (\<lambda>f. Some (file_read_int32 f)) (\<lambda>sig.
           if TAIL_SIGNATURE \<noteq> word_of_int sig then (\<lambda>f. Some (None, f))
           else read_seq (\<lambda>f. Some (file_read_int32 f)) (\<lambda>ff.
                read_seq (\<lambda>f. Some (file_read_int32 f)) (\<lambda>n. read_tails ff n))) f;
       case res of None \<Rightarrow> Some (None, fseek_set (fpos f) f') | Some t \<Rightarrow> Some (Some t, f')
     }"

section \<open>The invariant, and what the store holds\<close>

text \<open>
  The free list is an increasing chain of links through the array. A block is live when its link is
  \<open>-1\<close>; \<open>tail_entries\<close> is the abstract contents of the store, a map from live indices to a suffix
  and its data.
\<close>


fun chain_seg :: "TailBlock list \<Rightarrow> TrieIndex \<Rightarrow> TrieIndex list \<Rightarrow> TrieIndex \<Rightarrow> bool" where
  "chain_seg bs i [] e \<longleftrightarrow> i = e"
| "chain_seg bs i (f # fs) e \<longleftrightarrow>
     i = f \<and> 0 < f \<and> f < int (length bs) \<and> 0 \<le> next_free (bs ! nat f) \<and>
     chain_seg bs (next_free (bs ! nat f)) fs e"

definition tail_live :: "Tail \<Rightarrow> TrieIndex \<Rightarrow> bool" where
  "tail_live t i \<longleftrightarrow> 1 \<le> i \<and> i \<le> num_tails t \<and> next_free (tails t ! nat (i - 1)) = - 1"

definition tail_ok :: "Tail \<Rightarrow> bool" where
  "tail_ok t \<longleftrightarrow> num_tails t = int (length (tails t)) \<and> is_int32 (num_tails t) \<and>
     (\<forall>b\<in>set (tails t). - 1 \<le> next_free b) \<and>
     (\<exists>fs. sorted_wrt (<) fs \<and> chain_seg (tails t) (first_free t) fs 0)"

definition tail_entries :: "Tail \<Rightarrow> TrieIndex \<Rightarrow> (TrieChar list option \<times> TrieData) option" where
  "tail_entries t i = (if tail_live t i
     then Some (suffix (tails t ! nat (i - 1)), tdata (tails t ! nat (i - 1))) else None)"

lemma chain_seg_append:
  "chain_seg bs i (xs @ ys) e \<longleftrightarrow> (\<exists>m. chain_seg bs i xs m \<and> chain_seg bs m ys e)"
  by (induction xs arbitrary: i) auto

lemma chain_seg_in: "chain_seg bs i fs e \<Longrightarrow> f \<in> set fs \<Longrightarrow>
    0 < f \<and> f < int (length bs) \<and> 0 \<le> next_free (bs ! nat f)"
  by (induction fs arbitrary: i) auto

lemma chain_seg_cong:
  "\<forall>f\<in>set fs. 0 < f \<longrightarrow> f < int (length bs) \<longrightarrow> f < int (length bs') \<and> next_free (bs' ! nat f) = next_free (bs ! nat f)
   \<Longrightarrow> chain_seg bs i fs e \<Longrightarrow> chain_seg bs' i fs e"
  by (induction fs arbitrary: i) auto

lemma chain_seg_0: "chain_seg bs 0 fs e \<Longrightarrow> fs = []"
  by (cases fs) auto

lemma tail_live_index: "tail_ok t \<Longrightarrow> tail_live t i \<Longrightarrow> 0 \<le> i - 1 \<and> i - 1 < int (length (tails t)) \<and> i - 1 < num_tails t"
  by (auto simp: tail_ok_def tail_live_def)

lemma tail_get_suffix_live [accessors]:
  "tail_ok t \<Longrightarrow> tail_entries t i = Some (s, d) \<Longrightarrow> tail_get_suffix t i = Some s"
  using tail_live_index [of t i]
  by (auto simp: tail_entries_def tail_get_suffix_def TAIL_START_BLOCKNO_def accessors split: if_splits)

lemma tail_get_data_live [accessors]:
  "tail_ok t \<Longrightarrow> tail_entries t i = Some (s, d) \<Longrightarrow> tail_get_data t i = Some d"
  using tail_live_index [of t i]
  by (auto simp: tail_entries_def tail_get_data_def TAIL_START_BLOCKNO_def accessors split: if_splits)

text \<open>Overwriting a block without touching its link keeps the free list and the other blocks.\<close>

lemma tail_write_block:
  assumes ok: "tail_ok t" and b: "0 \<le> k" "k < int (length (tails t))"
    and nf: "next_free b = next_free (tails t ! nat k)"
  shows "tail_ok (t\<lparr>tails := (tails t)[nat k := b]\<rparr>)"
    and "tail_entries (t\<lparr>tails := (tails t)[nat k := b]\<rparr>) =
       (if tail_live t (k + 1) then (tail_entries t)(k + 1 \<mapsto> (suffix b, tdata b)) else tail_entries t)"
proof -
  have k: "nat k < length (tails t)" using b by simp
  have same: "next_free ((tails t)[nat k := b] ! i) = next_free (tails t ! i)" for i
    using nf k by (cases "i = nat k") auto
  obtain fs where fs: "sorted_wrt (<) fs" "chain_seg (tails t) (first_free t) fs 0"
    using ok by (auto simp: tail_ok_def)
  have "chain_seg ((tails t)[nat k := b]) (first_free t) fs 0"
    by (rule chain_seg_cong [OF _ fs(2)]) (simp add: same)
  moreover have "\<forall>b'\<in>set ((tails t)[nat k := b]). - 1 \<le> next_free b'"
    using ok nf k by (auto simp: tail_ok_def dest!: subsetD [OF set_update_subset_insert])
  ultimately show "tail_ok (t\<lparr>tails := (tails t)[nat k := b]\<rparr>)"
    using ok fs(1) by (auto simp: tail_ok_def)
  show "tail_entries (t\<lparr>tails := (tails t)[nat k := b]\<rparr>) =
       (if tail_live t (k + 1) then (tail_entries t)(k + 1 \<mapsto> (suffix b, tdata b)) else tail_entries t)"
  proof
    fix i
    show "tail_entries (t\<lparr>tails := (tails t)[nat k := b]\<rparr>) i =
       (if tail_live t (k + 1) then (tail_entries t)(k + 1 \<mapsto> (suffix b, tdata b)) else tail_entries t) i"
    proof (cases "i = k + 1")
      case True
      then show ?thesis using nf k b by (auto simp: tail_entries_def tail_live_def)
    next
      case False
      then have "1 \<le> i \<Longrightarrow> nat (i - 1) \<noteq> nat k" using b by auto
      with False same show ?thesis by (auto simp: tail_entries_def tail_live_def)
    qed
  qed
qed

lemma tail_set_suffix_live:
  assumes "tail_ok t" and "tail_entries t i = Some (s, d)" and "0 \<notin> set k"
  shows "\<exists>t'. tail_set_suffix t i (Some (k @ 0 # r)) = Some (True, t') \<and> tail_ok t' \<and>
           tail_entries t' = (tail_entries t)(i \<mapsto> (Some (k @ [0]), d)) \<and> num_tails t' = num_tails t"
proof -
  have l: "tail_live t i" and d: "d = tdata (tails t ! nat (i - 1))"
    using assms(2) by (auto simp: tail_entries_def split: if_splits)
  note ix = tail_live_index [OF assms(1) l]
  let ?b = "(tails t ! nat (i - 1))\<lparr>suffix := Some (k @ [0])\<rparr>"
  let ?t = "t\<lparr>tails := (tails t)[nat (i - 1) := ?b]\<rparr>"
  have "tail_set_suffix t i (Some (k @ 0 # r)) = Some (True, ?t)"
    using ix assms(3) by (simp add: tail_set_suffix_def TAIL_START_BLOCKNO_def dup_suffix_def accessors Let_def)
  then show ?thesis
    using tail_write_block [OF assms(1), of "i - 1" ?b] ix l d by auto
qed

lemma tail_set_data_live:
  assumes "tail_ok t" and "tail_entries t i = Some (s, d)"
  shows "\<exists>t'. tail_set_data t i v = Some (True, t') \<and> tail_ok t' \<and>
           tail_entries t' = (tail_entries t)(i \<mapsto> (s, v)) \<and> num_tails t' = num_tails t"
proof -
  have l: "tail_live t i" and s: "s = suffix (tails t ! nat (i - 1))"
    using assms(2) by (auto simp: tail_entries_def split: if_splits)
  note ix = tail_live_index [OF assms(1) l]
  let ?b = "(tails t ! nat (i - 1))\<lparr>tdata := v\<rparr>"
  let ?t = "t\<lparr>tails := (tails t)[nat (i - 1) := ?b]\<rparr>"
  have "tail_set_data t i v = Some (True, ?t)"
    using ix by (simp add: tail_set_data_def TAIL_START_BLOCKNO_def accessors Let_def)
  then show ?thesis
    using tail_write_block [OF assms(1), of "i - 1" ?b] ix l s by auto
qed


lemma tail_alloc_block_ok:
  assumes ok: "tail_ok t" and room: "num_tails t < INT32_MAX"
  shows "\<exists>i t'. tail_alloc_block t = Some (i, t') \<and> tail_ok t' \<and> tail_entries t i = None \<and> 1 \<le> i \<and>
           tail_entries t' = (tail_entries t)(i \<mapsto> (None, TRIE_DATA_ERROR)) \<and>
           num_tails t' \<le> num_tails t + 1"
proof -
  obtain fs where fs: "sorted_wrt (<) fs" "chain_seg (tails t) (first_free t) fs 0"
    using ok by (auto simp: tail_ok_def)
  have n: "num_tails t = int (length (tails t))" "is_int32 (num_tails t)"
    and links: "\<forall>b\<in>set (tails t). - 1 \<le> next_free b"
    using ok by (auto simp: tail_ok_def)
  show ?thesis
  proof (cases "first_free t = 0")
    case True
    let ?t = "t\<lparr>tails := tails t @ [fresh_block], num_tails := num_tails t + 1\<rparr>"
    have "is_int32 (num_tails t + 1)" using n room by (simp add: int32_limits)
    then have "tail_alloc_block t = Some (num_tails t + 1, ?t)"
      using True by (simp add: tail_alloc_block_def accessors TAIL_START_BLOCKNO_def)
    moreover have "tail_ok ?t"
      using n links \<open>is_int32 (num_tails t + 1)\<close> True
      by (auto simp: tail_ok_def fresh_block_def intro: exI [of _ "[]"])
    moreover have "tail_entries ?t = (tail_entries t)(num_tails t + 1 \<mapsto> (None, TRIE_DATA_ERROR))"
    proof
      fix i
      show "tail_entries ?t i = ((tail_entries t)(num_tails t + 1 \<mapsto> (None, TRIE_DATA_ERROR))) i"
      proof (cases "1 \<le> i \<and> i \<le> num_tails t")
        case True
        then have "nat (i - 1) < length (tails t)" using n by auto
        with True n show ?thesis by (auto simp: tail_entries_def tail_live_def nth_append)
      next
        case False
        then show ?thesis using n
          by (auto simp: tail_entries_def tail_live_def nth_append fresh_block_def)
      qed
    qed
    moreover have "tail_entries t (num_tails t + 1) = None" "1 \<le> num_tails t + 1"
      using n by (auto simp: tail_entries_def tail_live_def)
    ultimately show ?thesis by (intro exI [of _ "num_tails t + 1"] exI [of _ ?t]) auto
  next
    case False
    then obtain fs' where fs': "fs = first_free t # fs'" using fs by (cases fs) auto
    let ?f = "first_free t"
    let ?b = "tails t ! nat ?f"
    have f: "0 < ?f" "?f < int (length (tails t))" "0 \<le> next_free ?b"
      and seg: "chain_seg (tails t) (next_free ?b) fs' 0"
      using fs(2) unfolding fs' by auto
    let ?t = "t\<lparr>tails := (tails t)[nat ?f := fresh_block], first_free := next_free ?b\<rparr>"
    have "tail_alloc_block t = Some (?f + 1, ?t)"
      using False f by (simp add: tail_alloc_block_def accessors TAIL_START_BLOCKNO_def)
    moreover have "tail_ok ?t"
    proof -
      have notin: "?f \<notin> set fs'" using fs(1) unfolding fs' by auto
      have "chain_seg ((tails t)[nat ?f := fresh_block]) (next_free ?b) fs' 0"
      proof (rule chain_seg_cong [OF _ seg], intro ballI impI conjI)
        fix g
        assume g: "g \<in> set fs'" "0 < g" "g < int (length (tails t))"
        then have "nat ?f \<noteq> nat g" using notin f by (auto simp: nat_eq_iff2)
        then show "next_free ((tails t)[nat ?f := fresh_block] ! nat g) = next_free (tails t ! nat g)"
          by simp
      qed simp
      moreover have "sorted_wrt (<) fs'" using fs(1) unfolding fs' by simp
      moreover have "\<forall>b\<in>set ((tails t)[nat ?f := fresh_block]). - 1 \<le> next_free b"
        using links by (auto simp: fresh_block_def dest!: subsetD [OF set_update_subset_insert])
      ultimately show ?thesis using n by (auto simp: tail_ok_def)
    qed
    moreover have "tail_entries ?t = (tail_entries t)(?f + 1 \<mapsto> (None, TRIE_DATA_ERROR))"
    proof
      fix i
      show "tail_entries ?t i = ((tail_entries t)(?f + 1 \<mapsto> (None, TRIE_DATA_ERROR))) i"
      proof (cases "i = ?f + 1")
        case True
        then show ?thesis using f n by (auto simp: tail_entries_def tail_live_def fresh_block_def)
      next
        case False
        then have "1 \<le> i \<Longrightarrow> nat (i - 1) \<noteq> nat ?f" using f by auto
        with False show ?thesis by (auto simp: tail_entries_def tail_live_def)
      qed
    qed
    moreover have "tail_entries t (?f + 1) = None"
      using f by (auto simp: tail_entries_def tail_live_def)
    ultimately show ?thesis using f by (intro exI [of _ "?f + 1"] exI [of _ ?t]) auto
  qed
qed

lemma tail_add_suffix_ok:
  assumes ok: "tail_ok t" and room: "num_tails t < INT32_MAX" and k: "0 \<notin> set k"
  shows "\<exists>i t'. tail_add_suffix t (Some (k @ 0 # r)) = Some (i, t') \<and> tail_ok t' \<and>
           tail_entries t i = None \<and> 1 \<le> i \<and>
           tail_entries t' = (tail_entries t)(i \<mapsto> (Some (k @ [0]), TRIE_DATA_ERROR)) \<and>
           num_tails t' \<le> num_tails t + 1"
proof -
  obtain i t1 where 1: "tail_alloc_block t = Some (i, t1)" "tail_ok t1" "tail_entries t i = None" "1 \<le> i"
     "tail_entries t1 = (tail_entries t)(i \<mapsto> (None, TRIE_DATA_ERROR))" "num_tails t1 \<le> num_tails t + 1"
    using tail_alloc_block_ok [OF ok room] by blast
  then have "tail_entries t1 i = Some (None, TRIE_DATA_ERROR)" by simp
  from tail_set_suffix_live [OF 1(2) this k, of r] obtain t2 where
    "tail_set_suffix t1 i (Some (k @ 0 # r)) = Some (True, t2)" "tail_ok t2"
    "tail_entries t2 = (tail_entries t1)(i \<mapsto> (Some (k @ [0]), TRIE_DATA_ERROR))" "num_tails t2 = num_tails t1"
    by blast
  with 1 show ?thesis by (auto simp: tail_add_suffix_def)
qed

text \<open>The search for the insertion point splits the free list.\<close>

lemma find_insertion_split:
  assumes "chain_seg bs i fs 0" and "sorted_wrt (<) fs"
  shows "\<exists>pre post. fs = pre @ post \<and> (\<forall>f\<in>set pre. f < block) \<and> (\<forall>f\<in>set post. block \<le> f) \<and>
    find_insertion bs block j i = Some (last (j # pre), if post = [] then 0 else hd post)"
  using assms
proof (induction fs arbitrary: i j)
  case Nil
  then show ?case by (subst find_insertion.simps) auto
next
  case (Cons f fs)
  then have i: "i = f" "0 < f" "f < int (length bs)" and seg: "chain_seg bs (next_free (bs ! nat f)) fs 0"
    and srt: "sorted_wrt (<) fs" "\<forall>g\<in>set fs. f < g"
    by auto
  show ?case
  proof (cases "f < block")
    case True
    from Cons.IH [OF seg srt(1), of f] obtain pre post where
      p: "fs = pre @ post" "\<forall>f\<in>set pre. f < block" "\<forall>f\<in>set post. block \<le> f"
      "find_insertion bs block f (next_free (bs ! nat f)) = Some (last (f # pre), if post = [] then 0 else hd post)"
      by blast
    have "find_insertion bs block j i = find_insertion bs block f (next_free (bs ! nat f))"
      using True i by (subst find_insertion.simps) (simp add: accessors)
    with p True show ?thesis by (intro exI [of _ "f # pre"] exI [of _ post]) auto
  next
    case False
    have "find_insertion bs block j i = Some (j, i)"
      using False i by (subst find_insertion.simps) simp
    with False i srt show ?thesis by (intro exI [of _ "[]"] exI [of _ "f # fs"]) auto
  qed
qed

lemma arr_upd2: "i \<noteq> j \<Longrightarrow> 0 \<le> i \<Longrightarrow> 0 \<le> j \<Longrightarrow> xs[nat i := a] ! nat j = xs ! nat j"
  by (auto simp: nat_eq_iff2)

text \<open>Freeing a block links it into the chain after \<open>pre\<close>.\<close>

lemma chain_seg_relink:
  assumes pre: "chain_seg bs i pre m" and d: "distinct (pre @ post)"
    and b: "0 < blk" "blk < int (length bs)" "blk \<notin> set pre" "blk \<notin> set post"
    and post: "chain_seg bs m post 0"
    and ts1: "ts1 = bs[nat blk := (bs ! nat blk)\<lparr>next_free := m\<rparr>]"
    and ne: "pre \<noteq> []"
  shows "chain_seg (ts1[nat (last pre) := (ts1 ! nat (last pre))\<lparr>next_free := blk\<rparr>]) i (pre @ blk # post) 0"
proof -
  obtain pre' j where p: "pre = pre' @ [j]" using ne by (cases pre rule: rev_cases) auto
  then have c1: "chain_seg bs i pre' j" and j: "0 < j" "j < int (length bs)"
    using pre by (auto simp: chain_seg_append)
  have m: "0 \<le> m" using pre p by (auto simp: chain_seg_append)
  let ?ts = "ts1[nat j := (ts1 ! nat j)\<lparr>next_free := blk\<rparr>]"
  have jb: "j \<noteq> blk" using b p by auto
  have "chain_seg ?ts i pre' j"
  proof (rule chain_seg_cong [OF _ c1], intro ballI impI conjI)
    fix f assume "f \<in> set pre'" "0 < f" "f < int (length bs)"
    moreover from this have "f \<noteq> j" "f \<noteq> blk" using d p b by auto
    ultimately show "next_free (?ts ! nat f) = next_free (bs ! nat f)"
      using j b by (simp add: ts1 arr_upd2)
  qed (simp add: ts1)
  moreover have "chain_seg ?ts m post 0"
  proof (rule chain_seg_cong [OF _ post], intro ballI impI conjI)
    fix f assume "f \<in> set post" "0 < f" "f < int (length bs)"
    moreover from this have "f \<noteq> j" "f \<noteq> blk" using d p b by auto
    ultimately show "next_free (?ts ! nat f) = next_free (bs ! nat f)"
      using j b by (simp add: ts1 arr_upd2)
  qed (simp add: ts1)
  moreover have "next_free (?ts ! nat j) = blk" using j b by (simp add: ts1)
  moreover have "next_free (?ts ! nat blk) = m" using j b jb by (simp add: ts1 arr_upd2)
  ultimately show ?thesis using p j b m by (auto simp: chain_seg_append ts1)
qed

lemma tail_delete_ok:
  assumes ok: "tail_ok t" and live: "tail_live t i"
  shows "\<exists>t'. tail_delete t i = Some t' \<and> tail_ok t' \<and> tail_entries t' = (tail_entries t)(i := None) \<and>
           num_tails t' = num_tails t"
proof -
  obtain fs where fs: "sorted_wrt (<) fs" "chain_seg (tails t) (first_free t) fs 0"
    using ok by (auto simp: tail_ok_def)
  have n: "num_tails t = int (length (tails t))" "is_int32 (num_tails t)"
    and links: "\<forall>b\<in>set (tails t). - 1 \<le> next_free b"
    using ok by (auto simp: tail_ok_def)
  let ?k = "i - 1"
  note ix = tail_live_index [OF ok live]
  have nf: "next_free (tails t ! nat ?k) = - 1" using live by (simp add: tail_live_def)
  define ts where "ts = (tails t)[nat ?k := (tails t ! nat ?k)\<lparr>tdata := TRIE_DATA_ERROR, suffix := None\<rparr>]"
  have len: "length ts = length (tails t)" by (simp add: ts_def)
  have nfs: "next_free (ts ! j) = next_free (tails t ! j)" for j
    using ix by (cases "j = nat ?k") (auto simp: ts_def)
  have lts: "\<forall>b\<in>set ts. - 1 \<le> next_free b"
    using links nfs len by (metis in_set_conv_nth)
  have seg: "chain_seg ts (first_free t) fs 0"
    by (rule chain_seg_cong [OF _ fs(2)]) (simp add: nfs len)
  have kfs: "?k \<notin> set fs" using chain_seg_in [OF fs(2), of ?k] nf by auto
  from find_insertion_split [OF seg fs(1), of ?k 0] obtain pre post where
    p: "fs = pre @ post" "\<forall>f\<in>set pre. f < ?k" "\<forall>f\<in>set post. ?k \<le> f" and
    find: "find_insertion ts ?k 0 (first_free t) = Some (last (0 # pre), if post = [] then 0 else hd post)"
    by blast
  let ?m = "if post = [] then 0 else hd post :: int"
  obtain m where m: "chain_seg ts (first_free t) pre m" "chain_seg ts m post 0"
    using seg p by (auto simp: chain_seg_append)
  have mm: "m = ?m" using m(2) by (cases post) auto
  have m0: "0 \<le> m" using chain_seg_in [OF m(2)] mm by (cases post) (auto intro: less_imp_le)
  define ts1 where "ts1 = ts[nat ?k := (ts ! nat ?k)\<lparr>next_free := m\<rparr>]"
  have len1: "length ts1 = length (tails t)" by (simp add: ts1_def len)
  have kl: "nat ?k < length ts" using ix len by auto
  have upd: "(tails t)[nat ?k := (ts ! nat ?k)\<lparr>next_free := y\<rparr>] = ts[nat ?k := (ts ! nat ?k)\<lparr>next_free := y\<rparr>]" for y
    by (simp add: ts_def)
  show ?thesis
  proof (cases "pre = []")
    case True
    let ?t = "t\<lparr>tails := ts1, first_free := ?k\<rparr>"
    have "tail_delete t i = Some ?t"
      using ix n find True by (simp add: tail_delete_def tail_free_block_def TAIL_START_BLOCKNO_def
        Let_def accessors ts_def [symmetric] ts1_def len mm upd)
    moreover have "tail_ok ?t"
    proof -
      have post: "chain_seg ts1 m post 0"
      proof (rule chain_seg_cong [OF _ m(2)], intro ballI impI conjI)
        fix f assume "f \<in> set post" "0 < f" "f < int (length ts)"
        moreover from this have "f \<noteq> ?k" using kfs p by auto
        ultimately show "next_free (ts1 ! nat f) = next_free (ts ! nat f)"
          using ix by (simp add: ts1_def arr_upd2)
      qed (simp add: ts1_def)
      have "\<exists>gs. sorted_wrt (<) gs \<and> chain_seg ts1 ?k gs 0"
      proof (cases "?k = 0")
        case False
        have "chain_seg ts1 ?k (?k # post) 0"
          using post ix False n m0 len1 kl by (simp add: ts1_def)
        moreover have "sorted_wrt (<) (?k # post)" using fs(1) p kfs True
          by (auto simp: le_less)
        ultimately show ?thesis by blast
      qed (auto intro: exI [of _ "[]"])
      moreover have "\<forall>b\<in>set ts1. - 1 \<le> next_free b"
        using lts m0 by (auto simp: ts1_def dest!: subsetD [OF set_update_subset_insert])
      ultimately show ?thesis using n len1 by (simp add: tail_ok_def)
    qed
    moreover have "tail_entries ?t = (tail_entries t)(i := None)"
    proof
      fix j
      show "tail_entries ?t j = ((tail_entries t)(i := None)) j"
      proof (cases "j = i")
        case True
        then show ?thesis using ix n m0 len by (auto simp: tail_entries_def tail_live_def ts1_def)
      next
        case False
        then have "1 \<le> j \<Longrightarrow> ts1 ! nat (j - 1) = tails t ! nat (j - 1)"
          using ix by (simp add: ts1_def ts_def arr_upd2)
        with False show ?thesis by (auto simp: tail_entries_def tail_live_def)
      qed
    qed
    ultimately show ?thesis by auto
  next
    case False
    let ?j = "last pre"
    have jin: "?j \<in> set pre" using False by simp
    then have j: "0 < ?j" "?j < int (length ts)" "0 \<le> next_free (ts ! nat ?j)" "?j < ?k"
      using chain_seg_in [OF m(1)] p by auto
    define ts2 where "ts2 = ts1[nat ?j := (ts1 ! nat ?j)\<lparr>next_free := ?k\<rparr>]"
    let ?t = "t\<lparr>tails := ts2\<rparr>"
    have "tail_delete t i = Some ?t"
      using ix n find [unfolded ts_def] False j
      by (simp add: tail_delete_def tail_free_block_def TAIL_START_BLOCKNO_def
          Let_def accessors ts_def ts1_def ts2_def mm [symmetric] arr_upd2)
    moreover have "tail_ok ?t"
    proof -
      have "distinct (pre @ post)" using fs(1) p by (simp add: strict_sorted_iff)
      then have "chain_seg ts2 (first_free t) (pre @ ?k # post) 0"
        unfolding ts2_def using ix n j kfs p len
        by (intro chain_seg_relink [OF m(1) _ _ _ _ _ m(2) ts1_def False]) auto
      moreover have "sorted_wrt (<) (pre @ ?k # post)" using fs(1) p kfs
        by (auto simp: sorted_wrt_append le_less)
      moreover have "\<forall>b\<in>set ts1. - 1 \<le> next_free b"
        using lts m0 by (auto simp: ts1_def dest!: subsetD [OF set_update_subset_insert])
      then have "\<forall>b\<in>set ts2. - 1 \<le> next_free b"
        using ix by (auto simp: ts2_def dest!: subsetD [OF set_update_subset_insert])
      ultimately show ?thesis using n len1 by (auto simp: tail_ok_def ts2_def)
    qed
    moreover have "tail_entries ?t = (tail_entries t)(i := None)"
    proof
      fix x
      show "tail_entries ?t x = ((tail_entries t)(i := None)) x"
      proof (cases "x = i")
        case True
        then show ?thesis using ix n m0 len j by (auto simp: tail_entries_def tail_live_def ts1_def ts2_def arr_upd2)
      next
        case False
        have "1 \<le> x \<Longrightarrow> next_free (ts2 ! nat (x - 1)) = -1 \<longleftrightarrow> next_free (tails t ! nat (x - 1)) = - 1"
          using ix j False nfs by (cases "x - 1 = ?j") (auto simp: ts2_def ts1_def arr_upd2)
        moreover have "1 \<le> x \<Longrightarrow> suffix (ts2 ! nat (x - 1)) = suffix (tails t ! nat (x - 1)) \<and>
            tdata (ts2 ! nat (x - 1)) = tdata (tails t ! nat (x - 1))"
          using ix j False by (cases "x - 1 = ?j") (auto simp: ts2_def ts1_def ts_def arr_upd2)
        ultimately show ?thesis using False by (auto simp: tail_entries_def tail_live_def)
      qed
    qed
    ultimately show ?thesis by auto
  qed
qed

section \<open>Saving and loading\<close>

text \<open>
  A NULL suffix, which only free blocks have, is written like an empty one, so the file describes
  the store with every NULL replaced by the empty string.
\<close>

definition plain_block :: "TailBlock \<Rightarrow> TailBlock" where
  "plain_block b = b\<lparr>suffix := Some (case suffix b of None \<Rightarrow> [0] | Some p \<Rightarrow> p)\<rparr>"

definition plain_tail :: "Tail \<Rightarrow> Tail" where
  "plain_tail t = t\<lparr>tails := map plain_block (tails t)\<rparr>"

definition block_file_ok :: "TailBlock \<Rightarrow> bool" where
  "block_file_ok b \<longleftrightarrow> is_int32 (next_free b) \<and> is_int32 (tdata b) \<and>
     (case suffix b of None \<Rightarrow> False
      | Some p \<Rightarrow> p \<noteq> [] \<and> last p = 0 \<and> 0 \<notin> set (butlast p) \<and> length p \<le> 32768)"

definition enc_block :: "TailBlock \<Rightarrow> bytes" where
  "enc_block b = be32 (next_free b) @ be32 (tdata b)
     @ be16 (int (length (suffix_chars b)) - 1) @ butlast (suffix_chars b)"

lemma block_file_okE:
  assumes "block_file_ok b"
  obtains nf d k where "b = \<lparr>next_free = nf, tdata = d, suffix = Some (k @ [0])\<rparr>"
    and "is_int32 nf" "is_int32 d" "0 \<notin> set k" "length k \<le> 32767"
proof -
  obtain p where p: "suffix b = Some p" "p \<noteq> []" "last p = 0" "0 \<notin> set (butlast p)" "length p \<le> 32768"
    using assms by (auto simp: block_file_ok_def split: option.splits)
  then have "p = butlast p @ [0]" by (metis append_butlast_last_id)
  with p that [of "next_free b" "tdata b" "butlast p"] assms show thesis
    by (auto simp: block_file_ok_def)
qed

lemma suffix_length_16: "0 \<notin> set k \<Longrightarrow> length k \<le> 32767 \<Longrightarrow>
  suffix_length \<lparr>next_free = nf, tdata = d, suffix = Some (k @ [0])\<rparr> = Some (int (length k))"
  using sint_word16 [of "int (length k)"] by (simp add: suffix_length_def)

definition put_block :: "TailBlock \<Rightarrow> FILE \<Rightarrow> bool \<times> FILE" where
  "put_block b f = (case write_block b f of None \<Rightarrow> (False, f) | Some r \<Rightarrow> r)"

lemma appends_chars_nonempty:
  "appends (\<lambda>f. if int (length k) > 0 then file_write_chars k f else (True, f)) k"
  using write_chars_appends [of k] appends_nothing by (cases "k = []") auto

lemma read_suffix_consumes: "consumes (read_suffix (int (length k))) k (k @ [0])"
proof (cases "k = []")
  case True
  then show ?thesis using consumes_nothing [of "[0 :: TrieChar]"]
    by (simp add: read_suffix_def [abs_def])
next
  case False
  then show ?thesis using read_chars_consumes [of k]
    by (auto simp: consumes_def read_suffix_def)
qed

interpretation block_codec: file_codec put_block read_block enc_block block_file_ok
proof unfold_locales
  fix b
  assume "block_file_ok b"
  then obtain nf d k where b: "b = \<lparr>next_free = nf, tdata = d, suffix = Some (k @ [0])\<rparr>"
    and i: "is_int32 nf" "is_int32 d" and k: "0 \<notin> set k" "length k \<le> 32767" by (rule block_file_okE)
  let ?n = "int (length k)"
  note len = suffix_length_16 [OF k, of nf d]
  have n: "- 32768 \<le> ?n \<and> ?n \<le> 32767" using k by simp
  have enc: "enc_block b = be32 nf @ be32 d @ be16 ?n @ k"
    by (simp add: enc_block_def b suffix_chars_def)
  have "put_block b = write_seq (write_seq (file_write_int32 nf) (file_write_int32 d))
      (write_seq (file_write_int16 ?n) (\<lambda>f. if ?n > 0 then file_write_chars k f else (True, f)))"
    using len by (auto simp: fun_eq_iff put_block_def write_block_def b write_seq_def suffix_chars_def
        split: prod.splits bool.splits)
  moreover have "appends (write_seq (file_write_int16 ?n)
      (\<lambda>f. if ?n > 0 then file_write_chars k f else (True, f))) (be16 ?n @ k)"
    by (intro appends_seq int16_codec.put_appends n appends_chars_nonempty)
  moreover have "appends (write_seq (file_write_int32 nf) (file_write_int32 d)) (be32 nf @ be32 d)"
    by (intro appends_seq int32_codec.put_appends i)
  ultimately show "appends (put_block b) (enc_block b)"
    using appends_seq [of _ "be32 nf @ be32 d" _ "be16 ?n @ k"] by (simp add: enc)
  show "consumes read_block (enc_block b) b"
    unfolding read_block_def enc
    by (intro consumes_seq [OF int32_codec.get_consumes [OF i(1)]]
        consumes_seq [OF int32_codec.get_consumes [OF i(2)]]
        consumes_seq [OF int16_codec.get_consumes [OF n]]
        consumes_then [OF read_suffix_consumes, THEN back_subst [of "consumes _ _"]])
      (simp add: b)
qed

definition tail_file_ok :: "Tail \<Rightarrow> bool" where
  "tail_file_ok t \<longleftrightarrow> num_tails t = int (length (tails t)) \<and> is_int32 (num_tails t) \<and>
     is_int32 (first_free t) \<and> (\<forall>b\<in>set (tails t). block_file_ok b)"

definition enc_tail :: "Tail \<Rightarrow> bytes" where
  "enc_tail t = be32 (sint TAIL_SIGNATURE) @ be32 (first_free t) @ be32 (num_tails t)
     @ block_codec.enc_all (tails t)"

definition put_tail :: "Tail \<Rightarrow> FILE \<Rightarrow> bool \<times> FILE" where
  "put_tail t f = (case tail_fwrite t f of None \<Rightarrow> (False, f) | Some (r, f') \<Rightarrow> (r = 0, f'))"

lemma write_block_defined: "block_file_ok b \<Longrightarrow> write_block b f = Some (put_block b f)"
  by (elim block_file_okE)
    (auto simp: put_block_def write_block_def suffix_length_16 split: prod.splits bool.splits)

lemma write_blocks_each:
  "(\<forall>b\<in>set (drop k bs). block_file_ok b) \<Longrightarrow> k + n = length bs \<Longrightarrow>
   write_blocks bs n (int k) f = Some (write_each put_block (drop k bs) f)"
proof (induction n arbitrary: k f)
  case (Suc n)
  then have d: "drop k bs = bs ! k # drop (Suc k) bs" by (simp add: Cons_nth_drop_Suc)
  then have "block_file_ok (bs ! k)" using Suc.prems by simp
  moreover have "write_blocks bs n (1 + int k) f' = Some (write_each put_block (drop (Suc k) bs) f')" for f'
    using Suc.IH [of "Suc k" f'] Suc.prems d by simp
  ultimately show ?case
    using Suc.prems d by (auto simp: accessors write_block_defined add.commute split: prod.splits bool.splits)
qed simp

lemma put_tail_eq:
  assumes "tail_file_ok t"
  shows "put_tail t = write_seq (write_seq (file_write_int32 (sint TAIL_SIGNATURE))
    (write_seq (file_write_int32 (first_free t)) (file_write_int32 (num_tails t))))
    (write_each put_block (tails t))"
  using assms write_blocks_each [of 0 "tails t" "nat (num_tails t)"]
  by (auto simp: fun_eq_iff put_tail_def tail_fwrite_def tail_file_ok_def write_seq_def
      split: prod.splits bool.splits)

lemma tail_fwrite_defined: "tail_file_ok t \<Longrightarrow> \<exists>r f'. tail_fwrite t f = Some (r, f')"
  using write_blocks_each [of 0 "tails t" "nat (num_tails t)"]
  by (auto simp: tail_fwrite_def tail_file_ok_def split: prod.splits bool.splits)

lemma read_tails_consumes:
  assumes "tail_file_ok t"
  shows "consumes (read_tails (first_free t) (num_tails t)) (block_codec.enc_all (tails t)) t"
proof -
  have n: "num_tails t = int (length (tails t))" and b: "\<forall>b\<in>set (tails t). block_file_ok b"
    using assms by (auto simp: tail_file_ok_def)
  then have "read_tails (first_free t) (num_tails t) =
     read_seq (read_each read_block (length (tails t)))
       (\<lambda>bs f. Some (Some \<lparr>num_tails = num_tails t, tails = bs, first_free = first_free t\<rparr>, f))"
    by (auto simp: fun_eq_iff read_tails_def)
  then show ?thesis
    using consumes_then [OF block_codec.read_each_consumes [OF b],
        of "\<lambda>bs. \<lparr>num_tails = num_tails t, tails = bs, first_free = first_free t\<rparr>"]
    by (cases t) simp
qed

interpretation tail_codec: file_codec put_tail tail_fread enc_tail tail_file_ok
proof unfold_locales
  fix t
  assume ok: "tail_file_ok t"
  then have i: "is_int32 (first_free t)" "is_int32 (num_tails t)"
    and b: "\<forall>b\<in>set (tails t). block_file_ok b"
    by (auto simp: tail_file_ok_def)
  have s: "is_int32 (sint TAIL_SIGNATURE)" by (rule is_int32_sint)
  have "appends (put_tail t) ((be32 (sint TAIL_SIGNATURE) @ be32 (first_free t) @ be32 (num_tails t))
      @ block_codec.enc_all (tails t))"
    unfolding put_tail_eq [OF ok]
    by (intro appends_seq int32_codec.put_appends i s block_codec.write_each_appends b)
  then show "appends (put_tail t) (enc_tail t)" by (simp add: enc_tail_def)
  let ?get = "read_seq (\<lambda>f. Some (file_read_int32 f)) (\<lambda>sig.
           if TAIL_SIGNATURE \<noteq> word_of_int sig then (\<lambda>f. Some (None, f))
           else read_seq (\<lambda>f. Some (file_read_int32 f)) (\<lambda>ff.
                read_seq (\<lambda>f. Some (file_read_int32 f)) (\<lambda>n. read_tails ff n)))"
  have "consumes ?get (enc_tail t) t"
    unfolding enc_tail_def
  proof (rule consumes_seq [OF int32_codec.get_consumes [OF s]])
    show "consumes (if TAIL_SIGNATURE \<noteq> word_of_int (sint TAIL_SIGNATURE) then (\<lambda>f. Some (None, f))
           else read_seq (\<lambda>f. Some (file_read_int32 f)) (\<lambda>ff.
                read_seq (\<lambda>f. Some (file_read_int32 f)) (\<lambda>n. read_tails ff n)))
        (be32 (first_free t) @ be32 (num_tails t) @ block_codec.enc_all (tails t)) t"
      using read_tails_consumes [OF ok]
      by (simp add: consumes_seq [where x = "first_free t"] consumes_seq [where x = "num_tails t"]
          int32_codec.get_consumes i)
  qed
  then show "consumes tail_fread (enc_tail t) t"
    by (auto simp: consumes_def tail_fread_def)
qed

text \<open>The plain form of a store has the same live entries, and the same file.\<close>

lemma plain_tail_entries:
  assumes "tail_ok t" and "\<forall>i s d. tail_entries t i = Some (s, d) \<longrightarrow> s \<noteq> None"
  shows "tail_entries (plain_tail t) = tail_entries t"
proof
  fix i
  show "tail_entries (plain_tail t) i = tail_entries t i"
  proof (cases "1 \<le> i \<and> i \<le> num_tails t")
    case True
    then have "nat (i - 1) < length (tails t)" using assms(1) by (auto simp: tail_ok_def)
    moreover have "tail_live t i \<Longrightarrow> suffix (tails t ! nat (i - 1)) \<noteq> None"
      using assms(2) [rule_format, of i] by (simp add: tail_entries_def)
    ultimately show ?thesis using True
      by (auto simp: tail_entries_def tail_live_def plain_tail_def plain_block_def split: option.splits)
  next
    case False
    then show ?thesis by (auto simp: tail_entries_def tail_live_def plain_tail_def)
  qed
qed

lemma plain_tail_ok: "tail_ok t \<Longrightarrow> tail_ok (plain_tail t)"
proof -
  assume ok: "tail_ok t"
  obtain fs where fs: "sorted_wrt (<) fs" "chain_seg (tails t) (first_free t) fs 0"
    using ok by (auto simp: tail_ok_def)
  have "chain_seg (map plain_block (tails t)) (first_free t) fs 0"
    by (rule chain_seg_cong [OF _ fs(2)]) (auto simp: plain_block_def nat_less_iff)
  with ok fs(1) show ?thesis by (auto simp: tail_ok_def plain_tail_def plain_block_def)
qed

lemma write_block_plain:
  "write_block (plain_block b) f = write_block b f"
proof (cases "suffix b")
  case None
  then show ?thesis
    by (auto simp: write_block_def plain_block_def suffix_length_def suffix_chars_def c_strlen_def
        c_str_def split: prod.splits bool.splits)
next
  case (Some p)
  then have "plain_block b = b" by (cases b) (simp add: plain_block_def)
  then show ?thesis by simp
qed

lemma write_blocks_plain:
  "0 \<le> i \<Longrightarrow> write_blocks (map plain_block bs) n i f = write_blocks bs n i f"
proof (induction n arbitrary: i f)
  case (Suc n)
  show ?case
  proof (cases "i < int (length bs)")
    case True
    with Suc show ?thesis
      by (cases "write_block (bs ! nat i) f")
        (auto simp: accessors nat_less_iff write_block_plain split: prod.splits)
  next
    case False
    then show ?thesis by (simp add: arr_get_def)
  qed
qed simp

lemma tail_fwrite_plain: "tail_fwrite (plain_tail t) f = tail_fwrite t f"
proof -
  have "tails (plain_tail t) = map plain_block (tails t)" "num_tails (plain_tail t) = num_tails t"
    "first_free (plain_tail t) = first_free t" by (simp_all add: plain_tail_def)
  then show ?thesis unfolding tail_fwrite_def by (simp only: write_blocks_plain order_refl)
qed

section \<open>Walking a live suffix\<close>

lemma tail_walk_char_live:
  assumes "tail_ok t" and "tail_entries t s = Some (Some (k @ [0]), d)"
    and "0 \<le> j" "j \<le> int (length k)" and "length k \<le> 32767"
  shows "tail_walk_char t s j c =
     (let x = (k @ [0]) ! nat j in Some (x = c, if x = c \<and> x \<noteq> 0 then j + 1 else j))"
proof -
  have "(k @ [0]) ! nat j \<noteq> 0 \<Longrightarrow> j < int (length k)"
    using assms(3,4) by (cases "j = int (length k)") (auto simp: nth_append)
  then show ?thesis
    using assms by (auto simp: tail_walk_char_def accessors short_inc_def Let_def)
qed

lemma tail_is_walkable_char_live:
  assumes "tail_ok t" and "tail_entries t s = Some (Some (k @ [0]), d)" and "0 \<le> j" "j \<le> int (length k)"
  shows "tail_is_walkable_char t s j c = Some ((k @ [0]) ! nat j = c)"
  using assms by (simp add: tail_is_walkable_char_def accessors)

text \<open>The characters two strings share, the terminator included.\<close>

fun shared_prefix :: "TrieChar list \<Rightarrow> TrieChar list \<Rightarrow> TrieChar list" where
  "shared_prefix (a # as) (b # bs) =
     (if a \<noteq> b then [] else if a = 0 then [0] else a # shared_prefix as bs)"
| "shared_prefix _ _ = []"

lemma walk_suffix_shared:
  assumes "0 \<notin> set k" "length k \<le> 32767" "j \<le> length k" "i + n \<le> length str"
  shows "walk_suffix (k @ [0]) str n (int i) (int j) =
     (let p = shared_prefix (take n (drop i str)) (drop j (k @ [0]))
      in Some (int (i + length p), int (j + length (filter (\<lambda>c. c \<noteq> 0) p))))"
  using assms
proof (induction n arbitrary: i j)
  case (Suc n)
  have s: "take (Suc n) (drop i str) = str ! i # take n (drop (Suc i) str)"
    using Suc.prems by (simp add: Cons_nth_drop_Suc [symmetric])
  have d: "drop j (k @ [0]) = (k @ [0]) ! j # drop (Suc j) (k @ [0])"
    using Suc.prems(3) by (intro Cons_nth_drop_Suc [symmetric]) simp
  show ?case
  proof (cases "str ! i = (k @ [0]) ! j \<and> str ! i \<noteq> 0")
    case True
    then have j: "j < length k" using Suc.prems by (cases "j = length k") auto
    then have "short_inc (int j) = int (Suc j)" using Suc.prems by (simp add: short_inc_def)
    then show ?thesis
      using True j Suc.IH [of "Suc j" "Suc i"] Suc.prems
      by (simp add: s d accessors Let_def add.commute del: drop_append drop_Suc)
  next
    case False
    then show ?thesis using Suc.prems by (auto simp: s d accessors Let_def simp del: drop_append drop_Suc)
  qed
qed simp

lemma tail_walk_str_live:
  assumes "tail_ok t" and "tail_entries t s = Some (Some (k @ [0]), d)" "0 \<notin> set k" "length k \<le> 32767"
    and "j \<le> length k" and "n \<le> length str"
  shows "tail_walk_str t s (int j) str (int n) =
     (let p = shared_prefix (take n str) (drop j (k @ [0]))
      in Some (int (length p), int (j + length (filter (\<lambda>c. c \<noteq> 0) p))))"
  using assms walk_suffix_shared [of k j 0 n str] by (simp add: tail_walk_str_def accessors)

section \<open>The contract the trie relies on\<close>

text \<open>
  A store of suffixes: an abstract map from entry numbers to a suffix and its data, which adding,
  setting and deleting update at one entry, and which the getters read.
\<close>

locale suffix_store =
  fixes ok :: "'s \<Rightarrow> bool" and full :: "'s \<Rightarrow> bool"
    and entries :: "'s \<Rightarrow> int \<Rightarrow> (TrieChar list option \<times> TrieData) option"
    and add :: "'s \<Rightarrow> TrieChar list option \<Rightarrow> (int \<times> 's) option"
    and set_suffix :: "'s \<Rightarrow> int \<Rightarrow> TrieChar list option \<Rightarrow> (bool \<times> 's) option"
    and set_data :: "'s \<Rightarrow> int \<Rightarrow> TrieData \<Rightarrow> (bool \<times> 's) option"
    and get_suffix :: "'s \<Rightarrow> int \<Rightarrow> TrieChar list option option"
    and get_data :: "'s \<Rightarrow> int \<Rightarrow> TrieData option"
    and delete :: "'s \<Rightarrow> int \<Rightarrow> 's option"
  assumes add_law: "ok t \<Longrightarrow> \<not> full t \<Longrightarrow> 0 \<notin> set k \<Longrightarrow>
      \<exists>i t'. add t (Some (k @ 0 # r)) = Some (i, t') \<and> ok t' \<and> 1 \<le> i \<and> entries t i = None \<and>
        entries t' = (entries t)(i \<mapsto> (Some (k @ [0]), TRIE_DATA_ERROR))"
    and set_suffix_law: "ok t \<Longrightarrow> entries t i = Some (s, d) \<Longrightarrow> 0 \<notin> set k \<Longrightarrow>
      \<exists>t'. set_suffix t i (Some (k @ 0 # r)) = Some (True, t') \<and> ok t' \<and> (full t' = full t) \<and>
        entries t' = (entries t)(i \<mapsto> (Some (k @ [0]), d))"
    and set_data_law: "ok t \<Longrightarrow> entries t i = Some (s, d) \<Longrightarrow>
      \<exists>t'. set_data t i v = Some (True, t') \<and> ok t' \<and> (full t' = full t) \<and>
        entries t' = (entries t)(i \<mapsto> (s, v))"
    and get_suffix_law: "ok t \<Longrightarrow> entries t i = Some (s, d) \<Longrightarrow> get_suffix t i = Some s"
    and get_data_law: "ok t \<Longrightarrow> entries t i = Some (s, d) \<Longrightarrow> get_data t i = Some d"
    and delete_law: "ok t \<Longrightarrow> entries t i = Some (s, d) \<Longrightarrow>
      \<exists>t'. delete t i = Some t' \<and> ok t' \<and> (full t' = full t) \<and> entries t' = (entries t)(i := None)"
begin

text \<open>The two calls the trie makes to store a key: add its suffix, set its data.\<close>

lemma add_with_data:
  assumes "ok t" "\<not> full t" "0 \<notin> set k"
  shows "\<exists>i t1 t2. add t (Some (k @ 0 # r)) = Some (i, t1) \<and> set_data t1 i v = Some (True, t2) \<and> ok t2 \<and>
     1 \<le> i \<and> entries t i = None \<and> entries t2 = (entries t)(i \<mapsto> (Some (k @ [0]), v))"
proof -
  obtain i t1 where 1: "add t (Some (k @ 0 # r)) = Some (i, t1)" "ok t1" "1 \<le> i" "entries t i = None"
    "entries t1 = (entries t)(i \<mapsto> (Some (k @ [0]), TRIE_DATA_ERROR))"
    using add_law [OF assms] by blast
  then have "entries t1 i = Some (Some (k @ [0]), TRIE_DATA_ERROR)" by simp
  from set_data_law [OF 1(2) this, of v] 1 show ?thesis by auto
qed

text \<open>Entries are isolated from one another.\<close>

lemma add_with_data_reads:
  assumes "ok t" "\<not> full t" "0 \<notin> set k"
    and "add t (Some (k @ 0 # r)) = Some (i, t1)" and "set_data t1 i v = Some (True, t2)"
  shows "get_suffix t2 i = Some (Some (k @ [0]))" and "get_data t2 i = Some v"
    and "entries t j = Some (s, d) \<Longrightarrow> get_suffix t2 j = Some s \<and> get_data t2 j = Some d"
proof -
  obtain i' t1' t2' where *: "add t (Some (k @ 0 # r)) = Some (i', t1')" "set_data t1' i' v = Some (True, t2')"
    "ok t2'" "entries t i' = None" "entries t2' = (entries t)(i' \<mapsto> (Some (k @ [0]), v))"
    using add_with_data [OF assms(1-3), of r v] by blast
  with assms(4,5) have e: "i' = i" "t2' = t2" by auto
  from * e show "get_suffix t2 i = Some (Some (k @ [0]))" "get_data t2 i = Some v"
    using get_suffix_law [of t2 i "Some (k @ [0])" v] get_data_law [of t2 i "Some (k @ [0])" v] by auto
  show "get_suffix t2 j = Some s \<and> get_data t2 j = Some d" if "entries t j = Some (s, d)"
  proof -
    have "entries t2 j = Some (s, d)" using that * e by (cases "j = i") auto
    with * e show ?thesis using get_suffix_law get_data_law by blast
  qed
qed

lemma delete_reads:
  assumes "ok t" "entries t i = Some (s, d)" "entries t j = Some (s', d')" "i \<noteq> j"
    and "delete t i = Some t'"
  shows "get_suffix t' j = Some s' \<and> get_data t' j = Some d'"
proof -
  have "ok t'" "entries t' j = Some (s', d')"
    using delete_law [OF assms(1,2)] assms(3-5) by auto
  then show ?thesis using get_suffix_law get_data_law by blast
qed

end

definition tail_full :: "Tail \<Rightarrow> bool" where
  "tail_full t \<longleftrightarrow> num_tails t = INT32_MAX"

lemma tail_not_full: "tail_ok t \<Longrightarrow> \<not> tail_full t \<Longrightarrow> num_tails t < INT32_MAX"
  by (auto simp: tail_ok_def tail_full_def int32_limits)

interpretation ts: suffix_store tail_ok tail_full tail_entries tail_add_suffix tail_set_suffix
  tail_set_data tail_get_suffix tail_get_data tail_delete
proof unfold_locales
  fix t :: Tail and k r :: "TrieChar list"
  assume "tail_ok t" "\<not> tail_full t" "0 \<notin> set k"
  then show "\<exists>i t'. tail_add_suffix t (Some (k @ 0 # r)) = Some (i, t') \<and> tail_ok t' \<and> 1 \<le> i \<and>
      tail_entries t i = None \<and> tail_entries t' = (tail_entries t)(i \<mapsto> (Some (k @ [0]), TRIE_DATA_ERROR))"
    using tail_add_suffix_ok [of t k r] tail_not_full by blast
next
  fix t i s d and k r :: "TrieChar list"
  assume "tail_ok t" "tail_entries t i = Some (s, d)" "0 \<notin> set k"
  then show "\<exists>t'. tail_set_suffix t i (Some (k @ 0 # r)) = Some (True, t') \<and> tail_ok t' \<and>
      tail_full t' = tail_full t \<and> tail_entries t' = (tail_entries t)(i \<mapsto> (Some (k @ [0]), d))"
    using tail_set_suffix_live [of t i s d k r] by (auto simp: tail_full_def)
next
  fix t i s d v
  assume "tail_ok t" "tail_entries t i = Some (s, d)"
  then show "\<exists>t'. tail_set_data t i v = Some (True, t') \<and> tail_ok t' \<and>
      tail_full t' = tail_full t \<and> tail_entries t' = (tail_entries t)(i \<mapsto> (s, v))"
    using tail_set_data_live [of t i s d v] by (auto simp: tail_full_def)
next
  fix t i s d
  assume a: "tail_ok t" "tail_entries t i = Some (s, d)"
  then show "tail_get_suffix t i = Some s" "tail_get_data t i = Some d" by (simp_all add: accessors)
  from a have l: "tail_live t i" by (auto simp: tail_entries_def split: if_splits)
  show "\<exists>t'. tail_delete t i = Some t' \<and> tail_ok t' \<and> tail_full t' = tail_full t \<and>
      tail_entries t' = (tail_entries t)(i := None)"
    using tail_delete_ok [OF a(1) l] by (auto simp: tail_full_def)
qed

section \<open>Properties\<close>

text \<open>Storing a suffix with its data, the two calls the trie makes for a new key, succeeds while
  the store is not full; the new entry reads back, every other entry reads as before, and the free
  list stays sound.\<close>

theorem tail_store_suffix:
  assumes "tail_ok t" and "\<not> tail_full t" and "0 \<notin> set k"
  shows "\<exists>i t1 t2. tail_add_suffix t (Some (k @ 0 # r)) = Some (i, t1) \<and>
     tail_set_data t1 i v = Some (True, t2) \<and> tail_ok t2 \<and> tail_entries t i = None \<and>
     tail_get_suffix t2 i = Some (Some (k @ [0])) \<and> tail_get_data t2 i = Some v \<and>
     (\<forall>j s d. tail_entries t j = Some (s, d) \<longrightarrow>
        tail_get_suffix t2 j = Some s \<and> tail_get_data t2 j = Some d)"
proof -
  obtain i t1 t2 where a: "tail_add_suffix t (Some (k @ 0 # r)) = Some (i, t1)"
    "tail_set_data t1 i v = Some (True, t2)" "tail_ok t2" "tail_entries t i = None"
    using ts.add_with_data [OF assms, of r v] by blast
  with ts.add_with_data_reads [OF assms a(1,2)] show ?thesis by blast
qed

theorem tail_store_suffix_witness:
  "\<exists>i t1 t2. tail_add_suffix \<lparr>num_tails = 1, tails = [\<lparr>next_free = -1, tdata = 7, suffix = Some [3, 0]\<rparr>],
       first_free = 0\<rparr> (Some ([5, 6] @ 0 # [9])) = Some (i, t1) \<and>
     tail_set_data t1 i 42 = Some (True, t2) \<and> tail_get_suffix t2 i = Some (Some [5, 6, 0])"
proof -
  let ?t = "\<lparr>num_tails = 1, tails = [\<lparr>next_free = -1, tdata = 7, suffix = Some [3, 0]\<rparr>], first_free = 0\<rparr> :: Tail"
  have "tail_ok ?t" by (auto simp: tail_ok_def int32_limits intro: exI [of _ "[]"])
  moreover have "\<not> tail_full ?t" by (simp add: tail_full_def INT32_MAX_def)
  moreover have "0 \<notin> set [5, 6 :: TrieChar]" by simp
  ultimately show ?thesis using tail_store_suffix [of ?t "[5, 6]" "[9]" 42] by fastforce
qed

text \<open>C38: Deleting a live entry removes exactly that entry: the free list stays a chain through
  blocks that are not live, so no later allocation can return an entry in use.\<close>

theorem tail_delete_entry:
  assumes "tail_ok t" and "tail_entries t i = Some (s, d)"
  shows "\<exists>t'. tail_delete t i = Some t' \<and> tail_ok t' \<and> tail_entries t' = (tail_entries t)(i := None)"
  using ts.delete_law [OF assms] by blast

theorem tail_delete_entry_witness:
  "\<exists>t'. tail_delete \<lparr>num_tails = 2, tails = [\<lparr>next_free = -1, tdata = 7, suffix = Some [3, 0]\<rparr>,
       \<lparr>next_free = -1, tdata = 8, suffix = Some [4, 0]\<rparr>], first_free = 0\<rparr> 2 = Some t' \<and> tail_ok t' \<and>
     tail_entries t' 2 = None"
proof -
  let ?t = "\<lparr>num_tails = 2, tails = [\<lparr>next_free = -1, tdata = 7, suffix = Some [3, 0]\<rparr>,
       \<lparr>next_free = -1, tdata = 8, suffix = Some [4, 0]\<rparr>], first_free = 0\<rparr> :: Tail"
  have "tail_ok ?t" by (auto simp: tail_ok_def int32_limits intro: exI [of _ "[]"])
  moreover have "tail_entries ?t 2 = Some (Some [4, 0], 8)"
    by (simp add: tail_entries_def tail_live_def)
  ultimately show ?thesis using tail_delete_entry [of ?t 2 "Some [4, 0]" 8] by fastforce
qed

text \<open>Block 0 is also the mark for the end of the free list: deleting the first tail entry,
  index 1, leaves an empty free list, whatever free blocks there were; they are never reused.\<close>

theorem tail_delete_first_forgets:
  assumes "tail_ok t" and "tail_entries t 1 = Some (s, d)"
  shows "\<exists>t'. tail_delete t 1 = Some t' \<and> first_free t' = 0 \<and>
           next_free (tails t' ! 0) = first_free t"
proof -
  have l: "tail_live t 1" using assms(2) by (auto simp: tail_entries_def split: if_splits)
  obtain fs where "chain_seg (tails t) (first_free t) fs 0" using assms(1) by (auto simp: tail_ok_def)
  then have "0 \<le> first_free t" by (cases fs) auto
  then have "find_insertion bs 0 0 (first_free t) = Some (0, first_free t)" for bs
    by (subst find_insertion.simps) simp
  then show ?thesis using tail_live_index [OF assms(1) l]
    by (simp add: tail_delete_def tail_free_block_def TAIL_START_BLOCKNO_def accessors)
qed

theorem tail_delete_first_forgets_witness:
  "\<exists>t'. tail_delete \<lparr>num_tails = 2, tails = [\<lparr>next_free = -1, tdata = 7, suffix = Some [3, 0]\<rparr>,
       \<lparr>next_free = 0, tdata = -1, suffix = None\<rparr>], first_free = 1\<rparr> 1 = Some t' \<and> first_free t' = 0"
proof -
  let ?t = "\<lparr>num_tails = 2, tails = [\<lparr>next_free = -1, tdata = 7, suffix = Some [3, 0]\<rparr>,
       \<lparr>next_free = 0, tdata = -1, suffix = None\<rparr>], first_free = 1\<rparr> :: Tail"
  have "tail_ok ?t" by (auto simp: tail_ok_def int32_limits intro: exI [of _ "[1]"])
  moreover have "tail_entries ?t 1 = Some (Some [3, 0], 7)"
    by (simp add: tail_entries_def tail_live_def)
  ultimately show ?thesis using tail_delete_first_forgets [of ?t "Some [3, 0]" 7] by fastforce
qed

text \<open>Walking a string along a stored suffix counts the characters they share, terminator
  included, and advances the position by the ones before the terminator.\<close>

theorem tail_walk_str_shared:
  assumes "tail_ok t" and "tail_entries t s = Some (Some (k @ [0]), d)" "0 \<notin> set k" "length k \<le> 32767"
    and "j \<le> length k" and "n \<le> length str"
  shows "tail_walk_str t s (int j) str (int n) =
     (let p = shared_prefix (take n str) (drop j (k @ [0]))
      in Some (int (length p), int (j + length (filter (\<lambda>c. c \<noteq> 0) p))))"
  using assms by (rule tail_walk_str_live)

theorem tail_walk_str_shared_witness:
  "tail_walk_str \<lparr>num_tails = 1, tails = [\<lparr>next_free = -1, tdata = 7, suffix = Some [3, 4, 5, 0]\<rparr>],
      first_free = 0\<rparr> 1 1 [4, 5, 6] 3 = Some (2, 3)"
proof -
  let ?t = "\<lparr>num_tails = 1, tails = [\<lparr>next_free = -1, tdata = 7, suffix = Some [3, 4, 5, 0]\<rparr>], first_free = 0\<rparr> :: Tail"
  have "tail_ok ?t" by (auto simp: tail_ok_def int32_limits intro: exI [of _ "[]"])
  moreover have "tail_entries ?t 1 = Some (Some ([3, 4, 5] @ [0]), 7)"
    by (simp add: tail_entries_def tail_live_def)
  ultimately show ?thesis
    using tail_walk_str_shared [of ?t 1 "[3, 4, 5]" 7 1 3 "[4, 5, 6]"] by simp
qed

text \<open>A store whose suffixes are at most 32767 characters is written whole on a medium with
  room for it, and reading the file back gives a sound store with the same entries.\<close>

theorem tail_save_load:
  assumes "tail_ok t" and "tail_file_ok (plain_tail t)" and "length (enc_tail (plain_tail t)) \<le> n"
    and "\<forall>i s d. tail_entries t i = Some (s, d) \<longrightarrow> s \<noteq> None"
  shows "\<exists>f t'. tail_fwrite t \<lparr>contents = [], fpos = 0, room = n\<rparr> = Some (0, f) \<and>
     fst (the (tail_fread (fseek_set 0 f))) = Some t' \<and> tail_ok t' \<and> tail_entries t' = tail_entries t"
proof -
  let ?f = "\<lparr>contents = [], fpos = 0, room = n\<rparr> :: FILE"
  obtain r f where w: "tail_fwrite t ?f = Some (r, f)"
    using tail_fwrite_defined [OF assms(2), of ?f] by (auto simp: tail_fwrite_plain)
  have "put_tail (plain_tail t) ?f = (r = 0, f)" by (simp add: put_tail_def tail_fwrite_plain w)
  then have "r = 0" "f = \<lparr>contents = enc_tail (plain_tail t), fpos = length (enc_tail (plain_tail t)), room = n\<rparr>"
    using tail_codec.save_load(1) [OF assms(2,3)] by auto
  then show ?thesis
    using w tail_codec.save_load(2) [OF assms(2,3)] plain_tail_entries [OF assms(1,4)] plain_tail_ok [OF assms(1)]
    by (simp add: fseek_set_def)
qed

theorem tail_save_load_witness:
  "\<exists>f t'. tail_fwrite \<lparr>num_tails = 2, tails = [\<lparr>next_free = -1, tdata = 7, suffix = Some [3, 0]\<rparr>,
       \<lparr>next_free = 0, tdata = -1, suffix = None\<rparr>], first_free = 1\<rparr> \<lparr>contents = [], fpos = 0, room = 100\<rparr> = Some (0, f) \<and>
     fst (the (tail_fread (fseek_set 0 f))) = Some t' \<and> tail_entries t' 1 = Some (Some [3, 0], 7)"
proof -
  let ?t = "\<lparr>num_tails = 2, tails = [\<lparr>next_free = -1, tdata = 7, suffix = Some [3, 0]\<rparr>,
       \<lparr>next_free = 0, tdata = -1, suffix = None\<rparr>], first_free = 1\<rparr> :: Tail"
  have 1: "tail_ok ?t" by (auto simp: tail_ok_def int32_limits intro: exI [of _ "[1]"])
  have 2: "tail_file_ok (plain_tail ?t)"
    by (simp add: tail_file_ok_def plain_tail_def plain_block_def block_file_ok_def int32_limits)
  have 3: "length (enc_tail (plain_tail ?t)) \<le> 100"
    by (simp add: enc_tail_def plain_tail_def plain_block_def block_codec.enc_all_def enc_block_def suffix_chars_def)
  have 4: "s \<noteq> None" if "tail_entries ?t i = Some (s, d)" for i s d
  proof -
    from that have "1 \<le> i" "i \<le> 2" and l: "next_free (tails ?t ! nat (i - 1)) = - 1"
      and s: "s = suffix (tails ?t ! nat (i - 1))"
      by (auto simp: tail_entries_def tail_live_def split: if_splits)
    then have "i = 1 \<or> i = 2" by auto
    with l s show ?thesis by auto
  qed
  have "tail_entries ?t 1 = Some (Some [3, 0], 7)" by (simp add: tail_entries_def tail_live_def)
  with tail_save_load [OF 1 2 3] 4 show ?thesis by fastforce
qed

end
