(* ===== verification/DArray.thy ===== *)
theory DArray
  imports FileUtils TrieDefs
begin

text \<open>
  The double array, \<open>src/server/darray.c\<close>: the branching part of the trie. A node is a cell
  number; the child of \<open>s\<close> by character \<open>c\<close> is the cell \<open>base s + c\<close>, if its check cell says \<open>s\<close>.
  Free cells have negative links and form a doubly linked circular list through cell 1.

  This theory holds the data and the operations as the source has them; \<open>FreeList\<close> and
  \<open>Branching\<close> hold the invariant and what the operations do.
\<close>

section \<open>Data\<close>

record DACell =
  cbase :: TrieIndex
  ccheck :: TrieIndex

record DArray =
  num_cells :: TrieIndex
  cells :: "DACell list"

definition DA_SIGNATURE :: uint32 where
  "DA_SIGNATURE = 0xDAFCDAFC"

definition DA_POOL_BEGIN :: TrieIndex where
  "DA_POOL_BEGIN = 3"

definition da_get_free_list :: TrieIndex where
  "da_get_free_list = 1"

definition da_get_root :: TrieIndex where
  "da_get_root = 2"

definition da_new :: DArray where
  "da_new = \<lparr>num_cells = DA_POOL_BEGIN, cells =
     [\<lparr>cbase = sint DA_SIGNATURE, ccheck = DA_POOL_BEGIN\<rparr>,
      \<lparr>cbase = - 1, ccheck = - 1\<rparr>,
      \<lparr>cbase = DA_POOL_BEGIN, ccheck = 0\<rparr>]\<rparr>"

section \<open>Symbol sets\<close>

text \<open>The used part of the array \<open>symbols\<close>, which has 256 elements.\<close>

type_synonym Symbols = "TrieChar list"

text \<open>The binary search of \<open>symbols_add\<close>: \<^term>\<open>None\<close> when the symbol is there already.\<close>

function symbols_find :: "Symbols \<Rightarrow> TrieChar \<Rightarrow> nat \<Rightarrow> nat \<Rightarrow> nat option" where
  "symbols_find syms c lower upper =
     (if lower < upper
      then let middle = (lower + upper) div 2
           in if c > syms ! middle then symbols_find syms c (middle + 1) upper
              else if c < syms ! middle then symbols_find syms c lower middle
              else None
      else Some lower)"
  by pat_completeness auto
termination
  by (relation "measure (\<lambda>(syms, c, lower, upper). upper - lower)") auto

declare symbols_find.simps [simp del]

definition symbols_add :: "Symbols \<Rightarrow> TrieChar \<Rightarrow> Symbols option" where
  "symbols_add syms c =
     (case symbols_find syms c 0 (length syms) of
        None \<Rightarrow> Some syms
      | Some lower \<Rightarrow>
          if length syms < 256 then Some (take lower syms @ c # drop lower syms) else None)"

section \<open>Cells\<close>

definition da_get_base :: "DArray \<Rightarrow> TrieIndex \<Rightarrow> TrieIndex option" where
  "da_get_base d s =
     (if s < num_cells d then map_option cbase (arr_get (cells d) s) else Some TRIE_INDEX_ERROR)"

definition da_get_check :: "DArray \<Rightarrow> TrieIndex \<Rightarrow> TrieIndex option" where
  "da_get_check d s =
     (if s < num_cells d then map_option ccheck (arr_get (cells d) s) else Some TRIE_INDEX_ERROR)"

definition da_set_base :: "DArray \<Rightarrow> TrieIndex \<Rightarrow> TrieIndex \<Rightarrow> DArray option" where
  "da_set_base d s val =
     (if s < num_cells d
      then do {
        c \<leftarrow> arr_get (cells d) s;
        cs \<leftarrow> arr_set (cells d) s (c\<lparr>cbase := val\<rparr>);
        Some (d\<lparr>cells := cs\<rparr>)
      }
      else Some d)"

definition da_set_check :: "DArray \<Rightarrow> TrieIndex \<Rightarrow> TrieIndex \<Rightarrow> DArray option" where
  "da_set_check d s val =
     (if s < num_cells d
      then do {
        c \<leftarrow> arr_get (cells d) s;
        cs \<leftarrow> arr_set (cells d) s (c\<lparr>ccheck := val\<rparr>);
        Some (d\<lparr>cells := cs\<rparr>)
      }
      else Some d)"

definition da_walk :: "DArray \<Rightarrow> TrieIndex \<Rightarrow> TrieChar \<Rightarrow> (bool \<times> TrieIndex) option" where
  "da_walk d s c =
     do {
       b \<leftarrow> da_get_base d s;
       next \<leftarrow> add32 b (uint c);
       ck \<leftarrow> da_get_check d next;
       Some (if ck = s then (True, next) else (False, s))
     }"

definition da_is_walkable :: "DArray \<Rightarrow> TrieIndex \<Rightarrow> TrieChar \<Rightarrow> bool option" where
  "da_is_walkable d s c =
     do {
       b \<leftarrow> da_get_base d s;
       next \<leftarrow> add32 b (uint c);
       ck \<leftarrow> da_get_check d next;
       Some (ck = s)
     }"

section \<open>The free list\<close>

text \<open>Linking the new cells \<open>i, \<dots>, to_index\<close> to one another.\<close>

fun link_new :: "DArray \<Rightarrow> TrieIndex list \<Rightarrow> DArray option" where
  "link_new d [] = Some d"
| "link_new d (i # is) =
     do {
       d \<leftarrow> da_set_check d i (- (i + 1));
       d \<leftarrow> da_set_base d (i + 1) (- i);
       link_new d is
     }"

text \<open>
  The cells \<open>realloc\<close> adds are uninitialised; both links of each are written here before any of
  them is read, so the zeros stand for nothing.
\<close>

definition da_extend_pool :: "DArray \<Rightarrow> TrieIndex \<Rightarrow> (bool \<times> DArray) option" where
  "da_extend_pool d to_index =
     (if to_index \<le> 0 \<or> TRIE_INDEX_MAX \<le> to_index then Some (False, d)
      else if to_index < num_cells d then Some (True, d)
      else do {
        let new_begin = num_cells d;
        let d = d\<lparr>cells := cells d @ replicate (nat (to_index + 1 - num_cells d)) \<lparr>cbase = 0, ccheck = 0\<rparr>,
                  num_cells := to_index + 1\<rparr>;
        d \<leftarrow> link_new d [new_begin .. to_index - 1];
        b \<leftarrow> da_get_base d da_get_free_list;
        free_tail \<leftarrow> neg32 b;
        d \<leftarrow> da_set_check d free_tail (- new_begin);
        d \<leftarrow> da_set_base d new_begin (- free_tail);
        d \<leftarrow> da_set_check d to_index (- da_get_free_list);
        d \<leftarrow> da_set_base d da_get_free_list (- to_index);
        c \<leftarrow> arr_get (cells d) 0;
        cs \<leftarrow> arr_set (cells d) 0 (c\<lparr>ccheck := num_cells d\<rparr>);
        Some (True, d\<lparr>cells := cs\<rparr>)
      })"

definition da_check_free_cell :: "DArray \<Rightarrow> TrieIndex \<Rightarrow> (bool \<times> DArray) option" where
  "da_check_free_cell d s =
     do {
       (ok, d) \<leftarrow> da_extend_pool d s;
       if ok then do { ck \<leftarrow> da_get_check d s; Some (ck < 0, d) } else Some (False, d)
     }"

definition da_alloc_cell :: "DArray \<Rightarrow> TrieIndex \<Rightarrow> DArray option" where
  "da_alloc_cell d cell =
     do {
       b \<leftarrow> da_get_base d cell;
       prev \<leftarrow> neg32 b;
       ck \<leftarrow> da_get_check d cell;
       next \<leftarrow> neg32 ck;
       d \<leftarrow> da_set_check d prev (- next);
       da_set_base d next (- prev)
     }"

text \<open>The first cell of the free list from \<open>i\<close> on that is not below \<open>bound\<close>, or the list head.\<close>

partial_function (option) free_from :: "DArray \<Rightarrow> TrieIndex \<Rightarrow> TrieIndex \<Rightarrow> TrieIndex option" where
  [code]: "free_from d bound i =
     (if i \<noteq> da_get_free_list \<and> i < bound
      then do { ck \<leftarrow> da_get_check d i; next \<leftarrow> neg32 ck; free_from d bound next }
      else Some i)"

definition da_free_cell :: "DArray \<Rightarrow> TrieIndex \<Rightarrow> DArray option" where
  "da_free_cell d cell =
     do {
       ck \<leftarrow> da_get_check d da_get_free_list;
       i \<leftarrow> neg32 ck;
       i \<leftarrow> free_from d cell i;
       b \<leftarrow> da_get_base d i;
       prev \<leftarrow> neg32 b;
       d \<leftarrow> da_set_check d cell (- i);
       d \<leftarrow> da_set_base d cell (- prev);
       d \<leftarrow> da_set_check d prev (- cell);
       da_set_base d i (- cell)
     }"

section \<open>Children of a node\<close>

text \<open>The loops over the characters run below \<open>max_c\<close>, so they leave out \<open>TRIE_CHAR_MAX\<close>.\<close>

definition child_chars :: "TrieIndex \<Rightarrow> TrieIndex list option" where
  "child_chars b = map_option (\<lambda>m. [0 .. min (uint TRIE_CHAR_MAX) m - 1]) (add32 TRIE_INDEX_MAX (- b))"

fun has_child :: "DArray \<Rightarrow> TrieIndex \<Rightarrow> TrieIndex \<Rightarrow> TrieIndex list \<Rightarrow> bool option" where
  "has_child d s b [] = Some False"
| "has_child d s b (c # cs) =
     do { ck \<leftarrow> da_get_check d (b + c); if ck = s then Some True else has_child d s b cs }"

definition da_has_children :: "DArray \<Rightarrow> TrieIndex \<Rightarrow> bool option" where
  "da_has_children d s =
     do {
       b \<leftarrow> da_get_base d s;
       if TRIE_INDEX_ERROR = b \<or> b < 0 then Some False
       else do { cs \<leftarrow> child_chars b; has_child d s b cs }
     }"

fun child_symbols :: "DArray \<Rightarrow> TrieIndex \<Rightarrow> TrieIndex \<Rightarrow> TrieIndex list \<Rightarrow> Symbols option" where
  "child_symbols d s b [] = Some []"
| "child_symbols d s b (c # cs) =
     do {
       ck \<leftarrow> da_get_check d (b + c);
       syms \<leftarrow> child_symbols d s b cs;
       Some (if ck = s then word_of_int c # syms else syms)
     }"

definition da_output_symbols :: "DArray \<Rightarrow> TrieIndex \<Rightarrow> Symbols option" where
  "da_output_symbols d s =
     do { b \<leftarrow> da_get_base d s; cs \<leftarrow> child_chars b; child_symbols d s b cs }"

section \<open>Relocation\<close>

fun da_fit_symbols :: "DArray \<Rightarrow> TrieIndex \<Rightarrow> Symbols \<Rightarrow> (bool \<times> DArray) option" where
  "da_fit_symbols d b [] = Some (True, d)"
| "da_fit_symbols d b (y # syms) =
     (if b > TRIE_INDEX_MAX - uint y then Some (False, d)
      else do {
        (ok, d) \<leftarrow> da_check_free_cell d (b + uint y);
        if ok then da_fit_symbols d b syms else Some (False, d)
      })"

text \<open>The search beyond the free list, and the search for a free cell the symbols fit at.\<close>

partial_function (option) find_beyond :: "DArray \<Rightarrow> TrieIndex \<Rightarrow> (TrieIndex \<times> DArray) option" where
  [code]: "find_beyond d s =
     do {
       (ok, d) \<leftarrow> da_extend_pool d s;
       if \<not> ok then Some (TRIE_INDEX_ERROR, d)
       else do {
         ck \<leftarrow> da_get_check d s;
         if ck < 0 then Some (s, d) else find_beyond d (s + 1)
       }
     }"

partial_function (option) find_fit ::
  "TrieIndex \<Rightarrow> Symbols \<Rightarrow> DArray \<Rightarrow> TrieIndex \<Rightarrow> (TrieIndex \<times> DArray) option" where
  [code]: "find_fit first_sym syms d s =
     do {
       (fits, d) \<leftarrow> da_fit_symbols d (s - first_sym) syms;
       if fits then Some (s - first_sym, d)
       else do {
         ck \<leftarrow> da_get_check d s;
         next \<leftarrow> neg32 ck;
         (ok, d) \<leftarrow> (if next = da_get_free_list then da_extend_pool d (num_cells d) else Some (True, d));
         if \<not> ok then Some (TRIE_INDEX_ERROR, d)
         else do {
           ck \<leftarrow> da_get_check d s;
           next \<leftarrow> neg32 ck;
           find_fit first_sym syms d next
         }
       }
     }"

definition da_find_free_base :: "DArray \<Rightarrow> Symbols \<Rightarrow> (TrieIndex \<times> DArray) option" where
  "da_find_free_base d syms =
     do {
       first \<leftarrow> arr_get syms 0;
       let first_sym = uint first;
       ck \<leftarrow> da_get_check d da_get_free_list;
       s \<leftarrow> neg32 ck;
       s \<leftarrow> free_from d (first_sym + DA_POOL_BEGIN) s;
       (s, d) \<leftarrow> (if s = da_get_free_list then find_beyond d (first_sym + DA_POOL_BEGIN) else Some (s, d));
       if s = TRIE_INDEX_ERROR then Some (TRIE_INDEX_ERROR, d) else find_fit first_sym syms d s
     }"

text \<open>The cells that belong to \<open>old_next\<close> are given to \<open>new_next\<close>.\<close>

fun give_children ::
  "DArray \<Rightarrow> TrieIndex \<Rightarrow> TrieIndex \<Rightarrow> TrieIndex \<Rightarrow> TrieIndex list \<Rightarrow> DArray option" where
  "give_children d old_next new_next b [] = Some d"
| "give_children d old_next new_next b (c # cs) =
     do {
       ck \<leftarrow> da_get_check d (b + c);
       d \<leftarrow> (if ck = old_next then da_set_check d (b + c) new_next else Some d);
       give_children d old_next new_next b cs
     }"

definition relocate_child ::
  "DArray \<Rightarrow> TrieIndex \<Rightarrow> TrieIndex \<Rightarrow> TrieIndex \<Rightarrow> DArray option" where
  "relocate_child d s old_next new_next =
     do {
       old_next_base \<leftarrow> da_get_base d old_next;
       d \<leftarrow> da_alloc_cell d new_next;
       d \<leftarrow> da_set_check d new_next s;
       d \<leftarrow> da_set_base d new_next old_next_base;
       d \<leftarrow> (if old_next_base > 0
            then do { cs \<leftarrow> child_chars old_next_base; give_children d old_next new_next old_next_base cs }
            else Some d);
       da_free_cell d old_next
     }"

fun relocate_children ::
  "DArray \<Rightarrow> TrieIndex \<Rightarrow> TrieIndex \<Rightarrow> TrieIndex \<Rightarrow> Symbols \<Rightarrow> DArray option" where
  "relocate_children d s old_base new_base [] = Some d"
| "relocate_children d s old_base new_base (y # syms) =
     do {
       old_next \<leftarrow> add32 old_base (uint y);
       new_next \<leftarrow> add32 new_base (uint y);
       d \<leftarrow> relocate_child d s old_next new_next;
       relocate_children d s old_base new_base syms
     }"

definition da_relocate_base :: "DArray \<Rightarrow> TrieIndex \<Rightarrow> TrieIndex \<Rightarrow> DArray option" where
  "da_relocate_base d s new_base =
     do {
       old_base \<leftarrow> da_get_base d s;
       syms \<leftarrow> da_output_symbols d s;
       d \<leftarrow> relocate_children d s old_base new_base syms;
       da_set_base d s new_base
     }"

section \<open>Inserting and removing branches\<close>

definition link_branch :: "DArray \<Rightarrow> TrieIndex \<Rightarrow> TrieIndex \<Rightarrow> (TrieIndex \<times> DArray) option" where
  "link_branch d s next =
     do {
       d \<leftarrow> da_alloc_cell d next;
       d \<leftarrow> da_set_check d next s;
       Some (next, d)
     }"

definition da_insert_branch ::
  "DArray \<Rightarrow> TrieIndex \<Rightarrow> TrieChar \<Rightarrow> (TrieIndex \<times> DArray) option" where
  "da_insert_branch d s c =
     do {
       b \<leftarrow> da_get_base d s;
       if b > 0
       then do {
         next \<leftarrow> add32 b (uint c);
         ck \<leftarrow> da_get_check d next;
         if ck = s then Some (next, d)
         else do {
           (ok, d) \<leftarrow> (if b > TRIE_INDEX_MAX - uint c then Some (False, d) else da_check_free_cell d next);
           if \<not> ok
           then do {
             syms \<leftarrow> da_output_symbols d s;
             syms \<leftarrow> symbols_add syms c;
             (new_base, d) \<leftarrow> da_find_free_base d syms;
             if TRIE_INDEX_ERROR = new_base then Some (TRIE_INDEX_ERROR, d)
             else do {
               d \<leftarrow> da_relocate_base d s new_base;
               next \<leftarrow> add32 new_base (uint c);
               link_branch d s next
             }
           }
           else link_branch d s next
         }
       }
       else do {
         syms \<leftarrow> symbols_add [] c;
         (new_base, d) \<leftarrow> da_find_free_base d syms;
         if TRIE_INDEX_ERROR = new_base then Some (TRIE_INDEX_ERROR, d)
         else do {
           d \<leftarrow> da_set_base d s new_base;
           next \<leftarrow> add32 new_base (uint c);
           link_branch d s next
         }
       }
     }"

partial_function (option) da_prune_upto :: "TrieIndex \<Rightarrow> DArray \<Rightarrow> TrieIndex \<Rightarrow> DArray option" where
  [code]: "da_prune_upto p d s =
     (if p = s then Some d
      else do {
        b \<leftarrow> da_has_children d s;
        if b then Some d
        else do {
          parent \<leftarrow> da_get_check d s;
          d \<leftarrow> da_free_cell d s;
          da_prune_upto p d parent
        }
      })"

definition da_prune :: "DArray \<Rightarrow> TrieIndex \<Rightarrow> DArray option" where
  "da_prune d s = da_prune_upto da_get_root d s"

section \<open>Enumeration\<close>

text \<open>The characters from the root to a state, collected on the way up and then reversed.\<close>

partial_function (option) trace_back :: "DArray \<Rightarrow> TrieIndex \<Rightarrow> TrieChar list \<Rightarrow> TrieChar list option" where
  [code]: "trace_back d state key =
     (if da_get_root = state then Some key
      else do {
        parent \<leftarrow> da_get_check d state;
        b \<leftarrow> da_get_base d parent;
        trace_back d parent (key @ [word_of_int (state - b)])
      })"

definition da_get_state_key :: "DArray \<Rightarrow> TrieIndex \<Rightarrow> TrieChar list option" where
  "da_get_state_key d state = map_option (\<lambda>key. rev key @ [0]) (trace_back d state [])"

text \<open>
  \<open>da_enumerate_recursive\<close> with its loop over the symbols: the states of the loop are a list, and
  the call for one state is the loop over its children. The callback threads its data.
\<close>

partial_function (option) enumerate_states ::
  "DArray \<Rightarrow> (TrieChar list \<Rightarrow> TrieIndex \<Rightarrow> 'u \<Rightarrow> (bool \<times> 'u) option)
   \<Rightarrow> TrieIndex list \<Rightarrow> 'u \<Rightarrow> (bool \<times> 'u) option" where
  [code]: "enumerate_states d f states u =
     (case states of
        [] \<Rightarrow> Some (True, u)
      | state # states' \<Rightarrow>
          do {
            b \<leftarrow> da_get_base d state;
            (ret, u) \<leftarrow> (if b < 0
              then do { key \<leftarrow> da_get_state_key d state; f key state u }
              else do {
                syms \<leftarrow> da_output_symbols d state;
                enumerate_states d f (map (\<lambda>c. b + uint c) syms) u
              });
            if ret then enumerate_states d f states' u else Some (False, u)
          })"

definition da_enumerate ::
  "DArray \<Rightarrow> (TrieChar list \<Rightarrow> TrieIndex \<Rightarrow> 'u \<Rightarrow> (bool \<times> 'u) option) \<Rightarrow> 'u \<Rightarrow> (bool \<times> 'u) option" where
  "da_enumerate d f u = enumerate_states d f [da_get_root] u"

section \<open>Files\<close>

definition write_cell :: "DACell \<Rightarrow> FILE \<Rightarrow> bool \<times> FILE" where
  "write_cell c = write_seq (file_write_int32 (cbase c)) (file_write_int32 (ccheck c))"

fun write_cells :: "DACell list \<Rightarrow> nat \<Rightarrow> int \<Rightarrow> FILE \<Rightarrow> (bool \<times> FILE) option" where
  "write_cells cs 0 i f = Some (True, f)"
| "write_cells cs (Suc n) i f =
     do {
       c \<leftarrow> arr_get cs i;
       let (ok, f') = write_cell c f;
       if ok then write_cells cs n (i + 1) f' else Some (False, f')
     }"

definition da_fwrite :: "DArray \<Rightarrow> FILE \<Rightarrow> (int \<times> FILE) option" where
  "da_fwrite d f =
     do {
       (ok, f') \<leftarrow> write_cells (cells d) (nat (num_cells d)) 0 f;
       Some (if ok then 0 else - 1, f')
     }"

definition read_cell :: "FILE \<Rightarrow> (DACell option \<times> FILE) option" where
  "read_cell =
     read_seq (\<lambda>f. Some (file_read_int32 f)) (\<lambda>b.
     read_seq (\<lambda>f. Some (file_read_int32 f)) (\<lambda>c f. Some (Some \<lparr>cbase = b, ccheck = c\<rparr>, f)))"

text \<open>
  The header cell is rebuilt from the signature and the count. A count of 0 allocates nothing and
  then writes the header cell; a negative count exceeds the bound as a \<open>size_t\<close>.
\<close>

definition read_cells :: "TrieIndex \<Rightarrow> FILE \<Rightarrow> (DArray option \<times> FILE) option" where
  "read_cells n f =
     (if n < 0 then Some (None, f)
      else if n = 0 then None
      else read_seq (read_each read_cell (nat (n - 1))) (\<lambda>cs f.
        Some (Some \<lparr>num_cells = n,
          cells = \<lparr>cbase = sint DA_SIGNATURE, ccheck = n\<rparr> # cs\<rparr>, f)) f)"

definition da_fread :: "FILE \<Rightarrow> (DArray option \<times> FILE) option" where
  "da_fread f =
     do {
       (res, f') \<leftarrow>
         read_seq (\<lambda>f. Some (file_read_int32 f)) (\<lambda>sig.
           if DA_SIGNATURE \<noteq> word_of_int sig then (\<lambda>f. Some (None, f))
           else read_seq (\<lambda>f. Some (file_read_int32 f)) read_cells) f;
       case res of None \<Rightarrow> Some (None, fseek_set (fpos f) f') | Some d \<Rightarrow> Some (Some d, f')
     }"

end
