(* ===== verification/FreeList.thy ===== *)
theory FreeList
  imports DArray
begin

text \<open>
  The free list of the double array: the invariant of the circular list, and what extending the
  pool, taking a cell and giving one back do to it.
\<close>

section \<open>The cells as functions\<close>

definition sized :: "DArray \<Rightarrow> bool" where
  "sized d \<longleftrightarrow> num_cells d = int (length (cells d))"

definition bs :: "DArray \<Rightarrow> TrieIndex \<Rightarrow> TrieIndex" where
  "bs d i = (if 0 \<le> i \<and> i < num_cells d then cbase (cells d ! nat i) else 0)"

definition ck :: "DArray \<Rightarrow> TrieIndex \<Rightarrow> TrieIndex" where
  "ck d i = (if 0 \<le> i \<and> i < num_cells d then ccheck (cells d ! nat i) else 0)"

definition put_b :: "DArray \<Rightarrow> TrieIndex \<Rightarrow> TrieIndex \<Rightarrow> DArray" where
  "put_b d s v = (if 0 \<le> s \<and> s < num_cells d
     then d\<lparr>cells := (cells d)[nat s := (cells d ! nat s)\<lparr>cbase := v\<rparr>]\<rparr> else d)"

definition put_c :: "DArray \<Rightarrow> TrieIndex \<Rightarrow> TrieIndex \<Rightarrow> DArray" where
  "put_c d s v = (if 0 \<le> s \<and> s < num_cells d
     then d\<lparr>cells := (cells d)[nat s := (cells d ! nat s)\<lparr>ccheck := v\<rparr>]\<rparr> else d)"

lemma get_base [accessors]: "sized d \<Longrightarrow> 0 \<le> s \<Longrightarrow> da_get_base d s = Some (bs d s)"
  by (auto simp: da_get_base_def bs_def sized_def TRIE_INDEX_ERROR_def accessors)

lemma get_check [accessors]: "sized d \<Longrightarrow> 0 \<le> s \<Longrightarrow> da_get_check d s = Some (ck d s)"
  by (auto simp: da_get_check_def ck_def sized_def TRIE_INDEX_ERROR_def accessors)

lemma set_base [accessors]: "sized d \<Longrightarrow> 0 \<le> s \<Longrightarrow> da_set_base d s v = Some (put_b d s v)"
  by (auto simp: da_set_base_def put_b_def sized_def accessors)

lemma set_check [accessors]: "sized d \<Longrightarrow> 0 \<le> s \<Longrightarrow> da_set_check d s v = Some (put_c d s v)"
  by (auto simp: da_set_check_def put_c_def sized_def accessors)

lemma put_simps [simp]:
  "num_cells (put_b d s v) = num_cells d" "num_cells (put_c d s v) = num_cells d"
  "sized (put_b d s v) = sized d" "sized (put_c d s v) = sized d"
  by (simp_all add: put_b_def put_c_def sized_def)

lemma put_reads [updates]:
  assumes "sized d"
  shows "bs (put_b d s v) i = (if i = s \<and> 0 \<le> s \<and> s < num_cells d then v else bs d i)"
    and "ck (put_b d s v) i = ck d i"
    and "ck (put_c d s v) i = (if i = s \<and> 0 \<le> s \<and> s < num_cells d then v else ck d i)"
    and "bs (put_c d s v) i = bs d i"
  using assms by (auto simp: bs_def ck_def put_b_def put_c_def sized_def nth_list_update nat_eq_iff)

section \<open>The invariant\<close>

definition free :: "DArray \<Rightarrow> TrieIndex set" where
  "free d = {i. 3 \<le> i \<and> i < num_cells d \<and> ck d i < 0}"

text \<open>\<open>j\<close> follows \<open>i\<close> in the circular list of \<open>F\<close> through the head 1.\<close>

definition adj :: "TrieIndex set \<Rightarrow> TrieIndex \<Rightarrow> TrieIndex \<Rightarrow> bool" where
  "adj F i j \<longleftrightarrow> (i = 1 \<or> i \<in> F) \<and> (j = 1 \<or> j \<in> F) \<and> (j = 1 \<or> i < j) \<and>
     (\<forall>k\<in>F. i < k \<longrightarrow> j \<noteq> 1 \<and> j \<le> k)"

definition ring_ok :: "DArray \<Rightarrow> bool" where
  "ring_ok d \<longleftrightarrow> sized d \<and> 3 \<le> num_cells d \<and> num_cells d \<le> TRIE_INDEX_MAX \<and>
     bs d 0 = sint DA_SIGNATURE \<and> ck d 0 = num_cells d \<and>
     (\<forall>i j. adj (free d) i j \<longrightarrow> ck d i = - j \<and> bs d j = - i)"

lemma ring_sized [simp]: "ring_ok d \<Longrightarrow> sized d"
  by (simp add: ring_ok_def)

lemma finite_free [simp]: "finite (free d)"
proof -
  have "free d \<subseteq> {3..<num_cells d}" by (auto simp: free_def)
  then show ?thesis using finite_subset by blast
qed

lemma free_ge: "i \<in> free d \<Longrightarrow> 3 \<le> i \<and> i < num_cells d"
  by (simp add: free_def)

section \<open>Neighbours\<close>

lemma adj_bound: "adj F i j \<Longrightarrow> k \<in> F \<Longrightarrow> i < k \<Longrightarrow> j \<noteq> 1 \<and> j \<le> k"
  by (simp add: adj_def)

lemma adj_in: "adj F i j \<Longrightarrow> (i = 1 \<or> i \<in> F) \<and> (j = 1 \<or> j \<in> F \<and> i < j)"
  by (auto simp: adj_def)

lemma adj_next_unique:
  assumes "adj F i j" and "adj F i j'"
  shows "j = j'"
proof (cases "j = 1 \<or> j' = 1")
  case True
  then show ?thesis using adj_in adj_bound assms by metis
next
  case False
  then have "j \<le> j'" "j' \<le> j" using adj_in adj_bound assms by metis+
  then show ?thesis by simp
qed

lemma adj_prev_unique:
  assumes F: "\<forall>k\<in>F. (3::int) \<le> k" and a: "adj F i j" and a': "adj F i' j"
  shows "i = i'"
proof (rule ccontr)
  have no: False if "u < v" "adj F u j" "adj F v j" for u v
  proof -
    have "1 \<le> u" using adj_in [OF that(2)] F by auto
    then have "v \<in> F" using adj_in [OF that(3)] that(1) by auto
    then have "j \<noteq> 1 \<and> j \<le> v" using adj_bound [OF that(2)] that(1) by blast
    then show False using adj_in [OF that(3)] by auto
  qed
  assume "i \<noteq> i'"
  then show False using no a a' by (metis linorder_neqE)
qed

lemma adj_next_exists:
  assumes "finite F" and "\<forall>k\<in>F. (3::int) \<le> k" and "i = 1 \<or> i \<in> F"
  shows "\<exists>j. adj F i j"
proof (cases "{k\<in>F. i < k} = {}")
  case True
  then show ?thesis using assms by (auto simp: adj_def intro!: exI [of _ 1])
next
  case False
  let ?j = "Min {k\<in>F. i < k}"
  have in_: "?j \<in> F \<and> i < ?j" using Min_in [of "{k\<in>F. i < k}"] False assms(1) by auto
  moreover have "?j \<noteq> 1" using in_ assms(2) by force
  moreover have "?j \<le> k" if "k \<in> F" "i < k" for k using that assms(1) by (intro Min_le) auto
  ultimately have "adj F i ?j" using assms(3) by (simp add: adj_def)
  then show ?thesis by blast
qed

lemma adj_prev_exists:
  assumes "finite F" and "\<forall>k\<in>F. (3::int) \<le> k" and "j = 1 \<or> j \<in> F"
  shows "\<exists>i. adj F i j"
proof -
  let ?S = "insert 1 {k\<in>F. j = 1 \<or> k < j}"
  define i where "i = Max ?S"
  have S: "finite ?S" "?S \<noteq> {}" using assms by auto
  have in_: "i = 1 \<or> i \<in> F \<and> (j = 1 \<or> i < j)" using Max_in [OF S] by (auto simp: i_def)
  have up: "k \<le> i" if "k \<in> F" "j = 1 \<or> k < j" for k
    unfolding i_def using that by (intro Max_ge S) auto
  have "adj F i j" unfolding adj_def
  proof (intro conjI ballI impI)
    show "i = 1 \<or> i \<in> F" "j = 1 \<or> j \<in> F" using in_ assms(3) by auto
    show "j = 1 \<or> i < j" using in_ assms(2,3) by force
    fix k assume "k \<in> F" "i < k"
    then show "j \<noteq> 1" "j \<le> k" using up by force+
  qed
  then show ?thesis by blast
qed

lemma adj_remove:
  assumes F: "\<forall>k\<in>F. (3::int) \<le> k" and x: "x \<in> F" and p: "adj F p x" and q: "adj F x q"
    and a: "adj (F - {x}) i j"
  shows "(i = p \<and> j = q) \<or> (adj F i j \<and> i \<noteq> p \<and> j \<noteq> q \<and> i \<noteq> x \<and> j \<noteq> x)"
proof -
  have x1: "x \<noteq> 1" "3 \<le> x" using F x by auto
  have px: "p = 1 \<or> p \<in> F" "p < x" using adj_in [OF p] x1 by auto
  have xq: "q = 1 \<or> q \<in> F \<and> x < q" using adj_in [OF q] x1 by auto
  have apq: "adj (F - {x}) p q" unfolding adj_def
  proof (intro conjI ballI impI)
    show "p = 1 \<or> p \<in> F - {x}" "q = 1 \<or> q \<in> F - {x}" "q = 1 \<or> p < q" using px xq by auto
    fix k assume k: "k \<in> F - {x}" "p < k"
    then have "x < k" using adj_bound [OF p, of k] by auto
    then show "q \<noteq> 1" "q \<le> k" using adj_bound [OF q, of k] k by auto
  qed
  have F': "\<forall>k\<in>F - {x}. 3 \<le> k" using F by auto
  have nx: "i \<noteq> x" "j \<noteq> x" "i = 1 \<or> i \<in> F" "j = 1 \<or> j \<in> F \<and> i < j" using adj_in [OF a] x1 by auto
  show ?thesis
  proof (cases "i = p \<or> j = q")
    case True
    then show ?thesis
      using adj_next_unique [OF a] adj_prev_unique [OF F' a] apq by blast
  next
    case False
    have "adj F i j" unfolding adj_def
    proof (intro conjI ballI impI)
      show "i = 1 \<or> i \<in> F" "j = 1 \<or> j \<in> F" "j = 1 \<or> i < j" using nx by auto
      fix k assume k: "k \<in> F" "i < k"
      have "j \<noteq> 1 \<and> j \<le> k"
      proof (cases "k = x")
        case True
        have "i < p"
        proof (rule ccontr)
          assume "\<not> i < p"
          then have "p < i" using False by simp
          then have "i \<in> F" using nx px F by force
          then have "x \<le> i" using adj_bound [OF p] \<open>p < i\<close> by blast
          then show "False" using k True by simp
        qed
        moreover have "p \<in> F" using px nx F \<open>i < p\<close> by force
        ultimately have "p \<in> F - {x}" "i < p" using px by auto
        then show ?thesis using adj_bound [OF a, of p] px True by auto
      qed (use adj_bound [OF a, of k] k in auto)
      then show "j \<noteq> 1" "j \<le> k" by auto
    qed
    with False nx show ?thesis by simp
  qed
qed

lemma adj_insert:
  assumes F: "\<forall>k\<in>F. (3::int) \<le> k" and x: "x \<notin> F" "3 \<le> x" and pq: "adj F p q" "p < x" "q = 1 \<or> x < q"
    and a: "adj (insert x F) i j"
  shows "(i = p \<and> j = x) \<or> (i = x \<and> j = q) \<or> (adj F i j \<and> i \<noteq> p \<and> j \<noteq> q \<and> i \<noteq> x \<and> j \<noteq> x)"
proof -
  let ?F = "insert x F"
  have F': "\<forall>k\<in>?F. 3 \<le> k" using F x by auto
  have px: "adj ?F p x" unfolding adj_def
    using adj_in [OF pq(1)] pq(2,3) x adj_bound [OF pq(1)] by force
  have xq: "adj ?F x q" unfolding adj_def
    using adj_in [OF pq(1)] pq(2,3) x adj_bound [OF pq(1)] by force
  show ?thesis
  proof (cases "i = p \<or> j = x \<or> i = x \<or> j = q")
    case True
    then show ?thesis
      using adj_next_unique [OF a] adj_prev_unique [OF F' a] px xq by blast
  next
    case False
    then have "adj F i j" using a unfolding adj_def by blast
    with False show ?thesis by simp
  qed
qed

lemma adj_extend:
  assumes F: "\<forall>k\<in>F. (3::int) \<le> k \<and> k < n" and n: "3 \<le> n" "n \<le> to" and p: "adj F p 1"
    and a: "adj (F \<union> {n..to}) i j"
  shows "(i = p \<and> j = n) \<or> (i = to \<and> j = 1) \<or> (n \<le> i \<and> i < to \<and> j = i + 1) \<or>
     (adj F i j \<and> j \<noteq> 1 \<and> j \<noteq> n \<and> i \<noteq> p \<and> i < n \<and> j < n)"
proof -
  let ?F = "F \<union> {n..to}"
  have F': "\<forall>k\<in>?F. 3 \<le> k" using F n by auto
  have pin: "p = 1 \<or> p \<in> F" "p < n" using adj_in [OF p] F n by auto
  have last: "k \<le> p" if "k \<in> F" for k using adj_bound [OF p that] by force
  have pn: "adj ?F p n" unfolding adj_def using pin n last by force
  have t1: "adj ?F to 1" unfolding adj_def using n F by force
  have s: "adj ?F k (k + 1)" if "n \<le> k" "k < to" for k unfolding adj_def using that F n by force
  have i: "i = 1 \<or> i \<in> F \<or> n \<le> i \<and> i \<le> to" using adj_in [OF a] by auto
  show ?thesis
  proof (cases "i = p \<or> n \<le> i")
    case True
    then consider "i = p" | "i = to" | "n \<le> i" "i < to" using i F n by force
    then show ?thesis by cases (use adj_next_unique [OF a] pn t1 s in blast)+
  next
    case False
    have ip: "i < p"
    proof (rule ccontr)
      assume "\<not> i < p"
      then have "p < i" using False by simp
      then show False using i last False pin F by force
    qed
    then have "p \<in> F" using i pin F n by force
    then have j: "j \<noteq> 1" "j \<le> p" using adj_bound [OF a, of p] ip by auto
    then have "j \<in> F" "i < j" using adj_in [OF a] pin by auto
    moreover have "i = 1 \<or> i \<in> F" using i False by auto
    ultimately have "adj F i j" using adj_bound [OF a] j unfolding adj_def by blast
    with j False pin show ?thesis by auto
  qed
qed

section \<open>Links of the list\<close>

lemma free_bounds: "\<forall>k\<in>free d. 3 \<le> k"
  by (simp add: free_def)

lemma adj_links: "ring_ok d \<Longrightarrow> adj (free d) i j \<Longrightarrow> ck d i = - j \<and> bs d j = - i"
  by (simp add: ring_ok_def)

lemma adj_range:
  assumes "ring_ok d" and "adj (free d) i j"
  shows "1 \<le> i \<and> i < num_cells d \<and> 1 \<le> j \<and> j < num_cells d"
proof -
  have "3 \<le> num_cells d" using assms(1) by (simp add: ring_ok_def)
  then show ?thesis using adj_in [OF assms(2)] free_ge [of i d] free_ge [of j d] by linarith
qed

lemma ring_next:
  assumes "ring_ok d" and "i = 1 \<or> i \<in> free d"
  shows "adj (free d) i (- ck d i)"
  using adj_next_exists [OF finite_free free_bounds assms(2)] adj_links [OF assms(1)] by force

lemma ring_prev:
  assumes "ring_ok d" and "j = 1 \<or> j \<in> free d"
  shows "adj (free d) (- bs d j) j"
  using adj_prev_exists [OF finite_free free_bounds assms(2)] adj_links [OF assms(1)] by force

lemma ring_room: "ring_ok d \<Longrightarrow> 3 \<le> num_cells d \<and> num_cells d \<le> TRIE_INDEX_MAX"
  by (simp add: ring_ok_def)

lemma int32_index: "ring_ok d \<Longrightarrow> - 2 \<le> i \<Longrightarrow> i \<le> num_cells d \<Longrightarrow> is_int32 i \<and> is_int32 (- i)"
  using ring_room [of d] by (auto simp: int32_limits TRIE_INDEX_MAX_def)

text \<open>Nodes: the cells that are not free. The invariant depends on the free cells alone.\<close>

definition nodes :: "DArray \<Rightarrow> TrieIndex set" where
  "nodes d = insert 2 {i. 3 \<le> i \<and> i < num_cells d \<and> 0 \<le> ck d i}"

lemma node_or_free: "3 \<le> i \<Longrightarrow> i < num_cells d \<Longrightarrow> i \<in> nodes d \<longleftrightarrow> i \<notin> free d"
  by (auto simp: nodes_def free_def)

lemma node_not_free: "i \<in> nodes d \<Longrightarrow> 2 \<le> i \<and> i \<noteq> 0 \<and> i \<noteq> 1 \<and> i \<notin> free d"
  by (auto simp: nodes_def free_def)

text \<open>The part of the invariant beside the links.\<close>

definition header_ok :: "DArray \<Rightarrow> bool" where
  "header_ok d \<longleftrightarrow> sized d \<and> 3 \<le> num_cells d \<and> num_cells d \<le> TRIE_INDEX_MAX \<and>
     bs d 0 = sint DA_SIGNATURE \<and> ck d 0 = num_cells d"

lemma ring_header: "ring_ok d \<Longrightarrow> header_ok d"
  by (simp add: ring_ok_def header_ok_def)

lemma ring_okI:
  "header_ok d \<Longrightarrow> (\<And>i j. adj (free d) i j \<Longrightarrow> ck d i = - j \<and> bs d j = - i) \<Longrightarrow> ring_ok d"
  by (simp add: ring_ok_def header_ok_def)

lemma header_frame:
  assumes "header_ok d" and "sized d'" "num_cells d' = num_cells d" "bs d' 0 = bs d 0" "ck d' 0 = ck d 0"
  shows "header_ok d'"
  using assms by (simp add: header_ok_def)

lemma ring_frame:
  assumes "ring_ok d" and "sized d'" "num_cells d' = num_cells d" "free d' = free d"
    and "\<forall>i. i = 0 \<or> i = 1 \<or> i \<in> free d \<longrightarrow> bs d' i = bs d i \<and> ck d' i = ck d i"
  shows "ring_ok d'"
  using assms adj_in unfolding ring_ok_def by (metis (no_types, lifting))

lemma ring_put_b:
  assumes "ring_ok d" and "i \<in> nodes d"
  shows "ring_ok (put_b d i v) \<and> free (put_b d i v) = free d \<and> nodes (put_b d i v) = nodes d"
proof -
  have "i \<noteq> 0" "i \<noteq> 1" "i \<notin> free d" using assms by (auto simp: nodes_def free_def)
  moreover have "free (put_b d i v) = free d" "nodes (put_b d i v) = nodes d"
    using assms(1) by (auto simp: free_def nodes_def updates)
  ultimately show ?thesis using assms(1) by (auto intro!: ring_frame [OF assms(1)] simp: updates)
qed

lemma ring_put_c:
  assumes "ring_ok d" and "i \<in> nodes d" "i \<noteq> 2" and "0 \<le> v"
  shows "ring_ok (put_c d i v) \<and> free (put_c d i v) = free d \<and> nodes (put_c d i v) = nodes d"
proof -
  have "i \<noteq> 0" "i \<noteq> 1" "i \<notin> free d" using assms by (auto simp: nodes_def free_def)
  moreover have "free (put_c d i v) = free d" "nodes (put_c d i v) = nodes d"
    using assms by (auto simp: free_def nodes_def updates)
  ultimately show ?thesis using assms(1) by (auto intro!: ring_frame [OF assms(1)] simp: updates)
qed

section \<open>Taking a cell\<close>

lemma alloc_cell_ok:
  assumes ok: "ring_ok d" and x: "x \<in> free d" and v: "0 \<le> v"
  shows "\<exists>d1. da_alloc_cell d x = Some d1 \<and> sized d1 \<and> num_cells d1 = num_cells d \<and>
    (let d' = put_c d1 x v in ring_ok d' \<and> num_cells d' = num_cells d \<and> free d' = free d - {x} \<and>
      nodes d' = insert x (nodes d) \<and> ck d' x = v \<and> bs d' x = bs d x \<and> bs d x < 0 \<and>
      (\<forall>i\<in>nodes d. bs d' i = bs d i \<and> ck d' i = ck d i))"
proof -
  define p q where "p = - bs d x" and "q = - ck d x"
  have pa: "adj (free d) p x" and qa: "adj (free d) x q"
    using ring_prev [OF ok] ring_next [OF ok] x by (auto simp: p_def q_def)
  note rp = adj_range [OF ok pa] and rq = adj_range [OF ok qa]
  have x3: "3 \<le> x" "x < num_cells d" using x by (auto simp: free_def)
  have px: "p \<noteq> x" "q \<noteq> x" "p = 1 \<or> p \<in> free d" "q = 1 \<or> q \<in> free d"
    using adj_in [OF pa] adj_in [OF qa] x3 by auto
  let ?d1 = "put_b (put_c d p (- q)) q (- p)"
  have "da_alloc_cell d x = Some ?d1"
    using ok x3 rp rq px int32_index [OF ok, of p] int32_index [OF ok, of q]
    by (simp add: da_alloc_cell_def accessors updates p_def [symmetric] q_def [symmetric]
        flip: minus_equation_iff [of _ "bs d x"])
  moreover define d' where "d' = put_c ?d1 x v"
  have s: "sized d" using ok by simp
  have ck': "ck d' i = (if i = x then v else if i = p then - q else ck d i)" for i
    using s x3 rp rq px by (auto simp: d'_def updates)
  have bs': "bs d' i = (if i = q then - p else bs d i)" for i
    using s x3 rp rq px by (auto simp: d'_def updates)
  have n': "num_cells d' = num_cells d" "sized d'" using s by (auto simp: d'_def)
  have free': "free d' = free d - {x}"
    using v px rq rp x3 by (auto simp: free_def n' ck')
  have nodes': "nodes d' = insert x (nodes d)"
    using v px rq rp x3 by (auto simp: nodes_def free_def n' ck')
  have links': "ck d' i = - j \<and> bs d' j = - i" if "adj (free d') i j" for i j
    using adj_remove [OF free_bounds x pa qa that [unfolded free']] adj_links [OF ok, of i j] px
    by (auto simp: ck' bs')
  have "header_ok d'"
    by (rule header_frame [OF ring_header [OF ok]]) (use n' rp rq x3 in \<open>simp_all add: ck' bs'\<close>)
  then have ring': "ring_ok d'" by (rule ring_okI) (rule links')
  have same: "\<forall>i\<in>nodes d. bs d' i = bs d i \<and> ck d' i = ck d i"
  proof
    fix i assume "i \<in> nodes d"
    then have "i \<noteq> x" "i \<noteq> p" "i \<noteq> q" using node_not_free [of i d] px x by auto
    then show "bs d' i = bs d i \<and> ck d' i = ck d i" by (simp add: ck' bs')
  qed
  moreover have "ck d' x = v" "bs d' x = bs d x" "bs d x < 0" using px rp by (auto simp: ck' bs' p_def)
  ultimately show ?thesis
    using n' free' nodes' ring' by (auto simp: Let_def d'_def)
qed

section \<open>Giving a cell back\<close>

lemma free_from_ok:
  assumes ok: "ring_ok d" and "i = 1 \<or> i \<in> free d" and "adj (free d) p i" "p = 1 \<or> p < b"
  shows "\<exists>p j. free_from d b i = Some j \<and> adj (free d) p j \<and> (p = 1 \<or> p < b) \<and> (j = 1 \<or> b \<le> j)"
  using assms(2-)
proof (induction "nat (num_cells d - i)" arbitrary: i p rule: less_induct)
  case less
  show ?case
  proof (cases "i \<noteq> 1 \<and> i < b")
    case True
    then have i: "i \<in> free d" using less.prems by auto
    then have r: "3 \<le> i" "i < num_cells d" by (auto simp: free_def)
    let ?j = "- ck d i"
    have a: "adj (free d) i ?j" by (rule ring_next [OF ok]) (use i in auto)
    have run: "free_from d b i = free_from d b ?j"
      using True r ok adj_range [OF ok a] int32_index [OF ok, of ?j]
      by (subst free_from.simps) (simp add: da_get_free_list_def accessors)
    show ?thesis
    proof (cases "?j = 1")
      case True
      then have "free_from d b ?j = Some 1"
        by (subst free_from.simps) (simp add: da_get_free_list_def)
      with run True a \<open>i \<noteq> 1 \<and> i < b\<close> show ?thesis
        by (intro exI [of _ i] exI [of _ 1]) auto
    next
      case False
      then have "?j \<in> free d" "i < ?j" using adj_in [OF a] by auto
      then show ?thesis
        using less.hyps [of ?j i] r a run True by auto
    qed
  next
    case False
    then have "free_from d b i = Some i"
      by (subst free_from.simps) (auto simp: da_get_free_list_def)
    with False less.prems show ?thesis by (intro exI [of _ p] exI [of _ i]) auto
  qed
qed

lemma free_cell_ok:
  assumes ok: "ring_ok d" and x: "x \<in> nodes d" "x \<noteq> 2"
  shows "\<exists>d'. da_free_cell d x = Some d' \<and> ring_ok d' \<and> num_cells d' = num_cells d \<and>
    free d' = insert x (free d) \<and> nodes d' = nodes d - {x} \<and>
    (\<forall>i\<in>nodes d - {x}. bs d' i = bs d i \<and> ck d' i = ck d i)"
proof -
  have x3: "3 \<le> x" "x < num_cells d" "x \<notin> free d" using x by (auto simp: nodes_def free_def)
  let ?i = "- ck d 1"
  have a1: "adj (free d) 1 ?i" using ring_next [OF ok] by simp
  then obtain p q where run: "free_from d x ?i = Some q" and pq: "adj (free d) p q"
    and b: "p = 1 \<or> p < x" "q = 1 \<or> x \<le> q"
    using free_from_ok [OF ok _ a1, of x] adj_in [OF a1] by blast
  note r = adj_range [OF ok pq]
  have px: "p < x" "q = 1 \<or> x < q" "p \<noteq> x" "q \<noteq> x"
    using b x3 adj_in [OF pq] by auto
  have links: "ck d p = - q" "bs d q = - p" using adj_links [OF ok pq] by auto
  let ?d = "put_b (put_c (put_b (put_c d x (- q)) x (- p)) p (- x)) q (- x)"
  have "da_free_cell d x = Some ?d"
    using ok run r x3 adj_range [OF ok a1] int32_index [OF ok, of ?i] int32_index [OF ok, of p] links
    by (simp add: da_free_cell_def da_get_free_list_def accessors)
  moreover define d' where "d' = ?d"
  have s: "sized d" using ok by simp
  have ck': "ck d' i = (if i = x then - q else if i = p then - x else ck d i)" for i
    using s x3 r px by (auto simp: d'_def updates)
  have bs': "bs d' i = (if i = x then - p else if i = q then - x else bs d i)" for i
    using s x3 r px by (auto simp: d'_def updates)
  have n': "num_cells d' = num_cells d" "sized d'" using s by (auto simp: d'_def)
  have in_: "p = 1 \<or> p \<in> free d" "q = 1 \<or> q \<in> free d" using adj_in [OF pq] by auto
  have free': "free d' = insert x (free d)"
    using in_ r x3 by (auto simp: free_def n' ck')
  have nodes': "nodes d' = nodes d - {x}"
    using in_ r x3 by (auto simp: nodes_def free_def n' ck')
  have links': "ck d' i = - j \<and> bs d' j = - i" if "adj (free d') i j" for i j
    using adj_insert [OF free_bounds x3(3,1) pq px(1,2) that [unfolded free']] adj_links [OF ok, of i j] px
    by (auto simp: ck' bs')
  have "header_ok d'"
    by (rule header_frame [OF ring_header [OF ok]]) (use n' r x3 in \<open>simp_all add: ck' bs'\<close>)
  then have ring': "ring_ok d'" by (rule ring_okI) (rule links')
  have same: "\<forall>i\<in>nodes d - {x}. bs d' i = bs d i \<and> ck d' i = ck d i"
  proof
    fix i assume "i \<in> nodes d - {x}"
    then have "i \<noteq> x" "i \<noteq> p" "i \<noteq> q" using node_not_free [of i d] in_ by auto
    then show "bs d' i = bs d i \<and> ck d' i = ck d i" by (simp add: ck' bs')
  qed
  ultimately show ?thesis using n' free' nodes' ring' by (auto simp: d'_def)
qed

section \<open>Extending the pool\<close>

text \<open>\<open>d'\<close> is \<open>d\<close> with more free cells at its end.\<close>

definition extends :: "DArray \<Rightarrow> DArray \<Rightarrow> bool" where
  "extends d d' \<longleftrightarrow> ring_ok d' \<and> num_cells d \<le> num_cells d' \<and>
     free d' = free d \<union> {num_cells d..<num_cells d'} \<and> nodes d' = nodes d \<and>
     (\<forall>i\<in>nodes d. bs d' i = bs d i \<and> ck d' i = ck d i)"

lemma extends_refl: "ring_ok d \<Longrightarrow> extends d d"
  by (simp add: extends_def)

lemma extends_trans:
  assumes 1: "extends d d'" and 2: "extends d' d''"
  shows "extends d d''"
proof -
  have "{num_cells d..<num_cells d'} \<union> {num_cells d'..<num_cells d''} = {num_cells d..<num_cells d''}"
    using 1 2 by (auto simp: extends_def)
  then have "free d'' = free d \<union> {num_cells d..<num_cells d''}"
    using 1 2 by (auto simp: extends_def)
  then show ?thesis using 1 2 by (simp add: extends_def)
qed

lemma extends_ring: "extends d d' \<Longrightarrow> ring_ok d'"
  by (simp add: extends_def)

lemma link_new_ok:
  assumes "sized d" "0 \<le> a" "a \<le> b" "b < num_cells d"
  shows "\<exists>d'. link_new d [a .. b - 1] = Some d' \<and> sized d' \<and> num_cells d' = num_cells d \<and>
    (\<forall>i. ck d' i = (if a \<le> i \<and> i < b then - (i + 1) else ck d i)) \<and>
    (\<forall>i. bs d' i = (if a < i \<and> i \<le> b then - (i - 1) else bs d i))"
  using assms
proof (induction "nat (b - a)" arbitrary: a d)
  case 0
  then show ?case by auto
next
  case (Suc n)
  let ?d = "put_b (put_c d a (- (a + 1))) (a + 1) (- a)"
  have l: "[a .. b - 1] = a # [a + 1 .. b - 1]" using Suc by (simp add: upto_rec1)
  have "\<exists>d'. link_new ?d [a + 1 .. b - 1] = Some d' \<and> sized d' \<and> num_cells d' = num_cells ?d \<and>
    (\<forall>i. ck d' i = (if a + 1 \<le> i \<and> i < b then - (i + 1) else ck ?d i)) \<and>
    (\<forall>i. bs d' i = (if a + 1 < i \<and> i \<le> b then - (i - 1) else bs ?d i))"
    using Suc.hyps(2) Suc.prems by (intro Suc.hyps(1)) auto
  then obtain d' where d': "link_new ?d [a + 1 .. b - 1] = Some d'" "sized d'" "num_cells d' = num_cells d"
    "\<And>i. ck d' i = (if a + 1 \<le> i \<and> i < b then - (i + 1) else ck ?d i)"
    "\<And>i. bs d' i = (if a + 1 < i \<and> i \<le> b then - (i - 1) else bs ?d i)" by auto
  have "link_new d [a .. b - 1] = Some d'" using d'(1) Suc.prems by (simp add: l accessors)
  moreover have "ck d' i = (if a \<le> i \<and> i < b then - (i + 1) else ck d i)" for i
    using Suc.prems Suc.hyps(2) by (auto simp: d'(4) updates)
  moreover have "bs d' i = (if a < i \<and> i \<le> b then - (i - 1) else bs d i)" for i
    using Suc.prems Suc.hyps(2) by (auto simp: d'(5) updates)
  ultimately show ?case using d'(2,3) by blast
qed

lemma put_c_header:
  "sized d \<Longrightarrow> 3 \<le> num_cells d \<Longrightarrow>
   (do { c \<leftarrow> arr_get (cells d) 0; cs \<leftarrow> arr_set (cells d) 0 (c\<lparr>ccheck := v\<rparr>); Some (True, d\<lparr>cells := cs\<rparr>) })
   = Some (True, put_c d 0 v)"
  by (cases "cells d") (simp_all add: put_c_def sized_def accessors)

lemma extend_pool_ok:
  assumes ok: "ring_ok d" and to: "0 < to" "to < TRIE_INDEX_MAX"
  shows "\<exists>d'. da_extend_pool d to = Some (True, d') \<and> extends d d' \<and>
           num_cells d' = max (num_cells d) (to + 1)"
proof (cases "to < num_cells d")
  case True
  then show ?thesis using to ok by (auto simp: da_extend_pool_def extends_refl)
next
  case False
  define n where "n = num_cells d"
  have n: "3 \<le> n" "n \<le> to" using ring_room [OF ok] False by (auto simp: n_def)
  let ?d0 = "d\<lparr>cells := cells d @ replicate (nat (to + 1 - n)) \<lparr>cbase = 0, ccheck = 0\<rparr>, num_cells := to + 1\<rparr>"
  have s: "sized d" using ok by simp
  have s0: "sized ?d0" using s n by (simp add: sized_def n_def)
  have bs0: "bs ?d0 i = bs d i" and ck0: "ck ?d0 i = ck d i" for i
    using s n by (auto simp: bs_def ck_def sized_def n_def nth_append nat_less_iff)
  obtain d1 where d1: "link_new ?d0 [n .. to - 1] = Some d1" "sized d1" "num_cells d1 = to + 1"
    "\<And>i. ck d1 i = (if n \<le> i \<and> i < to then - (i + 1) else ck d i)"
    "\<And>i. bs d1 i = (if n < i \<and> i \<le> to then - (i - 1) else bs d i)"
    using link_new_ok [OF s0, of n to] n by (auto simp: bs0 ck0)
  define p where "p = - bs d 1"
  have p: "adj (free d) p 1" using ring_prev [OF ok] by (simp add: p_def)
  note rp = adj_range [OF ok p]
  have pn: "p < n" using rp by (simp add: n_def)
  let ?d2 = "put_b (put_c (put_b (put_c d1 p (- n)) n (- p)) to (- 1)) 1 (- to)"
  let ?d' = "put_c ?d2 0 (to + 1)"
  have b1: "bs d1 1 = - p" using n by (simp add: d1(5) p_def)
  have run: "da_extend_pool d to = Some (True, ?d')"
  proof -
    have "da_extend_pool d to = (do { c \<leftarrow> arr_get (cells ?d2) 0;
        cs \<leftarrow> arr_set (cells ?d2) 0 (c\<lparr>ccheck := to + 1\<rparr>); Some (True, ?d2\<lparr>cells := cs\<rparr>) })"
      using d1(1) to False n d1(2,3) b1 rp int32_index [OF ok, of p]
      by (simp add: da_extend_pool_def n_def [symmetric] da_get_free_list_def accessors)
    then show ?thesis using put_c_header [of ?d2 "to + 1"] d1 n by simp
  qed
  define d' where "d' = ?d'"
  have n': "num_cells d' = to + 1" "sized d'" by (simp_all add: d'_def d1)
  have ck': "ck d' i = (if i = 0 then to + 1 else if i = to then - 1 else if i = p then - n
      else if n \<le> i \<and> i < to then - (i + 1) else ck d i)" for i
    using d1(2,3) n rp pn by (auto simp: d'_def updates d1(4))
  have bs': "bs d' i = (if i = 1 then - to else if i = n then - p
      else if n < i \<and> i \<le> to then - (i - 1) else bs d i)" for i
    using d1(2,3) n rp pn by (auto simp: d'_def updates d1(5))
  have p2: "p = 1 \<or> p \<in> free d" using adj_in [OF p] by auto
  have free': "free d' = free d \<union> {n..to}"
    using n p2 rp pn by (auto simp: free_def n' ck' n_def [symmetric])
  have "ck d to = 0" "\<And>i. n \<le> i \<Longrightarrow> ck d i = 0" using n by (auto simp: ck_def n_def)
  then have nodes': "nodes d' = nodes d"
    using n p2 rp pn by (auto simp: nodes_def free_def n' ck' n_def [symmetric])
  have F: "\<forall>k\<in>free d. 3 \<le> k \<and> k < n" by (auto simp: free_def n_def)
  have links: "ck d' i = - j \<and> bs d' j = - i" if a: "adj (free d') i j" for i j
  proof -
    have "\<not> (i = 0)" "j \<noteq> 0" using adj_in [OF a] n F unfolding free' by auto
    then show ?thesis
      using adj_extend [OF F n p a [unfolded free']] adj_links [OF ok, of i j] rp pn n
      by (auto simp: ck' bs')
  qed
  have "header_ok d'"
    using ring_header [OF ok] n to n' by (simp add: header_ok_def ck' bs')
  then have "ring_ok d'" by (rule ring_okI) (rule links)
  moreover have "\<forall>i\<in>nodes d. bs d' i = bs d i \<and> ck d' i = ck d i"
  proof
    fix i assume i: "i \<in> nodes d"
    then have "i < n" "i \<noteq> 0" "i \<noteq> 1" "i \<noteq> p" "i \<noteq> to" using n p2 node_not_free [OF i] by (auto simp: nodes_def n_def)
    then show "bs d' i = bs d i \<and> ck d' i = ck d i" by (simp add: ck' bs')
  qed
  ultimately have "extends d d'" using free' nodes' n n' by (auto simp: extends_def n_def)
  then show ?thesis using run n n' by (auto simp: d'_def n_def)
qed

lemma extend_pool_refused: "to \<le> 0 \<or> TRIE_INDEX_MAX \<le> to \<Longrightarrow> da_extend_pool d to = Some (False, d)"
  by (simp add: da_extend_pool_def)

lemma check_free_cell_ok:
  assumes ok: "ring_ok d" and s: "3 \<le> s" "s < TRIE_INDEX_MAX"
  shows "\<exists>d'. da_check_free_cell d s = Some (s \<in> free d', d') \<and> extends d d' \<and>
           num_cells d' = max (num_cells d) (s + 1)"
proof -
  obtain d' where d': "da_extend_pool d s = Some (True, d')" "extends d d'" "num_cells d' = max (num_cells d) (s + 1)"
    using extend_pool_ok [OF ok, of s] s by auto
  then show ?thesis using s extends_ring [OF d'(2)]
    by (auto simp: da_check_free_cell_def accessors free_def)
qed

end
