(* ===== verification/Branching.thy ===== *)
theory Branching
  imports FreeList
begin

text \<open>
  The double array as a set of branches: the invariant that makes its cells a tree below the root,
  the search for a free base, relocation as a renaming of nodes, and what inserting and pruning a
  branch do to the paths from the root.
\<close>

section \<open>The search for a free base\<close>

lemma free_extends: "extends d d' \<Longrightarrow> i \<in> free d \<Longrightarrow> i \<in> free d'"
  by (simp add: extends_def)

lemma uint8_range: "0 \<le> uint (y :: TrieChar) \<and> uint y \<le> 255"
  using uint_lt2p [of y] by simp

lemma fit_symbols_ok:
  assumes "ring_ok d" and "\<forall>y\<in>set syms. 3 \<le> b + uint y" and "b + 255 < TRIE_INDEX_MAX"
  shows "\<exists>ok d'. da_fit_symbols d b syms = Some (ok, d') \<and> extends d d' \<and>
     num_cells d' \<le> max (num_cells d) (b + 256) \<and>
     (if ok then \<forall>y\<in>set syms. b + uint y \<in> free d' else \<exists>y\<in>set syms. b + uint y \<in> nodes d)"
  using assms(1,2)
proof (induction syms arbitrary: d)
  case Nil
  then show ?case by (auto simp: extends_refl intro: exI [of _ True])
next
  case (Cons y syms)
  have y: "3 \<le> b + uint y" "b + uint y < TRIE_INDEX_MAX" "\<not> b > TRIE_INDEX_MAX - uint y"
    "b + uint y + 1 \<le> b + 256"
    using Cons.prems assms(3) uint8_range [of y] by auto
  obtain d1 where d1: "da_check_free_cell d (b + uint y) = Some (b + uint y \<in> free d1, d1)"
    "extends d d1" "num_cells d1 = max (num_cells d) (b + uint y + 1)"
    using check_free_cell_ok [OF Cons.prems(1) y(1,2)] by blast
  show ?case
  proof (cases "b + uint y \<in> free d1")
    case True
    obtain ok d2 where d2: "da_fit_symbols d1 b syms = Some (ok, d2)" "extends d1 d2"
      "num_cells d2 \<le> max (num_cells d1) (b + 256)"
      "if ok then \<forall>y\<in>set syms. b + uint y \<in> free d2 else \<exists>y\<in>set syms. b + uint y \<in> nodes d1"
      using Cons.IH [OF extends_ring [OF d1(2)]] Cons.prems(2) by auto
    moreover have "b + uint y \<in> free d2" using free_extends [OF d2(2) True] .
    moreover have "nodes d1 = nodes d" using d1(2) by (simp add: extends_def)
    moreover have "da_fit_symbols d b (y # syms) = Some (ok, d2)" using d1(1) d2(1) y(3) True by simp
    moreover have "num_cells d2 \<le> max (num_cells d) (b + 256)" using d1(3) d2(3) y(4) by linarith
    ultimately show ?thesis using extends_trans [OF d1(2) d2(2)]
      by (intro exI [of _ ok] exI [of _ d2]) (simp split: if_splits)
  next
    case False
    then have "b + uint y \<in> nodes d"
      using node_or_free [of "b + uint y" d1] y d1(2,3) by (auto simp: extends_def)
    moreover have "da_fit_symbols d b (y # syms) = Some (False, d1)" using d1(1) y(3) False by simp
    moreover have "num_cells d1 \<le> max (num_cells d) (b + 256)" using d1(3) y(4) by linarith
    ultimately show ?thesis using d1(2) by (intro exI [of _ False] exI [of _ d1]) simp
  qed
qed

lemma find_beyond_ok:
  assumes "ring_ok d" and "3 \<le> s" and "max s (num_cells d) + 1 < TRIE_INDEX_MAX"
  shows "\<exists>s' d'. find_beyond d s = Some (s', d') \<and> extends d d' \<and> s \<le> s' \<and> s' \<in> free d' \<and>
           num_cells d' \<le> max (num_cells d + 1) (s + 1)"
  using assms
proof (induction "nat (num_cells d - s)" arbitrary: s rule: less_induct)
  case less
  have "s < TRIE_INDEX_MAX" using less.prems by simp
  then obtain d1 where d1: "da_extend_pool d s = Some (True, d1)" "extends d d1"
    "num_cells d1 = max (num_cells d) (s + 1)"
    using extend_pool_ok [OF less.prems(1), of s] less.prems(2) by auto
  have s1: "sized d1" using d1 extends_ring by simp
  show ?case
  proof (cases "s \<in> free d1")
    case True
    then have "find_beyond d s = Some (s, d1)"
      using d1 less.prems(2) s1 by (subst find_beyond.simps) (simp add: accessors free_def)
    with True d1 show ?thesis by auto
  next
    case False
    then have sn: "s < num_cells d" using d1 less.prems(2) by (auto simp: extends_def)
    then have d: "d1 = d" using d1(1) less.prems(1,2) ring_room [OF less.prems(1)]
      by (auto simp: da_extend_pool_def split: if_splits)
    have "find_beyond d s = find_beyond d (s + 1)"
      using False d1(1) less.prems(1,2) sn unfolding d
      by (subst find_beyond.simps) (simp add: accessors free_def)
    moreover obtain s' d' where "find_beyond d (s + 1) = Some (s', d') \<and> extends d d' \<and> s + 1 \<le> s' \<and> s' \<in> free d' \<and>
           num_cells d' \<le> max (num_cells d + 1) (s + 1 + 1)"
      using less.hyps [of "s + 1"] less.prems sn by auto
    ultimately show ?thesis using sn by (intro exI [of _ s'] exI [of _ d']) auto
  qed
qed

lemma find_fit_ok:
  assumes ok: "ring_ok d0" and room: "num_cells d0 + 256 < TRIE_INDEX_MAX"
    and first: "0 \<le> f" "\<forall>y\<in>set syms. f \<le> uint y" and lo: "f + 3 \<le> s0"
    and "extends d0 d" "s \<in> free d" "s0 \<le> s" "s \<le> num_cells d0" "num_cells d \<le> num_cells d0 + 256"
  shows "\<exists>b d'. find_fit f syms d s = Some (b, d') \<and> extends d0 d' \<and> 3 \<le> b \<and> b \<le> num_cells d0 \<and>
     (\<forall>y\<in>set syms. b + uint y \<in> free d') \<and> num_cells d' \<le> num_cells d0 + 256"
  using assms(6-)
proof (induction "nat (num_cells d0 - s)" arbitrary: d s rule: less_induct)
  case less
  let ?m = "num_cells d0"
  have r: "ring_ok d" using less.prems(1) by (rule extends_ring)
  have s: "3 \<le> s" "s < num_cells d" using less.prems(2) by (auto simp: free_def)
  have "\<forall>y\<in>set syms. 3 \<le> s - f + uint y" using first s by auto
  moreover have "s - f + 255 < TRIE_INDEX_MAX" using first less.prems(4) room by simp
  ultimately obtain fits d1 where d1: "da_fit_symbols d (s - f) syms = Some (fits, d1)" "extends d d1"
    "num_cells d1 \<le> max (num_cells d) (s - f + 256)"
    "if fits then \<forall>y\<in>set syms. s - f + uint y \<in> free d1 else \<exists>y\<in>set syms. s - f + uint y \<in> nodes d"
    using fit_symbols_ok [OF r] by blast
  have e1: "extends d0 d1" using extends_trans [OF less.prems(1) d1(2)] .
  have r1: "ring_ok d1" using e1 by (rule extends_ring)
  have n1: "num_cells d1 \<le> ?m + 256" using d1(3) less.prems(4,5) first(1) by linarith
  show ?case
  proof (cases fits)
    case True
    then have "find_fit f syms d s = Some (s - f, d1)"
      using d1(1) by (subst find_fit.simps) simp
    with True d1(4) e1 n1 less.prems(3,4) lo first(1) show ?thesis by auto
  next
    case False
    then obtain y where y: "y \<in> set syms" "s - f + uint y \<in> nodes d" using d1(4) by auto
    have "nodes d = nodes d0" using less.prems(1) by (simp add: extends_def)
    then have "s - f + uint y < ?m" using y ring_room [OF ok] by (auto simp: nodes_def)
    then have sm: "s < ?m" using first(2) y(1) by fastforce
    have sf: "s \<in> free d1" using free_extends [OF d1(2) less.prems(2)] .
    define nx where "nx = - ck d1 s"
    have a: "adj (free d1) s nx" using ring_next [OF r1] sf by (simp add: nx_def)
    note ra = adj_range [OF r1 a]
    have "\<exists>d2. (if nx = 1 then da_extend_pool d1 (num_cells d1) else Some (True, d1)) = Some (True, d2) \<and>
        extends d1 d2 \<and> num_cells d2 \<le> ?m + 256 \<and> (\<exists>k\<in>free d2. s < k \<and> k \<le> ?m)"
    proof (cases "nx = 1")
      case True
      have "free d1 = free d0 \<union> {?m..<num_cells d1}" using e1 by (simp add: extends_def)
      moreover have "\<forall>k\<in>free d1. \<not> s < k" using adj_bound [OF a] True by auto
      ultimately have "num_cells d1 = ?m" using sm e1 by (force simp: extends_def)
      moreover obtain d2 where "da_extend_pool d1 (num_cells d1) = Some (True, d2)" "extends d1 d2"
        "num_cells d2 = num_cells d1 + 1"
        using extend_pool_ok [OF r1, of "num_cells d1"] ring_room [OF r1] n1 room by auto
      moreover have "num_cells d1 \<in> free d2" using calculation by (simp add: extends_def)
      ultimately show ?thesis using True sm by force
    next
      case False
      then have k: "nx \<in> free d1" "s < nx" using adj_in [OF a] by auto
      have "nx \<le> ?m"
      proof (cases "num_cells d1 = ?m")
        case False
        then have "?m \<in> free d1" using e1 by (auto simp: extends_def)
        then show ?thesis using adj_bound [OF a _ sm] by simp
      qed (use ra in simp)
      with False k n1 r1 show ?thesis by (auto simp: extends_refl)
    qed
    then obtain d2 k where d2: "(if nx = 1 then da_extend_pool d1 (num_cells d1) else Some (True, d1)) = Some (True, d2)"
      "extends d1 d2" "num_cells d2 \<le> ?m + 256" and k: "k \<in> free d2" "s < k" "k \<le> ?m" by blast
    have r2: "ring_ok d2" using d2(2) by (rule extends_ring)
    have e2: "extends d0 d2" using extends_trans [OF e1 d2(2)] .
    define nx2 where "nx2 = - ck d2 s"
    have sf2: "s \<in> free d2" using free_extends [OF d2(2) sf] .
    have a2: "adj (free d2) s nx2" using ring_next [OF r2] sf2 by (simp add: nx2_def)
    note ra2 = adj_range [OF r2 a2]
    have nx2: "nx2 \<noteq> 1" "nx2 \<le> ?m" using adj_bound [OF a2 k(1,2)] k(3) by auto
    then have nx2f: "nx2 \<in> free d2" "s < nx2" using adj_in [OF a2] by auto
    have "find_fit f syms d s = find_fit f syms d2 nx2"
      using d1(1) False s r1 r2 ra ra2 int32_index [OF r1, of nx] int32_index [OF r2, of nx2] d2(1)
      by (subst find_fit.simps)
        (simp add: accessors nx_def [symmetric] nx2_def [symmetric] da_get_free_list_def
          minus_equation_iff [of "ck d1 s" 1])
    moreover have "\<exists>b d'. find_fit f syms d2 nx2 = Some (b, d') \<and> extends d0 d' \<and> 3 \<le> b \<and> b \<le> ?m \<and>
     (\<forall>y\<in>set syms. b + uint y \<in> free d') \<and> num_cells d' \<le> ?m + 256"
      using e2 nx2f nx2 d2(3) less.prems(3) sm by (intro less.hyps) auto
    ultimately show ?thesis by simp
  qed
qed

lemma find_free_base_ok:
  assumes ok: "ring_ok d" and room: "num_cells d + 512 < TRIE_INDEX_MAX"
    and syms: "syms = y0 # ys" "\<forall>y\<in>set syms. uint y0 \<le> uint y"
  shows "\<exists>b d'. da_find_free_base d syms = Some (b, d') \<and> extends d d' \<and> 3 \<le> b \<and> b \<le> num_cells d' \<and>
     (\<forall>y\<in>set syms. b + uint y \<in> free d') \<and> num_cells d' \<le> num_cells d + 512"
proof -
  let ?f = "uint y0"
  have f: "0 \<le> ?f" "?f \<le> 255" using uint8_range [of y0] by auto
  have a1: "adj (free d) 1 (- ck d 1)" using ring_next [OF ok] by simp
  note r1 = adj_range [OF ok a1]
  obtain p j where j: "free_from d (?f + 3) (- ck d 1) = Some j" "adj (free d) p j" "j = 1 \<or> ?f + 3 \<le> j"
    using free_from_ok [OF ok _ a1, of "?f + 3"] adj_in [OF a1] by blast
  have "\<exists>s d1. (if j = 1 then find_beyond d (?f + 3) else Some (j, d)) = Some (s, d1) \<and> extends d d1 \<and>
      ?f + 3 \<le> s \<and> s \<in> free d1 \<and> num_cells d1 \<le> num_cells d + 256"
  proof (cases "j = 1")
    case True
    show ?thesis using find_beyond_ok [OF ok, of "?f + 3"] True room f ring_room [OF ok] by force
  next
    case False
    then show ?thesis using j adj_in [OF j(2)] ok by (auto simp: extends_refl)
  qed
  then obtain s d1 where s: "(if j = 1 then find_beyond d (?f + 3) else Some (j, d)) = Some (s, d1)"
    "extends d d1" "?f + 3 \<le> s" "s \<in> free d1" "num_cells d1 \<le> num_cells d + 256" by blast
  have "s \<le> num_cells d1" using s(4) by (simp add: free_def)
  then obtain b d2 where b: "find_fit ?f syms d1 s = Some (b, d2)" "extends d1 d2" "3 \<le> b"
    "b \<le> num_cells d1" "\<forall>y\<in>set syms. b + uint y \<in> free d2" "num_cells d2 \<le> num_cells d1 + 256"
    using find_fit_ok [OF extends_ring [OF s(2)] _ f(1) syms(2) s(3) extends_refl [OF extends_ring [OF s(2)]] s(4)]
      s(5) room by auto
  have s0: "s \<noteq> 0" using s(3) f by linarith
  have "da_find_free_base d syms = Some (b, d2)"
    using ok r1 int32_index [OF ok, of "- ck d 1"] j(1) s(1) s0 b(1)
    by (cases "j = 1") (simp_all add: da_find_free_base_def accessors syms(1) da_get_free_list_def
        DA_POOL_BEGIN_def TRIE_INDEX_ERROR_def Let_def)
  moreover have "num_cells d1 \<le> num_cells d2" using b(2) by (simp add: extends_def)
  ultimately show ?thesis
    using b s(5) extends_trans [OF s(2) b(2)] by (intro exI [of _ b] exI [of _ d2]) auto
qed

section \<open>Paths\<close>

definition step :: "DArray \<Rightarrow> TrieIndex \<Rightarrow> TrieChar \<Rightarrow> TrieIndex option" where
  "step d i c = (if 0 < bs d i \<and> ck d (bs d i + uint c) = i then Some (bs d i + uint c) else None)"

fun walk_from :: "DArray \<Rightarrow> TrieIndex \<Rightarrow> TrieChar list \<Rightarrow> TrieIndex option" where
  "walk_from d s [] = Some s"
| "walk_from d s (c # cs) = (case step d s c of None \<Rightarrow> None | Some t \<Rightarrow> walk_from d t cs)"

lemma walk_append:
  "walk_from d s (xs @ ys) = (case walk_from d s xs of None \<Rightarrow> None | Some t \<Rightarrow> walk_from d t ys)"
  by (induction xs arbitrary: s) (auto split: option.splits)

lemma walk_snoc:
  "walk_from d s (xs @ [c]) = (case walk_from d s xs of None \<Rightarrow> None | Some t \<Rightarrow> step d t c)"
  by (simp add: walk_append split: option.splits)

text \<open>
  The invariant: every node but the root is a child of a node, at most 254 cells above its base,
  and is reached from the root; the bases of inner nodes lie in the pool.
\<close>

definition child_ok :: "DArray \<Rightarrow> TrieIndex \<Rightarrow> bool" where
  "child_ok d i \<longleftrightarrow> ck d i \<in> nodes d \<and> 0 < bs d (ck d i) \<and> bs d (ck d i) \<le> i \<and> i \<le> bs d (ck d i) + 254"

definition da_ok :: "DArray \<Rightarrow> bool" where
  "da_ok d \<longleftrightarrow> ring_ok d \<and> ck d 2 = 0 \<and> (\<forall>i\<in>nodes d. i \<noteq> 2 \<longrightarrow> child_ok d i) \<and>
     (\<forall>i\<in>nodes d. bs d i \<le> num_cells d \<and> (0 < bs d i \<longrightarrow> 3 \<le> bs d i)) \<and>
     (\<forall>i\<in>nodes d. \<exists>ks. walk_from d 2 ks = Some i)"

lemma da_ring: "da_ok d \<Longrightarrow> ring_ok d"
  by (simp add: da_ok_def)

lemma root_node [simp]: "2 \<in> nodes d"
  by (simp add: nodes_def)

lemma node_range: "da_ok d \<Longrightarrow> i \<in> nodes d \<Longrightarrow> 2 \<le> i \<and> i < num_cells d"
  using ring_room [of d] by (auto simp: nodes_def da_ok_def)

lemma check_node:
  assumes "da_ok d" and "ck d j = i" and "2 \<le> i" "i < num_cells d"
  shows "j \<in> nodes d \<and> j \<noteq> 2"
proof -
  have h: "ck d 0 = num_cells d" "ck d 2 = 0" and r: "ring_ok d"
    using assms(1) by (auto simp: da_ok_def ring_ok_def)
  have "ck d 1 < 0"
    using adj_range [OF r ring_next [OF r, of 1]] by simp
  moreover have "0 \<le> j \<and> j < num_cells d" using assms(2,3) by (auto simp: ck_def split: if_splits)
  moreover have "j \<noteq> 0" "j \<noteq> 2" using h assms(2,3,4) by auto
  moreover have "j \<noteq> 1" using calculation(1) assms(2,3) by auto
  ultimately have "3 \<le> j" "j < num_cells d" "0 \<le> ck d j" "j \<noteq> 2" using assms(2,3) by auto
  then show ?thesis by (auto simp: nodes_def)
qed

lemma step_node:
  assumes "da_ok d" and "i \<in> nodes d" and "step d i c = Some j"
  shows "j \<in> nodes d" and "j \<noteq> 2" and "ck d j = i" and "j = bs d i + uint c" and "0 < bs d i" and "c \<noteq> 255"
proof -
  show j: "ck d j = i" "j = bs d i + uint c" "0 < bs d i" using assms(3) by (auto simp: step_def split: if_splits)
  show n: "j \<in> nodes d" "j \<noteq> 2"
    using check_node [OF assms(1) j(1)] node_range [OF assms(1,2)] by auto
  then have "child_ok d j" using assms(1) by (simp add: da_ok_def)
  then have "uint c \<le> 254" using j by (simp add: child_ok_def)
  then show "c \<noteq> 255" by auto
qed

lemma uint_small: "0 \<le> x \<Longrightarrow> x \<le> 255 \<Longrightarrow> uint (word_of_int x :: TrieChar) = x"
  by (simp add: uint_word_of_int)

lemma child_step:
  assumes "da_ok d" and "j \<in> nodes d" "j \<noteq> 2"
  shows "\<exists>c. step d (ck d j) c = Some j \<and> c \<noteq> 255"
proof -
  have c: "child_ok d j" using assms by (simp add: da_ok_def)
  define x where "x = (word_of_int (j - bs d (ck d j)) :: TrieChar)"
  have "uint x = j - bs d (ck d j)"
    unfolding x_def by (rule uint_small) (use c in \<open>simp_all add: child_ok_def\<close>)
  then have "bs d (ck d j) + uint x = j" by simp
  moreover have "0 < bs d (ck d j)" using c by (simp add: child_ok_def)
  ultimately have s: "step d (ck d j) x = Some j" by (simp only: step_def simp_thms if_True)
  moreover have "ck d j \<in> nodes d" using c by (simp add: child_ok_def)
  ultimately show ?thesis using step_node(6) [OF assms(1) _ s] by blast
qed

lemma walk_node: "da_ok d \<Longrightarrow> s \<in> nodes d \<Longrightarrow> walk_from d s ks = Some i \<Longrightarrow> i \<in> nodes d"
  by (induction ks arbitrary: s) (auto split: option.splits dest: step_node(1))

text \<open>A node has one path.\<close>

lemma walk_inj:
  assumes ok: "da_ok d" and "walk_from d 2 ks = Some i" and "walk_from d 2 ks' = Some i"
  shows "ks = ks'"
  using assms(2,3)
proof (induction ks arbitrary: i ks' rule: rev_induct)
  case Nil
  show ?case
  proof (cases ks' rule: rev_cases)
    case (snoc xs c)
    then obtain t where "walk_from d 2 xs = Some t" "step d t c = Some i"
      using Nil.prems by (auto simp: walk_snoc split: option.splits)
    then have "i \<noteq> 2" using step_node(2) [OF ok] walk_node [OF ok root_node] by blast
    then show ?thesis using Nil.prems by simp
  qed simp
next
  case (snoc c ks)
  then obtain t where t: "walk_from d 2 ks = Some t" "step d t c = Some i"
    by (auto simp: walk_snoc split: option.splits)
  note st = step_node [OF ok walk_node [OF ok root_node t(1)] t(2)]
  show ?case
  proof (cases ks' rule: rev_cases)
    case Nil
    then show ?thesis using snoc.prems st(2) by simp
  next
    case (snoc ks2 c2)
    then obtain t2 where t2: "walk_from d 2 ks2 = Some t2" "step d t2 c2 = Some i"
      using snoc.prems by (auto simp: walk_snoc split: option.splits)
    note st2 = step_node [OF ok walk_node [OF ok root_node t2(1)] t2(2)]
    have "t = t2" using st(3) st2(3) by simp
    moreover from this have "c = c2" using st(4) st2(4) by (simp add: word_uint_eq_iff)
    ultimately show ?thesis using snoc.IH [OF t(1), of ks2] t2 snoc by simp
  qed
qed

lemma not_own_parent:
  assumes ok: "da_ok d" and i: "i \<in> nodes d"
  shows "ck d i \<noteq> i"
proof (cases "i = 2")
  case True
  then show ?thesis using ok by (simp add: da_ok_def)
next
  case False
  obtain c where c: "step d (ck d i) c = Some i" using child_step [OF ok i False] by blast
  obtain ks where ks: "walk_from d 2 ks = Some i" using ok i by (auto simp: da_ok_def)
  show ?thesis
  proof
    assume "ck d i = i"
    then have "walk_from d 2 (ks @ [c]) = Some i" using c ks by (simp add: walk_snoc)
    then show False using walk_inj [OF ok ks, of "ks @ [c]"] by simp
  qed
qed

text \<open>Walking and the code: \<open>da_walk\<close> takes a step from any node that is not separate.\<close>

lemma da_walk_step:
  assumes ok: "da_ok d" and i: "i \<in> nodes d" and b: "0 \<le> bs d i" and room: "num_cells d + 255 \<le> TRIE_INDEX_MAX"
  shows "da_walk d i c = Some (case step d i c of None \<Rightarrow> (False, i) | Some j \<Rightarrow> (True, j))"
    and "da_is_walkable d i c = Some (step d i c \<noteq> None)"
proof -
  have n: "bs d i \<le> num_cells d" using ok i by (simp add: da_ok_def)
  have r: "sized d" "0 \<le> i" using da_ring [OF ok] node_range [OF ok i] by auto
  have "is_int32 (bs d i + uint c)"
    using b n room uint8_range [of c] unfolding int32_limits TRIE_INDEX_MAX_def by linarith
  moreover have "ck d (uint c) \<noteq> i" if "bs d i = 0"
  proof
    assume "ck d (uint c) = i"
    from check_node [OF ok this] have "uint c \<in> nodes d" "uint c \<noteq> 2" using node_range [OF ok i] by auto
    then have "0 < bs d (ck d (uint c))" using ok by (auto simp: da_ok_def child_ok_def)
    with \<open>ck d (uint c) = i\<close> that show False by simp
  qed
  ultimately show "da_walk d i c = Some (case step d i c of None \<Rightarrow> (False, i) | Some j \<Rightarrow> (True, j))"
    "da_is_walkable d i c = Some (step d i c \<noteq> None)"
    using b r uint8_range [of c]
    by (auto simp: da_walk_def da_is_walkable_def accessors step_def order_le_less)
qed

section \<open>The loops over the children\<close>

lemma uint_255: "uint (255 :: TrieChar) = 255"
  by simp

lemma child_chars_ok:
  assumes "0 \<le> b" and "b + 255 \<le> TRIE_INDEX_MAX"
  shows "child_chars b = Some [0 .. 254]"
  using assms by (simp add: child_chars_def TRIE_CHAR_MAX_def accessors int32_limits TRIE_INDEX_MAX_def)

lemma has_child_ok:
  "sized d \<Longrightarrow> 0 \<le> b \<Longrightarrow> \<forall>c\<in>set cs. 0 \<le> c \<Longrightarrow> has_child d s b cs = Some (\<exists>c\<in>set cs. ck d (b + c) = s)"
  by (induction cs) (auto simp: accessors)

lemma child_symbols_ok:
  "sized d \<Longrightarrow> 0 \<le> b \<Longrightarrow> \<forall>c\<in>set cs. 0 \<le> c \<Longrightarrow>
   child_symbols d s b cs = Some (map word_of_int (filter (\<lambda>c. ck d (b + c) = s) cs))"
  by (induction cs) (auto simp: accessors)

lemma has_children_ok:
  assumes ok: "da_ok d" and i: "i \<in> nodes d" and room: "num_cells d + 255 \<le> TRIE_INDEX_MAX"
  shows "da_has_children d i = Some (\<exists>c. step d i c \<noteq> None)"
proof -
  have r: "sized d" "0 \<le> i" using da_ring [OF ok] node_range [OF ok i] by auto
  have n: "bs d i \<le> num_cells d" using ok i by (simp add: da_ok_def)
  show ?thesis
  proof (cases "0 < bs d i")
    case True
    have "da_has_children d i = Some (\<exists>c\<in>{0..254}. ck d (bs d i + c) = i)"
      using True n room r
      by (simp add: da_has_children_def accessors TRIE_INDEX_ERROR_def child_chars_ok has_child_ok)
    moreover have "(\<exists>c\<in>{0..254}. ck d (bs d i + c) = i) \<longleftrightarrow> (\<exists>c. step d i c \<noteq> None)"
    proof
      assume "\<exists>c\<in>{0..254}. ck d (bs d i + c) = i"
      then obtain c where "0 \<le> c" "c \<le> 254" "ck d (bs d i + c) = i" by auto
      then have "step d i (word_of_int c) = Some (bs d i + c)"
        using True by (simp add: step_def uint_word_of_int)
      then show "\<exists>c. step d i c \<noteq> None" by blast
    next
      assume "\<exists>c. step d i c \<noteq> None"
      then obtain c j where s: "step d i c = Some j" by auto
      note st = step_node [OF ok i s]
      have "uint c \<noteq> 255" using st(6) uint_255 by (metis word_uint_eq_iff)
      then have "uint c \<in> {0..254}" using uint8_range [of c] by simp
      then show "\<exists>c\<in>{0..254}. ck d (bs d i + c) = i"
        by (rule bexI [rotated]) (use st(3,4) in simp)
    qed
    ultimately show ?thesis by simp
  next
    case False
    then show ?thesis using r by (auto simp: da_has_children_def accessors TRIE_INDEX_ERROR_def step_def)
  qed
qed

lemma output_symbols_ok:
  assumes ok: "da_ok d" and i: "i \<in> nodes d" and b: "0 < bs d i" and room: "num_cells d + 255 \<le> TRIE_INDEX_MAX"
  shows "\<exists>syms. da_output_symbols d i = Some syms \<and> sorted_wrt (<) syms \<and> set syms = {c. step d i c \<noteq> None}"
proof -
  have r: "sized d" "0 \<le> i" using da_ring [OF ok] node_range [OF ok i] by auto
  have n: "bs d i \<le> num_cells d" using ok i by (simp add: da_ok_def)
  let ?cs = "filter (\<lambda>c. ck d (bs d i + c) = i) [0 .. 254]"
  let ?syms = "map word_of_int ?cs :: TrieChar list"
  have "da_output_symbols d i = Some ?syms"
    using b n room r by (simp add: da_output_symbols_def accessors child_chars_ok child_symbols_ok)
  moreover have "sorted_wrt (<) ?syms"
  proof -
    have "sorted_wrt (<) ?cs" by (intro sorted_wrt_filter) simp
    then have "sorted_wrt (\<lambda>x y. (word_of_int x :: TrieChar) < word_of_int y) ?cs"
      by (rule sorted_wrt_mono_rel [rotated]) (auto simp: word_less_def uint_word_of_int)
    then show ?thesis by (simp add: sorted_wrt_map)
  qed
  moreover have "set ?syms = {c. step d i c \<noteq> None}"
  proof (intro equalityI subsetI)
    fix c assume "c \<in> set ?syms"
    then obtain k where k: "0 \<le> k" "k \<le> 254" "ck d (bs d i + k) = i" "c = word_of_int k" by auto
    then show "c \<in> {c. step d i c \<noteq> None}" using b by (simp add: step_def uint_word_of_int)
  next
    fix c assume "c \<in> {c. step d i c \<noteq> None}"
    then obtain j where s: "step d i c = Some j" by auto
    note st = step_node [OF ok i s]
    have "uint c \<noteq> 255" using st(6) uint_255 by (metis word_uint_eq_iff)
    then have "uint c \<in> set ?cs" using uint8_range [of c] st(3,4) by auto
    moreover have "c = word_of_int (uint c)" by simp
    ultimately show "c \<in> set ?syms" unfolding set_map by (rule rev_image_eqI)
  qed
  ultimately show ?thesis by blast
qed

section \<open>Relocation is a renaming\<close>

definition renames :: "DArray \<Rightarrow> (TrieIndex \<Rightarrow> TrieIndex) \<Rightarrow> DArray \<Rightarrow> bool" where
  "renames d \<rho> d' \<longleftrightarrow> ring_ok d' \<and> num_cells d' = num_cells d \<and> \<rho> 0 = 0 \<and> \<rho> 2 = 2 \<and>
     inj_on \<rho> (nodes d) \<and> nodes d' = \<rho> ` nodes d \<and>
     (\<forall>i\<in>nodes d. bs d' (\<rho> i) = bs d i \<and> ck d' (\<rho> i) = \<rho> (ck d i))"

lemma check_in_nodes:
  assumes ok: "ring_ok d" and "2 \<le> ck d j" "ck d j < num_cells d"
  shows "j \<in> nodes d"
proof -
  have "ck d 1 < 0" using adj_range [OF ok ring_next [OF ok, of 1]] by simp
  then have "j \<noteq> 1" using assms(2) by auto
  moreover have "j \<noteq> 0" using ok assms(3) by (auto simp: ring_ok_def)
  moreover have "0 \<le> j \<and> j < num_cells d" using assms(2) by (auto simp: ck_def split: if_splits)
  ultimately have "j = 2 \<or> 3 \<le> j \<and> j < num_cells d \<and> 0 \<le> ck d j" using assms(2) by auto
  then show ?thesis by (auto simp: nodes_def)
qed

lemma give_children_ok:
  assumes "ring_ok d" and "x \<noteq> y" "2 \<le> x" "0 \<le> y" "0 \<le> b" "\<forall>c\<in>set cs. 0 \<le> c"
    and "\<forall>j. ck d j = x \<longrightarrow> j \<in> nodes d \<and> j \<noteq> 2"
  shows "\<exists>d'. give_children d x y b cs = Some d' \<and> ring_ok d' \<and> num_cells d' = num_cells d \<and>
    free d' = free d \<and> nodes d' = nodes d \<and> (\<forall>i. bs d' i = bs d i) \<and>
    (\<forall>i. ck d' i = (if ck d i = x \<and> i - b \<in> set cs then y else ck d i))"
  using assms(1,6,7)
proof (induction cs arbitrary: d)
  case Nil
  then show ?case by simp
next
  case (Cons c cs)
  have c: "0 \<le> c" "0 \<le> b + c" using Cons.prems(2) assms(5) by auto
  have s: "sized d" using Cons.prems(1) by simp
  define d1 where "d1 = (if ck d (b + c) = x then put_c d (b + c) y else d)"
  have in_: "ck d (b + c) = x \<Longrightarrow> b + c \<in> nodes d \<and> b + c \<noteq> 2 \<and> b + c < num_cells d"
    using Cons.prems(3) assms(3) by (auto simp: ck_def split: if_splits)
  have run: "give_children d x y b (c # cs) = give_children d1 x y b cs"
    using s c by (simp add: d1_def accessors)
  have d1: "ring_ok d1" "num_cells d1 = num_cells d" "free d1 = free d" "nodes d1 = nodes d"
    using Cons.prems(1) in_ ring_put_c [OF Cons.prems(1), of "b + c" y] assms(4) by (auto simp: d1_def)
  have bs1: "bs d1 i = bs d i" and ck1: "ck d1 i = (if ck d i = x \<and> i = b + c then y else ck d i)" for i
    using s in_ c by (auto simp: d1_def updates)
  have "\<exists>d'. give_children d1 x y b cs = Some d' \<and> ring_ok d' \<and> num_cells d' = num_cells d1 \<and>
    free d' = free d1 \<and> nodes d' = nodes d1 \<and> (\<forall>i. bs d' i = bs d1 i) \<and>
    (\<forall>i. ck d' i = (if ck d1 i = x \<and> i - b \<in> set cs then y else ck d1 i))"
  proof (rule Cons.IH [OF d1(1)])
    show "\<forall>c\<in>set cs. 0 \<le> c" using Cons.prems(2) by simp
    show "\<forall>j. ck d1 j = x \<longrightarrow> j \<in> nodes d1 \<and> j \<noteq> 2"
      using Cons.prems(3) assms(2) by (auto simp: ck1 d1 split: if_splits)
  qed
  then obtain d' where d': "give_children d1 x y b cs = Some d'" "ring_ok d'" "num_cells d' = num_cells d"
    "free d' = free d" "nodes d' = nodes d" "\<forall>i. bs d' i = bs d i"
    "\<And>i. ck d' i = (if ck d1 i = x \<and> i - b \<in> set cs then y else ck d1 i)"
    using d1 by (auto simp: bs1)
  have "ck d' i = (if ck d i = x \<and> i - b \<in> set (c # cs) then y else ck d i)" for i
    using assms(2) by (auto simp: d'(7) ck1)
  with d'(1-6) run show ?case by auto
qed

lemma relocate_child_ok:
  assumes ok: "ring_ok d" and room: "num_cells d + 255 \<le> TRIE_INDEX_MAX"
    and x: "x \<in> nodes d" "x \<noteq> 2" "ck d x = s" "x \<noteq> s" and s: "s \<in> nodes d" and y: "y \<in> free d"
    and bx: "bs d x \<le> num_cells d"
    and kids: "\<forall>j. ck d j = x \<longrightarrow> j \<in> nodes d \<and> j \<noteq> 2 \<and> 0 < bs d x \<and> bs d x \<le> j \<and> j \<le> bs d x + 254"
  shows "\<exists>d'. relocate_child d s x y = Some d' \<and> renames d (\<lambda>i. if i = x then y else i) d' \<and>
    free d' = insert x (free d - {y})"
proof -
  have r: "sized d" "2 \<le> x" "0 \<le> s" "3 \<le> y" "y < num_cells d" "x \<noteq> y" "s \<noteq> y"
    using ok x s y node_not_free [of x d] node_not_free [of s d] by (auto simp: free_def)
  obtain d1 where d1: "da_alloc_cell d y = Some d1" "sized d1" "num_cells d1 = num_cells d"
    and "let d' = put_c d1 y s in ring_ok d' \<and> num_cells d' = num_cells d \<and> free d' = free d - {y} \<and>
      nodes d' = insert y (nodes d) \<and> ck d' y = s \<and> bs d' y = bs d y \<and> bs d y < 0 \<and>
      (\<forall>i\<in>nodes d. bs d' i = bs d i \<and> ck d' i = ck d i)"
    using alloc_cell_ok [OF ok y r(3)] by blast
  then obtain d2 where d2: "d2 = put_c d1 y s" "ring_ok d2" "num_cells d2 = num_cells d" "free d2 = free d - {y}"
    "nodes d2 = insert y (nodes d)" "ck d2 y = s" "\<forall>i\<in>nodes d. bs d2 i = bs d i \<and> ck d2 i = ck d i"
    by (simp add: Let_def)
  define d3 where "d3 = put_b d2 y (bs d x)"
  have s2: "sized d2" using d2(2) by simp
  have d3: "ring_ok d3" "num_cells d3 = num_cells d" "free d3 = free d - {y}" "nodes d3 = insert y (nodes d)"
    using ring_put_b [OF d2(2), of y "bs d x"] d2 by (auto simp: d3_def)
  have bs3: "bs d3 y = bs d x" and bs3': "\<And>i. i \<in> nodes d \<Longrightarrow> bs d3 i = bs d i"
    and ck3: "ck d3 y = s" "\<And>i. i \<in> nodes d \<Longrightarrow> ck d3 i = ck d i"
    using s2 d2 r node_not_free y by (auto simp: d3_def updates)
  have kids3: "\<forall>j. ck d3 j = x \<longrightarrow> j \<in> nodes d \<and> j \<noteq> 2"
  proof (intro allI impI)
    fix j assume j: "ck d3 j = x"
    have "x < num_cells d3" using x(1,2) unfolding nodes_def d3(2) by simp
    then have "j \<in> nodes d3" using r(2) unfolding j [symmetric] by (intro check_in_nodes [OF d3(1)])
    then have "j \<in> nodes d" using d3(4) j ck3(1) x(4) by auto
    then show "j \<in> nodes d \<and> j \<noteq> 2" using j ck3(2) kids by auto
  qed
  have "\<exists>d4. (if bs d x > 0 then do { cs \<leftarrow> child_chars (bs d x); give_children d3 x y (bs d x) cs }
        else Some d3) = Some d4 \<and> ring_ok d4 \<and> num_cells d4 = num_cells d \<and> free d4 = free d3 \<and>
      nodes d4 = nodes d3 \<and> (\<forall>i\<in>nodes d3. bs d4 i = bs d3 i) \<and>
      (\<forall>i\<in>nodes d3. ck d4 i = (if ck d3 i = x then y else ck d3 i))"
  proof (cases "0 < bs d x")
    case True
    have cc: "child_chars (bs d x) = Some [0 .. 254]" using True room bx by (simp add: child_chars_ok)
    have "\<exists>d'. give_children d3 x y (bs d x) [0 .. 254] = Some d' \<and> ring_ok d' \<and> num_cells d' = num_cells d3 \<and>
      free d' = free d3 \<and> nodes d' = nodes d3 \<and> (\<forall>i. bs d' i = bs d3 i) \<and>
      (\<forall>i. ck d' i = (if ck d3 i = x \<and> i - bs d x \<in> set [0 .. 254] then y else ck d3 i))"
      using True r kids3 d3 by (intro give_children_ok) auto
    moreover have "i - bs d x \<in> set [0 .. 254]" if "ck d3 i = x" for i
    proof -
      have "i \<in> nodes d" using kids3 that by blast
      then have "ck d i = x" using ck3(2) that by simp
      then have "bs d x \<le> i \<and> i \<le> bs d x + 254" using kids by blast
      then show ?thesis by auto
    qed
    ultimately show ?thesis using cc True d3(2) by auto
  next
    case False
    then have "\<not> ck d3 i = x" for i using kids3 ck3(2) kids by metis
    with False d3 show ?thesis by auto
  qed
  then obtain d4 where d4: "(if bs d x > 0 then do { cs \<leftarrow> child_chars (bs d x); give_children d3 x y (bs d x) cs }
        else Some d3) = Some d4" "ring_ok d4" "num_cells d4 = num_cells d" "free d4 = free d3" "nodes d4 = nodes d3"
    "\<forall>i\<in>nodes d3. bs d4 i = bs d3 i" "\<forall>i\<in>nodes d3. ck d4 i = (if ck d3 i = x then y else ck d3 i)" by blast
  have "x \<in> nodes d4" using d4(5) d3(4) x(1) by simp
  then obtain d5 where d5: "da_free_cell d4 x = Some d5" "ring_ok d5" "num_cells d5 = num_cells d"
    "free d5 = insert x (free d4)" "nodes d5 = nodes d4 - {x}"
    "\<forall>i\<in>nodes d4 - {x}. bs d5 i = bs d4 i \<and> ck d5 i = ck d4 i"
    using free_cell_ok [OF d4(2) _ x(2)] d4(3) by auto
  have "relocate_child d s x y = Some d5"
  proof -
    have "relocate_child d s x y = (if bs d x > 0
        then do { cs \<leftarrow> child_chars (bs d x); give_children d3 x y (bs d x) cs } else Some d3)
        \<bind> (\<lambda>d. da_free_cell d x)"
      using r d1(1,2) unfolding relocate_child_def d3_def d2(1) by (simp add: accessors)
    then show ?thesis by (simp only: d4(1) d5(1) bind.bind_lunit)
  qed
  moreover have "renames d (\<lambda>i. if i = x then y else i) d5"
    unfolding renames_def
  proof (intro conjI ballI)
    show "ring_ok d5" "num_cells d5 = num_cells d" by (rule d5)+
    show "(if (0::int) = x then y else 0) = 0" "(if 2 = x then y else 2) = 2" using r x(2) by auto
    show "inj_on (\<lambda>i. if i = x then y else i) (nodes d)"
      using node_not_free y by (auto simp: inj_on_def)
    show "nodes d5 = (\<lambda>i. if i = x then y else i) ` nodes d"
      using d5(5) d4(5) d3(4) x(1) r by auto
    fix i assume i: "i \<in> nodes d"
    have iy: "i \<noteq> y" using node_not_free [OF i] y by auto
    let ?i = "if i = x then y else i"
    have i5: "?i \<in> nodes d4 - {x}" "?i \<in> nodes d3" using i d4(5) d3(4) r by auto
    have "bs d5 ?i = bs d3 ?i" using d5(6) d4(6) i5 by simp
    also have "\<dots> = bs d i" using bs3 bs3' i by auto
    finally show "bs d5 ?i = bs d i" .
    have "ck d5 ?i = (if ck d3 ?i = x then y else ck d3 ?i)" using d5(6) d4(7) i5 by simp
    also have "\<dots> = (if ck d i = x then y else ck d i)" using ck3 i x r by auto
    finally show "ck d5 ?i = (if ck d i = x then y else ck d i)" .
  qed
  moreover have "free d5 = insert x (free d - {y})" using d5(4) d4(4) d3(3) by simp
  ultimately show ?thesis by blast
qed

lemma uint_not_255:
  assumes "c \<noteq> (255 :: TrieChar)"
  shows "uint c \<le> 254"
proof -
  have "uint c \<noteq> 255" using assms uint_255 by (metis word_uint_eq_iff)
  then show ?thesis using uint8_range [of c] by simp
qed

lemma renames_refl: "ring_ok d \<Longrightarrow> renames d (\<lambda>i. i) d"
  by (simp add: renames_def)

lemma renames_trans:
  assumes 1: "renames d \<rho> d1" and 2: "renames d1 \<sigma> d2"
  shows "renames d (\<sigma> \<circ> \<rho>) d2"
proof -
  have "inj_on (\<sigma> \<circ> \<rho>) (nodes d)"
    using 1 2 by (auto simp: renames_def intro: comp_inj_on)
  moreover have "\<rho> i \<in> nodes d1" if "i \<in> nodes d" for i using 1 that by (auto simp: renames_def)
  ultimately show ?thesis using 1 2 by (auto simp: renames_def image_comp)
qed

text \<open>The law of the children of a node: they lie in reach of its base.\<close>

definition kids_ok :: "DArray \<Rightarrow> TrieIndex \<Rightarrow> bool" where
  "kids_ok d x \<longleftrightarrow> bs d x \<le> num_cells d \<and>
     (\<forall>j. ck d j = x \<longrightarrow> j \<in> nodes d \<and> j \<noteq> 2 \<and> 0 < bs d x \<and> bs d x \<le> j \<and> j \<le> bs d x + 254)"

lemma da_ok_kids:
  assumes "da_ok d" and "x \<in> nodes d"
  shows "kids_ok d x"
proof -
  have "j \<in> nodes d \<and> j \<noteq> 2 \<and> 0 < bs d x \<and> bs d x \<le> j \<and> j \<le> bs d x + 254" if "ck d j = x" for j
  proof -
    have "j \<in> nodes d \<and> j \<noteq> 2" using check_node [OF assms(1) that] node_range [OF assms] by simp
    moreover from this have "child_ok d j" using assms(1) by (simp add: da_ok_def)
    ultimately show ?thesis using that by (simp add: child_ok_def)
  qed
  then show ?thesis using assms by (simp add: kids_ok_def da_ok_def)
qed

lemma relocate_children_ok:
  assumes "ring_ok d" and room: "num_cells d + 255 \<le> TRIE_INDEX_MAX" and "s \<in> nodes d"
    and "distinct ys" and b: "0 < ob" "ob \<le> num_cells d" "0 < nb" "nb \<le> num_cells d"
    and "\<forall>y\<in>set ys. ob + uint y \<in> nodes d \<and> ob + uint y \<noteq> 2 \<and> ob + uint y \<noteq> s \<and>
      ck d (ob + uint y) = s \<and> kids_ok d (ob + uint y) \<and> nb + uint y \<in> free d"
  shows "\<exists>d' \<rho>. relocate_children d s ob nb ys = Some d' \<and> renames d \<rho> d' \<and>
    (\<forall>i\<in>nodes d. \<rho> i = (if \<exists>y\<in>set ys. i = ob + uint y then i - ob + nb else i)) \<and>
    (\<forall>k\<in>free d. (\<forall>y\<in>set ys. k \<noteq> nb + uint y) \<longrightarrow> k \<in> free d')"
  using assms
proof (induction ys arbitrary: d)
  case Nil
  then show ?case by (auto intro!: exI [of _ "\<lambda>i. i"] renames_refl)
next
  case (Cons y ys)
  let ?x = "ob + uint y" and ?y = "nb + uint y"
  let ?\<rho>1 = "\<lambda>i. if i = ?x then ?y else i"
  have x: "?x \<in> nodes d" "?x \<noteq> 2" "?x \<noteq> s" "ck d ?x = s" "kids_ok d ?x" and y: "?y \<in> free d"
    using Cons.prems by auto
  obtain d1 where d1: "relocate_child d s ?x ?y = Some d1" "renames d ?\<rho>1 d1" "free d1 = insert ?x (free d - {?y})"
    using relocate_child_ok [OF Cons.prems(1,2) x(1,2,4,3) Cons.prems(3) y] x(5) by (auto simp: kids_ok_def)
  have n1: "num_cells d1 = num_cells d" and r1: "ring_ok d1" using d1(2) by (auto simp: renames_def)
  have nodes1: "nodes d1 = insert ?y (nodes d - {?x})" using d1(2) x(1) node_not_free y
    by (auto simp: renames_def)
  have same: "bs d1 i = bs d i" "ck d1 i = ?\<rho>1 (ck d i)" if "i \<in> nodes d" "i \<noteq> ?x" for i
    using d1(2) that by (auto simp: renames_def dest: bspec [where x = i])
  have new: "ck d1 ?y = s" using d1(2) x by (auto simp: renames_def dest: bspec [where x = ?x])
  have i32: "is_int32 ?x" "is_int32 ?y"
    using x(1) y int32_index [OF Cons.prems(1), of ?x] int32_index [OF Cons.prems(1), of ?y]
    by (auto simp: nodes_def free_def)
  have ne: "uint y' \<noteq> uint y" if "y' \<in> set ys" for y'
    using Cons.prems(4) that by (metis distinct.simps(2) word_uint_eq_iff)
  have "\<exists>d' \<rho>. relocate_children d1 s ob nb ys = Some d' \<and> renames d1 \<rho> d' \<and>
    (\<forall>i\<in>nodes d1. \<rho> i = (if \<exists>y\<in>set ys. i = ob + uint y then i - ob + nb else i)) \<and>
    (\<forall>k\<in>free d1. (\<forall>y\<in>set ys. k \<noteq> nb + uint y) \<longrightarrow> k \<in> free d')"
  proof (rule Cons.IH [OF r1])
    show "num_cells d1 + 255 \<le> TRIE_INDEX_MAX" "distinct ys" "0 < ob" "ob \<le> num_cells d1" "0 < nb" "nb \<le> num_cells d1"
      using Cons.prems n1 by auto
    show "s \<in> nodes d1" using Cons.prems(3) x(3) nodes1 by auto
    show "\<forall>y\<in>set ys. ob + uint y \<in> nodes d1 \<and> ob + uint y \<noteq> 2 \<and> ob + uint y \<noteq> s \<and>
      ck d1 (ob + uint y) = s \<and> kids_ok d1 (ob + uint y) \<and> nb + uint y \<in> free d1"
    proof
      fix y' assume y': "y' \<in> set ys"
      let ?x' = "ob + uint y'" and ?y' = "nb + uint y'"
      have h: "?x' \<in> nodes d" "?x' \<noteq> 2" "?x' \<noteq> s" "ck d ?x' = s" "kids_ok d ?x'" "?y' \<in> free d"
        using Cons.prems(9) y' by auto
      have xx: "?x' \<noteq> ?x" "?y' \<noteq> ?y" using ne [OF y'] by auto
      have "?x' \<in> nodes d1" "?y' \<in> free d1" using h(1,6) xx nodes1 d1(3) by auto
      moreover have "ck d1 ?x' = s" using same(2) [OF h(1) xx(1)] h(4) x(3) by auto
      moreover have "kids_ok d1 ?x'"
        unfolding kids_ok_def
      proof (intro conjI allI impI)
        have b: "bs d1 ?x' = bs d ?x'" using same(1) [OF h(1) xx(1)] .
        then show "bs d1 ?x' \<le> num_cells d1" using h(5) n1 by (simp add: kids_ok_def)
        fix j assume j: "ck d1 j = ?x'"
        have "2 \<le> ?x'" "?x' < num_cells d1" using h(1,2) n1 by (auto simp: nodes_def)
        then have jn: "j \<in> nodes d1" using j check_in_nodes [OF r1, of j] by simp
        have jy: "j \<noteq> ?y" using new j h(3) by auto
        then have j0: "j \<in> nodes d" "j \<noteq> ?x" using jn nodes1 by auto
        have "?x' \<noteq> ?y" using y node_not_free [OF h(1)] by auto
        then have "ck d j = ?x'" using same(2) [OF j0] j by (simp split: if_splits)
        then have k: "j \<noteq> 2 \<and> 0 < bs d ?x' \<and> bs d ?x' \<le> j \<and> j \<le> bs d ?x' + 254"
          using h(5) by (simp add: kids_ok_def)
        from jn k b show "j \<in> nodes d1" "j \<noteq> 2" "0 < bs d1 ?x'" "bs d1 ?x' \<le> j" "j \<le> bs d1 ?x' + 254"
          by simp_all
      qed
      ultimately show "?x' \<in> nodes d1 \<and> ?x' \<noteq> 2 \<and> ?x' \<noteq> s \<and> ck d1 ?x' = s \<and> kids_ok d1 ?x' \<and> ?y' \<in> free d1"
        using h by simp
    qed
  qed
  then obtain d' \<rho> where d': "relocate_children d1 s ob nb ys = Some d'" "renames d1 \<rho> d'"
    "\<forall>i\<in>nodes d1. \<rho> i = (if \<exists>y\<in>set ys. i = ob + uint y then i - ob + nb else i)"
    "\<forall>k\<in>free d1. (\<forall>y\<in>set ys. k \<noteq> nb + uint y) \<longrightarrow> k \<in> free d'" by blast
  have run: "relocate_children d s ob nb (y # ys) = Some d'"
    using i32 d1(1) d'(1) by (simp add: accessors)
  have "(\<rho> \<circ> ?\<rho>1) i = (if \<exists>y\<in>set (y # ys). i = ob + uint y then i - ob + nb else i)" if i: "i \<in> nodes d" for i
  proof (cases "i = ?x")
    case True
    have "?y \<noteq> ob + uint y'" if "y' \<in> set ys" for y'
      using Cons.prems(9) that y node_not_free [of "ob + uint y'" d] by force
    then show ?thesis using True d'(3) nodes1 by auto
  next
    case False
    then show ?thesis using d'(3) nodes1 i by auto
  qed
  moreover have "k \<in> free d'" if "k \<in> free d" "\<forall>y\<in>set (y # ys). k \<noteq> nb + uint y" for k
    using d'(4) that d1(3) by auto
  ultimately show ?case using run renames_trans [OF d1(2) d'(2)] by blast
qed

lemma walk_renames:
  assumes "\<forall>i\<in>nodes d. \<forall>c. step d' (\<rho> i) c = map_option \<rho> (step d i c)" and "\<rho> 2 = 2" and "da_ok d"
  shows "walk_from d' 2 ks = map_option \<rho> (walk_from d 2 ks)"
proof (induction ks rule: rev_induct)
  case Nil
  then show ?case using assms(2) by simp
next
  case (snoc c ks)
  then show ?case
    using assms(1) walk_node [OF assms(3) root_node, of ks] by (auto simp: walk_snoc split: option.splits)
qed

lemma relocate_base_ok:
  assumes ok: "da_ok d" and room: "num_cells d + 255 \<le> TRIE_INDEX_MAX" and s: "s \<in> nodes d"
    and b: "0 < bs d s" and nb: "3 \<le> nb" "nb \<le> num_cells d"
    and fit: "\<forall>y. step d s y \<noteq> None \<longrightarrow> nb + uint y \<in> free d"
  shows "\<exists>d' \<rho>. da_relocate_base d s nb = Some d' \<and> da_ok d' \<and> num_cells d' = num_cells d \<and>
     \<rho> s = s \<and> bs d' s = nb \<and> (\<forall>i\<in>nodes d. i \<noteq> s \<longrightarrow> bs d' (\<rho> i) = bs d i) \<and>
     (\<forall>ks. walk_from d' 2 ks = map_option \<rho> (walk_from d 2 ks)) \<and>
     (\<forall>k\<in>free d. (\<forall>y. step d s y \<noteq> None \<longrightarrow> k \<noteq> nb + uint y) \<longrightarrow> k \<in> free d')"
proof -
  let ?ob = "bs d s"
  have r: "sized d" "2 \<le> s" "s < num_cells d" "?ob \<le> num_cells d"
    using da_ring [OF ok] node_range [OF ok s] ok s by (auto simp: da_ok_def)
  obtain syms where syms: "da_output_symbols d s = Some syms" "sorted_wrt (<) syms"
    "set syms = {c. step d s c \<noteq> None}"
    using output_symbols_ok [OF ok s b room] by blast
  have ch: "?ob + uint y \<in> nodes d \<and> ?ob + uint y \<noteq> 2 \<and> ?ob + uint y \<noteq> s \<and>
      ck d (?ob + uint y) = s \<and> kids_ok d (?ob + uint y) \<and> nb + uint y \<in> free d" if yin: "y \<in> set syms" for y
  proof -
    obtain j where j: "step d s y = Some j" using yin syms(3) by auto
    note st = step_node [OF ok s j]
    then show ?thesis using fit j da_ok_kids [OF ok st(1)] not_own_parent [OF ok st(1)] by auto
  qed
  have dist: "distinct syms" using syms(2) by (simp add: strict_sorted_iff)
  obtain d1 \<rho> where d1: "relocate_children d s ?ob nb syms = Some d1" "renames d \<rho> d1"
    and \<rho>: "\<forall>i\<in>nodes d. \<rho> i = (if \<exists>y\<in>set syms. i = ?ob + uint y then i - ?ob + nb else i)"
    and fr: "\<forall>k\<in>free d. (\<forall>y\<in>set syms. k \<noteq> nb + uint y) \<longrightarrow> k \<in> free d1"
    using relocate_children_ok [OF da_ring [OF ok] room s dist b r(4) _ nb(2)] nb(1) ch by auto
  have kid: "(\<exists>y\<in>set syms. i = ?ob + uint y) \<longleftrightarrow> ck d i = s" if i: "i \<in> nodes d" for i
  proof
    assume "ck d i = s"
    moreover from this have "i \<noteq> 2" using ok r(2) by (auto simp: da_ok_def)
    ultimately obtain c where c: "step d s c = Some i" using child_step [OF ok i] by blast
    then have "c \<in> set syms" "i = ?ob + uint c" using syms(3) step_node(4) [OF ok s c] by auto
    then show "\<exists>y\<in>set syms. i = ?ob + uint y" by blast
  qed (use ch in auto)
  have \<rho>': "\<rho> i = (if ck d i = s then i - ?ob + nb else i)" if "i \<in> nodes d" for i
    using \<rho> kid that by auto
  have \<rho>s: "\<rho> s = s" using \<rho>' [OF s] not_own_parent [OF ok s] by simp
  have R: "ring_ok d1" "num_cells d1 = num_cells d" "\<rho> 0 = 0" "\<rho> 2 = 2" "inj_on \<rho> (nodes d)"
    "nodes d1 = \<rho> ` nodes d" "\<And>i. i \<in> nodes d \<Longrightarrow> bs d1 (\<rho> i) = bs d i" "\<And>i. i \<in> nodes d \<Longrightarrow> ck d1 (\<rho> i) = \<rho> (ck d i)"
    using d1(2) by (auto simp: renames_def)
  have s1: "s \<in> nodes d1" using R(6) s \<rho>s by force
  define d' where "d' = put_b d1 s nb"
  have run: "da_relocate_base d s nb = Some d'"
    using r syms(1) d1(1) R(1) by (simp add: da_relocate_base_def accessors d'_def)
  have ring': "ring_ok d'" and free': "free d' = free d1" and nodes': "nodes d' = \<rho> ` nodes d"
    using ring_put_b [OF R(1) s1, of nb] R(6) by (auto simp: d'_def)
  have n': "num_cells d' = num_cells d" using R(2) by (simp add: d'_def)
  have bs': "bs d' (\<rho> i) = (if i = s then nb else bs d i)" if "i \<in> nodes d" for i
  proof -
    have "\<rho> i = s \<longleftrightarrow> i = s" using R(5) \<rho>s s that by (metis inj_onD)
    then show ?thesis using R(1,2,7) that r by (simp add: d'_def updates)
  qed
  have ck': "ck d' (\<rho> i) = \<rho> (ck d i)" if "i \<in> nodes d" for i
    using R(1,8) that by (simp add: d'_def updates)
  have par: "ck d i \<in> nodes d" if "i \<in> nodes d" "i \<noteq> 2" for i
    using ok that by (auto simp: da_ok_def child_ok_def)
  have st: "step d' (\<rho> i) c = map_option \<rho> (step d i c)" if i: "i \<in> nodes d" for i c
  proof (cases "step d i c")
    case (Some j)
    note sj = step_node [OF ok i Some]
    have "\<rho> j = bs d' (\<rho> i) + uint c"
      using \<rho>' [OF sj(1)] sj(3,4) bs' [OF i] by auto
    moreover have "ck d' (\<rho> j) = \<rho> i" using ck' [OF sj(1)] sj(3) by simp
    moreover have "0 < bs d' (\<rho> i)" using bs' [OF i] sj(5) nb(1) by auto
    ultimately show ?thesis using Some by (simp add: step_def)
  next
    case None
    have "step d' (\<rho> i) c = None"
    proof (rule ccontr)
      assume "step d' (\<rho> i) c \<noteq> None"
      then have b': "0 < bs d' (\<rho> i)" and k: "ck d' (bs d' (\<rho> i) + uint c) = \<rho> i"
        by (auto simp: step_def split: if_splits)
      have "\<rho> i \<in> nodes d'" using nodes' i by simp
      then have "2 \<le> \<rho> i" "\<rho> i < num_cells d'" using node_not_free ring_room [OF ring'] by (auto simp: nodes_def)
      then have "bs d' (\<rho> i) + uint c \<in> nodes d'" using k check_in_nodes [OF ring'] by simp
      then obtain j where j: "j \<in> nodes d" "\<rho> j = bs d' (\<rho> i) + uint c" using nodes' by auto
      have "\<rho> (ck d j) = \<rho> i" using ck' [OF j(1)] j(2) k by simp
      moreover have "j \<noteq> 2"
      proof
        assume "j = 2"
        then have "ck d' (\<rho> j) = 0" using ck' [OF j(1)] ok R(3) by (simp add: da_ok_def)
        then show False using j(2) k \<open>2 \<le> \<rho> i\<close> by simp
      qed
      ultimately have cj: "ck d j = i" using R(5) i par [OF j(1)] by (metis inj_onD)
      then have "j = bs d i + uint c" using \<rho>' [OF j(1)] j(2) bs' [OF i] by (auto split: if_splits)
      moreover have "0 < bs d i" using da_ok_kids [OF ok i] cj by (auto simp: kids_ok_def)
      ultimately show False using None cj by (simp add: step_def)
    qed
    then show ?thesis using None by simp
  qed
  have walk: "walk_from d' 2 ks = map_option \<rho> (walk_from d 2 ks)" for ks
    using walk_renames [of d d' \<rho>] st R(4) ok by simp
  have "da_ok d'"
    unfolding da_ok_def
  proof (intro conjI ballI impI)
    show "ring_ok d'" by fact
    show "ck d' 2 = 0" using ck' [OF root_node] R(3,4) ok by (simp add: da_ok_def)
  next
    fix i' assume "i' \<in> nodes d'" "i' \<noteq> 2"
    then obtain i where i: "i \<in> nodes d" "i' = \<rho> i" "i \<noteq> 2" using nodes' R(4) by auto
    obtain c where c: "step d (ck d i) c = Some i" "c \<noteq> 255" using child_step [OF ok i(1,3)] by blast
    note p = par [OF i(1,3)]
    have "step d' (\<rho> (ck d i)) c = Some i'" using st [OF p] c(1) i(2) by simp
    then have "0 < bs d' (\<rho> (ck d i))" "i' = bs d' (\<rho> (ck d i)) + uint c" "ck d' i' = \<rho> (ck d i)"
      by (auto simp: step_def split: if_splits)
    moreover have "uint c \<le> 254"
      using c(2) by (rule uint_not_255)
    ultimately show "child_ok d' i'" using p nodes' uint8_range [of c] by (simp add: child_ok_def)
  next
    fix i' assume "i' \<in> nodes d'"
    then obtain i where i: "i \<in> nodes d" "i' = \<rho> i" using nodes' by auto
    then show "bs d' i' \<le> num_cells d'" "0 < bs d' i' \<Longrightarrow> 3 \<le> bs d' i'"
      using bs' [OF i(1)] nb n' ok by (auto simp: da_ok_def split: if_splits)
    obtain ks where "walk_from d 2 ks = Some i" using ok i(1) by (auto simp: da_ok_def)
    then have "walk_from d' 2 ks = Some i'" using walk i(2) by simp
    then show "\<exists>ks. walk_from d' 2 ks = Some i'" by blast
  qed
  moreover have "\<forall>k\<in>free d. (\<forall>y. step d s y \<noteq> None \<longrightarrow> k \<noteq> nb + uint y) \<longrightarrow> k \<in> free d'"
    using fr free' syms(3) by auto
  moreover have "\<forall>i\<in>nodes d. i \<noteq> s \<longrightarrow> bs d' (\<rho> i) = bs d i" using bs' by simp
  moreover have "bs d' s = nb" using bs' [OF s] \<rho>s by simp
  ultimately show ?thesis using run n' \<rho>s walk by (intro exI [of _ d'] exI [of _ \<rho>]) simp
qed

section \<open>Steps that keep the nodes\<close>

text \<open>States that agree on nodes and their links have the same paths.\<close>

lemma step_cong:
  assumes "da_ok d" and "ring_ok d'" and "nodes d' = nodes d" and "num_cells d \<le> num_cells d'"
    and "\<forall>i\<in>nodes d. ck d' i = ck d i" and i: "i \<in> nodes d" and "bs d' i = bs d i \<or> (bs d i \<le> 0 \<and> bs d' i \<le> 0)"
  shows "step d' i c = step d i c"
proof -
  have "ck d' j = i \<longleftrightarrow> ck d j = i" for j
  proof
    assume j: "ck d' j = i"
    have "2 \<le> i" "i < num_cells d'" using node_range [OF assms(1) i] assms(4) by auto
    then have "j \<in> nodes d" using check_in_nodes [OF assms(2), of j] j assms(3) by simp
    then show "ck d j = i" using assms(5) j by simp
  next
    assume j: "ck d j = i"
    then have "j \<in> nodes d" using check_node [OF assms(1) j] node_range [OF assms(1) i] by simp
    then show "ck d' j = i" using assms(5) j by simp
  qed
  then show ?thesis using assms(7) by (elim disjE) (simp_all add: step_def)
qed

lemma walk_cong:
  assumes "da_ok d" and "\<forall>i\<in>nodes d. \<forall>c. step d' i c = step d i c"
  shows "walk_from d' 2 ks = walk_from d 2 ks"
  using walk_renames [of d d' "\<lambda>i. i"] assms by (simp add: option.map_ident)

lemma da_ok_cong:
  assumes ok: "da_ok d" and "ring_ok d'" and n: "nodes d' = nodes d" "num_cells d \<le> num_cells d'"
    and c: "\<forall>i\<in>nodes d. ck d' i = ck d i"
    and b: "\<forall>i\<in>nodes d. bs d' i = bs d i \<or> (bs d i \<le> 0 \<and> bs d' i \<le> 0)"
  shows "da_ok d' \<and> (\<forall>ks. walk_from d' 2 ks = walk_from d 2 ks) \<and> (\<forall>i\<in>nodes d. \<forall>c. step d' i c = step d i c)"
proof -
  have st: "\<forall>i\<in>nodes d. \<forall>x. step d' i x = step d i x"
    using step_cong [OF ok assms(2) n c] b by blast
  have w: "walk_from d' 2 ks = walk_from d 2 ks" for ks by (rule walk_cong [OF ok st])
  have "child_ok d' i" if i: "i \<in> nodes d" "i \<noteq> 2" for i
  proof -
    have k: "child_ok d i" using ok i by (simp add: da_ok_def)
    then have "bs d' (ck d i) = bs d (ck d i)" using b by (auto simp: child_ok_def)
    then show ?thesis using k c i n by (simp add: child_ok_def)
  qed
  moreover have "ck d' 2 = 0" using ok c by (simp add: da_ok_def)
  moreover have "bs d' i \<le> num_cells d' \<and> (0 < bs d' i \<longrightarrow> 3 \<le> bs d' i)" if "i \<in> nodes d" for i
  proof -
    have "bs d i \<le> num_cells d \<and> (0 < bs d i \<longrightarrow> 3 \<le> bs d i)" using ok that by (simp add: da_ok_def)
    moreover have "0 \<le> num_cells d" using ring_room [OF da_ring [OF ok]] by simp
    ultimately show ?thesis using b n(2) that by fastforce
  qed
  moreover have "\<forall>i\<in>nodes d. \<exists>ks. walk_from d 2 ks = Some i" using ok by (simp add: da_ok_def)
  ultimately have "da_ok d'" using assms(2) n by (simp add: da_ok_def w)
  then show ?thesis using w st by blast
qed

lemma da_ok_extends:
  "da_ok d \<Longrightarrow> extends d d' \<Longrightarrow> da_ok d' \<and> (\<forall>ks. walk_from d' 2 ks = walk_from d 2 ks) \<and>
     (\<forall>i\<in>nodes d. \<forall>c. step d' i c = step d i c)"
  by (rule da_ok_cong) (auto simp: extends_def)

text \<open>Changing the base of a node that has no children.\<close>

lemma set_base_ok:
  assumes ok: "da_ok d" and i: "i \<in> nodes d" and leaf: "\<forall>c. step d i c = None"
    and v: "v \<le> num_cells d" "0 < v \<longrightarrow> 3 \<le> v"
  shows "da_set_base d i v = Some (put_b d i v)" and "da_ok (put_b d i v)"
    and "walk_from (put_b d i v) 2 ks = walk_from d 2 ks"
    and "nodes (put_b d i v) = nodes d" and "free (put_b d i v) = free d"
    and "bs (put_b d i v) j = (if j = i then v else bs d j)"
proof -
  let ?d = "put_b d i v"
  have r: "ring_ok d" "sized d" "2 \<le> i" "i < num_cells d"
    using da_ring [OF ok] node_range [OF ok i] by auto
  show "da_set_base d i v = Some ?d" using r by (simp add: accessors)
  have R: "ring_ok ?d" "free ?d = free d" "nodes ?d = nodes d" using ring_put_b [OF r(1) i] by auto
  show "nodes ?d = nodes d" "free ?d = free d" by (fact R)+
  have b: "bs ?d j = (if j = i then v else bs d j)" and c: "ck ?d j = ck d j" for j
    using r by (auto simp: updates)
  show "bs ?d j = (if j = i then v else bs d j)" by (rule b)
  have nokid: "ck d j \<noteq> i" if "j \<in> nodes d" "j \<noteq> 2" for j
    using child_step [OF ok that] leaf by auto
  have st: "step ?d k x = step d k x" if k: "k \<in> nodes d" for k x
  proof (cases "k = i")
    case True
    have "ck d (v + uint x) \<noteq> i"
      using check_node [OF ok, of "v + uint x" i] nokid r(3,4) by auto
    then show ?thesis using True leaf by (auto simp: step_def b c)
  qed (simp add: step_def b c)
  have w: "walk_from ?d 2 ks = walk_from d 2 ks" for ks by (rule walk_cong [OF ok]) (use st in blast)
  show "walk_from ?d 2 ks = walk_from d 2 ks" by (rule w)
  have "child_ok ?d j" if "j \<in> nodes d" "j \<noteq> 2" for j
    using ok that nokid [OF that] R(3) by (auto simp: da_ok_def child_ok_def b c)
  moreover have "\<forall>j\<in>nodes d. \<exists>ks. walk_from d 2 ks = Some j" "ck d 2 = 0"
    "\<forall>j\<in>nodes d. bs d j \<le> num_cells d \<and> (0 < bs d j \<longrightarrow> 3 \<le> bs d j)" using ok by (auto simp: da_ok_def)
  ultimately show "da_ok ?d" using R v by (simp add: da_ok_def w b c)
qed

section \<open>Linking a new branch\<close>

lemma link_branch_ok:
  assumes ok: "da_ok d" and s: "s \<in> nodes d" and b: "0 < bs d s" and c: "c \<noteq> 255"
    and next_: "bs d s + uint c \<in> free d" and ks0: "walk_from d 2 ks0 = Some s"
  shows "\<exists>d'. link_branch d s (bs d s + uint c) = Some (bs d s + uint c, d') \<and> da_ok d' \<and>
     num_cells d' = num_cells d \<and> bs d' (bs d s + uint c) < 0 \<and> bs d s + uint c \<notin> nodes d \<and>
     (\<forall>i\<in>nodes d. bs d' i = bs d i) \<and>
     (\<forall>ks. walk_from d' 2 ks = (if ks = ks0 @ [c] then Some (bs d s + uint c) else walk_from d 2 ks))"
proof -
  let ?t = "bs d s + uint c"
  have r: "ring_ok d" "2 \<le> s" "s < num_cells d" using da_ring [OF ok] node_range [OF ok s] by auto
  obtain d1 where d1: "da_alloc_cell d ?t = Some d1" "sized d1" "num_cells d1 = num_cells d"
    and "let d' = put_c d1 ?t s in ring_ok d' \<and> num_cells d' = num_cells d \<and> free d' = free d - {?t} \<and>
      nodes d' = insert ?t (nodes d) \<and> ck d' ?t = s \<and> bs d' ?t = bs d ?t \<and> bs d ?t < 0 \<and>
      (\<forall>i\<in>nodes d. bs d' i = bs d i \<and> ck d' i = ck d i)"
    using alloc_cell_ok [OF r(1) next_, of s] r by auto
  then obtain d' where d': "d' = put_c d1 ?t s" "ring_ok d'" "num_cells d' = num_cells d"
    "nodes d' = insert ?t (nodes d)" "ck d' ?t = s" "bs d' ?t < 0"
    "\<And>i. i \<in> nodes d \<Longrightarrow> bs d' i = bs d i" "\<And>i. i \<in> nodes d \<Longrightarrow> ck d' i = ck d i"
    by (auto simp: Let_def)
  have tn: "?t \<notin> nodes d" using next_ node_not_free by blast
  have run: "link_branch d s ?t = Some (?t, d')"
    using d1 d'(1) next_ free_ge [OF next_] by (simp add: link_branch_def accessors)
  have new: "step d' ?t x = None" for x using d'(6) by (simp add: step_def)
  have at_s: "step d s c = None"
    using check_node [OF ok, of ?t s] r tn by (auto simp: step_def)
  have st: "step d' i x = (if i = s \<and> x = c then Some ?t else step d i x)" if i: "i \<in> nodes d" for i x
  proof -
    have "ck d' (bs d i + uint x) = i \<longleftrightarrow> (i = s \<and> x = c) \<or> ck d (bs d i + uint x) = i"
    proof (cases "bs d i + uint x = ?t")
      case True
      have "ck d ?t \<noteq> i" using check_node [OF ok, of ?t i] node_range [OF ok i] tn by auto
      moreover have "uint x = uint c \<longleftrightarrow> x = c" by (simp add: word_uint_eq_iff)
      ultimately show ?thesis using True d'(5) by auto
    next
      case False
      then have ne: "\<not> (i = s \<and> x = c)" by auto
      have i': "2 \<le> i" "i < num_cells d" using node_range [OF ok i] by auto
      have "ck d' (bs d i + uint x) = i \<longleftrightarrow> ck d (bs d i + uint x) = i"
      proof
        assume a: "ck d' (bs d i + uint x) = i"
        then have "bs d i + uint x \<in> nodes d'" using check_in_nodes [OF d'(2)] i' d'(3) by simp
        then show "ck d (bs d i + uint x) = i" using a False d'(4,8) by auto
      next
        assume a: "ck d (bs d i + uint x) = i"
        then have "bs d i + uint x \<in> nodes d" using check_node [OF ok a] i' by simp
        then show "ck d' (bs d i + uint x) = i" using a d'(8) by simp
      qed
      then show ?thesis using ne by blast
    qed
    then show ?thesis using d'(7) [OF i] b by (auto simp: step_def)
  qed
  have walk: "walk_from d' 2 ks = (if ks = ks0 @ [c] then Some ?t else walk_from d 2 ks)" for ks
  proof (induction ks rule: rev_induct)
    case Nil
    then show ?case by simp
  next
    case (snoc x ks)
    show ?case
    proof (cases "ks = ks0 @ [c]")
      case True
      have "walk_from d 2 (ks0 @ [c]) = None" using ks0 at_s by (simp add: walk_snoc)
      then have "walk_from d 2 (ks @ [x]) = None"
        unfolding True walk_append [of d 2 "ks0 @ [c]"] by simp
      moreover have "walk_from d' 2 ks = Some ?t" using snoc True by simp
      then have "walk_from d' 2 (ks @ [x]) = None" using new by (simp add: walk_snoc)
      ultimately show ?thesis using True by auto
    next
      case False
      show ?thesis
      proof (cases "walk_from d 2 ks")
        case None
        then have "ks \<noteq> ks0" using ks0 by auto
        then show ?thesis using snoc False None by (simp add: walk_snoc)
      next
        case (Some i)
        have i: "i \<in> nodes d" using walk_node [OF ok root_node Some] .
        have "i = s \<longleftrightarrow> ks = ks0" using Some ks0 walk_inj [OF ok ks0] by (metis option.inject)
        then have e: "ks @ [x] = ks0 @ [c] \<longleftrightarrow> i = s \<and> x = c" by auto
        have "walk_from d' 2 ks = Some i" using snoc False Some by simp
        then have "walk_from d' 2 (ks @ [x]) = step d' i x" by (simp add: walk_snoc)
        moreover have "walk_from d 2 (ks @ [x]) = step d i x" using Some by (simp add: walk_snoc)
        ultimately show ?thesis by (simp only: st [OF i] e)
      qed
    qed
  qed
  have "da_ok d'"
    unfolding da_ok_def
  proof (intro conjI ballI impI)
    show "ring_ok d'" by fact
    show "ck d' 2 = 0" using d'(8) [OF root_node] ok by (simp add: da_ok_def)
    fix i assume i: "i \<in> nodes d'"
    show "child_ok d' i" if "i \<noteq> 2"
    proof (cases "i = ?t")
      case True
      then show ?thesis using d'(4,5,7) s b uint8_range [of c] uint_not_255 [OF c] by (simp add: child_ok_def)
    next
      case False
      then have "i \<in> nodes d" using i d'(4) by simp
      moreover from this have "child_ok d i" using ok that by (simp add: da_ok_def)
      ultimately show ?thesis using d'(4,7,8) by (simp add: child_ok_def)
    qed
    show "bs d' i \<le> num_cells d'" "0 < bs d' i \<Longrightarrow> 3 \<le> bs d' i"
      using i d'(3,4,6,7) ok ring_room [OF r(1)] by (auto simp: da_ok_def)
    show "\<exists>ks. walk_from d' 2 ks = Some i"
    proof (cases "i = ?t")
      case True
      then show ?thesis using walk by auto
    next
      case False
      then obtain ks where "walk_from d 2 ks = Some i" using i d'(4) ok by (auto simp: da_ok_def)
      moreover have "walk_from d 2 (ks0 @ [c]) = None" using ks0 at_s by (simp add: walk_snoc)
      ultimately have "walk_from d' 2 ks = Some i" using walk by auto
      then show ?thesis by blast
    qed
  qed
  then show ?thesis using run walk d' tn by auto
qed

section \<open>Inserting a branch\<close>

text \<open>
  The view of the double array that the trie uses: at the end of a path there is nothing, an inner
  node (0), or a separate node with its negative base.
\<close>

definition da_view :: "DArray \<Rightarrow> TrieChar list \<Rightarrow> TrieIndex option" where
  "da_view d ks = map_option (\<lambda>i. min 0 (bs d i)) (walk_from d 2 ks)"

lemma symbols_find_ok:
  assumes "sorted_wrt (<) syms" and "l \<le> u" "u \<le> length syms"
    and "\<forall>i<l. syms ! i < c" and "\<forall>i. u \<le> i \<and> i < length syms \<longrightarrow> c < syms ! i" and "c \<notin> set syms"
  shows "\<exists>k. symbols_find syms c l u = Some k \<and> k \<le> length syms \<and> (\<forall>i<k. syms ! i < c) \<and>
     (\<forall>i. k \<le> i \<and> i < length syms \<longrightarrow> c < syms ! i)"
  using assms(2-5)
proof (induction "u - l" arbitrary: l u rule: less_induct)
  case less
  show ?case
  proof (cases "l < u")
    case False
    then show ?thesis using less.prems by (subst symbols_find.simps) auto
  next
    case True
    let ?m = "(l + u) div 2"
    have m: "l \<le> ?m" "?m < u" "?m < length syms" using True less.prems(2) by auto
    have mono: "syms ! i \<le> syms ! j" if "i \<le> j" "j < length syms" for i j
      using sorted_wrt_nth_less [OF assms(1), of i j] that by (cases "i = j") auto
    show ?thesis
    proof (cases "syms ! ?m < c")
      case True
      have "\<exists>k. symbols_find syms c (?m + 1) u = Some k \<and> k \<le> length syms \<and> (\<forall>i<k. syms ! i < c) \<and>
          (\<forall>i. k \<le> i \<and> i < length syms \<longrightarrow> c < syms ! i)"
      proof (rule less.hyps)
        show "u - (?m + 1) < u - l" "?m + 1 \<le> u" "u \<le> length syms" using m less.prems(2) by auto
        show "\<forall>i<?m + 1. syms ! i < c"
        proof (intro allI impI)
          fix i assume "i < ?m + 1"
          then have "syms ! i \<le> syms ! ?m" using mono [of i ?m] m(3) by simp
          then show "syms ! i < c" using True by (rule le_less_trans)
        qed
        show "\<forall>i. u \<le> i \<and> i < length syms \<longrightarrow> c < syms ! i" by (rule less.prems(4))
      qed
      then show ?thesis using True \<open>l < u\<close> by (subst symbols_find.simps) (simp add: Let_def)
    next
      case False
      moreover have "syms ! ?m \<noteq> c" using assms(6) nth_mem [OF m(3)] by metis
      ultimately have gt: "c < syms ! ?m" by simp
      have "\<exists>k. symbols_find syms c l ?m = Some k \<and> k \<le> length syms \<and> (\<forall>i<k. syms ! i < c) \<and>
          (\<forall>i. k \<le> i \<and> i < length syms \<longrightarrow> c < syms ! i)"
      proof (rule less.hyps)
        show "?m - l < u - l" "l \<le> ?m" "?m \<le> length syms" using m by auto
        show "\<forall>i<l. syms ! i < c" by (rule less.prems(3))
        show "\<forall>i. ?m \<le> i \<and> i < length syms \<longrightarrow> c < syms ! i" 
          using mono [of ?m] less_le_trans [OF gt] by blast
      qed
      then show ?thesis using False gt \<open>l < u\<close> by (subst symbols_find.simps) (simp add: Let_def)
    qed
  qed
qed

lemma symbols_add_ok:
  assumes "sorted_wrt (<) syms" and "c \<notin> set syms"
  shows "\<exists>y ys. symbols_add syms c = Some (y # ys) \<and> set (y # ys) = insert c (set syms) \<and>
     (\<forall>z\<in>set (y # ys). uint y \<le> uint z)"
proof -
  obtain k where k: "symbols_find syms c 0 (length syms) = Some k" "k \<le> length syms"
    "\<forall>i<k. syms ! i < c" "\<forall>i. k \<le> i \<and> i < length syms \<longrightarrow> c < syms ! i"
    using symbols_find_ok [OF assms(1) _ _ _ _ assms(2), of 0 "length syms"]
    by (metis bot_nat_0.extremum linorder_not_le not_less_zero order_refl)
  have "card (insert c (set syms)) \<le> card (UNIV :: TrieChar set)" by (rule card_mono) auto
  moreover have "card (insert c (set syms)) = Suc (length syms)"
    using assms by (simp add: strict_sorted_iff distinct_card)
  ultimately have "length syms < 256" by (simp add: card_word)
  then have run: "symbols_add syms c = Some (take k syms @ c # drop k syms)"
    using k(1) by (simp add: symbols_add_def)
  let ?l = "take k syms @ c # drop k syms"
  have set_l: "set ?l = insert c (set syms)"
    by (metis append_take_drop_id list.simps(15) set_append Un_insert_right)
  have "sorted_wrt (<) ?l"
  proof -
    have "sorted_wrt (<) (take k syms @ drop k syms)" using assms(1) by simp
    moreover have "\<forall>x\<in>set (take k syms). x < c" using k(2,3) by (auto simp: in_set_conv_nth)
    moreover have "\<forall>x\<in>set (drop k syms). c < x" using k(2,4) by (auto simp: in_set_conv_nth)
    ultimately show ?thesis unfolding sorted_wrt_append by auto
  qed
  then obtain y ys where l: "?l = y # ys" "\<forall>z\<in>set ys. y < z" by (cases ?l) auto
  then have "\<forall>z\<in>set (y # ys). uint y \<le> uint z" by (auto simp: word_less_def)
  with run set_l l show ?thesis by auto
qed

text \<open>Once the base of \<open>s\<close> has room for \<open>c\<close>, the branch is linked.\<close>

lemma link_view:
  assumes ok: "da_ok d2" and ks0: "walk_from d2 2 ks0 = Some s" and b: "0 < bs d2 s" and c: "c \<noteq> 255"
    and fr: "bs d2 s + uint c \<in> free d2" and view: "da_view d2 = (da_view d)(ks0 \<mapsto> 0)"
  shows "\<exists>t d'. link_branch d2 s (bs d2 s + uint c) = Some (t, d') \<and> t \<noteq> 0 \<and> da_ok d' \<and>
     num_cells d' = num_cells d2 \<and> walk_from d' 2 ks0 = Some s \<and> walk_from d' 2 (ks0 @ [c]) = Some t \<and>
     0 < bs d' s \<and> bs d' t < 0 \<and> da_view d' = (da_view d)(ks0 \<mapsto> 0, ks0 @ [c] \<mapsto> bs d' t)"
proof -
  let ?t = "bs d2 s + uint c"
  have s: "s \<in> nodes d2" by (rule walk_node [OF ok root_node ks0])
  obtain d' where d': "link_branch d2 s ?t = Some (?t, d')" "da_ok d'" "num_cells d' = num_cells d2"
    "bs d' ?t < 0" "\<forall>i\<in>nodes d2. bs d' i = bs d2 i"
    "\<And>ks. walk_from d' 2 ks = (if ks = ks0 @ [c] then Some ?t else walk_from d2 2 ks)"
    using link_branch_ok [OF ok s b c fr ks0] by blast
  have "da_view d' ks = ((da_view d)(ks0 \<mapsto> 0, ks0 @ [c] \<mapsto> bs d' ?t)) ks" for ks
  proof (cases "ks = ks0 @ [c]")
    case True
    then show ?thesis using d'(4,6) by (simp add: da_view_def)
  next
    case False
    have "da_view d' ks = da_view d2 ks"
      using False d'(5,6) walk_node [OF ok root_node, of ks] by (cases "walk_from d2 2 ks") (auto simp: da_view_def)
    then show ?thesis using False view by simp
  qed
  then have "da_view d' = (da_view d)(ks0 \<mapsto> 0, ks0 @ [c] \<mapsto> bs d' ?t)" by (rule ext)
  moreover have "0 < bs d' s" using d'(5) s b by simp
  moreover have "?t \<noteq> 0" using fr by (simp add: free_def)
  ultimately show ?thesis using d' ks0 by (intro exI [of _ ?t] exI [of _ d']) simp
qed

lemma view_extends:
  assumes "da_ok d" and "extends d d'"
  shows "da_view d' = da_view d"
proof
  fix ks
  have "walk_from d' 2 ks = walk_from d 2 ks" using da_ok_extends [OF assms] by blast
  then show "da_view d' ks = da_view d ks"
    using walk_node [OF assms(1) root_node, of ks] assms(2)
    by (cases "walk_from d 2 ks") (auto simp: da_view_def extends_def)
qed

lemma insert_branch_ok:
  assumes ok: "da_ok d" and room: "num_cells d + 1024 < TRIE_INDEX_MAX"
    and ks0: "walk_from d 2 ks0 = Some s" and c: "c \<noteq> 255" and none: "step d s c = None"
  shows "\<exists>t d'. da_insert_branch d s c = Some (t, d') \<and> t \<noteq> 0 \<and> da_ok d' \<and>
     num_cells d' \<le> num_cells d + 768 \<and> walk_from d' 2 ks0 = Some s \<and> walk_from d' 2 (ks0 @ [c]) = Some t \<and>
     0 < bs d' s \<and> bs d' t < 0 \<and> da_view d' = (da_view d)(ks0 \<mapsto> 0, ks0 @ [c] \<mapsto> bs d' t)"
proof -
  have s: "s \<in> nodes d" by (rule walk_node [OF ok root_node ks0])
  have r: "ring_ok d" "sized d" "2 \<le> s" "s < num_cells d" "bs d s \<le> num_cells d"
    using da_ring [OF ok] node_range [OF ok s] ok s by (auto simp: da_ok_def)
  have v0: "(da_view d)(ks0 \<mapsto> 0) = da_view d" if "0 < bs d s"
    using that ks0 by (auto simp: da_view_def)
  show ?thesis
  proof (cases "0 < bs d s")
    case True
    have b3: "3 \<le> bs d s" using True ok s by (simp add: da_ok_def)
    let ?t = "bs d s + uint c"
    have t: "3 \<le> ?t" "?t < TRIE_INDEX_MAX" "?t + 1 \<le> num_cells d + 256" "is_int32 ?t" "0 \<le> ?t"
      "\<not> bs d s > TRIE_INDEX_MAX - uint c"
      using b3 r(5) room uint8_range [of c] unfolding int32_limits TRIE_INDEX_MAX_def by linarith+
    have ct: "ck d ?t \<noteq> s" using none True by (auto simp: step_def)
    obtain d1 where d1: "da_check_free_cell d ?t = Some (?t \<in> free d1, d1)" "extends d d1"
      "num_cells d1 = max (num_cells d) (?t + 1)"
      using check_free_cell_ok [OF r(1) t(1,2)] by blast
    note x1 = da_ok_extends [OF ok d1(2)]
    have ok1: "da_ok d1" and n1: "num_cells d1 \<le> num_cells d + 256" using x1 d1(3) t(3) by auto
    have s1: "s \<in> nodes d1" "bs d1 s = bs d s" using d1(2) s by (auto simp: extends_def)
    have w1: "walk_from d1 2 ks0 = Some s" using x1 ks0 by simp
    have v1: "da_view d1 = da_view d" by (rule view_extends [OF ok d1(2)])
    show ?thesis
    proof (cases "?t \<in> free d1")
      case True
      have run: "da_insert_branch d s c = link_branch d1 s ?t"
        using r t ct d1(1) True \<open>0 < bs d s\<close> by (simp add: da_insert_branch_def accessors)
      have "\<exists>t d'. link_branch d1 s (bs d1 s + uint c) = Some (t, d') \<and> t \<noteq> 0 \<and> da_ok d' \<and>
         num_cells d' = num_cells d1 \<and> walk_from d' 2 ks0 = Some s \<and> walk_from d' 2 (ks0 @ [c]) = Some t \<and>
         0 < bs d' s \<and> bs d' t < 0 \<and> da_view d' = (da_view d)(ks0 \<mapsto> 0, ks0 @ [c] \<mapsto> bs d' t)"
        using True \<open>0 < bs d s\<close> s1 v1 v0 by (intro link_view [OF ok1 w1 _ c]) simp_all
      then show ?thesis using run n1 s1(2) by fastforce
    next
      case False
      have b1: "0 < bs d1 s" using True s1 by simp
      have room1: "num_cells d1 + 255 \<le> TRIE_INDEX_MAX" "num_cells d1 + 512 < TRIE_INDEX_MAX" using n1 room by auto
      obtain syms where syms: "da_output_symbols d1 s = Some syms" "sorted_wrt (<) syms"
        "set syms = {c. step d1 s c \<noteq> None}"
        using output_symbols_ok [OF ok1 s1(1) b1 room1(1)] by blast
      have "step d1 s c = None" using x1 s none by simp
      then have "c \<notin> set syms" using syms(3) by simp
      then obtain y ys where y: "symbols_add syms c = Some (y # ys)" "set (y # ys) = insert c (set syms)"
        "\<forall>z\<in>set (y # ys). uint y \<le> uint z" using symbols_add_ok [OF syms(2)] by blast
      obtain nb d2 where d2: "da_find_free_base d1 (y # ys) = Some (nb, d2)" "extends d1 d2" "3 \<le> nb"
        "nb \<le> num_cells d2" "\<forall>z\<in>set (y # ys). nb + uint z \<in> free d2" "num_cells d2 \<le> num_cells d1 + 512"
        using find_free_base_ok [OF da_ring [OF ok1] room1(2) refl y(3)] by blast
      note x2 = da_ok_extends [OF ok1 d2(2)]
      have ok2: "da_ok d2" and s2: "s \<in> nodes d2" "bs d2 s = bs d s"
        using x2 d2(2) s1 by (auto simp: extends_def)
      have w2: "walk_from d2 2 ks0 = Some s" using x2 w1 by simp
      have v2: "da_view d2 = da_view d" using view_extends [OF ok1 d2(2)] v1 by simp
      have kids: "step d2 s z \<noteq> None \<longleftrightarrow> z \<in> set syms" for z using x2 s1(1) syms(3) by simp
      have n2: "num_cells d2 + 255 \<le> TRIE_INDEX_MAX" using d2(6) n1 room by simp
      have fit: "\<forall>z. step d2 s z \<noteq> None \<longrightarrow> nb + uint z \<in> free d2"
        using d2(5) [unfolded y(2)] kids by blast
      obtain d3 \<rho> where d3: "da_relocate_base d2 s nb = Some d3" "da_ok d3" "num_cells d3 = num_cells d2"
        "\<rho> s = s" "bs d3 s = nb" "\<forall>i\<in>nodes d2. i \<noteq> s \<longrightarrow> bs d3 (\<rho> i) = bs d2 i"
        "\<And>ks. walk_from d3 2 ks = map_option \<rho> (walk_from d2 2 ks)"
        "\<forall>k\<in>free d2. (\<forall>y. step d2 s y \<noteq> None \<longrightarrow> k \<noteq> nb + uint y) \<longrightarrow> k \<in> free d3"
        using relocate_base_ok [OF ok2 n2 s2(1) _ d2(3,4) fit] True s2(2) by auto
      have w3: "walk_from d3 2 ks0 = Some s" using d3(4,7) w2 by simp
      have nc: "nb + uint c \<in> free d3"
      proof -
        have "nb + uint c \<in> free d2" using d2(5) [unfolded y(2)] by blast
        moreover have "nb + uint c \<noteq> nb + uint z" if "step d2 s z \<noteq> None" for z
          using that kids \<open>c \<notin> set syms\<close> by (metis add_left_cancel word_uint_eq_iff)
        ultimately show ?thesis using d3(8) by blast
      qed
      have v3: "da_view d3 = (da_view d)(ks0 \<mapsto> 0)"
      proof
        fix ks
        show "da_view d3 ks = ((da_view d)(ks0 \<mapsto> 0)) ks"
        proof (cases "ks = ks0")
          case True
          then show ?thesis using w3 d3(5) d2(3) by (simp add: da_view_def)
        next
          case False
          have "da_view d3 ks = da_view d2 ks"
          proof (cases "walk_from d2 2 ks")
            case (Some i)
            then have "i \<noteq> s" using walk_inj [OF ok2 w2] False by auto
            moreover have "i \<in> nodes d2" by (rule walk_node [OF ok2 root_node Some])
            ultimately show ?thesis using Some d3(6,7) by (simp add: da_view_def)
          qed (simp add: da_view_def d3(7))
          then show ?thesis using False v2 by simp
        qed
      qed
      have "\<exists>t d'. link_branch d3 s (bs d3 s + uint c) = Some (t, d') \<and> t \<noteq> 0 \<and> da_ok d' \<and>
         num_cells d' = num_cells d3 \<and> walk_from d' 2 ks0 = Some s \<and> walk_from d' 2 (ks0 @ [c]) = Some t \<and>
         0 < bs d' s \<and> bs d' t < 0 \<and> da_view d' = (da_view d)(ks0 \<mapsto> 0, ks0 @ [c] \<mapsto> bs d' t)"
        using nc d3(5) d2(3) by (intro link_view [OF d3(2) w3 _ c _ v3]) simp_all
      moreover have "da_insert_branch d s c = link_branch d3 s (bs d3 s + uint c)"
      proof -
        have "is_int32 (nb + uint c)"
          using d2(3,4) n2 uint8_range [of c] unfolding int32_limits TRIE_INDEX_MAX_def by linarith
        then show ?thesis
          using r t ct d1(1) False True syms(1) y(1) d2(1,3) d3(1,5)
          by (simp add: da_insert_branch_def accessors TRIE_INDEX_ERROR_def)
      qed
      ultimately show ?thesis using d3(3) d2(6) n1 by fastforce
    qed
  next
    case False
    have leaf: "\<forall>c. step d s c = None" using False by (simp add: step_def)
    obtain y ys where y: "symbols_add [] c = Some (y # ys)" "set (y # ys) = insert c (set [])"
      "\<forall>z\<in>set (y # ys). uint y \<le> uint z" using symbols_add_ok [of "[]" c] by auto
    obtain nb d2 where d2: "da_find_free_base d (y # ys) = Some (nb, d2)" "extends d d2" "3 \<le> nb"
      "nb \<le> num_cells d2" "\<forall>z\<in>set (y # ys). nb + uint z \<in> free d2" "num_cells d2 \<le> num_cells d + 512"
      using find_free_base_ok [OF r(1) _ refl y(3)] room by auto
    note x2 = da_ok_extends [OF ok d2(2)]
    have ok2: "da_ok d2" and s2: "s \<in> nodes d2" using x2 d2(2) s by (auto simp: extends_def)
    have leaf2: "\<forall>c. step d2 s c = None" using x2 leaf s by simp
    let ?d3 = "put_b d2 s nb"
    have "0 < nb \<longrightarrow> 3 \<le> nb" using d2(3) by simp
    note d3 = set_base_ok [OF ok2 s2 leaf2 d2(4) this]
    have w3: "walk_from ?d3 2 ks0 = Some s" using d3(3) x2 ks0 by simp
    have v3: "da_view ?d3 = (da_view d)(ks0 \<mapsto> 0)"
    proof
      fix ks
      have "da_view ?d3 ks = (if ks = ks0 then Some 0 else da_view d2 ks)"
      proof (cases "walk_from d2 2 ks")
        case None
        then have "ks \<noteq> ks0" using x2 ks0 by auto
        then show ?thesis using None d3(3) by (simp add: da_view_def)
      next
        case (Some i)
        moreover have "walk_from d2 2 ks0 = Some s" using x2 ks0 by simp
        ultimately have "i = s \<longleftrightarrow> ks = ks0" using walk_inj [OF ok2 Some, of ks0] by auto
        then show ?thesis using Some d3(3,6) d2(3) by (simp add: da_view_def)
      qed
      then show "da_view ?d3 ks = ((da_view d)(ks0 \<mapsto> 0)) ks" using view_extends [OF ok d2(2)] by simp
    qed
    have b3: "bs ?d3 s = nb" using d3(6) by simp
    have "\<exists>t d'. link_branch ?d3 s (bs ?d3 s + uint c) = Some (t, d') \<and> t \<noteq> 0 \<and> da_ok d' \<and>
       num_cells d' = num_cells ?d3 \<and> walk_from d' 2 ks0 = Some s \<and> walk_from d' 2 (ks0 @ [c]) = Some t \<and>
       0 < bs d' s \<and> bs d' t < 0 \<and> da_view d' = (da_view d)(ks0 \<mapsto> 0, ks0 @ [c] \<mapsto> bs d' t)"
      using b3 d2(3,5) y(2) d3(5) by (intro link_view [OF d3(2) w3 _ c _ v3]) simp_all
    moreover have "da_insert_branch d s c = link_branch ?d3 s (bs ?d3 s + uint c)"
    proof -
      have "is_int32 (nb + uint c)"
        using d2(3,4,6) room uint8_range [of c] unfolding int32_limits TRIE_INDEX_MAX_def by linarith
      then show ?thesis
        using r False y(1) d2(1,3) d3(1) b3
        by (simp add: da_insert_branch_def accessors TRIE_INDEX_ERROR_def)
    qed
    ultimately show ?thesis using d2(6) by fastforce
  qed
qed

end
