(* ===== verification/DArrayOps.thy ===== *)
theory DArrayOps
  imports Branching
begin

text \<open>
  The remaining operations of the double array: pruning, the empty array, tracing a node back to
  its key, enumeration and files, and the properties of the double array as a component.
\<close>

section \<open>Pruning\<close>

lemma free_leaf_ok:
  assumes ok: "da_ok d" and ks0: "walk_from d 2 ks0 = Some s" and s2: "s \<noteq> 2" and leaf: "\<forall>c. step d s c = None"
  shows "\<exists>d'. da_free_cell d s = Some d' \<and> da_ok d' \<and> num_cells d' = num_cells d \<and>
     (\<forall>ks. walk_from d' 2 ks = (if ks = ks0 then None else walk_from d 2 ks)) \<and>
     (\<forall>ks. da_view d' ks = (if ks = ks0 then None else da_view d ks)) \<and>
     (\<forall>i\<in>nodes d. i \<noteq> s \<longrightarrow> (\<forall>c. step d' i c = (if step d i c = Some s then None else step d i c)))"
proof -
  have s: "s \<in> nodes d" by (rule walk_node [OF ok root_node ks0])
  obtain d' where d': "da_free_cell d s = Some d'" "ring_ok d'" "num_cells d' = num_cells d"
    "nodes d' = nodes d - {s}" "\<forall>i\<in>nodes d - {s}. bs d' i = bs d i \<and> ck d' i = ck d i"
    using free_cell_ok [OF da_ring [OF ok] s s2] by blast
  have nokid: "ck d j \<noteq> s" if "j \<in> nodes d" for j
  proof
    assume j: "ck d j = s"
    then have "j \<noteq> 2" using ok node_range [OF ok s] by (auto simp: da_ok_def)
    then show False using child_step [OF ok that] leaf j by auto
  qed
  have st: "step d' i c = (if step d i c = Some s then None else step d i c)" if i: "i \<in> nodes d" "i \<noteq> s" for i c
  proof -
    have ri: "2 \<le> i" "i < num_cells d" using node_range [OF ok i(1)] by auto
    have b: "bs d' i = bs d i" using d'(5) i by simp
    have "ck d' j = i \<longleftrightarrow> ck d j = i \<and> j \<noteq> s" for j
    proof
      assume j: "ck d' j = i"
      then have "j \<in> nodes d'" using check_in_nodes [OF d'(2)] ri d'(3) by simp
      then show "ck d j = i \<and> j \<noteq> s" using d'(4,5) j by auto
    next
      assume j: "ck d j = i \<and> j \<noteq> s"
      then have "j \<in> nodes d" using check_node [OF ok, of j i] ri by simp
      then show "ck d' j = i" using d'(5) j by simp
    qed
    then show ?thesis by (auto simp: step_def b)
  qed
  have walk: "walk_from d' 2 ks = (if ks = ks0 then None else walk_from d 2 ks)" for ks
  proof (induction ks rule: rev_induct)
    case Nil
    then show ?case using ks0 s2 by auto
  next
    case (snoc c ks)
    show ?case
    proof (cases "walk_from d 2 ks")
      case None
      then have a: "walk_from d' 2 ks = None" using snoc by simp
      have "ks @ [c] \<noteq> ks0" using None ks0 by (auto simp: walk_snoc)
      then show ?thesis using a None by (simp add: walk_snoc)
    next
      case (Some i)
      have i: "i \<in> nodes d" by (rule walk_node [OF ok root_node Some])
      show ?thesis
      proof (cases "ks = ks0")
        case True
        then have "step d i c = None" using Some ks0 leaf by simp
        then show ?thesis using snoc True Some by (simp add: walk_snoc)
      next
        case False
        then have "i \<noteq> s" using walk_inj [OF ok ks0] Some by auto
        have "walk_from d' 2 ks = Some i" using snoc False Some by simp
        then have 1: "walk_from d' 2 (ks @ [c]) = (if step d i c = Some s then None else step d i c)"
          using st [OF i \<open>i \<noteq> s\<close>] by (simp add: walk_snoc)
        have 2: "walk_from d 2 (ks @ [c]) = step d i c" using Some by (simp add: walk_snoc)
        have "step d i c = Some s \<longleftrightarrow> ks @ [c] = ks0" using 2 ks0 walk_inj [OF ok ks0, of "ks @ [c]"] by auto
        then show ?thesis using 1 2 by simp
      qed
    qed
  qed
  have "da_ok d'"
    unfolding da_ok_def
  proof (intro conjI ballI impI)
    show "ring_ok d'" by fact
    show "ck d' 2 = 0" using d'(5) s2 ok by (simp add: da_ok_def)
    fix i assume "i \<in> nodes d'"
    then have i: "i \<in> nodes d" "i \<noteq> s" using d'(4) by auto
    show "child_ok d' i" if "i \<noteq> 2"
    proof -
      have "child_ok d i" "ck d i \<noteq> s" using ok i that nokid by (auto simp: da_ok_def)
      then show ?thesis using d'(4,5) i by (simp add: child_ok_def)
    qed
    show "bs d' i \<le> num_cells d'" "0 < bs d' i \<Longrightarrow> 3 \<le> bs d' i"
      using d'(3,5) i ok by (auto simp: da_ok_def)
    obtain ks where ks: "walk_from d 2 ks = Some i" using ok i(1) by (auto simp: da_ok_def)
    then have "ks \<noteq> ks0" using ks0 i(2) by auto
    then have "walk_from d' 2 ks = Some i" using walk ks by simp
    then show "\<exists>ks. walk_from d' 2 ks = Some i" by blast
  qed
  moreover have "da_view d' ks = (if ks = ks0 then None else da_view d ks)" for ks
  proof (cases "walk_from d' 2 ks")
    case None
    then show ?thesis using walk by (auto simp: da_view_def split: if_splits)
  next
    case (Some i)
    then have "ks \<noteq> ks0" "walk_from d 2 ks = Some i" using walk by (auto split: if_splits)
    moreover from this have "i \<in> nodes d - {s}" using walk_node [OF ok root_node] walk_inj [OF ok ks0] by auto
    ultimately show ?thesis using Some d'(5) by (simp add: da_view_def)
  qed
  ultimately show ?thesis using d' walk st by blast
qed

text \<open>
  Pruning from the end of the path \<open>kp @ rest\<close> up to the node at \<open>kp\<close> removes the end of the path
  and nothing else, down to the first node that keeps a child.
\<close>

definition cut_path :: "nat \<Rightarrow> TrieChar list \<Rightarrow> TrieChar list \<Rightarrow> bool" where
  "cut_path n ks0 ks \<longleftrightarrow> n < length ks \<and> ks = take (length ks) ks0"

lemma prune_upto_ok:
  assumes "da_ok d" and room: "num_cells d + 255 \<le> TRIE_INDEX_MAX"
    and "walk_from d 2 kp = Some p" and "walk_from d 2 (kp @ rest) = Some s"
  shows "\<exists>d' n. da_prune_upto p d s = Some d' \<and> da_ok d' \<and> num_cells d' = num_cells d \<and>
     length kp \<le> n \<and> n \<le> length (kp @ rest) \<and>
     (\<forall>ks. da_view d' ks = (if cut_path n (kp @ rest) ks then None else da_view d ks)) \<and>
     (n = length kp \<or> (\<exists>c. da_view d' (take n (kp @ rest) @ [c]) \<noteq> None))"
  using assms
proof (induction rest arbitrary: d s rule: rev_induct)
  case Nil
  then have "p = s" by simp
  then have "da_prune_upto p d s = Some d" by (subst da_prune_upto.simps) simp
  moreover have "\<not> cut_path (length kp) kp ks" for ks by (auto simp: cut_path_def)
  ultimately show ?case using Nil.prems(1) by (intro exI [of _ d] exI [of _ "length kp"]) simp
next
  case (snoc c rest)
  let ?ks0 = "kp @ rest @ [c]"
  have ks0: "walk_from d 2 ?ks0 = Some s" using snoc.prems(4) by simp
  have s: "s \<in> nodes d" by (rule walk_node [OF snoc.prems(1) root_node ks0])
  have ps: "p \<noteq> s" using walk_inj [OF snoc.prems(1,3), of ?ks0] ks0 by auto
  obtain t where t: "walk_from d 2 (kp @ rest) = Some t" "step d t c = Some s"
    using ks0 walk_snoc [of d 2 "kp @ rest" c] by (auto split: option.splits)
  have tn: "t \<in> nodes d" by (rule walk_node [OF snoc.prems(1) root_node t(1)])
  note st = step_node [OF snoc.prems(1) tn t(2)]
  have hc: "da_has_children d s = Some (\<exists>c. step d s c \<noteq> None)"
    by (rule has_children_ok [OF snoc.prems(1) s snoc.prems(2)])
  show ?case
  proof (cases "\<exists>c. step d s c \<noteq> None")
    case True
    then have "da_prune_upto p d s = Some d"
      using ps hc by (subst da_prune_upto.simps) simp
    moreover have "\<not> cut_path (length ?ks0) ?ks0 ks" for ks by (auto simp: cut_path_def)
    moreover obtain x j where "step d s x = Some j" using True by auto
    then have "da_view d (?ks0 @ [x]) \<noteq> None"
      using ks0 walk_snoc [of d 2 ?ks0 x] by (simp add: da_view_def)
    then have "\<exists>x. da_view d (take (length ?ks0) ?ks0 @ [x]) \<noteq> None" by (intro exI [of _ x]) simp
    ultimately show ?thesis using snoc.prems(1)
      by (intro exI [of _ d] exI [of _ "length ?ks0"]) simp
  next
    case False
    then have leaf: "\<forall>c. step d s c = None" by simp
    obtain d1 where d1: "da_free_cell d s = Some d1" "da_ok d1" "num_cells d1 = num_cells d"
      "\<And>ks. walk_from d1 2 ks = (if ks = ?ks0 then None else walk_from d 2 ks)"
      "\<And>ks. da_view d1 ks = (if ks = ?ks0 then None else da_view d ks)"
      using free_leaf_ok [OF snoc.prems(1) ks0 st(2) leaf] by blast
    have run: "da_prune_upto p d s = da_prune_upto p d1 t"
      using ps hc False d1(1) da_ring [OF snoc.prems(1)] node_range [OF snoc.prems(1) s] st(3)
      by (subst da_prune_upto.simps) (simp add: accessors)
    have "kp \<noteq> ?ks0" "kp @ rest \<noteq> ?ks0" by auto
    then have "\<exists>d' n. da_prune_upto p d1 t = Some d' \<and> da_ok d' \<and> num_cells d' = num_cells d1 \<and>
      length kp \<le> n \<and> n \<le> length (kp @ rest) \<and>
      (\<forall>ks. da_view d' ks = (if cut_path n (kp @ rest) ks then None else da_view d1 ks)) \<and>
      (n = length kp \<or> (\<exists>c. da_view d' (take n (kp @ rest) @ [c]) \<noteq> None))"
      using snoc.prems d1 t(1) by (intro snoc.IH) auto
    then obtain d' n where d': "da_prune_upto p d1 t = Some d'" "da_ok d'" "num_cells d' = num_cells d1"
      "length kp \<le> n" "n \<le> length (kp @ rest)"
      "\<And>ks. da_view d' ks = (if cut_path n (kp @ rest) ks then None else da_view d1 ks)"
      "n = length kp \<or> (\<exists>c. da_view d' (take n (kp @ rest) @ [c]) \<noteq> None)"
      by blast
    have cut: "cut_path n ?ks0 ks \<longleftrightarrow> cut_path n (kp @ rest) ks \<or> ks = ?ks0" for ks
    proof (cases "length ks \<le> length (kp @ rest)")
      case True
      then have "take (length ks) ?ks0 = take (length ks) (kp @ rest)" "ks \<noteq> ?ks0" by auto
      then show ?thesis by (auto simp: cut_path_def)
    next
      case False
      then have "take (length ks) ?ks0 = ?ks0" "take (length ks) (kp @ rest) = kp @ rest" by auto
      then show ?thesis using False d'(5) by (auto simp: cut_path_def)
    qed
    have "da_view d' ks = (if cut_path n ?ks0 ks then None else da_view d ks)" for ks
      using d'(6) d1(5) cut by auto
    moreover have "take n (kp @ rest) = take n ?ks0" using d'(5) by simp
    ultimately show ?thesis using run d' d1(3)
      by (intro exI [of _ d'] exI [of _ n]) auto
  qed
qed

section \<open>The empty double array\<close>

lemma da_new_cells:
  "sized da_new" "num_cells da_new = 3" "bs da_new 0 = sint DA_SIGNATURE" "ck da_new 0 = 3"
  "bs da_new 1 = - 1" "ck da_new 1 = - 1" "bs da_new 2 = 3" "ck da_new 2 = 0"
  by (simp_all add: da_new_def sized_def bs_def ck_def DA_POOL_BEGIN_def)

lemma da_new_ok: "da_ok da_new" and da_new_view: "da_view da_new = [[] \<mapsto> 0]"
proof -
  have f: "free da_new = {}" and n: "nodes da_new = {2}"
    by (auto simp: free_def nodes_def da_new_cells)
  have h: "header_ok da_new" by (simp add: header_ok_def da_new_cells TRIE_INDEX_MAX_def)
  have r: "ring_ok da_new"
  proof (rule ring_okI [OF h])
    fix i j assume "adj (free da_new) i j"
    then have "i = 1" "j = 1" unfolding f by (auto simp: adj_def)
    then show "ck da_new i = - j \<and> bs da_new j = - i" by (simp add: da_new_cells)
  qed
  show ok: "da_ok da_new"
    unfolding da_ok_def n using r by (auto simp: da_new_cells intro: exI [of _ "[]"])
  have "walk_from da_new 2 ks = None" if "ks \<noteq> []" for ks
  proof (cases "walk_from da_new 2 ks")
    case (Some i)
    then have "i = 2" using walk_node [OF ok root_node Some] n by simp
    then show ?thesis using walk_inj [OF ok Some, of "[]"] that by simp
  qed simp
  then show "da_view da_new = [[] \<mapsto> 0]"
    by (intro ext) (auto simp: da_view_def da_new_cells)
qed

section \<open>Keys and enumeration\<close>

lemma trace_back_ok:
  assumes ok: "da_ok d" and "walk_from d 2 ks = Some s"
  shows "trace_back d s acc = Some (acc @ rev ks)"
  using assms(2)
proof (induction ks arbitrary: s acc rule: rev_induct)
  case Nil
  then show ?case by (subst trace_back.simps) (simp add: da_get_root_def)
next
  case (snoc c ks)
  then obtain t where t: "walk_from d 2 ks = Some t" "step d t c = Some s"
    by (auto simp: walk_snoc split: option.splits)
  have tn: "t \<in> nodes d" by (rule walk_node [OF ok root_node t(1)])
  note st = step_node [OF ok tn t(2)]
  have "trace_back d s acc = trace_back d t (acc @ [c])"
    using st da_ring [OF ok] node_range [OF ok tn] node_range [OF ok st(1)]
    by (subst trace_back.simps) (simp add: da_get_root_def accessors)
  then show ?case using snoc.IH [OF t(1)] by simp
qed

lemma state_key_ok: "da_ok d \<Longrightarrow> walk_from d 2 ks = Some s \<Longrightarrow> da_get_state_key d s = Some (ks @ [0])"
  by (simp add: da_get_state_key_def trace_back_ok)

text \<open>Calling the callback on a list of keys, with the node of each, until it refuses one.\<close>

fun visit ::
  "DArray \<Rightarrow> (TrieChar list \<Rightarrow> TrieIndex \<Rightarrow> 'u \<Rightarrow> (bool \<times> 'u) option) \<Rightarrow> TrieChar list list \<Rightarrow> 'u
   \<Rightarrow> (bool \<times> 'u) option" where
  "visit d f [] u = Some (True, u)"
| "visit d f (ks # kss) u =
     do {
       (ret, u) \<leftarrow> f (ks @ [0]) (the (walk_from d 2 ks)) u;
       if ret then visit d f kss u else Some (False, u)
     }"

lemma visit_append:
  "visit d f (xs @ ys) u = do { (ret, u) \<leftarrow> visit d f xs u; if ret then visit d f ys u else Some (False, u) }"
proof (induction xs arbitrary: u)
  case (Cons ks xs)
  show ?case
    by (cases "f (ks @ [0]) (the (walk_from d 2 ks)) u") (auto simp: Cons)
qed simp

definition leaves_below :: "DArray \<Rightarrow> TrieIndex \<Rightarrow> TrieChar list set" where
  "leaves_below d i = {qs. \<exists>s. walk_from d i qs = Some s \<and> bs d s < 0}"

definition paths_below :: "DArray \<Rightarrow> TrieIndex \<Rightarrow> TrieChar list set" where
  "paths_below d i = {qs. walk_from d i qs \<noteq> None}"

lemma finite_paths:
  assumes ok: "da_ok d" and i: "i \<in> nodes d"
  shows "finite (paths_below d i)"
proof -
  obtain pre where pre: "walk_from d 2 pre = Some i" using ok i by (auto simp: da_ok_def)
  have "inj_on (\<lambda>qs. the (walk_from d i qs)) (paths_below d i)"
  proof (rule inj_onI)
    fix p q assume a: "p \<in> paths_below d i" "q \<in> paths_below d i" "the (walk_from d i p) = the (walk_from d i q)"
    then obtain j where "walk_from d i p = Some j" "walk_from d i q = Some j"
      by (auto simp: paths_below_def)
    then have "walk_from d 2 (pre @ p) = Some j" "walk_from d 2 (pre @ q) = Some j"
      using pre by (simp_all add: walk_append)
    then show "p = q" using walk_inj [OF ok] by (metis same_append_eq)
  qed
  moreover have "(\<lambda>qs. the (walk_from d i qs)) ` paths_below d i \<subseteq> nodes d"
    using walk_node [OF ok i] by (auto simp: paths_below_def)
  moreover have "finite (nodes d)"
  proof -
    have "nodes d \<subseteq> insert 2 {3..<num_cells d}" by (auto simp: nodes_def)
    then show ?thesis by (rule finite_subset) simp
  qed
  ultimately show ?thesis using inj_on_finite by blast
qed

lemma paths_child:
  assumes ok: "da_ok d" and i: "i \<in> nodes d" and st: "step d i c = Some j"
  shows "card (paths_below d j) < card (paths_below d i)"
proof -
  have "(#) c ` paths_below d j \<subseteq> paths_below d i - {[]}"
    using st by (auto simp: paths_below_def)
  then have "card ((#) c ` paths_below d j) \<le> card (paths_below d i - {[]})"
    using finite_paths [OF ok i] by (intro card_mono) auto
  moreover have "card ((#) c ` paths_below d j) = card (paths_below d j)"
    by (intro card_image) simp
  moreover have "[] \<in> paths_below d i" by (simp add: paths_below_def)
  ultimately show ?thesis using finite_paths [OF ok i] by (metis card_Diff1_less le_less_trans)
qed

lemma output_symbols_0:
  assumes ok: "da_ok d" and i: "i \<in> nodes d" and b: "bs d i = 0"
  shows "da_output_symbols d i = Some []"
proof -
  have r: "sized d" "0 \<le> i" using da_ring [OF ok] node_range [OF ok i] by auto
  have "ck d c \<noteq> i" for c
  proof
    assume "ck d c = i"
    from da_ok_kids [OF ok i] this b show False by (auto simp: kids_ok_def)
  qed
  then show ?thesis using r b
    by (simp add: da_output_symbols_def accessors child_chars_ok child_symbols_ok TRIE_INDEX_MAX_def)
qed

lemma node_symbols:
  assumes "da_ok d" and "i \<in> nodes d" and "0 \<le> bs d i" and "num_cells d + 255 \<le> TRIE_INDEX_MAX"
  shows "\<exists>syms. da_output_symbols d i = Some syms \<and> sorted_wrt (<) syms \<and> set syms = {c. step d i c \<noteq> None}"
proof (cases "bs d i = 0")
  case True
  then show ?thesis using output_symbols_0 [OF assms(1,2)] by (simp add: step_def)
next
  case False
  then show ?thesis using output_symbols_ok [OF assms(1,2)] assms(3,4) by simp
qed

abbreviation lex_less :: "TrieChar list \<Rightarrow> TrieChar list \<Rightarrow> bool" where
  "lex_less xs ys \<equiv> (xs, ys) \<in> lexord {(x, y). x < y}"

definition enumerates ::
  "DArray \<Rightarrow> (TrieChar list \<Rightarrow> TrieIndex \<Rightarrow> 'u \<Rightarrow> (bool \<times> 'u) option) \<Rightarrow> TrieIndex \<Rightarrow> TrieChar list list \<Rightarrow> bool"
where
  "enumerates d f i L \<longleftrightarrow> sorted_wrt lex_less L \<and> set L = leaves_below d i \<and>
     (\<forall>pre ss u. walk_from d 2 pre = Some i \<longrightarrow>
        enumerate_states d f (i # ss) u =
        do { (ret, u) \<leftarrow> visit d f (map ((@) pre) L) u;
             if ret then enumerate_states d f ss u else Some (False, u) })"

lemma leaves_child:
  "0 \<le> bs d i \<Longrightarrow> leaves_below d i = {c # qs | c qs j. step d i c = Some j \<and> qs \<in> leaves_below d j}"
  (is "_ \<Longrightarrow> _ = ?R")
proof (intro equalityI subsetI)
  assume b: "0 \<le> bs d i"
  fix p assume "p \<in> leaves_below d i"
  then obtain s where s: "walk_from d i p = Some s" "bs d s < 0" by (auto simp: leaves_below_def)
  show "p \<in> ?R"
  proof (cases p)
    case Nil
    then show ?thesis using s b by simp
  next
    case (Cons c qs)
    then show ?thesis using s by (auto simp: leaves_below_def split: option.splits)
  qed
qed (auto simp: leaves_below_def)

text \<open>The loop over the symbols of a node, given the enumeration of each child.\<close>

lemma enumerate_children:
  assumes kids: "\<forall>c j. step d i c = Some j \<longrightarrow> (\<exists>L. enumerates d f j L)"
    and "sorted_wrt (<) ys" and "\<forall>y\<in>set ys. step d i y \<noteq> None" and pre: "walk_from d 2 pre = Some i"
  shows "\<exists>L. sorted_wrt lex_less L \<and>
     set L = {c # qs | c qs j. c \<in> set ys \<and> step d i c = Some j \<and> qs \<in> leaves_below d j} \<and>
     (\<forall>u. enumerate_states d f (map (\<lambda>c. bs d i + uint c) ys) u = visit d f (map ((@) pre) L) u)"
  using assms(2,3)
proof (induction ys)
  case Nil
  have "enumerate_states d f [] u = Some (True, u)" for u by (subst enumerate_states.simps) simp
  then show ?case by (intro exI [of _ "[]"]) simp
next
  case (Cons y ys)
  obtain j where j: "step d i y = Some j" using Cons.prems(2) by auto
  then have jb: "j = bs d i + uint y" by (auto simp: step_def split: if_splits)
  obtain L where L: "enumerates d f j L" using kids j by blast
  have "\<exists>L. sorted_wrt lex_less L \<and>
     set L = {c # qs | c qs j. c \<in> set ys \<and> step d i c = Some j \<and> qs \<in> leaves_below d j} \<and>
     (\<forall>u. enumerate_states d f (map (\<lambda>c. bs d i + uint c) ys) u = visit d f (map ((@) pre) L) u)"
    by (rule Cons.IH) (use Cons.prems in auto)
  then obtain M where M: "sorted_wrt lex_less M"
    "set M = {c # qs | c qs j. c \<in> set ys \<and> step d i c = Some j \<and> qs \<in> leaves_below d j}"
    "\<And>u. enumerate_states d f (map (\<lambda>c. bs d i + uint c) ys) u = visit d f (map ((@) pre) M) u"
    by blast
  let ?L = "map ((#) y) L @ M"
  have "sorted_wrt lex_less (map ((#) y) L)"
    using L by (simp add: enumerates_def sorted_wrt_map)
  moreover have "\<forall>p\<in>set (map ((#) y) L). \<forall>q\<in>set M. lex_less p q"
    using M(2) Cons.prems(1) by auto
  ultimately have 1: "sorted_wrt lex_less ?L" using M(1) unfolding sorted_wrt_append by blast
  have 2: "set ?L = {c # qs | c qs j. c \<in> set (y # ys) \<and> step d i c = Some j \<and> qs \<in> leaves_below d j}"
    using L M(2) j by (auto simp: enumerates_def)
  have wj: "walk_from d 2 (pre @ [y]) = Some j" using pre j by (simp add: walk_snoc)
  have 3: "enumerate_states d f (map (\<lambda>c. bs d i + uint c) (y # ys)) u = visit d f (map ((@) pre) ?L) u" for u
  proof -
    have "enumerate_states d f (map (\<lambda>c. bs d i + uint c) (y # ys)) u =
        do { (ret, u) \<leftarrow> visit d f (map ((@) (pre @ [y])) L) u;
             if ret then enumerate_states d f (map (\<lambda>c. bs d i + uint c) ys) u else Some (False, u) }"
      using L wj by (simp add: enumerates_def jb)
    moreover have "map ((@) (pre @ [y])) L = map ((@) pre) (map ((#) y) L)" by simp
    ultimately show ?thesis by (simp only: map_append visit_append M(3))
  qed
  show ?case using 1 2 3 by blast
qed

lemma enumerates_exists:
  assumes ok: "da_ok d" and room: "num_cells d + 255 \<le> TRIE_INDEX_MAX" and "i \<in> nodes d"
  shows "\<exists>L. enumerates d f i L"
  using assms(3)
proof (induction "card (paths_below d i)" arbitrary: i rule: less_induct)
  case less
  have r: "sized d" "0 \<le> i" using da_ring [OF ok] node_range [OF ok less.prems] by auto
  show ?case
  proof (cases "bs d i < 0")
    case True
    have "walk_from d i qs = None" if "qs \<noteq> []" for qs
      using that True by (cases qs) (auto simp: step_def)
    then have lv: "leaves_below d i = {[]}" using True by (force simp: leaves_below_def)
    have "enumerate_states d f (i # ss) u = do { (ret, u) \<leftarrow> visit d f (map ((@) pre) [[]]) u;
             if ret then enumerate_states d f ss u else Some (False, u) }"
      if pre: "walk_from d 2 pre = Some i" for pre ss u
      using True r state_key_ok [OF ok pre] pre
      by (subst enumerate_states.simps) (cases "f (pre @ [0]) i u", auto simp: accessors)
    then have "enumerates d f i [[]]" using lv by (simp add: enumerates_def)
    then show ?thesis ..
  next
    case False
    then have b: "0 \<le> bs d i" by simp
    obtain syms where syms: "da_output_symbols d i = Some syms" "sorted_wrt (<) syms"
      "set syms = {c. step d i c \<noteq> None}" using node_symbols [OF ok less.prems b room] by blast
    have kids: "\<forall>c j. step d i c = Some j \<longrightarrow> (\<exists>L. enumerates d f j L)"
      using less.hyps paths_child [OF ok less.prems] step_node(1) [OF ok less.prems] by blast
    obtain pre0 where pre0: "walk_from d 2 pre0 = Some i" using ok less.prems by (auto simp: da_ok_def)
    have all: "\<forall>y\<in>set syms. step d i y \<noteq> None" using syms(3) by simp
    obtain L where L: "sorted_wrt lex_less L"
      "set L = {c # qs | c qs j. c \<in> set syms \<and> step d i c = Some j \<and> qs \<in> leaves_below d j}"
      "\<And>u. enumerate_states d f (map (\<lambda>c. bs d i + uint c) syms) u = visit d f (map ((@) pre0) L) u"
      using enumerate_children [OF kids syms(2) all pre0] by blast
    have "set L = leaves_below d i" using L(2) leaves_child [OF b] syms(3) by auto
    moreover have "enumerate_states d f (i # ss) u = do { (ret, u) \<leftarrow> visit d f (map ((@) pre) L) u;
             if ret then enumerate_states d f ss u else Some (False, u) }"
      if pre: "walk_from d 2 pre = Some i" for pre ss u
    proof -
      have "pre = pre0" using walk_inj [OF ok pre pre0] .
      then show ?thesis using False r syms(1) L(3) [of u]
        by (subst enumerate_states.simps) (simp add: accessors)
    qed
    ultimately have "enumerates d f i L" using L(1) by (simp add: enumerates_def)
    then show ?thesis ..
  qed
qed

lemma da_enumerate_ok:
  assumes ok: "da_ok d" and room: "num_cells d + 255 \<le> TRIE_INDEX_MAX"
  shows "\<exists>L. sorted_wrt lex_less L \<and> set L = leaves_below d 2 \<and> da_enumerate d f u = visit d f L u"
proof -
  obtain L where L: "enumerates d f 2 L" using enumerates_exists [OF ok room root_node] by blast
  have nil: "enumerate_states d f [] u = Some (True, u)" for u by (subst enumerate_states.simps) simp
  have "enumerate_states d f (2 # []) u = do { (ret, u) \<leftarrow> visit d f (map ((@) []) L) u;
             if ret then enumerate_states d f [] u else Some (False, u) }"
    using L [unfolded enumerates_def, THEN conjunct2, THEN conjunct2, rule_format, of "[]" "[]" u] by simp
  then have "enumerate_states d f [2] u = visit d f L u"
    by (cases "visit d f L u") (auto simp: nil map_idI)
  then show ?thesis using L by (auto simp: enumerates_def da_enumerate_def da_get_root_def)
qed

section \<open>Saving and loading\<close>

definition enc_cell :: "DACell \<Rightarrow> bytes" where
  "enc_cell c = be32 (cbase c) @ be32 (ccheck c)"

definition cell_ok :: "DACell \<Rightarrow> bool" where
  "cell_ok c \<longleftrightarrow> is_int32 (cbase c) \<and> is_int32 (ccheck c)"

interpretation cell_codec: file_codec write_cell read_cell enc_cell cell_ok
proof unfold_locales
  fix c :: DACell
  assume c: "cell_ok c"
  then show "appends (write_cell c) (enc_cell c)"
    by (simp add: write_cell_def enc_cell_def cell_ok_def appends_seq int32_codec.put_appends)
  have "consumes (read_seq (\<lambda>f. Some (file_read_int32 f)) (\<lambda>k f. Some (Some \<lparr>cbase = cbase c, ccheck = k\<rparr>, f)))
      (be32 (ccheck c)) c"
    using c consumes_then [OF int32_codec.get_consumes, of "ccheck c" "\<lambda>k. \<lparr>cbase = cbase c, ccheck = k\<rparr>"]
    by (cases c) (simp add: cell_ok_def)
  then show "consumes read_cell (enc_cell c) c"
    using c by (simp add: read_cell_def enc_cell_def cell_ok_def consumes_seq [where x = "cbase c"]
        int32_codec.get_consumes)
qed

definition da_file_ok :: "DArray \<Rightarrow> bool" where
  "da_file_ok d \<longleftrightarrow> sized d \<and> 1 \<le> num_cells d \<and> is_int32 (num_cells d) \<and>
     cells d ! 0 = \<lparr>cbase = sint DA_SIGNATURE, ccheck = num_cells d\<rparr> \<and> (\<forall>c\<in>set (cells d). cell_ok c)"

definition enc_da :: "DArray \<Rightarrow> bytes" where
  "enc_da d = cell_codec.enc_all (cells d)"

definition put_da :: "DArray \<Rightarrow> FILE \<Rightarrow> bool \<times> FILE" where
  "put_da d f = (case da_fwrite d f of None \<Rightarrow> (False, f) | Some (r, f') \<Rightarrow> (r = 0, f'))"

lemma write_cells_each:
  "k + n = length cs \<Longrightarrow> write_cells cs n (int k) f = Some (write_each write_cell (drop k cs) f)"
proof (induction n arbitrary: k f)
  case (Suc n)
  then have d: "drop k cs = cs ! k # drop (Suc k) cs" by (simp add: Cons_nth_drop_Suc)
  have "write_cells cs n (1 + int k) f' = Some (write_each write_cell (drop (Suc k) cs) f')" for f'
    using Suc.IH [of "Suc k" f'] Suc.prems by simp
  then show ?case
    using Suc.prems d by (auto simp: accessors Let_def add.commute split: prod.splits bool.splits)
qed simp

lemma put_da_eq: "sized d \<Longrightarrow> put_da d = write_each write_cell (cells d)"
  using write_cells_each [of 0 "length (cells d)" "cells d"]
  by (auto simp: fun_eq_iff put_da_def da_fwrite_def sized_def split: prod.splits)

lemma da_fwrite_defined: "sized d \<Longrightarrow> \<exists>r f'. da_fwrite d f = Some (r, f')"
  using write_cells_each [of 0 "length (cells d)" "cells d"]
  by (auto simp: da_fwrite_def sized_def split: prod.splits)

interpretation da_codec: file_codec put_da da_fread enc_da da_file_ok
proof unfold_locales
  fix d
  assume ok: "da_file_ok d"
  then have s: "sized d" and n: "1 \<le> num_cells d" "is_int32 (num_cells d)" and c: "\<forall>c\<in>set (cells d). cell_ok c"
    and h: "cells d ! 0 = \<lparr>cbase = sint DA_SIGNATURE, ccheck = num_cells d\<rparr>" by (auto simp: da_file_ok_def)
  show "appends (put_da d) (enc_da d)"
    unfolding put_da_eq [OF s] enc_da_def by (rule cell_codec.write_each_appends [OF c])
  obtain cs where cs: "cells d = \<lparr>cbase = sint DA_SIGNATURE, ccheck = num_cells d\<rparr> # cs"
    using h s n by (cases "cells d") (auto simp: sized_def)
  have len: "nat (num_cells d - 1) = length cs" using s cs by (simp add: sized_def)
  have enc: "enc_da d = be32 (sint DA_SIGNATURE) @ be32 (num_cells d) @ cell_codec.enc_all cs"
    by (simp add: enc_da_def cs enc_cell_def)
  have sig: "is_int32 (sint DA_SIGNATURE)" by (rule is_int32_sint)
  have "read_cells (num_cells d) = read_seq (read_each read_cell (length cs)) (\<lambda>cs f.
        Some (Some \<lparr>num_cells = num_cells d,
          cells = \<lparr>cbase = sint DA_SIGNATURE, ccheck = num_cells d\<rparr> # cs\<rparr>, f))"
    using n(1) len by (auto simp: fun_eq_iff read_cells_def)
  moreover have "\<forall>c\<in>set cs. cell_ok c" using c cs by simp
  ultimately have "consumes (read_cells (num_cells d)) (cell_codec.enc_all cs) d"
    using consumes_then [OF cell_codec.read_each_consumes, of cs "\<lambda>cs. \<lparr>num_cells = num_cells d,
          cells = \<lparr>cbase = sint DA_SIGNATURE, ccheck = num_cells d\<rparr> # cs\<rparr>"] cs by (cases d) simp
  then have "consumes (read_seq (\<lambda>f. Some (file_read_int32 f)) (\<lambda>sig.
           if DA_SIGNATURE \<noteq> word_of_int sig then (\<lambda>f. Some (None, f))
           else read_seq (\<lambda>f. Some (file_read_int32 f)) read_cells)) (enc_da d) d"
    unfolding enc
    by (intro consumes_seq [where x = "sint DA_SIGNATURE"])
      (simp_all add: int32_codec.get_consumes sig n consumes_seq [where x = "num_cells d"])
  then show "consumes da_fread (enc_da d) d"
    by (auto simp: consumes_def da_fread_def)
qed

lemma da_ok_file:
  assumes ok: "da_ok d" and b: "\<forall>i\<in>nodes d. INT32_MIN \<le> bs d i"
  shows "da_file_ok d"
proof -
  have r: "ring_ok d" by (rule da_ring [OF ok])
  have n: "3 \<le> num_cells d" "num_cells d \<le> TRIE_INDEX_MAX" using ring_room [OF r] by auto
  have s: "sized d" using r by simp
  have cell: "is_int32 (bs d i) \<and> is_int32 (ck d i)" if ri: "0 \<le> i" "i < num_cells d" for i
  proof -
    consider "i = 0" | "i = 1" | "i \<in> free d" | "i \<in> nodes d"
    proof -
      consider "i = 0" | "i = 1" | "i = 2" | "3 \<le> i" using ri by linarith
      then show thesis using ri node_or_free [of i d] root_node [of d] that by cases auto
    qed
    then show ?thesis
    proof cases
      case 1
      moreover have "bs d 0 = sint DA_SIGNATURE" "ck d 0 = num_cells d" using r by (auto simp: ring_ok_def)
      moreover have "is_int32 (num_cells d)" using n by (simp add: int32_limits TRIE_INDEX_MAX_def)
      ultimately show ?thesis by (simp add: is_int32_sint)
    next
      case 2
      then show ?thesis using adj_range [OF r ring_next [OF r, of 1]] adj_range [OF r ring_prev [OF r, of 1]] n
        by (auto simp: int32_limits TRIE_INDEX_MAX_def)
    next
      case 3
      then show ?thesis using adj_range [OF r ring_next [OF r, of i]] adj_range [OF r ring_prev [OF r, of i]] n
        by (auto simp: int32_limits TRIE_INDEX_MAX_def)
    next
      case 4
      have "bs d i \<le> num_cells d" "INT32_MIN \<le> bs d i" using ok b 4 by (auto simp: da_ok_def)
      moreover have "0 \<le> ck d i \<and> ck d i < num_cells d"
      proof (cases "i = 2")
        case True
        then show ?thesis using ok n by (simp add: da_ok_def)
      next
        case False
        then have "ck d i \<in> nodes d" using ok 4 by (auto simp: da_ok_def child_ok_def)
        then show ?thesis using node_range [OF ok] by force
      qed
      ultimately show ?thesis using n by (auto simp: int32_limits TRIE_INDEX_MAX_def)
    qed
  qed
  have "cell_ok c" if cin: "c \<in> set (cells d)" for c
  proof -
    obtain k where "k < length (cells d)" "c = cells d ! k" using cin by (auto simp: in_set_conv_nth)
    then show ?thesis using cell [of "int k"] s by (simp add: cell_ok_def bs_def ck_def sized_def)
  qed
  moreover have "cells d ! 0 = \<lparr>cbase = sint DA_SIGNATURE, ccheck = num_cells d\<rparr>"
  proof -
    have "bs d 0 = sint DA_SIGNATURE" "ck d 0 = num_cells d" using r by (auto simp: ring_ok_def)
    then have "cbase (cells d ! 0) = sint DA_SIGNATURE" "ccheck (cells d ! 0) = num_cells d"
      using n(1) by (simp_all add: bs_def ck_def)
    then show ?thesis by (cases "cells d ! 0") simp
  qed
  ultimately show ?thesis using s n by (auto simp: da_file_ok_def int32_limits TRIE_INDEX_MAX_def)
qed
section \<open>Properties\<close>

text \<open>C35: Inserting a branch adds exactly one path. For a character other than \<open>TRIE_CHAR_MAX\<close> and
  while the pool is far from its limit, \<open>da_insert_branch\<close> succeeds, the new node is reached by the
  path of its parent and the character, the parent is an inner node afterwards, and every other path
  leads to the same kind of node as before, whether or not children had to be relocated.\<close>

theorem da_insert_branch_adds:
  assumes "da_ok d" and "num_cells d + 1024 < TRIE_INDEX_MAX"
    and "walk_from d da_get_root ks = Some s" and "c \<noteq> TRIE_CHAR_MAX" and "da_view d (ks @ [c]) = None"
  shows "\<exists>t d'. da_insert_branch d s c = Some (t, d') \<and> t \<noteq> TRIE_INDEX_ERROR \<and> da_ok d' \<and>
     walk_from d' da_get_root (ks @ [c]) = Some t \<and> bs d' t < 0 \<and>
     da_view d' = (da_view d)(ks \<mapsto> 0, ks @ [c] \<mapsto> bs d' t) \<and> num_cells d' \<le> num_cells d + 768"
proof -
  have w: "walk_from d 2 ks = Some s" and c: "c \<noteq> 255" using assms(3,4) by (simp_all add: da_get_root_def TRIE_CHAR_MAX_def)
  have "step d s c = None" using assms(5) w by (simp add: da_view_def walk_snoc)
  then show ?thesis using insert_branch_ok [OF assms(1,2) w c] by (auto simp: da_get_root_def TRIE_INDEX_ERROR_def)
qed

theorem da_insert_branch_adds_witness:
  "\<exists>t d'. da_insert_branch da_new 2 5 = Some (t, d') \<and> da_ok d' \<and> walk_from d' 2 [5] = Some t \<and>
     da_view d' = [[] \<mapsto> 0, [5] \<mapsto> bs d' t]"
proof -
  have "da_view da_new ([] @ [5]) = None" by (simp add: da_new_view)
  moreover have "walk_from da_new da_get_root [] = Some 2" by (simp add: da_get_root_def)
  moreover have "(5 :: TrieChar) \<noteq> TRIE_CHAR_MAX" by (simp add: TRIE_CHAR_MAX_def)
  moreover have "num_cells da_new + 1024 < TRIE_INDEX_MAX" by (simp add: da_new_cells TRIE_INDEX_MAX_def)
  ultimately show ?thesis
    using da_insert_branch_adds [OF da_new_ok, of "[]" 2 5] by (fastforce simp: da_new_view da_get_root_def)
qed

text \<open>C36: Pruning from a node removes the end of its path and nothing else: the nodes below the
  stop node that are left without children go back to the free list, every other path is kept, and
  pruning stops at the root or at a node that still has a child.\<close>

theorem da_prune_cuts:
  assumes "da_ok d" and "num_cells d + 255 \<le> TRIE_INDEX_MAX" and "walk_from d da_get_root ks = Some s"
  shows "\<exists>d' n. da_prune d s = Some d' \<and> da_ok d' \<and> n \<le> length ks \<and>
     (\<forall>qs. da_view d' qs = (if cut_path n ks qs then None else da_view d qs)) \<and>
     (n = 0 \<or> (\<exists>c. da_view d' (take n ks @ [c]) \<noteq> None))"
proof -
  have "walk_from d 2 [] = Some 2" "walk_from d 2 ([] @ ks) = Some s"
    using assms(3) by (simp_all add: da_get_root_def)
  from prune_upto_ok [OF assms(1,2) this] show ?thesis
    unfolding da_prune_def da_get_root_def append_Nil list.size by blast
qed

theorem da_prune_cuts_witness:
  "\<exists>d' n. da_prune da_new 2 = Some d' \<and> da_ok d' \<and> n = 0 \<and>
     (\<forall>qs. da_view d' qs = (if cut_path n [] qs then None else da_view da_new qs))"
proof -
  have "walk_from da_new da_get_root [] = Some 2" by (simp add: da_get_root_def)
  moreover have "num_cells da_new + 255 \<le> TRIE_INDEX_MAX" by (simp add: da_new_cells TRIE_INDEX_MAX_def)
  ultimately show ?thesis using da_prune_cuts [OF da_new_ok, of "[]" 2] by fastforce
qed

text \<open>C37: Enumeration terminates and calls the callback on the separate nodes only, once each, in
  the lexicographic order of their keys, with the key the node is traced back to, and stops at the
  first refusal.\<close>

theorem da_enumerate_visits:
  assumes "da_ok d" and "num_cells d + 255 \<le> TRIE_INDEX_MAX"
  shows "\<exists>L. sorted_wrt lex_less L \<and> (\<forall>ks. ks \<in> set L \<longleftrightarrow> (\<exists>v<0. da_view d ks = Some v)) \<and>
     da_enumerate d f u = visit d f L u"
proof -
  have "ks \<in> leaves_below d 2 \<longleftrightarrow> (\<exists>v<0. da_view d ks = Some v)" for ks
    by (cases "walk_from d 2 ks") (auto simp: leaves_below_def da_view_def min_def)
  then show ?thesis using da_enumerate_ok [OF assms, of f u] by auto
qed

theorem da_enumerate_visits_witness:
  "da_enumerate da_new (\<lambda>ks s n. Some (True, n + 1)) (0 :: int) = Some (True, 0)"
proof -
  have "num_cells da_new + 255 \<le> TRIE_INDEX_MAX" by (simp add: da_new_cells TRIE_INDEX_MAX_def)
  from da_enumerate_visits [OF da_new_ok this, of "\<lambda>ks s n. Some (True, n + 1)" 0]
  obtain L where L: "\<forall>ks. ks \<in> set L \<longleftrightarrow> (\<exists>v<0. da_view da_new ks = Some v)"
    "da_enumerate da_new (\<lambda>ks s n. Some (True, n + 1)) 0 = visit da_new (\<lambda>ks s n. Some (True, n + 1)) L (0 :: int)"
    by blast
  have none: "ks \<notin> set L" for ks using L(1) by (auto simp: da_new_view split: if_splits)
  have "set L = {}" by (rule equals0I) (use none in blast)
  then show ?thesis using L(2) by simp
qed

text \<open>A double array is written whole on a medium with room for it, and reading the file back
  gives the same array, header cell and free list included.\<close>

theorem da_save_load:
  assumes "da_file_ok d" and "length (enc_da d) \<le> n"
  shows "\<exists>f. da_fwrite d \<lparr>contents = [], fpos = 0, room = n\<rparr> = Some (0, f) \<and>
     map_option fst (da_fread (fseek_set 0 f)) = Some (Some d)"
proof -
  let ?f = "\<lparr>contents = [], fpos = 0, room = n\<rparr> :: FILE"
  obtain r f where w: "da_fwrite d ?f = Some (r, f)"
    using da_fwrite_defined [of d ?f] assms(1) by (auto simp: da_file_ok_def)
  have "put_da d ?f = (r = 0, f)" by (simp add: put_da_def w)
  then have "r = 0" "f = \<lparr>contents = enc_da d, fpos = length (enc_da d), room = n\<rparr>"
    using da_codec.save_load(1) [OF assms] by auto
  then show ?thesis using w da_codec.save_load(2) [OF assms] by (simp add: fseek_set_def)
qed

theorem da_save_load_witness:
  "\<exists>f. da_fwrite da_new \<lparr>contents = [], fpos = 0, room = 100\<rparr> = Some (0, f) \<and>
     map_option fst (da_fread (fseek_set 0 f)) = Some (Some da_new)"
proof -
  have "da_file_ok da_new"
    by (auto simp: da_file_ok_def da_new_def sized_def cell_ok_def is_int32_sint DA_POOL_BEGIN_def int32_limits
        is_int32_sint [unfolded int32_limits])
  moreover have "length (enc_da da_new) \<le> 100"
    by (simp add: enc_da_def da_new_def cell_codec.enc_all_def enc_cell_def)
  ultimately show ?thesis by (rule da_save_load)
qed

text \<open>The loops over the children of a node leave out the character \<open>TRIE_CHAR_MAX\<close>, the code
  of every unknown character: a node whose only branch has that label counts as childless, so
  pruning would free it, although walking finds the branch.\<close>

theorem da_children_skip_max:
  assumes "sized d" and "0 \<le> s" "s < num_cells d" and "0 < bs d s" "bs d s + 255 < TRIE_INDEX_MAX"
    and "\<forall>c. c \<noteq> TRIE_CHAR_MAX \<longrightarrow> ck d (bs d s + uint c) \<noteq> s" and "ck d (bs d s + 255) = s"
  shows "da_has_children d s = Some False \<and> da_output_symbols d s = Some [] \<and>
     da_walk d s TRIE_CHAR_MAX = Some (True, bs d s + 255)"
proof -
  have "ck d (bs d s + c) \<noteq> s" if "c \<in> {0..254}" for c
  proof -
    have u: "uint (word_of_int c :: TrieChar) = c" using that by (intro uint_small) auto
    moreover have "(word_of_int c :: TrieChar) \<noteq> TRIE_CHAR_MAX"
      using u that by (auto simp: TRIE_CHAR_MAX_def dest: arg_cong [where f = uint])
    ultimately show ?thesis using assms(6) by force
  qed
  then show ?thesis using assms
    by (auto simp: da_has_children_def da_output_symbols_def da_walk_def accessors TRIE_INDEX_ERROR_def
        child_chars_ok has_child_ok child_symbols_ok filter_empty_conv TRIE_CHAR_MAX_def int32_limits
        TRIE_INDEX_MAX_def)
qed

theorem da_children_skip_max_witness:
  "da_has_children \<lparr>num_cells = 259, cells = [\<lparr>cbase = 0, ccheck = 259\<rparr>, \<lparr>cbase = - 1, ccheck = - 1\<rparr>,
       \<lparr>cbase = 3, ccheck = 0\<rparr>] @ replicate 255 \<lparr>cbase = 0, ccheck = 0\<rparr> @ [\<lparr>cbase = - 1, ccheck = 2\<rparr>]\<rparr> 2 = Some False"
proof -
  let ?d = "\<lparr>num_cells = 259, cells = [\<lparr>cbase = 0, ccheck = 259\<rparr>, \<lparr>cbase = - 1, ccheck = - 1\<rparr>,
       \<lparr>cbase = 3, ccheck = 0\<rparr>] @ replicate 255 \<lparr>cbase = 0, ccheck = 0\<rparr> @ [\<lparr>cbase = - 1, ccheck = 2\<rparr>]\<rparr> :: DArray"
  have s: "sized ?d" by (simp add: sized_def)
  have b: "bs ?d 2 = 3" by (simp add: bs_def)
  have k: "ck ?d 258 = 2" by (simp add: ck_def nth_append)
  have "ck ?d (3 + uint c) \<noteq> 2" if "c \<noteq> TRIE_CHAR_MAX" for c
  proof -
    have "uint c \<le> 254" using that uint_not_255 by (simp add: TRIE_CHAR_MAX_def)
    moreover have "nat (3 + uint c) = Suc (Suc (Suc (nat (uint c))))" by (simp add: nat_add_distrib)
    moreover have "nat (uint c) < 255" using calculation(1) by linarith
    ultimately show ?thesis by (simp add: ck_def nth_append del: replicate.simps)
  qed
  then show ?thesis using da_children_skip_max [OF s, of 2] b k by (simp add: TRIE_INDEX_MAX_def)
qed

end
