(* ===== verification/Trie.thy ===== *)
theory Trie
  imports AlphaMap Tail DArrayOps
begin

text \<open>
  The trie, \<open>src/server/trie.c\<close>: a double array for the branching part of the keys and a store of
  suffixes for the rest. A separate node of the double array has the negative of its tail index as
  its base.

  A key is a terminated buffer of alphabet characters. This theory holds the operations as the
  source has them; \<open>TrieMap\<close> proves that they implement a map.
\<close>

section \<open>Data\<close>

record Trie =
  alpha_map :: AlphaMap
  da :: DArray
  tail :: Tail
  is_dirty :: bool

text \<open>A state of the stepwise interface; the trie it belongs to is passed beside it.\<close>

record TrieState =
  ts_index :: TrieIndex
  ts_suffix_idx :: int
  ts_is_suffix :: bool

definition trie_da_is_separate :: "DArray \<Rightarrow> TrieIndex \<Rightarrow> bool option" where
  "trie_da_is_separate d s = map_option (\<lambda>b. b < 0) (da_get_base d s)"

definition trie_da_get_tail_index :: "DArray \<Rightarrow> TrieIndex \<Rightarrow> TrieIndex option" where
  "trie_da_get_tail_index d s = do { b \<leftarrow> da_get_base d s; neg32 b }"

definition trie_da_set_tail_index :: "DArray \<Rightarrow> TrieIndex \<Rightarrow> TrieIndex \<Rightarrow> DArray option" where
  "trie_da_set_tail_index d s v = do { v' \<leftarrow> neg32 v; da_set_base d s v' }"

definition trie_is_dirty :: "Trie \<Rightarrow> bool" where
  "trie_is_dirty tr = is_dirty tr"

section \<open>Creation and files\<close>

definition trie_new :: "AlphaMap \<Rightarrow> (Trie option) option" where
  "trie_new am =
     do {
       copy \<leftarrow> alpha_map_clone am;
       case copy of
         None \<Rightarrow> Some None
       | Some am' \<Rightarrow> Some (Some \<lparr>alpha_map = am', da = da_new, tail = tail_new, is_dirty = True\<rparr>)
     }"

definition trie_fread :: "FILE \<Rightarrow> (Trie option \<times> FILE) option" where
  "trie_fread f =
     read_seq alpha_map_fread_bin (\<lambda>am.
     read_seq da_fread (\<lambda>d.
     read_seq tail_fread (\<lambda>t f.
       Some (Some \<lparr>alpha_map = am, da = d, tail = t, is_dirty = False\<rparr>, f)))) f"

definition trie_fwrite :: "Trie \<Rightarrow> FILE \<Rightarrow> (int \<times> Trie \<times> FILE) option" where
  "trie_fwrite tr f =
     (let (res, f) = alpha_map_fwrite_bin (alpha_map tr) f
      in if res \<noteq> 0 then Some (- 1, tr, f)
         else do {
           (res, f) \<leftarrow> da_fwrite (da tr) f;
           if res \<noteq> 0 then Some (- 1, tr, f)
           else do {
             (res, f) \<leftarrow> tail_fwrite (tail tr) f;
             if res \<noteq> 0 then Some (- 1, tr, f) else Some (0, tr\<lparr>is_dirty := False\<rparr>, f)
           }
         })"

text \<open>\<open>trie_save\<close> and \<open>trie_new_from_file\<close> with what \<open>fopen\<close> returned.\<close>

definition trie_save :: "Trie \<Rightarrow> FILE option \<Rightarrow> (int \<times> Trie \<times> FILE option) option" where
  "trie_save tr file =
     (case file of
        None \<Rightarrow> Some (- 1, tr, None)
      | Some f \<Rightarrow> do { (res, tr, f) \<leftarrow> trie_fwrite tr f; Some (res, tr, Some f) })"

definition trie_new_from_file :: "FILE option \<Rightarrow> (Trie option) option" where
  "trie_new_from_file file =
     (case file of None \<Rightarrow> Some None | Some f \<Rightarrow> map_option fst (trie_fread f))"

section \<open>Walking a key\<close>

text \<open>
  The walk through the branches ends at a separate node or after the terminator (\<open>Arrived\<close>, with
  the rest of the key), or where there is no branch (\<open>Stopped\<close>). \<open>trie_retrieve\<close>,
  \<open>trie_store_conditionally\<close> and \<open>trie_delete\<close> have the same two loops.
\<close>

datatype walk_result = Arrived TrieIndex "AlphaChar list" | Stopped TrieIndex "AlphaChar list"

fun walk_branches :: "Trie \<Rightarrow> TrieIndex \<Rightarrow> AlphaChar list \<Rightarrow> walk_result option" where
  "walk_branches tr s [] =
     do { sep \<leftarrow> trie_da_is_separate (da tr) s; if sep then Some (Arrived s []) else None }"
| "walk_branches tr s (c # p) =
     do {
       sep \<leftarrow> trie_da_is_separate (da tr) s;
       if sep then Some (Arrived s (c # p))
       else do {
         (ok, s') \<leftarrow> da_walk (da tr) s (alpha_map_char_to_trie (alpha_map tr) c);
         if \<not> ok then Some (Stopped s (c # p))
         else if c = 0 then Some (Arrived s' (c # p))
         else walk_branches tr s' p
       }
     }"

fun walk_tail :: "Trie \<Rightarrow> TrieIndex \<Rightarrow> int \<Rightarrow> AlphaChar list \<Rightarrow> bool option" where
  "walk_tail tr t suffix_idx [] = None"
| "walk_tail tr t suffix_idx (c # p) =
     do {
       (ok, suffix_idx) \<leftarrow> tail_walk_char (tail tr) t suffix_idx (alpha_map_char_to_trie (alpha_map tr) c);
       if \<not> ok then Some False
       else if c = 0 then Some True
       else walk_tail tr t suffix_idx p
     }"

definition trie_retrieve :: "Trie \<Rightarrow> AlphaChar list \<Rightarrow> (TrieData option) option" where
  "trie_retrieve tr key =
     do {
       res \<leftarrow> walk_branches tr da_get_root key;
       case res of
         Stopped s p \<Rightarrow> Some None
       | Arrived s p \<Rightarrow>
           do {
             t \<leftarrow> trie_da_get_tail_index (da tr) s;
             found \<leftarrow> walk_tail tr t 0 p;
             if found then map_option Some (tail_get_data (tail tr) t) else Some None
           }
     }"

section \<open>Storing\<close>

definition trie_branch_in_branch ::
  "Trie \<Rightarrow> TrieIndex \<Rightarrow> TrieChar list \<Rightarrow> TrieData \<Rightarrow> (bool \<times> Trie) option" where
  "trie_branch_in_branch tr sep_node str data =
     do {
       c \<leftarrow> deref str;
       (new_da, d) \<leftarrow> da_insert_branch (da tr) sep_node c;
       if TRIE_INDEX_ERROR = new_da then Some (False, tr\<lparr>da := d\<rparr>)
       else do {
         let str = (if 0 \<noteq> c then tl str else str);
         (new_tail, t) \<leftarrow> tail_add_suffix (tail tr) (Some str);
         (_, t) \<leftarrow> tail_set_data t new_tail data;
         d \<leftarrow> trie_da_set_tail_index d new_da new_tail;
         Some (True, tr\<lparr>da := d, tail := t, is_dirty := True\<rparr>)
       }
     }"

text \<open>
  The branches of the characters the old suffix \<open>p\<close> and the new one share: whether all insertions
  succeeded, the node reached, and what is left of both.
\<close>

fun insert_common ::
  "DArray \<Rightarrow> TrieIndex \<Rightarrow> TrieChar list \<Rightarrow> TrieChar list
   \<Rightarrow> (bool \<times> DArray \<times> TrieIndex \<times> TrieChar list \<times> TrieChar list) option" where
  "insert_common d s (a # p) (b # str) =
     (if a = b
      then do {
        (t, d) \<leftarrow> da_insert_branch d s a;
        if TRIE_INDEX_ERROR = t then Some (False, d, s, a # p, b # str)
        else insert_common d t p str
      }
      else Some (True, d, s, a # p, b # str))"
| "insert_common d s p str = None"

definition undo_branches :: "Trie \<Rightarrow> DArray \<Rightarrow> TrieIndex \<Rightarrow> TrieIndex \<Rightarrow> TrieIndex \<Rightarrow> (bool \<times> Trie) option" where
  "undo_branches tr d sep_node s old_tail =
     do {
       d \<leftarrow> da_prune_upto sep_node d s;
       d \<leftarrow> trie_da_set_tail_index d sep_node old_tail;
       Some (False, tr\<lparr>da := d\<rparr>)
     }"

definition trie_branch_in_tail ::
  "Trie \<Rightarrow> TrieIndex \<Rightarrow> TrieChar list \<Rightarrow> TrieData \<Rightarrow> (bool \<times> Trie) option" where
  "trie_branch_in_tail tr sep_node str data =
     do {
       old_tail \<leftarrow> trie_da_get_tail_index (da tr) sep_node;
       old_suffix \<leftarrow> tail_get_suffix (tail tr) old_tail;
       case old_suffix of
         None \<Rightarrow> Some (False, tr)
       | Some old \<Rightarrow>
           do {
             (ok, d, s, p, str) \<leftarrow> insert_common (da tr) sep_node old str;
             if \<not> ok then undo_branches tr d sep_node s old_tail
             else do {
               a \<leftarrow> deref p;
               (old_da, d) \<leftarrow> da_insert_branch d s a;
               if TRIE_INDEX_ERROR = old_da then undo_branches tr d sep_node s old_tail
               else do {
                 let p = (if 0 \<noteq> a then tl p else p);
                 (_, t) \<leftarrow> tail_set_suffix (tail tr) old_tail (Some p);
                 d \<leftarrow> trie_da_set_tail_index d old_da old_tail;
                 trie_branch_in_branch (tr\<lparr>da := d, tail := t\<rparr>) s str data
               }
             }
           }
     }"

definition trie_store_conditionally ::
  "Trie \<Rightarrow> AlphaChar list \<Rightarrow> TrieData \<Rightarrow> bool \<Rightarrow> (bool \<times> Trie) option" where
  "trie_store_conditionally tr key data is_overwrite =
     do {
       res \<leftarrow> walk_branches tr da_get_root key;
       case res of
         Stopped s p \<Rightarrow>
           do {
             key_str \<leftarrow> alpha_map_char_to_trie_str (alpha_map tr) p;
             trie_branch_in_branch tr s key_str data
           }
       | Arrived s sep \<Rightarrow>
           do {
             t \<leftarrow> trie_da_get_tail_index (da tr) s;
             found \<leftarrow> walk_tail tr t 0 sep;
             if \<not> found
             then do {
               tail_str \<leftarrow> alpha_map_char_to_trie_str (alpha_map tr) sep;
               trie_branch_in_tail tr s tail_str data
             }
             else if \<not> is_overwrite then Some (False, tr)
             else do {
               (_, tl) \<leftarrow> tail_set_data (tail tr) t data;
               Some (True, tr\<lparr>tail := tl, is_dirty := True\<rparr>)
             }
           }
     }"

definition trie_store :: "Trie \<Rightarrow> AlphaChar list \<Rightarrow> TrieData \<Rightarrow> (bool \<times> Trie) option" where
  "trie_store tr key data = trie_store_conditionally tr key data True"

definition trie_store_if_absent :: "Trie \<Rightarrow> AlphaChar list \<Rightarrow> TrieData \<Rightarrow> (bool \<times> Trie) option" where
  "trie_store_if_absent tr key data = trie_store_conditionally tr key data False"

section \<open>Deleting\<close>

definition trie_delete :: "Trie \<Rightarrow> AlphaChar list \<Rightarrow> (bool \<times> Trie) option" where
  "trie_delete tr key =
     do {
       res \<leftarrow> walk_branches tr da_get_root key;
       case res of
         Stopped s p \<Rightarrow> Some (False, tr)
       | Arrived s p \<Rightarrow>
           do {
             t \<leftarrow> trie_da_get_tail_index (da tr) s;
             found \<leftarrow> walk_tail tr t 0 p;
             if \<not> found then Some (False, tr)
             else do {
               tl \<leftarrow> tail_delete (tail tr) t;
               d \<leftarrow> da_set_base (da tr) s TRIE_INDEX_ERROR;
               d \<leftarrow> da_prune d s;
               Some (True, tr\<lparr>da := d, tail := tl, is_dirty := True\<rparr>)
             }
           }
     }"

section \<open>Enumeration\<close>

text \<open>The full key of a separate node: its branch key and its suffix, back in the alphabet.\<close>

definition trie_da_enum_func ::
  "Trie \<Rightarrow> (AlphaChar list \<Rightarrow> TrieData \<Rightarrow> 'u \<Rightarrow> (bool \<times> 'u) option)
   \<Rightarrow> TrieChar list \<Rightarrow> TrieIndex \<Rightarrow> 'u \<Rightarrow> (bool \<times> 'u) option" where
  "trie_da_enum_func tr enum_func key sep_node u =
     do {
       t \<leftarrow> trie_da_get_tail_index (da tr) sep_node;
       sfx \<leftarrow> tail_get_suffix (tail tr) t;
       str \<leftarrow> sfx;
       k \<leftarrow> c_str key;
       q \<leftarrow> c_str str;
       let full_key = map (alpha_map_trie_to_char (alpha_map tr)) (k @ q) @ [0];
       data \<leftarrow> tail_get_data (tail tr) t;
       enum_func full_key data u
     }"

definition trie_enumerate ::
  "Trie \<Rightarrow> (AlphaChar list \<Rightarrow> TrieData \<Rightarrow> 'u \<Rightarrow> (bool \<times> 'u) option) \<Rightarrow> 'u \<Rightarrow> (bool \<times> 'u) option" where
  "trie_enumerate tr enum_func u = da_enumerate (da tr) (trie_da_enum_func tr enum_func) u"

section \<open>Stepwise walking\<close>

definition trie_state_new :: "TrieIndex \<Rightarrow> int \<Rightarrow> bool \<Rightarrow> TrieState" where
  "trie_state_new index suffix_idx is_suffix =
     \<lparr>ts_index = index, ts_suffix_idx = suffix_idx, ts_is_suffix = is_suffix\<rparr>"

definition trie_root :: TrieState where
  "trie_root = trie_state_new da_get_root 0 False"

definition trie_state_copy :: "TrieState \<Rightarrow> TrieState \<Rightarrow> TrieState" where
  "trie_state_copy dst src = src"

definition trie_state_clone :: "TrieState \<Rightarrow> TrieState" where
  "trie_state_clone s = trie_state_new (ts_index s) (ts_suffix_idx s) (ts_is_suffix s)"

definition trie_state_rewind :: "TrieState \<Rightarrow> TrieState" where
  "trie_state_rewind s = s\<lparr>ts_index := da_get_root, ts_is_suffix := False\<rparr>"

definition trie_state_walk :: "Trie \<Rightarrow> TrieState \<Rightarrow> AlphaChar \<Rightarrow> (bool \<times> TrieState) option" where
  "trie_state_walk tr s c =
     (let tc = alpha_map_char_to_trie (alpha_map tr) c
      in if \<not> ts_is_suffix s
         then do {
           (ret, index) \<leftarrow> da_walk (da tr) (ts_index s) tc;
           let s = s\<lparr>ts_index := index\<rparr>;
           if ret
           then do {
             sep \<leftarrow> trie_da_is_separate (da tr) index;
             if sep
             then do {
               t \<leftarrow> trie_da_get_tail_index (da tr) index;
               Some (ret, s\<lparr>ts_index := t, ts_suffix_idx := 0, ts_is_suffix := True\<rparr>)
             }
             else Some (ret, s)
           }
           else Some (ret, s)
         }
         else do {
           (ret, idx) \<leftarrow> tail_walk_char (tail tr) (ts_index s) (ts_suffix_idx s) tc;
           Some (ret, s\<lparr>ts_suffix_idx := idx\<rparr>)
         })"

definition trie_state_is_walkable :: "Trie \<Rightarrow> TrieState \<Rightarrow> AlphaChar \<Rightarrow> bool option" where
  "trie_state_is_walkable tr s c =
     (let tc = alpha_map_char_to_trie (alpha_map tr) c
      in if \<not> ts_is_suffix s then da_is_walkable (da tr) (ts_index s) tc
         else tail_is_walkable_char (tail tr) (ts_index s) (ts_suffix_idx s) tc)"

definition trie_state_is_single :: "TrieState \<Rightarrow> bool" where
  "trie_state_is_single s = ts_is_suffix s"

text \<open>The macros \<open>trie_state_is_terminal\<close> and \<open>trie_state_is_leaf\<close> of \<open>src/server/trie.h\<close>.\<close>

definition trie_state_is_terminal :: "Trie \<Rightarrow> TrieState \<Rightarrow> bool option" where
  "trie_state_is_terminal tr s = trie_state_is_walkable tr s 0"

definition trie_state_is_leaf :: "Trie \<Rightarrow> TrieState \<Rightarrow> bool option" where
  "trie_state_is_leaf tr s =
     (if trie_state_is_single s then trie_state_is_terminal tr s else Some False)"

definition trie_state_get_data :: "Trie \<Rightarrow> TrieState \<Rightarrow> TrieData option" where
  "trie_state_get_data tr s =
     (if ts_is_suffix s then tail_get_data (tail tr) (ts_index s) else Some TRIE_DATA_ERROR)"

end
