(* ===== verification/TrieMap.thy ===== *)
theory TrieMap
  imports Trie
begin

text \<open>
  The trie implements a map from strings of alphabet characters to data: the invariant \<open>trie_ok\<close>,
  which strings a trie \<open>holds\<close> with which data, and what each operation of \<open>Trie\<close> does to it.
\<close>

section \<open>The invariant and the contents\<close>

definition is_tchar :: "AlphaMap \<Rightarrow> TrieChar \<Rightarrow> bool" where
  "is_tchar am c \<longleftrightarrow> (\<exists>a\<in>alpha_set am. a \<noteq> 0 \<and> c = alpha_map_char_to_trie am a)"

text \<open>A separate node at the end of \<open>ks\<close> with the suffix \<open>q\<close>: the terminator is the last branch
  character or it ends the suffix.\<close>

definition key_split :: "AlphaMap \<Rightarrow> TrieChar list \<Rightarrow> TrieChar list \<Rightarrow> bool" where
  "key_split am ks q \<longleftrightarrow> (\<forall>c\<in>set q. is_tchar am c) \<and>
     (\<exists>w. (\<forall>c\<in>set w. is_tchar am c) \<and> (ks = w \<or> ks = w @ [0] \<and> q = []))"

definition leaf_ok :: "AlphaMap \<Rightarrow> Tail \<Rightarrow> TrieChar list \<Rightarrow> TrieIndex \<Rightarrow> bool" where
  "leaf_ok am t ks i \<longleftrightarrow>
     (\<exists>q d. tail_entries t i = Some (Some (q @ [0]), d) \<and> length q \<le> 32767 \<and> key_split am ks q)"

definition leaves_ok :: "AlphaMap \<Rightarrow> (TrieChar list \<Rightarrow> TrieIndex option) \<Rightarrow> Tail \<Rightarrow> bool" where
  "leaves_ok am V t \<longleftrightarrow> V [] = Some 0 \<and> (\<forall>ks. V ks = Some 0 \<longrightarrow> 0 \<notin> set ks) \<and>
     (\<forall>ks v. V ks = Some v \<and> v < 0 \<longrightarrow> leaf_ok am t ks (- v)) \<and>
     (\<forall>ks ks' v. V ks = Some v \<and> V ks' = Some v \<and> v < 0 \<longrightarrow> ks = ks')"

definition trie_ok :: "Trie \<Rightarrow> bool" where
  "trie_ok tr \<longleftrightarrow> alphabet_ok (alpha_map tr) \<and> da_ok (da tr) \<and> tail_ok (tail tr) \<and>
     num_cells (da tr) + 255 \<le> TRIE_INDEX_MAX \<and> leaves_ok (alpha_map tr) (da_view (da tr)) (tail tr)"

text \<open>The string of trie characters \<open>w\<close> is stored with the data \<open>d\<close>.\<close>

definition spells :: "TrieChar list \<Rightarrow> TrieChar list \<Rightarrow> TrieChar list \<Rightarrow> bool" where
  "spells ks q w \<longleftrightarrow> ks = w @ [0] \<and> q = [] \<or> w = ks @ q \<and> 0 \<notin> set ks"

definition holds :: "(TrieChar list \<Rightarrow> TrieIndex option) \<Rightarrow> Tail \<Rightarrow> TrieChar list \<Rightarrow> TrieData \<Rightarrow> bool" where
  "holds V t w d \<longleftrightarrow> (\<exists>ks i q. V ks = Some (- i) \<and> 0 < i \<and> tail_entries t i = Some (Some (q @ [0]), d) \<and>
     spells ks q w)"

lemma is_tchar_range: "alphabet_ok am \<Longrightarrow> is_tchar am c \<Longrightarrow> c \<noteq> 0 \<and> c \<noteq> 255"
  using char_to_trie_in(1,2) by (auto simp: is_tchar_def TRIE_CHAR_MAX_def)

lemma char_to_trie_nonzero: "alphabet_ok am \<Longrightarrow> a \<noteq> 0 \<Longrightarrow> alpha_map_char_to_trie am a \<noteq> 0"
  using char_to_trie_in(1) [of am a] char_to_trie_notin [of a am]
  by (cases "a \<in> alpha_set am") (auto simp: TRIE_CHAR_MAX_def)

lemma trie_key_simps [simp]:
  "trie_key am [] = []" "trie_key am (c # u) = alpha_map_char_to_trie am c # trie_key am u"
  "trie_key am (u @ v) = trie_key am u @ trie_key am v" "length (trie_key am u) = length u"
  by (simp_all add: trie_key_def)

lemma trie_key_nonzero: "alphabet_ok am \<Longrightarrow> 0 \<notin> set u \<Longrightarrow> 0 \<notin> set (trie_key am u)"
  using char_to_trie_nonzero by (induction u) auto

lemma trie_key_tchar:
  assumes "alpha_key am k" and "c \<in> set (trie_key am k)"
  shows "is_tchar am c"
proof -
  obtain a where "a \<in> set k" "c = alpha_map_char_to_trie am a" using assms(2) by (auto simp: trie_key_def)
  moreover from this have "a \<in> alpha_set am" "a \<noteq> 0" using assms(1) by (auto simp: alpha_key_def)
  ultimately show ?thesis unfolding is_tchar_def by blast
qed

section \<open>Separate nodes end their paths\<close>

lemma view_walk: "da_view d ks = Some v \<Longrightarrow> \<exists>s. walk_from d 2 ks = Some s \<and> v = min 0 (bs d s)"
  by (auto simp: da_view_def)

lemma view_leaf: "da_view d ks = Some v \<Longrightarrow> v < 0 \<Longrightarrow> \<exists>s. walk_from d 2 ks = Some s \<and> bs d s = v"
  by (auto simp: da_view_def min_def split: if_splits)

lemma leaf_stops:
  assumes "da_view d ks = Some v" and "v < 0" and "cs \<noteq> []"
  shows "da_view d (ks @ cs) = None"
proof -
  obtain s where s: "walk_from d 2 ks = Some s" "bs d s = v" using view_leaf [OF assms(1,2)] by blast
  obtain c cs' where "cs = c # cs'" using assms(3) by (cases cs) auto
  then show ?thesis using s assms(2) by (simp add: da_view_def walk_append step_def)
qed

lemma leaf_unique:
  assumes "da_view d ks = Some v" "v < 0" and "da_view d ks' = Some v'" "v' < 0"
    and "ks @ xs = ks' @ ys"
  shows "ks = ks'"
proof -
  consider zs where "ks' = ks @ zs" | zs where "ks = ks' @ zs"
    using assms(5) by (auto simp: append_eq_append_conv2)
  then show ?thesis
  proof cases
    case 1
    then show ?thesis using leaf_stops [OF assms(1,2), of zs] assms(3) by (cases "zs = []") auto
  next
    case 2
    then show ?thesis using leaf_stops [OF assms(3,4), of zs] assms(1) by (cases "zs = []") auto
  qed
qed

lemma spells_prefix: "spells ks q w \<Longrightarrow> \<exists>xs. ks @ xs = w @ [0]"
  by (auto simp: spells_def)

lemma leaf_split_spells:
  assumes "alphabet_ok am" and "key_split am ks q"
  shows "\<exists>w. spells ks q w \<and> (\<forall>c\<in>set w. is_tchar am c)"
proof -
  obtain w where w: "\<forall>c\<in>set w. is_tchar am c" "ks = w \<or> ks = w @ [0] \<and> q = []" and q: "\<forall>c\<in>set q. is_tchar am c"
    using assms(2) by (auto simp: key_split_def)
  then have "0 \<notin> set w" using is_tchar_range [OF assms(1)] by auto
  with w q show ?thesis
    by (elim disjE; intro exI [of _ "if ks = w then w @ q else w"]) (auto simp: spells_def)
qed

section \<open>The two loops\<close>

lemma walk_branches_ok:
  assumes ok: "trie_ok tr" and "0 \<notin> set u" and "walk_from (da tr) 2 ks = Some s"
  shows "\<exists>u1 u2 s'. u = u1 @ u2 \<and> walk_from (da tr) 2 (ks @ trie_key (alpha_map tr) u1) = Some s' \<and>
    ((bs (da tr) s' < 0 \<and> walk_branches tr s (u @ 0 # r) = Some (Arrived s' (u2 @ 0 # r))) \<or>
     (0 \<le> bs (da tr) s' \<and> u2 = [] \<and> (\<exists>s''. step (da tr) s' 0 = Some s'' \<and>
        walk_branches tr s (u @ 0 # r) = Some (Arrived s'' (0 # r)))) \<or>
     (0 \<le> bs (da tr) s' \<and> step (da tr) s' (hd (trie_key (alpha_map tr) u2 @ [0])) = None \<and>
        walk_branches tr s (u @ 0 # r) = Some (Stopped s' (u2 @ 0 # r))))"
  using assms(2,3)
proof (induction u arbitrary: ks s)
  case Nil
  have d: "da_ok (da tr)" and room: "num_cells (da tr) + 255 \<le> TRIE_INDEX_MAX" using ok by (auto simp: trie_ok_def)
  have s: "s \<in> nodes (da tr)" by (rule walk_node [OF d root_node Nil.prems(2)])
  have sep: "trie_da_is_separate (da tr) s = Some (bs (da tr) s < 0)"
    using da_ring [OF d] node_range [OF d s] by (simp add: trie_da_is_separate_def accessors)
  show ?case
  proof (cases "bs (da tr) s < 0")
    case True
    then show ?thesis using Nil.prems sep by (intro exI [of _ "[]"] exI [of _ s]) simp
  next
    case False
    then have w: "da_walk (da tr) s 0 = Some (case step (da tr) s 0 of None \<Rightarrow> (False, s) | Some j \<Rightarrow> (True, j))"
      using da_walk_step(1) [OF d s _ room] by simp
    show ?thesis
    proof (cases "step (da tr) s 0")
      case None
      then show ?thesis using Nil.prems sep False w by (intro exI [of _ "[]"] exI [of _ s]) simp
    next
      case (Some s'')
      then show ?thesis using Nil.prems sep False w by (intro exI [of _ "[]"] exI [of _ s]) simp
    qed
  qed
next
  case (Cons c u)
  let ?tc = "alpha_map_char_to_trie (alpha_map tr) c"
  have d: "da_ok (da tr)" and room: "num_cells (da tr) + 255 \<le> TRIE_INDEX_MAX" using ok by (auto simp: trie_ok_def)
  have s: "s \<in> nodes (da tr)" by (rule walk_node [OF d root_node Cons.prems(2)])
  have sep: "trie_da_is_separate (da tr) s = Some (bs (da tr) s < 0)"
    using da_ring [OF d] node_range [OF d s] by (simp add: trie_da_is_separate_def accessors)
  have c: "c \<noteq> 0" "0 \<notin> set u" using Cons.prems by auto
  show ?case
  proof (cases "bs (da tr) s < 0")
    case True
    then show ?thesis using Cons.prems sep by (intro exI [of _ "[]"] exI [of _ "c # u"] exI [of _ s]) simp
  next
    case False
    then have w: "da_walk (da tr) s ?tc = Some (case step (da tr) s ?tc of None \<Rightarrow> (False, s) | Some j \<Rightarrow> (True, j))"
      using da_walk_step(1) [OF d s _ room] by simp
    show ?thesis
    proof (cases "step (da tr) s ?tc")
      case None
      then show ?thesis using Cons.prems sep False w
        by (intro exI [of _ "[]"] exI [of _ "c # u"] exI [of _ s]) simp
    next
      case (Some t)
      have run: "walk_branches tr s ((c # u) @ 0 # r) = walk_branches tr t (u @ 0 # r)"
        using sep False w Some c by simp
      have "walk_from (da tr) 2 (ks @ [?tc]) = Some t" using Cons.prems(2) Some by (simp add: walk_snoc)
      from Cons.IH [OF c(2) this] obtain u1 u2 s' where IH: "u = u1 @ u2"
        "walk_from (da tr) 2 ((ks @ [?tc]) @ trie_key (alpha_map tr) u1) = Some s'"
        "((bs (da tr) s' < 0 \<and> walk_branches tr t (u @ 0 # r) = Some (Arrived s' (u2 @ 0 # r))) \<or>
         (0 \<le> bs (da tr) s' \<and> u2 = [] \<and> (\<exists>s''. step (da tr) s' 0 = Some s'' \<and>
            walk_branches tr t (u @ 0 # r) = Some (Arrived s'' (0 # r)))) \<or>
         (0 \<le> bs (da tr) s' \<and> step (da tr) s' (hd (trie_key (alpha_map tr) u2 @ [0])) = None \<and>
            walk_branches tr t (u @ 0 # r) = Some (Stopped s' (u2 @ 0 # r))))"
        by blast
      show ?thesis
      proof (intro exI conjI)
        show "c # u = (c # u1) @ u2" using IH(1) by simp
        show "walk_from (da tr) 2 (ks @ trie_key (alpha_map tr) (c # u1)) = Some s'" using IH(2) by simp
        show "(bs (da tr) s' < 0 \<and> walk_branches tr s ((c # u) @ 0 # r) = Some (Arrived s' (u2 @ 0 # r))) \<or>
         (0 \<le> bs (da tr) s' \<and> u2 = [] \<and> (\<exists>s''. step (da tr) s' 0 = Some s'' \<and>
            walk_branches tr s ((c # u) @ 0 # r) = Some (Arrived s'' (0 # r)))) \<or>
         (0 \<le> bs (da tr) s' \<and> step (da tr) s' (hd (trie_key (alpha_map tr) u2 @ [0])) = None \<and>
            walk_branches tr s ((c # u) @ 0 # r) = Some (Stopped s' (u2 @ 0 # r)))"
          using IH(3) unfolding run .
      qed
    qed
  qed
qed

lemma walk_tail_ok:
  assumes ok: "trie_ok tr" and e: "tail_entries (tail tr) t = Some (Some (q @ [0]), d)"
    and q: "0 \<notin> set q" "length q \<le> 32767" and u: "0 \<notin> set u" and "j \<le> length q"
  shows "walk_tail tr t (int j) (u @ 0 # r) = Some (trie_key (alpha_map tr) u = drop j q)"
  using u assms(6)
proof (induction u arbitrary: j)
  case Nil
  have tok: "tail_ok (tail tr)" using ok by (simp add: trie_ok_def)
  note w = tail_walk_char_live [OF tok e, of "int j" "0", simplified, OF _ q(2)]
  show ?case
  proof (cases "j = length q")
    case True
    then show ?thesis using w by (simp add: Let_def)
  next
    case False
    then have "q ! j \<noteq> 0" using q(1) Nil by (metis le_neq_implies_less nth_mem)
    moreover have "drop j q \<noteq> []" using False Nil by simp
    ultimately show ?thesis using w False Nil by (auto simp: Let_def nth_append)
  qed
next
  case (Cons c u)
  let ?tc = "alpha_map_char_to_trie (alpha_map tr) c"
  have tok: "tail_ok (tail tr)" and am: "alphabet_ok (alpha_map tr)" using ok by (simp_all add: trie_ok_def)
  have c: "c \<noteq> 0" "0 \<notin> set u" using Cons.prems by auto
  have tc: "?tc \<noteq> 0" using char_to_trie_nonzero [OF am c(1)] .
  have w: "tail_walk_char (tail tr) t (int j) ?tc =
     (let x = (q @ [0]) ! j in Some (x = ?tc, if x = ?tc \<and> x \<noteq> 0 then int j + 1 else int j))"
    using tail_walk_char_live [OF tok e, of "int j" ?tc] Cons.prems(2) q(2) by simp
  show ?case
  proof (cases "j < length q \<and> q ! j = ?tc")
    case True
    then have "tail_walk_char (tail tr) t (int j) ?tc = Some (True, int (Suc j))"
      using w tc by (simp add: Let_def nth_append)
    moreover have "drop j q = ?tc # drop (Suc j) q" using True by (metis Cons_nth_drop_Suc)
    ultimately show ?thesis using Cons.IH [OF c(2), of "Suc j"] True c(1) by simp
  next
    case False
    then have "tail_walk_char (tail tr) t (int j) ?tc = Some (False, int j)"
      using w tc Cons.prems(2) by (auto simp: Let_def nth_append)
    moreover have "trie_key (alpha_map tr) (c # u) \<noteq> drop j q"
      using False by (metis drop_all linorder_not_less list.distinct(1) list.inject trie_key_simps(2) Cons_nth_drop_Suc)
    ultimately show ?thesis by simp
  qed
qed

section \<open>Retrieving\<close>

lemma trie_parts:
  assumes "trie_ok tr"
  shows "alphabet_ok (alpha_map tr)" "da_ok (da tr)" "tail_ok (tail tr)"
    "num_cells (da tr) + 255 \<le> TRIE_INDEX_MAX" "leaves_ok (alpha_map tr) (da_view (da tr)) (tail tr)"
  using assms by (simp_all add: trie_ok_def)

lemma leaf_entry:
  assumes "leaves_ok am V t" and "alphabet_ok am" and "V ks = Some v" "v < 0"
  shows "\<exists>q d. tail_entries t (- v) = Some (Some (q @ [0]), d) \<and> length q \<le> 32767 \<and> key_split am ks q \<and> 0 \<notin> set q"
proof -
  have "leaf_ok am t ks (- v)" using assms(1,3,4) by (simp add: leaves_ok_def)
  then obtain q d where q: "tail_entries t (- v) = Some (Some (q @ [0]), d)" "length q \<le> 32767" "key_split am ks q"
    by (auto simp: leaf_ok_def)
  then have "0 \<notin> set q" using is_tchar_range [OF assms(2)] by (auto simp: key_split_def)
  with q show ?thesis by blast
qed

lemma tail_index_of:
  assumes "trie_ok tr" and "walk_from (da tr) 2 ks = Some s" "bs (da tr) s < 0"
  shows "trie_da_get_tail_index (da tr) s = Some (- bs (da tr) s) \<and> is_int32 (bs (da tr) s)"
proof -
  note p = trie_parts [OF assms(1)]
  have s: "s \<in> nodes (da tr)" by (rule walk_node [OF p(2) root_node assms(2)])
  have v: "da_view (da tr) ks = Some (bs (da tr) s)" using assms(2,3) by (simp add: da_view_def)
  obtain q d where "tail_entries (tail tr) (- bs (da tr) s) = Some (Some (q @ [0]), d)"
    using leaf_entry [OF p(5,1) v assms(3)] by blast
  then have "tail_live (tail tr) (- bs (da tr) s)" by (auto simp: tail_entries_def split: if_splits)
  then have "- bs (da tr) s \<le> num_tails (tail tr)" by (simp add: tail_live_def)
  moreover have "is_int32 (num_tails (tail tr))" using p(3) unfolding tail_ok_def by blast
  ultimately have i: "is_int32 (- bs (da tr) s)" "is_int32 (bs (da tr) s)" using assms(3) by (auto simp: int32_limits)
  then show ?thesis using da_ring [OF p(2)] node_range [OF p(2) s]
    by (simp add: trie_da_get_tail_index_def accessors)
qed

lemma holds_at:
  assumes "V ks = Some v" "v < 0" and "tail_entries t (- v) = Some (Some (q @ [0]), d)" and "spells ks q w"
  shows "holds V t w d"
  unfolding holds_def using assms by (intro exI [of _ ks] exI [of _ "- v"] exI [of _ q]) simp

text \<open>The separate node found on the way decides what the key holds.\<close>

lemma holds_decided:
  assumes V: "V = da_view d" and a: "V ks = Some v" "v < 0" "tail_entries t (- v) = Some (Some (q @ [0]), x)"
    and pre: "ks @ xs = w @ [0]"
  shows "holds V t w y \<longleftrightarrow> spells ks q w \<and> y = x"
proof
  assume "holds V t w y"
  then obtain ks' i q' where h: "V ks' = Some (- i)" "0 < i" "tail_entries t i = Some (Some (q' @ [0]), y)"
    "spells ks' q' w" by (auto simp: holds_def)
  obtain ys where "ks' @ ys = w @ [0]" using spells_prefix [OF h(4)] by blast
  then have "ks' = ks" using leaf_unique [of d ks v ks' "- i" xs ys] a h V pre by simp
  then show "spells ks q w \<and> y = x" using a h by auto
next
  assume "spells ks q w \<and> y = x"
  then show "holds V t w y" using holds_at [where V = V, OF a] by blast
qed

text \<open>
  The two outcomes of walking a key, for \<open>trie_retrieve\<close>, the stores and \<open>trie_delete\<close>: a separate
  node with its entry, compared to the rest of the key, or a node without the next branch.
\<close>

lemma walk_key:
  assumes ok: "trie_ok tr" and u: "0 \<notin> set u"
  obtains (arrived) ks s u2 q x where "walk_from (da tr) 2 ks = Some s" "bs (da tr) s < 0"
      "tail_entries (tail tr) (- bs (da tr) s) = Some (Some (q @ [0]), x)" "length q \<le> 32767"
      "key_split (alpha_map tr) ks q" "0 \<notin> set q" "0 \<notin> set u2"
      "walk_branches tr da_get_root (u @ 0 # r) = Some (Arrived s (u2 @ 0 # r))"
      "trie_da_get_tail_index (da tr) s = Some (- bs (da tr) s)"
      "walk_tail tr (- bs (da tr) s) 0 (u2 @ 0 # r) = Some (trie_key (alpha_map tr) u2 = q)"
      "spells ks q (trie_key (alpha_map tr) u) \<longleftrightarrow> trie_key (alpha_map tr) u2 = q"
      "\<exists>xs. ks @ xs = trie_key (alpha_map tr) u @ [0]"
      "trie_key (alpha_map tr) u2 \<noteq> q \<Longrightarrow> \<exists>u1. ks = trie_key (alpha_map tr) u1 \<and> u = u1 @ u2"
    | (stopped) u1 u2 s where "u = u1 @ u2" "walk_from (da tr) 2 (trie_key (alpha_map tr) u1) = Some s"
      "0 \<le> bs (da tr) s" "step (da tr) s (hd (trie_key (alpha_map tr) u2 @ [0])) = None"
      "walk_branches tr da_get_root (u @ 0 # r) = Some (Stopped s (u2 @ 0 # r))"
proof -
  note p = trie_parts [OF ok]
  let ?key = "trie_key (alpha_map tr)" and ?V = "da_view (da tr)" and ?d = "da tr"
  have "walk_from ?d 2 [] = Some 2" by simp
  note wb = walk_branches_ok [OF ok u this, of r]
  obtain u1 u2 s' where w: "u = u1 @ u2" "walk_from ?d 2 (?key u1) = Some s'"
    and cases: "(bs ?d s' < 0 \<and> walk_branches tr 2 (u @ 0 # r) = Some (Arrived s' (u2 @ 0 # r))) \<or>
     (0 \<le> bs ?d s' \<and> u2 = [] \<and> (\<exists>s''. step ?d s' 0 = Some s'' \<and>
        walk_branches tr 2 (u @ 0 # r) = Some (Arrived s'' (0 # r)))) \<or>
     (0 \<le> bs ?d s' \<and> step ?d s' (hd (?key u2 @ [0])) = None \<and>
        walk_branches tr 2 (u @ 0 # r) = Some (Stopped s' (u2 @ 0 # r)))"
    using wb unfolding append_Nil by blast
  have nz: "0 \<notin> set (?key u1)" "0 \<notin> set u2" using trie_key_nonzero [OF p(1)] u w(1) by auto
  from cases show ?thesis
  proof (elim disjE exE conjE)
    assume a: "bs ?d s' < 0" "walk_branches tr 2 (u @ 0 # r) = Some (Arrived s' (u2 @ 0 # r))"
    have v: "?V (?key u1) = Some (bs ?d s')" using w(2) a(1) by (simp add: da_view_def)
    obtain q x where e: "tail_entries (tail tr) (- bs ?d s') = Some (Some (q @ [0]), x)" "length q \<le> 32767"
      "key_split (alpha_map tr) (?key u1) q" "0 \<notin> set q" using leaf_entry [OF p(5,1) v a(1)] by blast
    have sp: "spells (?key u1) q (?key u) \<longleftrightarrow> ?key u2 = q" using nz(1) w(1) by (auto simp: spells_def)
    have run: "walk_branches tr da_get_root (u @ 0 # r) = Some (Arrived s' (u2 @ 0 # r))"
      using a(2) by (simp only: da_get_root_def)
    have wt: "walk_tail tr (- bs ?d s') 0 (u2 @ 0 # r) = Some (?key u2 = q)"
      using walk_tail_ok [OF ok e(1,4,2) nz(2), of 0 r] by simp
    have ti: "trie_da_get_tail_index ?d s' = Some (- bs ?d s')" using tail_index_of [OF ok w(2) a(1)] by simp
    have "\<exists>xs. ?key u1 @ xs = ?key u @ [0]" using w(1) by simp
    moreover have "\<exists>u1'. ?key u1 = ?key u1' \<and> u = u1' @ u2" using w(1) by blast
    ultimately show thesis using arrived [OF w(2) a(1) e nz(2) run ti wt sp] by blast
  next
    fix s''
    assume a: "0 \<le> bs ?d s'" "u2 = []" "step ?d s' 0 = Some s''"
      "walk_branches tr 2 (u @ 0 # r) = Some (Arrived s'' (0 # r))"
    have w2: "walk_from ?d 2 (?key u @ [0]) = Some s''" using w a(2,3) by (simp add: walk_snoc)
    have neg: "bs ?d s'' < 0"
    proof (rule ccontr)
      assume "\<not> bs ?d s'' < 0"
      then have "?V (?key u @ [0]) = Some 0" using w2 by (simp add: da_view_def)
      then show False using p(5) by (auto simp: leaves_ok_def)
    qed
    have v: "?V (?key u @ [0]) = Some (bs ?d s'')" using w2 neg by (simp add: da_view_def)
    obtain q x where e: "tail_entries (tail tr) (- bs ?d s'') = Some (Some (q @ [0]), x)" "length q \<le> 32767"
      "key_split (alpha_map tr) (?key u @ [0]) q" "0 \<notin> set q" using leaf_entry [OF p(5,1) v neg] by blast
    have "\<not> is_tchar (alpha_map tr) 0" using is_tchar_range [OF p(1)] by blast
    then have q: "q = []" using e(3) by (auto simp: key_split_def)
    have sp: "spells (?key u @ [0]) q (?key u) \<longleftrightarrow> ?key [] = q" using q by (simp add: spells_def)
    have run: "walk_branches tr da_get_root (u @ 0 # r) = Some (Arrived s'' ([] @ 0 # r))"
      using a(4) by (simp only: da_get_root_def append_Nil)
    have wt: "walk_tail tr (- bs ?d s'') 0 ([] @ 0 # r) = Some (?key [] = q)"
      using walk_tail_ok [OF ok e(1,4,2), of "[]" 0 r] q by simp
    have ti: "trie_da_get_tail_index ?d s'' = Some (- bs ?d s'')" using tail_index_of [OF ok w2 neg] by simp
    have n: "(0::AlphaChar) \<notin> set []" by simp
    have "\<exists>xs. (?key u @ [0]) @ xs = ?key u @ [0]" by simp
    moreover have "?key [] = q" using q by simp
    ultimately show thesis using arrived [OF w2 neg e n run ti wt sp] by blast
  next
    assume a: "0 \<le> bs ?d s'" "step ?d s' (hd (?key u2 @ [0])) = None"
      "walk_branches tr 2 (u @ 0 # r) = Some (Stopped s' (u2 @ 0 # r))"
    have run: "walk_branches tr da_get_root (u @ 0 # r) = Some (Stopped s' (u2 @ 0 # r))"
      using a(3) by (simp only: da_get_root_def)
    show thesis by (rule stopped [OF w a(1,2) run])
  qed
qed

text \<open>Where the walk stops the key is not stored.\<close>

lemma stopped_not_held:
  assumes "walk_from d 2 ks = Some s" and "0 \<le> bs d s" and "step d s c = None"
    and "ks @ c # cs = w @ [0]"
  shows "\<not> holds (da_view d) t w y"
proof
  have v0: "da_view d ks = Some 0" using assms(1,2) by (simp add: da_view_def)
  assume "holds (da_view d) t w y"
  then obtain ks' i q' where h: "da_view d ks' = Some (- i)" "0 < i" "spells ks' q' w"
    by (auto simp: holds_def)
  obtain ys where y: "ks' @ ys = ks @ c # cs" using spells_prefix [OF h(3)] assms(4) by auto
  then consider zs where "ks = ks' @ zs" | zs where "ks' = ks @ zs" "zs @ ys = c # cs"
    by (auto simp: append_eq_append_conv2)
  then show False
  proof cases
    case 1
    then show False using leaf_stops [OF h(1), of zs] h(1,2) v0 by (cases "zs = []") auto
  next
    case 2
    then show False using h(1,2) v0 assms(1,3) by (cases zs) (auto simp: da_view_def walk_append)
  qed
qed

lemma retrieve_ok:
  assumes ok: "trie_ok tr" and u: "0 \<notin> set u"
  shows "\<exists>res. trie_retrieve tr (u @ 0 # r) = Some res \<and>
    (\<forall>d. res = Some d \<longleftrightarrow> holds (da_view (da tr)) (tail tr) (trie_key (alpha_map tr) u) d)"
  using ok u
proof (cases rule: walk_key [of tr u r])
  case (arrived ks s u2 q x)
  let ?key = "trie_key (alpha_map tr)"
  have v: "da_view (da tr) ks = Some (bs (da tr) s)" using arrived(1,2) by (simp add: da_view_def)
  have gd: "tail_get_data (tail tr) (- bs (da tr) s) = Some x"
    by (rule tail_get_data_live [OF trie_parts(3) [OF ok] arrived(3)])
  have "trie_retrieve tr (u @ 0 # r) = Some (if ?key u2 = q then Some x else None)"
    using arrived(8-10) gd by (simp add: trie_retrieve_def)
  moreover obtain xs where "ks @ xs = ?key u @ [0]" using arrived(12) by blast
  then have "holds (da_view (da tr)) (tail tr) (?key u) d \<longleftrightarrow> ?key u2 = q \<and> d = x" for d
    using holds_decided [OF refl v arrived(2,3)] arrived(11) by simp
  ultimately show ?thesis by (intro exI [of _ "if ?key u2 = q then Some x else None"]) auto
next
  case (stopped u1 u2 s)
  let ?key = "trie_key (alpha_map tr)"
  obtain c cs where c: "?key u2 @ [0] = c # cs" by (cases "?key u2 @ [0]") auto
  then have "?key u1 @ c # cs = ?key u @ [0]" using stopped(1) by simp
  then have "\<not> holds (da_view (da tr)) (tail tr) (?key u) d" for d
    using stopped(4) c by (intro stopped_not_held [OF stopped(2,3)]) auto
  moreover have "trie_retrieve tr (u @ 0 # r) = Some None" using stopped(5) by (simp add: trie_retrieve_def)
  ultimately show ?thesis by auto
qed

end
