(* ===== verification/TrieStore.thy ===== *)
theory TrieStore
  imports TrieMap
begin

text \<open>
  What storing and deleting do to the strings a trie holds: a new separate node for a key that
  leaves the tree, the splitting of a suffix, overwriting, and the removal of a path.
\<close>

section \<open>Adding a separate node\<close>

lemma entry_index:
  assumes "tail_ok t" and "tail_entries t i = Some e"
  shows "1 \<le> i" "is_int32 i" "is_int32 (- i)"
proof -
  have "tail_live t i" using assms(2) by (auto simp: tail_entries_def split: if_splits)
  then have i: "1 \<le> i" "i \<le> num_tails t" by (simp_all add: tail_live_def)
  moreover have "is_int32 (num_tails t)" using assms(1) unfolding tail_ok_def by blast
  ultimately show "1 \<le> i" "is_int32 i" "is_int32 (- i)" by (auto simp: int32_limits)
qed

lemma leaf_step_none: "bs d s < 0 \<Longrightarrow> step d s c = None"
  by (simp add: step_def)

text \<open>Giving a separate node its tail index changes the view at its path only.\<close>

lemma set_tail_index_ok:
  assumes ok: "da_ok d" and w: "walk_from d 2 ks = Some s" and neg: "bs d s < 0" and v: "1 \<le> v" "is_int32 (- v)"
  shows "\<exists>d'. trie_da_set_tail_index d s v = Some d' \<and> da_ok d' \<and> num_cells d' = num_cells d \<and>
    walk_from d' 2 = walk_from d 2 \<and> da_view d' = (da_view d)(ks \<mapsto> - v)"
proof -
  have s: "s \<in> nodes d" by (rule walk_node [OF ok root_node w])
  have n: "- v \<le> num_cells d" using v(1) node_range [OF ok s] by linarith
  have n': "0 < - v \<longrightarrow> 3 \<le> - v" using v(1) by simp
  have "\<forall>c. step d s c = None" using leaf_step_none [OF neg] by blast
  note b = set_base_ok [OF ok s this n n']
  have "trie_da_set_tail_index d s v = Some (put_b d s (- v))"
    using b(1) v(2) by (simp add: trie_da_set_tail_index_def accessors)
  moreover have "da_view (put_b d s (- v)) xs = ((da_view d)(ks \<mapsto> - v)) xs" for xs
  proof (cases "walk_from d 2 xs")
    case None
    then have "xs \<noteq> ks" using w by auto
    with None show ?thesis by (simp add: da_view_def b(3))
  next
    case (Some j)
    then have "j = s \<longleftrightarrow> xs = ks" using walk_inj [OF ok Some, of ks] w by auto
    with Some v(1) show ?thesis by (simp add: da_view_def b(3,6))
  qed
  moreover have "walk_from (put_b d s (- v)) 2 = walk_from d 2" using b(3) by blast
  moreover have "num_cells (put_b d s (- v)) = num_cells d" by (simp add: put_b_def)
  ultimately show ?thesis using b(2) by blast
qed

lemma leaf_ok_cong:
  "leaf_ok am t ks i \<Longrightarrow> tail_entries t' i = tail_entries t i \<Longrightarrow> leaf_ok am t' ks i"
  by (simp add: leaf_ok_def)

lemma leaves_parts:
  assumes "leaves_ok am V t"
  shows "V [] = Some 0" "V ks = Some 0 \<Longrightarrow> 0 \<notin> set ks" "V ks = Some v \<Longrightarrow> v < 0 \<Longrightarrow> leaf_ok am t ks (- v)"
    "V ks = Some v \<Longrightarrow> V ks' = Some v \<Longrightarrow> v < 0 \<Longrightarrow> ks = ks'"
  using assms unfolding leaves_ok_def by blast+

lemma leaf_live: "leaves_ok am V t \<Longrightarrow> V ks = Some v \<Longrightarrow> v < 0 \<Longrightarrow> tail_entries t (- v) \<noteq> None"
  using leaves_parts(3) [of am V t ks v] by (auto simp: leaf_ok_def)

lemma add_leaf:
  assumes l: "leaves_ok am V t" and P: "V P = None" and E: "tail_entries t i = None" and i: "1 \<le> i"
    and V': "V' = V(P \<mapsto> - i)" and E': "tail_entries t' = (tail_entries t)(i \<mapsto> (Some (q @ [0]), x))"
    and q: "length q \<le> 32767" "key_split am P q"
  shows "leaves_ok am V' t'"
    and "holds V' t' w y \<longleftrightarrow> holds V t w y \<or> spells P q w \<and> y = x"
proof -
  note p = leaves_parts [OF l]
  have ni: "v \<noteq> - i" if "V ks = Some v" for ks v
    using leaf_live [OF l that] E i by (cases "v < 0") auto
  have lv: "leaf_ok am t' ks (- v)" if "V' ks = Some v" "v < 0" for ks v
  proof (cases "ks = P")
    case True
    then show ?thesis using that V' E' q by (auto simp: leaf_ok_def)
  next
    case False
    then have v: "V ks = Some v" using that V' by simp
    show ?thesis by (rule leaf_ok_cong [OF p(3) [OF v that(2)]]) (use ni [OF v] E' in auto)
  qed
  show "leaves_ok am V' t'"
    unfolding leaves_ok_def
  proof (intro conjI allI impI)
    show "V' [] = Some 0" using p(1) P V' by auto
    show "0 \<notin> set ks" if "V' ks = Some 0" for ks
      using that p(2) [of ks] i V' by (auto split: if_splits)
    show "leaf_ok am t' ks (- v)" if "V' ks = Some v \<and> v < 0" for ks v using lv that by blast
    show "ks = ks'" if "V' ks = Some v \<and> V' ks' = Some v \<and> v < 0" for ks ks' v
      using that ni p(4) [of ks v ks'] V' by (auto split: if_splits)
  qed
  show "holds V' t' w y \<longleftrightarrow> holds V t w y \<or> spells P q w \<and> y = x"
  proof
    assume "holds V' t' w y"
    then obtain ks j q' where h: "V' ks = Some (- j)" "0 < j" "tail_entries t' j = Some (Some (q' @ [0]), y)"
      "spells ks q' w" by (auto simp: holds_def)
    show "holds V t w y \<or> spells P q w \<and> y = x"
    proof (cases "ks = P")
      case True
      then show ?thesis using h V' E' by auto
    next
      case False
      then have v: "V ks = Some (- j)" using h(1) V' by simp
      then have "tail_entries t j = Some (Some (q' @ [0]), y)" using h(3) E' ni [OF v] by auto
      then show ?thesis using v h unfolding holds_def by blast
    qed
  next
    assume "holds V t w y \<or> spells P q w \<and> y = x"
    then show "holds V' t' w y"
    proof
      assume "holds V t w y"
      then obtain ks j q' where h: "V ks = Some (- j)" "0 < j" "tail_entries t j = Some (Some (q' @ [0]), y)"
        "spells ks q' w" by (auto simp: holds_def)
      have "V' ks = Some (- j)" "tail_entries t' j = Some (Some (q' @ [0]), y)"
        using h(1,3) P E V' E' by (auto split: if_splits)
      then show ?thesis using h(2,4) unfolding holds_def by blast
    next
      assume "spells P q w \<and> y = x"
      then show ?thesis using i V' E' unfolding holds_def
        by (intro exI [of _ P] exI [of _ i] exI [of _ q]) simp
    qed
  qed
qed

definition trie_room :: "Trie \<Rightarrow> nat \<Rightarrow> bool" where
  "trie_room tr n \<longleftrightarrow> num_cells (da tr) + 768 * int n + 1024 < TRIE_INDEX_MAX \<and> num_tails (tail tr) < INT32_MAX"

lemma spells_new:
  assumes "0 \<notin> set ks0" and "0 \<notin> set u"
  shows "u \<noteq> [] \<Longrightarrow> spells (ks0 @ [hd u]) (tl u) w \<longleftrightarrow> w = ks0 @ u"
    and "spells (ks0 @ [0]) [] w \<longleftrightarrow> w = ks0"
  using assms by (cases u; auto simp: spells_def)+

lemma branch_in_branch_ok:
  assumes ok: "trie_ok tr" and w0: "walk_from (da tr) 2 ks0 = Some s" and b0: "0 \<le> bs (da tr) s"
    and none: "step (da tr) s (hd (u @ [0])) = None"
    and chars: "\<forall>c\<in>set (ks0 @ u). is_tchar (alpha_map tr) c" and len: "length u \<le> 32767"
    and room: "trie_room tr 0"
  shows "\<exists>tr'. trie_branch_in_branch tr s (u @ [0]) data = Some (True, tr') \<and> trie_ok tr' \<and>
    alpha_map tr' = alpha_map tr \<and> num_cells (da tr') \<le> num_cells (da tr) + 768 \<and>
    num_tails (tail tr') \<le> num_tails (tail tr) + 1 \<and>
    (\<forall>w y. holds (da_view (da tr')) (tail tr') w y \<longleftrightarrow>
       holds (da_view (da tr)) (tail tr) w y \<or> w = ks0 @ u \<and> y = data)"
proof -
  note p = trie_parts [OF ok]
  let ?V = "da_view (da tr)" and ?c = "hd (u @ [0])"
  define q where "q = (if u = [] then [] else tl u)"
  have nz: "0 \<notin> set ks0" "0 \<notin> set u" "0 \<notin> set q" using chars is_tchar_range [OF p(1)]
    by (cases u; auto simp: q_def)+
  have c: "?c \<noteq> 255" using chars is_tchar_range [OF p(1)] by (cases u) auto
  have r: "num_cells (da tr) + 1024 < TRIE_INDEX_MAX" "num_tails (tail tr) < INT32_MAX"
    using room by (simp_all add: trie_room_def)
  obtain t d1 where d1: "da_insert_branch (da tr) s ?c = Some (t, d1)" "t \<noteq> 0" "da_ok d1"
    "num_cells d1 \<le> num_cells (da tr) + 768" "walk_from d1 2 (ks0 @ [?c]) = Some t" "bs d1 t < 0"
    "da_view d1 = ?V(ks0 \<mapsto> 0, ks0 @ [?c] \<mapsto> bs d1 t)"
    using insert_branch_ok [OF p(2) r(1) w0 c none] by blast
  have V0: "?V ks0 = Some 0" using w0 b0 by (simp add: da_view_def)
  have VP: "?V (ks0 @ [?c]) = None" using w0 none by (simp add: da_view_def walk_snoc)
  have str: "(if 0 \<noteq> ?c then tl (u @ [0]) else u @ [0]) = q @ 0 # []" using nz by (cases u) (auto simp: q_def)
  obtain i t1 where t1: "tail_add_suffix (tail tr) (Some (q @ 0 # [])) = Some (i, t1)" "tail_ok t1"
    "tail_entries (tail tr) i = None" "1 \<le> i"
    "tail_entries t1 = (tail_entries (tail tr))(i \<mapsto> (Some (q @ [0]), TRIE_DATA_ERROR))"
    "num_tails t1 \<le> num_tails (tail tr) + 1"
    using tail_add_suffix_ok [OF p(3) r(2) nz(3)] by blast
  have e1: "tail_entries t1 i = Some (Some (q @ [0]), TRIE_DATA_ERROR)" using t1(5) by simp
  obtain t2 where t2: "tail_set_data t1 i data = Some (True, t2)" "tail_ok t2"
    "tail_entries t2 = (tail_entries t1)(i \<mapsto> (Some (q @ [0]), data))" "num_tails t2 = num_tails t1"
    using tail_set_data_live [OF t1(2) e1] by blast
  obtain d2 where d2: "trie_da_set_tail_index d1 t i = Some d2" "da_ok d2" "num_cells d2 = num_cells d1"
    "da_view d2 = (da_view d1)(ks0 @ [?c] \<mapsto> - i)"
    using set_tail_index_ok [OF d1(3,5,6) t1(4) entry_index(3) [OF t1(2) e1]] by blast
  let ?tr = "tr\<lparr>da := d2, tail := t2, is_dirty := True\<rparr>"
  have "deref (u @ [0]) = Some ?c" by (cases u) simp_all
  then have run: "trie_branch_in_branch tr s (u @ [0]) data = Some (True, ?tr)"
    using d1(1,2) str t1(1) t2(1) d2(1) by (simp add: trie_branch_in_branch_def TRIE_INDEX_ERROR_def)
  have V': "da_view d2 = ?V(ks0 @ [?c] \<mapsto> - i)" using d2(4) d1(7) V0 by (auto simp: fun_eq_iff)
  have E': "tail_entries t2 = (tail_entries (tail tr))(i \<mapsto> (Some (q @ [0]), data))" using t2(3) t1(5) by simp
  have ksp: "key_split (alpha_map tr) (ks0 @ [?c]) q"
  proof (cases u)
    case Nil
    then show ?thesis using chars by (auto simp: key_split_def q_def)
  next
    case (Cons c u')
    then have "\<forall>c\<in>set (ks0 @ [?c]). is_tchar (alpha_map tr) c" "\<forall>c\<in>set q. is_tchar (alpha_map tr) c"
      using chars by (auto simp: q_def)
    then show ?thesis unfolding key_split_def by blast
  qed
  have lq: "length q \<le> 32767" using len by (cases u) (auto simp: q_def)
  note al = add_leaf [OF p(5) VP t1(3,4) V' E' lq ksp]
  have "spells (ks0 @ [?c]) q w \<longleftrightarrow> w = ks0 @ u" for w
    using spells_new [OF nz(1,2), of w] by (cases "u = []") (auto simp: q_def)
  then have "\<forall>w y. holds (da_view d2) t2 w y \<longleftrightarrow> holds ?V (tail tr) w y \<or> w = ks0 @ u \<and> y = data"
    using al(2) by blast
  moreover have "trie_ok ?tr" using p(1) d2(2,3) t2(2) al(1) d1(4) r(1) by (simp add: trie_ok_def)
  ultimately show ?thesis using run d1(4) d2(3) t1(6) t2(4) by (intro exI [of _ ?tr]) simp
qed

section \<open>Moving a separate node down\<close>

text \<open>
  \<open>trie_branch_in_tail\<close> turns the separate node at \<open>ks\<close> into branches for the characters \<open>cm\<close> its
  suffix shares with the new key, and puts a separate node for the old entry behind them.
\<close>

lemma insert_common_ok:
  assumes "da_ok d" and "walk_from d 2 ks = Some s" and "bs d s < 0"
    and "num_cells d + 768 * int (length cm) + 1024 < TRIE_INDEX_MAX" and "255 \<notin> set cm" and "a \<noteq> b"
  shows "\<exists>d' t. insert_common d s (cm @ a # p) (cm @ b # str) = Some (True, d', t, a # p, b # str) \<and>
    da_ok d' \<and> num_cells d' \<le> num_cells d + 768 * int (length cm) \<and> walk_from d' 2 (ks @ cm) = Some t \<and>
    bs d' t < 0 \<and>
    (\<forall>xs. xs \<noteq> ks @ cm \<longrightarrow>
       da_view d' xs = (if \<exists>j<length cm. xs = ks @ take j cm then Some 0 else da_view d xs))"
  using assms
proof (induction cm arbitrary: d ks s)
  case Nil
  then show ?case by (intro exI [of _ d] exI [of _ s]) simp
next
  case (Cons c cm)
  have room: "num_cells d + 1024 < TRIE_INDEX_MAX" "c \<noteq> 255" using Cons.prems(4,5) by auto
  obtain t d1 where d1: "da_insert_branch d s c = Some (t, d1)" "t \<noteq> 0" "da_ok d1"
    "num_cells d1 \<le> num_cells d + 768" "walk_from d1 2 (ks @ [c]) = Some t" "bs d1 t < 0"
    "da_view d1 = (da_view d)(ks \<mapsto> 0, ks @ [c] \<mapsto> bs d1 t)"
    using insert_branch_ok [OF Cons.prems(1) room(1) Cons.prems(2) room(2) leaf_step_none [OF Cons.prems(3)]]
    by blast
  have r1: "num_cells d1 + 768 * int (length cm) + 1024 < TRIE_INDEX_MAX"
    using d1(4) Cons.prems(4) by simp
  have n1: "255 \<notin> set cm" using Cons.prems(5) by simp
  obtain d' t' where IH: "insert_common d1 t (cm @ a # p) (cm @ b # str) = Some (True, d', t', a # p, b # str)"
    "da_ok d'" "num_cells d' \<le> num_cells d1 + 768 * int (length cm)"
    "walk_from d' 2 ((ks @ [c]) @ cm) = Some t'" "bs d' t' < 0"
    "\<forall>xs. xs \<noteq> (ks @ [c]) @ cm \<longrightarrow>
       da_view d' xs = (if \<exists>j<length cm. xs = (ks @ [c]) @ take j cm then Some 0 else da_view d1 xs)"
    using Cons.IH [OF d1(3,5,6) r1 n1 Cons.prems(6)] by blast
  have "insert_common d s ((c # cm) @ a # p) ((c # cm) @ b # str) = Some (True, d', t', a # p, b # str)"
    using d1(1,2) IH(1) by (simp add: TRIE_INDEX_ERROR_def)
  moreover have "da_view d' xs = (if \<exists>j<length (c # cm). xs = ks @ take j (c # cm) then Some 0 else da_view d xs)"
    if "xs \<noteq> ks @ c # cm" for xs
  proof -
    have split: "(\<exists>j<length (c # cm). xs = ks @ take j (c # cm)) \<longleftrightarrow>
        xs = ks \<or> (\<exists>j<length cm. xs = (ks @ [c]) @ take j cm)"
      by (auto simp: less_Suc_eq_0_disj)
    have "da_view d' xs = (if \<exists>j<length cm. xs = (ks @ [c]) @ take j cm then Some 0 else da_view d1 xs)"
      using IH(6) that by simp
    moreover have "\<exists>j<length cm. xs = (ks @ [c]) @ take j cm" if "xs = ks @ [c]"
      using that \<open>xs \<noteq> ks @ c # cm\<close> by (intro exI [of _ 0]) auto
    ultimately show ?thesis unfolding split d1(7) by auto
  qed
  moreover have "num_cells d' \<le> num_cells d + 768 * int (length (c # cm))" using IH(3) d1(4) by simp
  moreover have "walk_from d' 2 (ks @ c # cm) = Some t'" using IH(4) by simp
  ultimately show ?case using IH(2,5) by (intro exI [of _ d'] exI [of _ t']) blast
qed

text \<open>The view and the entries after the old separate node has moved.\<close>

lemma move_leaf:
  assumes l: "leaves_ok am V t" and am: "alphabet_ok am" and V: "V = da_view d" and ks: "V ks = Some (- i)" "1 \<le> i" "0 \<notin> set ks"
    and e: "tail_entries t i = Some (Some (q @ [0]), x)" and q: "length q \<le> 32767" "key_split am ks q"
    and cm: "q @ [0] = cm @ a # p"
    and V': "\<forall>xs. V' xs = (if \<exists>j\<le>length cm. xs = ks @ take j cm then Some 0
                           else if xs = ks @ cm @ [a] then Some (- i) else V xs)"
    and E': "tail_entries t' = (tail_entries t)(i \<mapsto> (Some ((if a = 0 then [] else butlast p) @ [0]), x))"
  shows "leaves_ok am V' t'" and "holds V' t' w y \<longleftrightarrow> holds V t w y"
proof -
  note lp = leaves_parts [OF l]
  define q' where "q' = (if a = 0 then [] else butlast p)"
  have nq: "\<forall>c\<in>set q. is_tchar am c" "0 \<notin> set q" using q(2) is_tchar_range [OF am] by (auto simp: key_split_def)
  have ksc: "\<forall>c\<in>set ks. is_tchar am c" using q(2) ks(3) by (auto simp: key_split_def)
  have shape: "a = 0 \<and> q = cm \<and> q' = [] \<or> a \<noteq> 0 \<and> q = cm @ a # q' \<and> is_tchar am a"
  proof (cases "p = []")
    case True
    then show ?thesis using cm by (simp add: q'_def)
  next
    case False
    then have "q @ [0] = (cm @ a # butlast p) @ [last p]" using cm by simp
    then have "q = cm @ a # butlast p" by simp
    then show ?thesis using nq by (auto simp: q'_def)
  qed
  have ccm: "0 \<notin> set cm" "\<forall>c\<in>set cm. is_tchar am c" using shape nq by auto
  have E: "tail_entries t' i = Some (Some (q' @ [0]), x)" "j \<noteq> i \<Longrightarrow> tail_entries t' j = tail_entries t j" for j
    using E' by (simp_all add: q'_def)
  have uniq: "V xs = Some (- i) \<Longrightarrow> xs = ks" for xs using lp(4) [of xs "- i" ks] ks by simp
  have lower: "V' xs = Some v \<Longrightarrow> v < 0 \<Longrightarrow> xs = ks @ cm @ [a] \<and> v = - i \<or> V xs = Some v \<and> xs \<noteq> ks \<and> v \<noteq> - i" for xs v
  proof -
    assume h: "V' xs = Some v" "v < 0"
    have no: "\<not> (\<exists>j\<le>length cm. xs = ks @ take j cm)"
    proof
      assume "\<exists>j\<le>length cm. xs = ks @ take j cm"
      then have "V' xs = Some 0" using spec [OF V', of xs] by (simp only: if_True)
      then show False using h by simp
    qed
    moreover have "xs \<noteq> ks" using no by (metis append_Nil2 le0 take0)
    ultimately show ?thesis using h V' uniq by (auto split: if_splits)
  qed
  have keep: "V' xs = Some v" if "V xs = Some v" "v < 0" "xs \<noteq> ks" for xs v
  proof -
    have stop: "V (ks @ zs) = None" if "zs \<noteq> []" for zs
      using leaf_stops [of d ks "- i" zs] ks(1,2) that unfolding V by simp
    have "xs \<noteq> ks @ zs" for zs using stop [of zs] that by (cases "zs = []") auto
    then show ?thesis using V' that(1) by simp
  qed
  have top: "V' (ks @ cm @ [a]) = Some (- i)"
  proof -
    have "ks @ cm @ [a] \<noteq> ks @ take j cm" for j
    proof
      assume "ks @ cm @ [a] = ks @ take j cm"
      then have "length (cm @ [a]) = length (take j cm)" by simp
      then show False by simp
    qed
    then show ?thesis using V' by simp
  qed
  have split': "key_split am (ks @ cm @ [a]) q'"
  proof -
    have "\<forall>c\<in>set (ks @ cm). is_tchar am c" using ksc ccm by auto
    then show ?thesis using shape nq
      by (auto simp: key_split_def intro: exI [of _ "ks @ cm"] exI [of _ "ks @ cm @ [a]"])
  qed
  show "leaves_ok am V' t'"
    unfolding leaves_ok_def
  proof (intro conjI allI impI)
    show "V' [] = Some 0"
    proof (cases "\<exists>j\<le>length cm. [] = ks @ take j cm")
      case False
      then show ?thesis using V' lp(1) by simp
    qed (use V' in auto)
    show "0 \<notin> set xs" if "V' xs = Some 0" for xs
    proof (cases "\<exists>j\<le>length cm. xs = ks @ take j cm")
      case True
      then obtain j where "xs = ks @ take j cm" by blast
      moreover have "0 \<notin> set (take j cm)" using ccm(1) in_set_takeD by fastforce
      ultimately show ?thesis using ks(3) by simp
    next
      case False
      then have "V xs = Some 0" using that V' ks(2) by (auto split: if_splits)
      then show ?thesis by (rule lp(2))
    qed
    show "leaf_ok am t' xs (- v)" if "V' xs = Some v \<and> v < 0" for xs v
    proof (cases "xs = ks @ cm @ [a] \<and> v = - i")
      case True
      have "length q' \<le> 32767" using shape q(1) by auto
      then show ?thesis using True E(1) split' by (auto simp: leaf_ok_def)
    next
      case False
      then have v: "V xs = Some v" "v \<noteq> - i" using lower [of xs v] that by auto
      then have "tail_entries t' (- v) = tail_entries t (- v)" by (intro E(2)) simp
      then show ?thesis using lp(3) [OF v(1)] that leaf_ok_cong by blast
    qed
    show "xs = ys" if "V' xs = Some v \<and> V' ys = Some v \<and> v < 0" for xs ys v
      using that lower [of xs v] lower [of ys v] lp(4) [of xs v ys] by blast
  qed
  have sp: "spells (ks @ cm @ [a]) q' w \<longleftrightarrow> spells ks q w"
    using shape ks(3) ccm(1) by (auto simp: spells_def)
  show "holds V' t' w y \<longleftrightarrow> holds V t w y"
  proof
    assume "holds V' t' w y"
    then obtain xs j q1 where h: "V' xs = Some (- j)" "0 < j" "tail_entries t' j = Some (Some (q1 @ [0]), y)"
      "spells xs q1 w" by (auto simp: holds_def)
    from lower [OF h(1)] h(2) consider "xs = ks @ cm @ [a]" "j = i" | "V xs = Some (- j)" "j \<noteq> i" by auto
    then show "holds V t w y"
    proof cases
      case 1
      then have "q1 = q'" "y = x" using h(3) E(1) by auto
      then have "spells ks q w" using h(4) sp 1 by simp
      moreover have "tail_entries t (- (- i)) = Some (Some (q @ [0]), y)" using e \<open>y = x\<close> by simp
      ultimately show ?thesis using holds_at [where V = V, of ks "- i" t q y w] ks by simp
    next
      case 2
      then have "tail_entries t j = Some (Some (q1 @ [0]), y)" using h(3) E(2) by simp
      then show ?thesis using 2 h(2,4) unfolding holds_def by blast
    qed
  next
    assume "holds V t w y"
    then obtain xs j q1 where h: "V xs = Some (- j)" "0 < j" "tail_entries t j = Some (Some (q1 @ [0]), y)"
      "spells xs q1 w" by (auto simp: holds_def)
    show "holds V' t' w y"
    proof (cases "xs = ks")
      case True
      then have "j = i" using h(1) ks(1) by simp
      then have "q1 = q" "y = x" using h(3) e by auto
      then have "spells (ks @ cm @ [a]) q' w" using h(4) sp True by simp
      then show ?thesis using holds_at [where V = V', of "ks @ cm @ [a]" "- i" t' q' y w] top E(1) ks(2) \<open>y = x\<close> by simp
    next
      case False
      have "j \<noteq> i" using uniq h(1) False by auto
      then have "tail_entries t' j = Some (Some (q1 @ [0]), y)" using h(3) E(2) by simp
      moreover have "V' xs = Some (- j)" using keep [OF h(1) _ False] h(2) by simp
      ultimately show ?thesis using h(2,4) unfolding holds_def by blast
    qed
  qed
qed

text \<open>Two terminated strings that differ share a prefix and then have different characters.\<close>

lemma first_difference:
  assumes "0 \<notin> set q" and "0 \<notin> set u" and "q \<noteq> u"
  shows "\<exists>cm a p b str. q @ [0] = cm @ a # p \<and> u @ [0] = cm @ b # str \<and> a \<noteq> b"
  using assms
proof (induction q u rule: list_induct2')
  case (2 x xs)
  then show ?case by (intro exI [of _ "[]"] exI [of _ x] exI [of _ "xs @ [0]"] exI [of _ 0] exI [of _ "[]"]) auto
next
  case (3 y ys)
  then show ?case by (intro exI [of _ "[]"] exI [of _ 0] exI [of _ "[]"] exI [of _ y] exI [of _ "ys @ [0]"]) auto
next
  case (4 x xs y ys)
  show ?case
  proof (cases "x = y")
    case True
    then obtain cm a p b str where "xs @ [0] = cm @ a # p" "ys @ [0] = cm @ b # str" "a \<noteq> b"
      using "4" by auto
    then show ?thesis using True
      by (intro exI [of _ "x # cm"] exI [of _ a] exI [of _ p] exI [of _ b] exI [of _ str]) simp
  next
    case False
    then show ?thesis
      by (intro exI [of _ "[]"] exI [of _ x] exI [of _ "xs @ [0]"] exI [of _ y] exI [of _ "ys @ [0]"]) simp
  qed
qed simp

lemma terminated_rest: "0 \<notin> set q \<Longrightarrow> q @ [0] = cm @ a # p \<Longrightarrow> a \<noteq> 0 \<Longrightarrow> p = butlast p @ [0]"
  by (cases p rule: rev_cases) auto

lemma terminated_end: "0 \<notin> set q \<Longrightarrow> q @ [0] = cm @ 0 # p \<Longrightarrow> p = []"
  by (cases p rule: rev_cases) auto

lemma branch_in_tail_ok:
  assumes ok: "trie_ok tr" and w0: "walk_from (da tr) 2 ks = Some s" and neg: "bs (da tr) s < 0"
    and e: "tail_entries (tail tr) (- bs (da tr) s) = Some (Some (q @ [0]), x)" "length q \<le> 32767"
      "key_split (alpha_map tr) ks q" "0 \<notin> set q" and q: "u \<noteq> q" and nz: "0 \<notin> set ks"
    and chars: "\<forall>c\<in>set (ks @ u). is_tchar (alpha_map tr) c" and len: "length u \<le> 32767"
    and room: "trie_room tr (length u + 1)"
  shows "\<exists>tr'. trie_branch_in_tail tr s (u @ [0]) data = Some (True, tr') \<and> trie_ok tr' \<and>
    alpha_map tr' = alpha_map tr \<and> num_cells (da tr') \<le> num_cells (da tr) + 768 * (int (length u) + 2) \<and>
    num_tails (tail tr') \<le> num_tails (tail tr) + 1 \<and>
    (\<forall>w y. holds (da_view (da tr')) (tail tr') w y \<longleftrightarrow>
       holds (da_view (da tr)) (tail tr) w y \<or> w = ks @ u \<and> y = data)"
proof -
  note p = trie_parts [OF ok]
  let ?V = "da_view (da tr)" and ?i = "- bs (da tr) s" and ?am = "alpha_map tr"
  have nu: "0 \<notin> set u" using chars is_tchar_range [OF p(1)] by auto
  obtain cm a pa b str where cm: "q @ [0] = cm @ a # pa" "u @ [0] = cm @ b # str" "a \<noteq> b"
    using first_difference [OF e(4) nu] q by metis
  have lcm: "length cm \<le> length u"
  proof -
    have "length (u @ [0]) = length (cm @ b # str)" using cm(2) by simp
    then show ?thesis by simp
  qed
  have cu: "set cm \<subseteq> set u \<union> {0}" "b \<in> set u \<union> {0}" "a \<in> set q \<union> {0}"
  proof -
    have "set (u @ [0]) = set (cm @ b # str)" "set (q @ [0]) = set (cm @ a # pa)" using cm by simp_all
    then show "set cm \<subseteq> set u \<union> {0}" "b \<in> set u \<union> {0}" "a \<in> set q \<union> {0}" by auto
  qed
  have nq: "\<forall>c\<in>set q. is_tchar ?am c" using e(3) by (simp add: key_split_def)
  have range: "255 \<notin> set cm" "a \<noteq> 255"
    using cu chars nq is_tchar_range [OF p(1)] by fastforce+
  have r: "num_cells (da tr) + 768 * int (length cm) + 1024 < TRIE_INDEX_MAX"
    "num_cells (da tr) + 768 * int (length cm + 1) + 1024 < TRIE_INDEX_MAX" "num_tails (tail tr) < INT32_MAX"
    using room lcm by (simp_all add: trie_room_def)
  have v: "?V ks = Some (bs (da tr) s)" using w0 neg by (simp add: da_view_def)
  have ti: "trie_da_get_tail_index (da tr) s = Some ?i" using tail_index_of [OF ok w0 neg] by simp
  obtain d1 t where d1: "insert_common (da tr) s (q @ [0]) (u @ [0]) = Some (True, d1, t, a # pa, b # str)"
    "da_ok d1" "num_cells d1 \<le> num_cells (da tr) + 768 * int (length cm)" "walk_from d1 2 (ks @ cm) = Some t"
    "bs d1 t < 0"
    "\<forall>xs. xs \<noteq> ks @ cm \<longrightarrow>
       da_view d1 xs = (if \<exists>j<length cm. xs = ks @ take j cm then Some 0 else ?V xs)"
    using insert_common_ok [OF p(2) w0 neg r(1) range(1) cm(3)] cm(1,2) by metis
  have r1: "num_cells d1 + 1024 < TRIE_INDEX_MAX" using d1(3) r(1) by linarith
  obtain t' d2 where d2: "da_insert_branch d1 t a = Some (t', d2)" "t' \<noteq> 0" "da_ok d2"
    "num_cells d2 \<le> num_cells d1 + 768" "walk_from d2 2 (ks @ cm) = Some t"
    "walk_from d2 2 ((ks @ cm) @ [a]) = Some t'" "0 < bs d2 t" "bs d2 t' < 0"
    "da_view d2 = (da_view d1)(ks @ cm \<mapsto> 0, (ks @ cm) @ [a] \<mapsto> bs d2 t')"
    using insert_branch_ok [OF d1(2) r1 d1(4) range(2) leaf_step_none [OF d1(5)]] by blast
  note ei = entry_index [OF p(3) e(1)]
  obtain d3 where d3: "trie_da_set_tail_index d2 t' ?i = Some d3" "da_ok d3" "num_cells d3 = num_cells d2"
    "walk_from d3 2 = walk_from d2 2" "da_view d3 = (da_view d2)((ks @ cm) @ [a] \<mapsto> - ?i)"
    using set_tail_index_ok [OF d2(3,6,8) ei(1,3)] by blast
  define q' where "q' = (if a = 0 then [] else butlast pa)"
  have pq: "(if 0 \<noteq> a then pa else a # pa) = q' @ [0]"
    using terminated_rest [OF e(4) cm(1)] terminated_end [OF e(4)] cm(1) unfolding q'_def by auto
  have nq': "0 \<notin> set q'"
  proof (cases "a = 0")
    case False
    then have "q @ [0] = (cm @ a # q') @ [0]" using pq cm(1) by simp
    then have "q = cm @ a # q'" by simp
    then show ?thesis using e(4) by auto
  qed (simp add: q'_def)
  obtain t1 where t1: "tail_set_suffix (tail tr) ?i (Some (q' @ 0 # [])) = Some (True, t1)" "tail_ok t1"
    "tail_entries t1 = (tail_entries (tail tr))(?i \<mapsto> (Some (q' @ [0]), x))" "num_tails t1 = num_tails (tail tr)"
    using tail_set_suffix_live [OF p(3) e(1) nq'] by blast
  let ?tr = "tr\<lparr>da := d3, tail := t1\<rparr>"
  have run: "trie_branch_in_tail tr s (u @ [0]) data = trie_branch_in_branch ?tr t (b # str) data"
  proof -
    have "tail_get_suffix (tail tr) ?i = Some (Some (q @ [0]))" by (rule tail_get_suffix_live [OF p(3) e(1)])
    moreover have "tail_set_suffix (tail tr) ?i (Some (if 0 \<noteq> a then tl (a # pa) else a # pa)) = Some (True, t1)"
      using t1(1) unfolding list.sel pq by simp
    ultimately show ?thesis unfolding trie_branch_in_tail_def Let_def using ti d1(1) d2(1,2) d3(1)
      by (simp add: TRIE_INDEX_ERROR_def)
  qed
  have V3: "\<forall>xs. da_view d3 xs = (if \<exists>j\<le>length cm. xs = ks @ take j cm then Some 0
             else if xs = ks @ cm @ [a] then Some (- ?i) else ?V xs)"
  proof
    fix xs
    have le: "(\<exists>j\<le>length cm. xs = ks @ take j cm) \<longleftrightarrow> xs = ks @ cm \<or> (\<exists>j<length cm. xs = ks @ take j cm)"
      by (auto simp: le_less)
    have ne: "\<not> (\<exists>j<length cm. ks @ cm @ [a] = ks @ take j cm)"
    proof
      assume "\<exists>j<length cm. ks @ cm @ [a] = ks @ take j cm"
      then obtain j where "cm @ [a] = take j cm" by auto
      then have "length (cm @ [a]) = length (take j cm)" by simp
      then show False by simp
    qed
    show "da_view d3 xs = (if \<exists>j\<le>length cm. xs = ks @ take j cm then Some 0
             else if xs = ks @ cm @ [a] then Some (- ?i) else ?V xs)"
    proof (cases "xs = ks @ cm")
      case True
      then show ?thesis unfolding le d3(5) d2(9) by simp
    next
      case False
      then have "da_view d1 xs = (if \<exists>j<length cm. xs = ks @ take j cm then Some 0 else ?V xs)"
        using d1(6) by blast
      then show ?thesis using False ne unfolding le d3(5) d2(9) by auto
    qed
  qed
  have E1: "tail_entries t1 = (tail_entries (tail tr))(?i \<mapsto> (Some ((if a = 0 then [] else butlast pa) @ [0]), x))"
    using t1(3) by (simp add: q'_def)
  have vi: "?V ks = Some (- ?i)" using v by simp
  note ml = move_leaf [OF p(5,1) refl vi ei(1) nz e(1,2,3) cm(1) V3 E1]
  have ok1: "trie_ok ?tr" using p(1) d3(2,3) t1(2) ml(1) d2(4) r1 by (simp add: trie_ok_def)
  define u' where "u' = (if b = 0 then [] else b # butlast str)"
  have bstr: "b # str = u' @ [0]"
    using terminated_rest [OF nu cm(2)] terminated_end [OF nu] cm(2) unfolding u'_def by auto
  have uu: "u = cm @ u'" using cm(2) bstr by simp
  have w3: "walk_from (da ?tr) 2 (ks @ cm) = Some t" "0 \<le> bs (da ?tr) t"
  proof -
    show w: "walk_from (da ?tr) 2 (ks @ cm) = Some t" using d3(4) d2(5) by simp
    have "da_view d3 (ks @ cm) = Some 0" using V3 by auto
    then show "0 \<le> bs (da ?tr) t" using w by (auto simp: da_view_def min_def split: if_splits)
  qed
  have "da_view d3 (ks @ cm @ [b]) = None"
  proof -
    have "?V (ks @ cm @ [b]) = None" using leaf_stops [OF v neg, of "cm @ [b]"] by simp
    moreover have "\<not> (\<exists>j\<le>length cm. ks @ cm @ [b] = ks @ take j cm)"
    proof
      assume "\<exists>j\<le>length cm. ks @ cm @ [b] = ks @ take j cm"
      then obtain j where "cm @ [b] = take j cm" by auto
      then have "length (cm @ [b]) = length (take j cm)" by simp
      then show False by simp
    qed
    ultimately show ?thesis using V3 cm(3) by simp
  qed
  then have "walk_from d3 2 ((ks @ cm) @ [b]) = None" by (simp add: da_view_def)
  then have "step d3 t b = None" unfolding walk_snoc using w3(1) by simp
  then have st: "step (da ?tr) t (hd (u' @ [0])) = None" using bstr [symmetric] by simp
  have ch: "\<forall>c\<in>set ((ks @ cm) @ u'). is_tchar (alpha_map ?tr) c" using chars uu by simp
  have lu: "length u' \<le> 32767" using len uu by simp
  have rm: "trie_room ?tr 0" using r(2,3) d3(3) d2(4) d1(3) t1(4) by (simp add: trie_room_def)
  obtain tr' where tr': "trie_branch_in_branch ?tr t (u' @ [0]) data = Some (True, tr')" "trie_ok tr'"
    "alpha_map tr' = alpha_map ?tr" "num_cells (da tr') \<le> num_cells (da ?tr) + 768"
    "num_tails (tail tr') \<le> num_tails (tail ?tr) + 1"
    "\<forall>w y. holds (da_view (da tr')) (tail tr') w y \<longleftrightarrow>
       holds (da_view (da ?tr)) (tail ?tr) w y \<or> w = (ks @ cm) @ u' \<and> y = data"
    using branch_in_branch_ok [OF ok1 w3 st ch lu rm] by blast
  have "num_cells (da tr') \<le> num_cells (da tr) + 768 * (int (length u) + 2)"
    using tr'(4) d3(3) d2(4) d1(3) lcm by simp
  moreover have "trie_branch_in_tail tr s (u @ [0]) data = Some (True, tr')" using run tr'(1) bstr by simp
  moreover have "num_tails (tail tr') \<le> num_tails (tail tr) + 1" using tr'(5) t1(4) by simp
  moreover have "alpha_map tr' = alpha_map tr" using tr'(3) by simp
  moreover have "\<forall>w y. holds (da_view (da tr')) (tail tr') w y \<longleftrightarrow>
       holds (da_view (da tr)) (tail tr) w y \<or> w = ks @ u \<and> y = data"
    using tr'(6) ml(2) uu by simp
  ultimately show ?thesis using tr'(2) by blast
qed

section \<open>Overwriting the data of a key\<close>

lemma spells_unique: "spells ks q w \<Longrightarrow> spells ks q w' \<Longrightarrow> w = w'"
  by (auto simp: spells_def)

lemma set_leaf_data:
  assumes l: "leaves_ok am V t" and V: "V = da_view d" and ks: "V ks = Some (- i)" "1 \<le> i"
    and e: "tail_entries t i = Some (Some (q @ [0]), x)"
    and E': "tail_entries t' = (tail_entries t)(i \<mapsto> (Some (q @ [0]), x'))"
  shows "leaves_ok am V t'"
    and "holds V t' w y \<longleftrightarrow> (if spells ks q w then y = x' else holds V t w y)"
proof -
  note p = leaves_parts [OF l]
  have same: "leaf_ok am t' xs j \<longleftrightarrow> leaf_ok am t xs j" for xs j using e E' by (simp add: leaf_ok_def)
  show "leaves_ok am V t'" using l by (simp add: leaves_ok_def same)
  show "holds V t' w y \<longleftrightarrow> (if spells ks q w then y = x' else holds V t w y)"
  proof (cases "spells ks q w")
    case True
    obtain xs where "ks @ xs = w @ [0]" using spells_prefix [OF True] by blast
    moreover have "tail_entries t' (- (- i)) = Some (Some (q @ [0]), x')" using E' by simp
    ultimately show ?thesis using holds_decided [OF V ks(1)] ks(2) True by simp
  next
    case False
    have "tail_entries t' j = Some (Some (q' @ [0]), y) \<longleftrightarrow> tail_entries t j = Some (Some (q' @ [0]), y)"
      if "V ks' = Some (- j)" "0 < j" "spells ks' q' w" for ks' j q'
    proof (cases "j = i")
      case True
      then have "ks' = ks" using p(4) [of ks' "- i" ks] ks that(1) by simp
      then have "q' \<noteq> q" using False that(3) by auto
      then show ?thesis using e E' True by auto
    qed (use E' in simp)
    then have "holds V t' w y \<longleftrightarrow> holds V t w y" unfolding holds_def by blast
    then show ?thesis using False by simp
  qed
qed

section \<open>Storing a key\<close>

lemma walk_key_chars:
  assumes "alphabet_ok (alpha_map tr)" and "alpha_key (alpha_map tr) k" and "k = u1 @ u2"
  shows "\<forall>c\<in>set (trie_key (alpha_map tr) u1 @ trie_key (alpha_map tr) u2). is_tchar (alpha_map tr) c"
    "0 \<notin> set (trie_key (alpha_map tr) u1)" "0 \<notin> set (trie_key (alpha_map tr) u2)" "0 \<notin> set u2"
proof -
  have "\<forall>c\<in>set (trie_key (alpha_map tr) k). is_tchar (alpha_map tr) c" using trie_key_tchar [OF assms(2)] by blast
  then show "\<forall>c\<in>set (trie_key (alpha_map tr) u1 @ trie_key (alpha_map tr) u2). is_tchar (alpha_map tr) c"
    using assms(3) by simp
  have "0 \<notin> set k" using assms(2) by (auto simp: alpha_key_def)
  then show "0 \<notin> set (trie_key (alpha_map tr) u1)" "0 \<notin> set (trie_key (alpha_map tr) u2)" "0 \<notin> set u2"
    using trie_key_nonzero [OF assms(1)] assms(3) by auto
qed

lemma store_ok:
  assumes ok: "trie_ok tr" and k: "alpha_key (alpha_map tr) k" and len: "length k \<le> 32767"
    and room: "trie_room tr (length k + 1)"
  shows "\<exists>b tr'. trie_store_conditionally tr (k @ 0 # r) data ow = Some (b, tr') \<and> trie_ok tr' \<and>
    alpha_map tr' = alpha_map tr \<and> num_cells (da tr') \<le> num_cells (da tr) + 768 * (int (length k) + 2) \<and>
    num_tails (tail tr') \<le> num_tails (tail tr) + 1 \<and>
    (b \<longleftrightarrow> ow \<or> \<not> (\<exists>y. holds (da_view (da tr)) (tail tr) (trie_key (alpha_map tr) k) y)) \<and>
    (\<forall>w y. holds (da_view (da tr')) (tail tr') w y \<longleftrightarrow>
       (if b \<and> w = trie_key (alpha_map tr) k then y = data else holds (da_view (da tr)) (tail tr) w y))"
proof -
  let ?key = "trie_key (alpha_map tr)" and ?H = "holds (da_view (da tr)) (tail tr)"
  note p = trie_parts [OF ok]
  have nz: "0 \<notin> set k" using k by (auto simp: alpha_key_def)
  have room0: "trie_room tr 0" using room by (simp add: trie_room_def)
  from ok nz show ?thesis
  proof (cases rule: walk_key [of tr k r])
    case (stopped u1 u2 s)
    note ch = walk_key_chars [OF p(1) k stopped(1)]
    have str: "alpha_map_char_to_trie_str (alpha_map tr) (u2 @ 0 # r) = Some (?key u2 @ [0])"
      using char_to_trie_str ch(4) by blast
    have lu: "length (?key u2) \<le> 32767" using len stopped(1) by simp
    obtain tr' where tr': "trie_branch_in_branch tr s (?key u2 @ [0]) data = Some (True, tr')" "trie_ok tr'"
      "alpha_map tr' = alpha_map tr" "num_cells (da tr') \<le> num_cells (da tr) + 768"
      "num_tails (tail tr') \<le> num_tails (tail tr) + 1"
      "\<forall>w y. holds (da_view (da tr')) (tail tr') w y \<longleftrightarrow> ?H w y \<or> w = ?key u1 @ ?key u2 \<and> y = data"
      using branch_in_branch_ok [OF ok stopped(2,3,4) ch(1) lu room0] by blast
    have run: "trie_store_conditionally tr (k @ 0 # r) data ow = Some (True, tr')"
      using stopped(5) str tr'(1) by (simp add: trie_store_conditionally_def)
    obtain c cs where c: "?key u2 @ [0] = c # cs" by (cases "?key u2 @ [0]") auto
    have not: "\<not> ?H (?key k) y" for y
    proof -
      have "?key u1 @ c # cs = ?key k @ [0]" using c stopped(1) by simp
      then show ?thesis using stopped(4) c by (intro stopped_not_held [OF stopped(2,3)]) auto
    qed
    have "num_cells (da tr') \<le> num_cells (da tr) + 768 * (int (length k) + 2)" using tr'(4) by simp
    then show ?thesis using run tr'(2,3,5,6) not stopped(1)
      by (intro exI [of _ True] exI [of _ tr'] conjI) auto
  next
    case (arrived ks s u2 q x)
    have v: "da_view (da tr) ks = Some (bs (da tr) s)" using arrived(1,2) by (simp add: da_view_def)
    obtain xs where pre: "ks @ xs = ?key k @ [0]" using arrived(12) by blast
    have held: "?H (?key k) y \<longleftrightarrow> ?key u2 = q \<and> y = x" for y
      using holds_decided [OF refl v arrived(2,3) pre] arrived(11) by simp
    have ix: "1 \<le> - bs (da tr) s" using arrived(2) by linarith
    show ?thesis
    proof (cases "?key u2 = q")
      case True
      show ?thesis
      proof (cases ow)
        case False
        then have run: "trie_store_conditionally tr (k @ 0 # r) data ow = Some (False, tr)"
          using arrived(8-10) True by (simp add: trie_store_conditionally_def)
        show ?thesis using run ok False held True
          by (intro exI [of _ False] exI [of _ tr] conjI) auto
      next
        case ow: True
        obtain t' where t': "tail_set_data (tail tr) (- bs (da tr) s) data = Some (True, t')" "tail_ok t'"
          "tail_entries t' = (tail_entries (tail tr))(- bs (da tr) s \<mapsto> (Some (q @ [0]), data))"
          "num_tails t' = num_tails (tail tr)"
          using tail_set_data_live [OF p(3) arrived(3)] by blast
        let ?tr = "tr\<lparr>tail := t', is_dirty := True\<rparr>"
        have run: "trie_store_conditionally tr (k @ 0 # r) data ow = Some (True, ?tr)"
          using arrived(8-10) True ow t'(1) by (simp add: trie_store_conditionally_def)
        have vi: "da_view (da tr) ks = Some (- (- bs (da tr) s))" using v by simp
        note sl = set_leaf_data [OF p(5) refl vi ix arrived(3) t'(3)]
        have sp: "spells ks q w \<longleftrightarrow> w = ?key k" for w using spells_unique arrived(11) True by blast
        have "trie_ok ?tr" using ok t'(2) sl(1) by (simp add: trie_ok_def)
        then show ?thesis using run ow t'(4) sl(2) sp
          by (intro exI [of _ True] exI [of _ ?tr] conjI) auto
      qed
    next
      case False
      obtain u1 where u1: "ks = ?key u1" "k = u1 @ u2" using arrived(13) [OF False] by blast
      note ch = walk_key_chars [OF p(1) k u1(2)]
      have str: "alpha_map_char_to_trie_str (alpha_map tr) (u2 @ 0 # r) = Some (?key u2 @ [0])"
        using char_to_trie_str ch(4) by blast
      have nks: "0 \<notin> set ks" using ch(2) u1(1) by simp
      have ch1: "\<forall>c\<in>set (ks @ ?key u2). is_tchar (alpha_map tr) c" using ch(1) u1(1) by simp
      have lu: "length (?key u2) \<le> 32767" "trie_room tr (length (?key u2) + 1)"
        using len room u1(2) by (simp_all add: trie_room_def)
      obtain tr' where tr': "trie_branch_in_tail tr s (?key u2 @ [0]) data = Some (True, tr')" "trie_ok tr'"
        "alpha_map tr' = alpha_map tr"
        "num_cells (da tr') \<le> num_cells (da tr) + 768 * (int (length (?key u2)) + 2)"
        "num_tails (tail tr') \<le> num_tails (tail tr) + 1"
        "\<forall>w y. holds (da_view (da tr')) (tail tr') w y \<longleftrightarrow> ?H w y \<or> w = ks @ ?key u2 \<and> y = data"
        using branch_in_tail_ok [OF ok arrived(1-6) False nks ch1 lu] by blast
      have run: "trie_store_conditionally tr (k @ 0 # r) data ow = Some (True, tr')"
        using arrived(8-10) False str tr'(1) by (simp add: trie_store_conditionally_def)
      have "num_cells (da tr') \<le> num_cells (da tr) + 768 * (int (length k) + 2)" using tr'(4) u1(2) by simp
      then show ?thesis using run tr'(2,3,5,6) held False u1
        by (intro exI [of _ True] exI [of _ tr'] conjI) auto
    qed
  qed
qed

section \<open>Deleting a key\<close>

lemma remove_leaf:
  assumes l: "leaves_ok am V t" and ks: "V ks = Some (- i)" "1 \<le> i"
    and e: "tail_entries t i = Some (Some (q @ [0]), x)" and E': "tail_entries t' = (tail_entries t)(i := None)"
    and V': "V' [] = Some 0" "V' ks = None" "\<forall>xs. xs \<noteq> ks \<longrightarrow> V' xs = V xs \<or> V xs = Some 0 \<and> V' xs = None"
    and V: "V = da_view d"
  shows "leaves_ok am V' t'" and "holds V' t' w y \<longleftrightarrow> \<not> spells ks q w \<and> holds V t w y"
proof -
  note p = leaves_parts [OF l]
  have low: "V' xs = Some v \<longleftrightarrow> V xs = Some v \<and> xs \<noteq> ks" if "v < 0" for xs v
    using V'(2,3) that by (cases "xs = ks") force+
  have zero: "V' xs = Some 0 \<Longrightarrow> V xs = Some 0" for xs using V'(2,3) by (cases "xs = ks") force+
  have other: "tail_entries t' (- v) = tail_entries t (- v)" if "V xs = Some v" "v < 0" "xs \<noteq> ks" for xs v
  proof -
    have "- v \<noteq> i" using p(4) [OF that(1), of ks] ks(1) that by auto
    then show ?thesis using E' by simp
  qed
  show "leaves_ok am V' t'"
    unfolding leaves_ok_def
  proof (intro conjI allI impI)
    show "V' [] = Some 0" by (rule V'(1))
    show "0 \<notin> set xs" if "V' xs = Some 0" for xs using p(2) zero [OF that] .
    show "leaf_ok am t' xs (- v)" if "V' xs = Some v \<and> v < 0" for xs v
      using that low [of v xs] p(3) [of xs v] other [of xs v] leaf_ok_cong by blast
    show "xs = ys" if "V' xs = Some v \<and> V' ys = Some v \<and> v < 0" for xs ys v
      using that low [of v] p(4) [of xs v ys] by blast
  qed
  show "holds V' t' w y \<longleftrightarrow> \<not> spells ks q w \<and> holds V t w y"
  proof
    assume "holds V' t' w y"
    then obtain ks' j q' where h: "V' ks' = Some (- j)" "0 < j" "tail_entries t' j = Some (Some (q' @ [0]), y)"
      "spells ks' q' w" by (auto simp: holds_def)
    then have v: "V ks' = Some (- j)" "ks' \<noteq> ks" using low [of "- j" ks'] by auto
    have "tail_entries t j = Some (Some (q' @ [0]), y)" using other [OF v(1) _ v(2)] h(2,3) by simp
    then have "holds V t w y" using v h(2,4) unfolding holds_def by blast
    moreover have "\<not> spells ks q w"
    proof
      assume "spells ks q w"
      then obtain xs where "ks @ xs = w @ [0]" using spells_prefix by blast
      moreover obtain ys where "ks' @ ys = w @ [0]" using spells_prefix [OF h(4)] by blast
      ultimately have "ks = ks'" using leaf_unique [of d ks "- i" ks' "- j" xs ys] ks v(1) h(2) V by simp
      then show False using v(2) by simp
    qed
    ultimately show "\<not> spells ks q w \<and> holds V t w y" by blast
  next
    assume a: "\<not> spells ks q w \<and> holds V t w y"
    then obtain ks' j q' where h: "V ks' = Some (- j)" "0 < j" "tail_entries t j = Some (Some (q' @ [0]), y)"
      "spells ks' q' w" by (auto simp: holds_def)
    have "ks' \<noteq> ks"
    proof
      assume "ks' = ks"
      then have "q' = q" using h(1,3) ks(1) e by auto
      then show False using a h(4) \<open>ks' = ks\<close> by simp
    qed
    then have "V' ks' = Some (- j)" "tail_entries t' j = Some (Some (q' @ [0]), y)"
      using low [of "- j" ks'] h(1-3) other [OF h(1)] by auto
    then show "holds V' t' w y" using h(2,4) unfolding holds_def by blast
  qed
qed

lemma delete_ok:
  assumes ok: "trie_ok tr" and nz: "0 \<notin> set k"
  shows "\<exists>b tr'. trie_delete tr (k @ 0 # r) = Some (b, tr') \<and> trie_ok tr' \<and>
    alpha_map tr' = alpha_map tr \<and> num_cells (da tr') = num_cells (da tr) \<and>
    num_tails (tail tr') = num_tails (tail tr) \<and>
    (b \<longleftrightarrow> (\<exists>y. holds (da_view (da tr)) (tail tr) (trie_key (alpha_map tr) k) y)) \<and>
    (\<forall>w y. holds (da_view (da tr')) (tail tr') w y \<longleftrightarrow>
       w \<noteq> trie_key (alpha_map tr) k \<and> holds (da_view (da tr)) (tail tr) w y)"
proof -
  let ?key = "trie_key (alpha_map tr)" and ?H = "holds (da_view (da tr)) (tail tr)"
  note p = trie_parts [OF ok]
  have refuse: ?thesis if "trie_delete tr (k @ 0 # r) = Some (False, tr)" "\<And>y. \<not> ?H (?key k) y"
    using that ok by (intro exI [of _ False] exI [of _ tr] conjI) auto
  from ok nz show ?thesis
  proof (cases rule: walk_key [of tr k r])
    case (stopped u1 u2 s)
    obtain c cs where c: "?key u2 @ [0] = c # cs" by (cases "?key u2 @ [0]") auto
    have "?key u1 @ c # cs = ?key k @ [0]" using c stopped(1) by simp
    then have "\<not> ?H (?key k) y" for y using stopped(4) c by (intro stopped_not_held [OF stopped(2,3)]) auto
    then show ?thesis using refuse stopped(5) by (simp add: trie_delete_def)
  next
    case (arrived ks s u2 q x)
    have v: "da_view (da tr) ks = Some (bs (da tr) s)" using arrived(1,2) by (simp add: da_view_def)
    obtain xs where pre: "ks @ xs = ?key k @ [0]" using arrived(12) by blast
    have held: "?H (?key k) y \<longleftrightarrow> ?key u2 = q \<and> y = x" for y
      using holds_decided [OF refl v arrived(2,3) pre] arrived(11) by simp
    show ?thesis
    proof (cases "?key u2 = q")
      case False
      then show ?thesis using refuse held arrived(8-10) by (simp add: trie_delete_def)
    next
      case True
      have live: "tail_live (tail tr) (- bs (da tr) s)" using arrived(3) by (auto simp: tail_entries_def split: if_splits)
      obtain t' where t': "tail_delete (tail tr) (- bs (da tr) s) = Some t'" "tail_ok t'"
        "tail_entries t' = (tail_entries (tail tr))(- bs (da tr) s := None)" "num_tails t' = num_tails (tail tr)"
        using tail_delete_ok [OF p(3) live] by blast
      have s: "s \<in> nodes (da tr)" by (rule walk_node [OF p(2) root_node arrived(1)])
      have "\<forall>c. step (da tr) s c = None" using leaf_step_none [OF arrived(2)] by blast
      moreover have "0 \<le> num_cells (da tr)" using node_range [OF p(2) s] by linarith
      ultimately have b: "da_set_base (da tr) s 0 = Some (put_b (da tr) s 0)" "da_ok (put_b (da tr) s 0)"
        "\<And>zs. walk_from (put_b (da tr) s 0) 2 zs = walk_from (da tr) 2 zs"
        "\<And>j. bs (put_b (da tr) s 0) j = (if j = s then 0 else bs (da tr) j)"
        using set_base_ok [OF p(2) s, of 0] by auto
      let ?d = "put_b (da tr) s 0"
      have nc: "num_cells ?d = num_cells (da tr)" by (simp add: put_b_def)
      have w: "walk_from ?d 2 [] = Some 2" "walk_from ?d 2 ([] @ ks) = Some s" using b(3) arrived(1) by simp_all
      have vd: "da_view ?d zs = (if zs = ks then Some 0 else da_view (da tr) zs)" for zs
      proof (cases "walk_from (da tr) 2 zs")
        case None
        then show ?thesis using arrived(1) b(3) by (auto simp: da_view_def)
      next
        case (Some j)
        then have "j = s \<longleftrightarrow> zs = ks" using walk_inj [OF p(2) Some, of ks] arrived(1) by auto
        then show ?thesis using Some b(3,4) by (simp add: da_view_def)
      qed
      have room: "num_cells ?d + 255 \<le> TRIE_INDEX_MAX" using p(4) nc by simp
      obtain d' n where d': "da_prune_upto 2 ?d s = Some d'" "da_ok d'" "num_cells d' = num_cells ?d"
        "n \<le> length ks" "\<forall>zs. da_view d' zs = (if cut_path n ks zs then None else da_view ?d zs)"
        "n = 0 \<or> (\<exists>c. da_view d' (take n ks @ [c]) \<noteq> None)"
        using prune_upto_ok [OF b(2) room w] unfolding append_Nil list.size(3) by blast
      have ne: "ks \<noteq> []" using leaves_parts(1) [OF p(5)] v arrived(2) by auto
      have n: "n < length ks"
      proof (rule ccontr)
        assume "\<not> n < length ks"
        then have "n = length ks" using d'(4) by simp
        then obtain c where "da_view d' (ks @ [c]) \<noteq> None" using d'(6) ne by auto
        then have "da_view (da tr) (ks @ [c]) \<noteq> None" using d'(5) vd by (auto split: if_splits)
        then show False using leaf_stops [OF v arrived(2), of "[c]"] by simp
      qed
      let ?tr = "tr\<lparr>da := d', tail := t', is_dirty := True\<rparr>"
      have run: "trie_delete tr (k @ 0 # r) = Some (True, ?tr)"
        using arrived(8-10) True t'(1) b(1) d'(1)
        by (simp add: trie_delete_def da_prune_def da_get_root_def TRIE_INDEX_ERROR_def)
      have cut: "cut_path n ks zs \<longleftrightarrow> (\<exists>j. n < j \<and> j \<le> length ks \<and> zs = take j ks)" for zs
      proof
        assume c: "cut_path n ks zs"
        then have "length zs = min (length ks) (length zs)" unfolding cut_path_def by (metis length_take min.commute)
        with c show "\<exists>j. n < j \<and> j \<le> length ks \<and> zs = take j ks"
          unfolding cut_path_def by (intro exI [of _ "length zs"]) auto
      qed (auto simp: cut_path_def)
      have prefix: "da_view (da tr) (take j ks) = Some 0" if "j < length ks" for j
      proof -
        have ex: "ks = take j ks @ drop j ks" "drop j ks \<noteq> []" using that by simp_all
        obtain z where z: "walk_from (da tr) 2 (take j ks) = Some z"
          using arrived(1) ex(1) walk_append [of "da tr" 2 "take j ks" "drop j ks"] by (auto split: option.splits)
        then have "da_view (da tr) (take j ks) = Some (min 0 (bs (da tr) z))" by (simp add: da_view_def)
        moreover have "da_view (da tr) (take j ks @ drop j ks) \<noteq> None" using v ex(1) by simp
        ultimately show ?thesis using leaf_stops [of "da tr" "take j ks" "min 0 (bs (da tr) z)" "drop j ks"] ex(2)
          by (cases "min 0 (bs (da tr) z) < 0") auto
      qed
      have V': "da_view d' [] = Some 0" "da_view d' ks = None"
        "\<forall>xs. xs \<noteq> ks \<longrightarrow> da_view d' xs = da_view (da tr) xs \<or> da_view (da tr) xs = Some 0 \<and> da_view d' xs = None"
      proof -
        have "\<not> cut_path n ks []" using ne unfolding cut by auto
        then show "da_view d' [] = Some 0" using d'(5) vd leaves_parts(1) [OF p(5)] by simp
        have "cut_path n ks ks" using n unfolding cut by (intro exI [of _ "length ks"]) simp
        then show "da_view d' ks = None" using d'(5) by simp
        show "\<forall>xs. xs \<noteq> ks \<longrightarrow> da_view d' xs = da_view (da tr) xs \<or> da_view (da tr) xs = Some 0 \<and> da_view d' xs = None"
        proof (intro allI impI)
          fix xs
          assume x: "xs \<noteq> ks"
          show "da_view d' xs = da_view (da tr) xs \<or> da_view (da tr) xs = Some 0 \<and> da_view d' xs = None"
          proof (cases "cut_path n ks xs")
            case False
            then show ?thesis using d'(5) vd x by simp
          next
            case True
            then obtain j where "j \<le> length ks" "xs = take j ks" unfolding cut by blast
            then have "da_view (da tr) xs = Some 0" using prefix [of j] x by (cases "j = length ks") auto
            then show ?thesis using d'(5) True by simp
          qed
        qed
      qed
      have vi: "da_view (da tr) ks = Some (- (- bs (da tr) s))" "1 \<le> - bs (da tr) s" using v arrived(2) by simp_all
      note rl = remove_leaf [OF p(5) vi arrived(3) t'(3) V' refl]
      have sp: "spells ks q w \<longleftrightarrow> w = ?key k" for w using spells_unique arrived(11) True by blast
      have "trie_ok ?tr" using p(1,4) d'(2,3) nc t'(2) rl(1) by (simp add: trie_ok_def)
      then show ?thesis using run t'(4) d'(3) nc held True rl(2) sp
        by (intro exI [of _ True] exI [of _ ?tr] conjI) auto
    qed
  qed
qed

end
