(* ===== verification/Dictionary.thy ===== *)
theory Dictionary
  imports TrieStore
begin

text \<open>
  The interface of a map from strings and the proof that the trie of \<open>src/server/trie.c\<close> provides
  it, with the properties of the trie's operations: creating, looking up, storing, deleting,
  enumerating, walking step by step, saving and loading.
\<close>

section \<open>The interface of a map from strings\<close>

text \<open>
  What the programs around the trie rely on: lookups that always answer, a store that overwrites, a
  store that refuses a key already there, and a deletion. \<open>fits m n\<close> says that \<open>m\<close> has room for
  keys whose costs add up to \<open>n\<close>.
\<close>

fun store_each :: "('m \<Rightarrow> 'k \<Rightarrow> 'v \<Rightarrow> (bool \<times> 'm) option) \<Rightarrow> 'm \<Rightarrow> ('k \<times> 'v) list \<Rightarrow> 'm option" where
  "store_each store m [] = Some m"
| "store_each store m ((k, v) # kvs) = do { (_, m) \<leftarrow> store m k v; store_each store m kvs }"

locale string_map =
  fixes ok :: "'m \<Rightarrow> bool"
    and valid :: "'m \<Rightarrow> 'k \<Rightarrow> bool"
    and fits :: "'m \<Rightarrow> nat \<Rightarrow> bool"
    and cost :: "'k \<Rightarrow> nat"
    and retrieve :: "'m \<Rightarrow> 'k \<Rightarrow> ('v option) option"
    and store :: "'m \<Rightarrow> 'k \<Rightarrow> 'v \<Rightarrow> (bool \<times> 'm) option"
    and store_new :: "'m \<Rightarrow> 'k \<Rightarrow> 'v \<Rightarrow> (bool \<times> 'm) option"
    and remove :: "'m \<Rightarrow> 'k \<Rightarrow> (bool \<times> 'm) option"
  assumes retrieve_total: "ok m \<Longrightarrow> valid m k \<Longrightarrow> \<exists>res. retrieve m k = Some res"
    and store_law: "ok m \<Longrightarrow> valid m k \<Longrightarrow> fits m (cost k + n) \<Longrightarrow>
      \<exists>m'. store m k v = Some (True, m') \<and> ok m' \<and> valid m' = valid m \<and> fits m' n \<and>
        (\<forall>j. valid m j \<longrightarrow> retrieve m' j = (if j = k then Some (Some v) else retrieve m j))"
    and store_new_law: "ok m \<Longrightarrow> valid m k \<Longrightarrow> fits m (cost k + n) \<Longrightarrow>
      \<exists>b m'. store_new m k v = Some (b, m') \<and> ok m' \<and> valid m' = valid m \<and> fits m' n \<and>
        (b \<longleftrightarrow> retrieve m k = Some None) \<and>
        (\<forall>j. valid m j \<longrightarrow> retrieve m' j = (if j = k \<and> b then Some (Some v) else retrieve m j))"
    and remove_law: "ok m \<Longrightarrow> valid m k \<Longrightarrow>
      \<exists>b m'. remove m k = Some (b, m') \<and> ok m' \<and> valid m' = valid m \<and> (\<forall>n. fits m n \<longrightarrow> fits m' n) \<and>
        (b \<longleftrightarrow> retrieve m k \<noteq> Some None) \<and>
        (\<forall>j. valid m j \<longrightarrow> retrieve m' j = (if j = k then Some None else retrieve m j))"
begin

text \<open>Storing a list of pairs: the last pair of a key wins.\<close>

lemma store_each_ok:
  assumes "ok m" and "\<forall>(k, v)\<in>set kvs. valid m k" and "fits m (sum_list (map (cost \<circ> fst) kvs) + n)"
  shows "\<exists>m'. store_each store m kvs = Some m' \<and> ok m' \<and> valid m' = valid m \<and> fits m' n \<and>
    (\<forall>j. valid m j \<longrightarrow> retrieve m' j =
       (case map_of (rev kvs) j of None \<Rightarrow> retrieve m j | Some v \<Rightarrow> Some (Some v)))"
  using assms
proof (induction kvs arbitrary: m)
  case Nil
  then show ?case by simp
next
  case (Cons kv kvs)
  obtain k v where kv: "kv = (k, v)" by (cases kv)
  have k: "valid m k" "fits m (cost k + (sum_list (map (cost \<circ> fst) kvs) + n))"
    using Cons.prems(2,3) kv by (auto simp: add.assoc comp_def)
  obtain m1 where m1: "store m k v = Some (True, m1)" "ok m1" "valid m1 = valid m"
    "fits m1 (sum_list (map (cost \<circ> fst) kvs) + n)"
    "\<forall>j. valid m j \<longrightarrow> retrieve m1 j = (if j = k then Some (Some v) else retrieve m j)"
    using store_law [OF Cons.prems(1) k] by blast
  have "\<forall>(k, v)\<in>set kvs. valid m1 k" using Cons.prems(2) m1(3) by auto
  then obtain m' where m': "store_each store m1 kvs = Some m'" "ok m'" "valid m' = valid m1" "fits m' n"
    "\<forall>j. valid m1 j \<longrightarrow> retrieve m' j =
       (case map_of (rev kvs) j of None \<Rightarrow> retrieve m1 j | Some v \<Rightarrow> Some (Some v))"
    using Cons.IH [OF m1(2) _ m1(4)] by blast
  have "retrieve m' j = (case map_of (rev (kv # kvs)) j of None \<Rightarrow> retrieve m j | Some v \<Rightarrow> Some (Some v))"
    if "valid m j" for j
    using m'(5) m1(3,5) that kv by (auto simp: map_add_def split: option.splits)
  then show ?case using m1(1) m'(1-4) m1(3) kv by auto
qed

text \<open>Removing what was stored leaves the other keys as they were before.\<close>

lemma remove_stored:
  assumes "ok m" and "valid m k" and "fits m (cost k)"
  shows "\<exists>m1 m2. store m k v = Some (True, m1) \<and> remove m1 k = Some (True, m2) \<and> ok m2 \<and>
    (\<forall>j. valid m j \<longrightarrow> retrieve m2 j = (if j = k then Some None else retrieve m j))"
proof -
  obtain m1 where m1: "store m k v = Some (True, m1)" "ok m1" "valid m1 = valid m"
    "\<forall>j. valid m j \<longrightarrow> retrieve m1 j = (if j = k then Some (Some v) else retrieve m j)"
    using store_law [OF assms(1,2), of 0] assms(3) by auto
  have v: "valid m1 k" "retrieve m1 k \<noteq> Some None" using m1(3,4) assms(2) by auto
  obtain m2 where "remove m1 k = Some (True, m2)" "ok m2"
    "\<forall>j. valid m1 j \<longrightarrow> retrieve m2 j = (if j = k then Some None else retrieve m1 j)"
    using remove_law [OF m1(2) v(1)] v(2) by auto
  then show ?thesis using m1 by auto
qed

end

section \<open>The trie is such a map\<close>

definition trie_valid :: "Trie \<Rightarrow> AlphaChar list \<Rightarrow> bool" where
  "trie_valid tr k \<longleftrightarrow> alpha_key (alpha_map tr) k \<and> length k \<le> 32767"

definition trie_fits :: "Trie \<Rightarrow> nat \<Rightarrow> bool" where
  "trie_fits tr n \<longleftrightarrow> num_cells (da tr) + 768 * int n + 1024 < TRIE_INDEX_MAX \<and>
     num_tails (tail tr) + int n \<le> INT32_MAX"

definition key_cost :: "AlphaChar list \<Rightarrow> nat" where
  "key_cost k = length k + 2"

lemma trie_key_inj:
  assumes "alphabet_ok am" and "alpha_key am k" and "alpha_key am k'" and "trie_key am k = trie_key am k'"
  shows "k = k'"
proof -
  have "inj_on (alpha_map_char_to_trie am) (set k \<union> set k')"
    using char_to_trie_inj [OF assms(1)] assms(2,3) by (auto simp: inj_on_def alpha_key_def)
  then show ?thesis using assms(4) by (simp add: trie_key_def inj_on_map_eq_map)
qed

lemma option_eq_by_values: "(\<And>d. x = Some d \<longleftrightarrow> y = Some d) \<Longrightarrow> x = y"
  by (cases x) (metis not_None_eq)+

text \<open>A lookup after an operation that changed what the key \<open>k\<close> holds.\<close>

lemma retrieve_changed:
  assumes ok: "trie_ok tr" "trie_ok tr'" and am: "alpha_map tr' = alpha_map tr"
    and v: "trie_valid tr k" "trie_valid tr j"
    and H: "\<forall>w y. holds (da_view (da tr')) (tail tr') w y \<longleftrightarrow>
       (if w = trie_key (alpha_map tr) k then new = Some y else holds (da_view (da tr)) (tail tr) w y)"
  shows "trie_retrieve tr' (j @ 0 # r) = (if j = k then Some new else trie_retrieve tr (j @ 0 # r))"
proof -
  have nz: "0 \<notin> set j" using v(2) by (auto simp: trie_valid_def alpha_key_def)
  obtain res where res: "trie_retrieve tr (j @ 0 # r) = Some res"
    "\<forall>d. res = Some d \<longleftrightarrow> holds (da_view (da tr)) (tail tr) (trie_key (alpha_map tr) j) d"
    using retrieve_ok [OF ok(1) nz] by blast
  obtain res' where res': "trie_retrieve tr' (j @ 0 # r) = Some res'"
    "\<forall>d. res' = Some d \<longleftrightarrow> holds (da_view (da tr')) (tail tr') (trie_key (alpha_map tr) j) d"
    using retrieve_ok [OF ok(2) nz] am by metis
  have "j = k \<longleftrightarrow> trie_key (alpha_map tr) j = trie_key (alpha_map tr) k"
    using trie_key_inj [OF trie_parts(1) [OF ok(1)]] v by (auto simp: trie_valid_def)
  then have "res' = (if j = k then new else res)"
    using H res(2) res'(2) by (intro option_eq_by_values) auto
  then show ?thesis using res(1) res'(1) by simp
qed

lemma retrieve_held:
  assumes "trie_ok tr" and "trie_valid tr k"
  shows "trie_retrieve tr (k @ 0 # r) \<noteq> Some None \<longleftrightarrow>
    (\<exists>y. holds (da_view (da tr)) (tail tr) (trie_key (alpha_map tr) k) y)"
proof -
  have "0 \<notin> set k" using assms(2) by (auto simp: trie_valid_def alpha_key_def)
  then obtain res where "trie_retrieve tr (k @ 0 # r) = Some res"
    "\<forall>d. res = Some d \<longleftrightarrow> holds (da_view (da tr)) (tail tr) (trie_key (alpha_map tr) k) d"
    using retrieve_ok [OF assms(1)] by blast
  then show ?thesis by (cases res) auto
qed

lemma trie_fits_room: "trie_fits tr (key_cost k + n) \<Longrightarrow> trie_room tr (length k + 1)"
  by (simp add: trie_fits_def trie_room_def key_cost_def)

lemma trie_fits_after:
  assumes "trie_fits tr (key_cost k + n)" and "num_cells (da tr') \<le> num_cells (da tr) + 768 * (int (length k) + 2)"
    and "num_tails (tail tr') \<le> num_tails (tail tr) + 1"
  shows "trie_fits tr' n"
  using assms by (simp add: trie_fits_def key_cost_def)

lemma trie_store_any:
  assumes ok: "trie_ok tr" and v: "trie_valid tr k" and fits: "trie_fits tr (key_cost k + n)"
  shows "\<exists>b tr'. trie_store_conditionally tr (k @ 0 # r) d ow = Some (b, tr') \<and> trie_ok tr' \<and>
    trie_valid tr' = trie_valid tr \<and> trie_fits tr' n \<and> (b \<longleftrightarrow> ow \<or> trie_retrieve tr (k @ 0 # r) = Some None) \<and>
    (\<forall>j r'. trie_valid tr j \<longrightarrow>
       trie_retrieve tr' (j @ 0 # r') = (if j = k \<and> b then Some (Some d) else trie_retrieve tr (j @ 0 # r')))"
proof -
  have k: "alpha_key (alpha_map tr) k" "length k \<le> 32767" using v by (simp_all add: trie_valid_def)
  obtain b tr' where s: "trie_store_conditionally tr (k @ 0 # r) d ow = Some (b, tr')" "trie_ok tr'"
    "alpha_map tr' = alpha_map tr" "num_cells (da tr') \<le> num_cells (da tr) + 768 * (int (length k) + 2)"
    "num_tails (tail tr') \<le> num_tails (tail tr) + 1"
    "b \<longleftrightarrow> ow \<or> \<not> (\<exists>y. holds (da_view (da tr)) (tail tr) (trie_key (alpha_map tr) k) y)"
    "\<forall>w y. holds (da_view (da tr')) (tail tr') w y \<longleftrightarrow>
       (if b \<and> w = trie_key (alpha_map tr) k then y = d else holds (da_view (da tr)) (tail tr) w y)"
    using store_ok [OF ok k trie_fits_room [OF fits], of r d ow] by blast
  have val: "trie_valid tr' = trie_valid tr" using s(3) by (simp add: fun_eq_iff trie_valid_def)
  have ret: "trie_retrieve tr' (j @ 0 # r') = (if j = k \<and> b then Some (Some d) else trie_retrieve tr (j @ 0 # r'))"
    if j: "trie_valid tr j" for j r'
  proof (cases b)
    case True
    then have "\<forall>w y. holds (da_view (da tr')) (tail tr') w y \<longleftrightarrow>
       (if w = trie_key (alpha_map tr) k then Some d = Some y else holds (da_view (da tr)) (tail tr) w y)"
      using s(7) by auto
    from retrieve_changed [OF ok s(2,3) v j this] True show ?thesis by simp
  next
    case False
    have "0 \<notin> set k" using v by (auto simp: trie_valid_def alpha_key_def)
    then obtain old where old: "trie_retrieve tr (k @ 0 # r') = Some old"
      "\<forall>d. old = Some d \<longleftrightarrow> holds (da_view (da tr)) (tail tr) (trie_key (alpha_map tr) k) d"
      using retrieve_ok [OF ok] by blast
    have "\<forall>w y. holds (da_view (da tr')) (tail tr') w y \<longleftrightarrow>
       (if w = trie_key (alpha_map tr) k then old = Some y else holds (da_view (da tr)) (tail tr) w y)"
      using s(7) False old(2) by simp
    from retrieve_changed [OF ok s(2,3) v j this] old(1) False show ?thesis by simp
  qed
  have "b \<longleftrightarrow> ow \<or> trie_retrieve tr (k @ 0 # r) = Some None" using s(6) retrieve_held [OF ok v] by blast
  then show ?thesis using s(1,2) val trie_fits_after [OF fits s(4,5)] ret by blast
qed

lemma trie_delete_any:
  assumes ok: "trie_ok tr" and v: "trie_valid tr k"
  shows "\<exists>b tr'. trie_delete tr (k @ 0 # r) = Some (b, tr') \<and> trie_ok tr' \<and>
    trie_valid tr' = trie_valid tr \<and> (\<forall>n. trie_fits tr n \<longrightarrow> trie_fits tr' n) \<and>
    (b \<longleftrightarrow> trie_retrieve tr (k @ 0 # r) \<noteq> Some None) \<and>
    (\<forall>j r'. trie_valid tr j \<longrightarrow>
       trie_retrieve tr' (j @ 0 # r') = (if j = k then Some None else trie_retrieve tr (j @ 0 # r')))"
proof -
  have nz: "0 \<notin> set k" using v by (auto simp: trie_valid_def alpha_key_def)
  obtain b tr' where s: "trie_delete tr (k @ 0 # r) = Some (b, tr')" "trie_ok tr'"
    "alpha_map tr' = alpha_map tr" "num_cells (da tr') = num_cells (da tr)"
    "num_tails (tail tr') = num_tails (tail tr)"
    "b \<longleftrightarrow> (\<exists>y. holds (da_view (da tr)) (tail tr) (trie_key (alpha_map tr) k) y)"
    "\<forall>w y. holds (da_view (da tr')) (tail tr') w y \<longleftrightarrow>
       w \<noteq> trie_key (alpha_map tr) k \<and> holds (da_view (da tr)) (tail tr) w y"
    using delete_ok [OF ok nz, of r] by blast
  have val: "trie_valid tr' = trie_valid tr" using s(3) by (simp add: fun_eq_iff trie_valid_def)
  have "trie_retrieve tr' (j @ 0 # r') = (if j = k then Some None else trie_retrieve tr (j @ 0 # r'))"
    if j: "trie_valid tr j" for j r'
    using retrieve_changed [OF ok s(2,3) v j, of None] s(7) by auto
  moreover have "\<forall>n. trie_fits tr n \<longrightarrow> trie_fits tr' n" using s(4,5) by (simp add: trie_fits_def)
  moreover have "b \<longleftrightarrow> trie_retrieve tr (k @ 0 # r) \<noteq> Some None" using s(6) retrieve_held [OF ok v] by blast
  ultimately show ?thesis using s(1,2) val by blast
qed

interpretation tm: string_map trie_ok trie_valid trie_fits key_cost "\<lambda>tr k. trie_retrieve tr (k @ [0])"
  "\<lambda>tr k. trie_store tr (k @ [0])" "\<lambda>tr k. trie_store_if_absent tr (k @ [0])" "\<lambda>tr k. trie_delete tr (k @ [0])"
proof unfold_locales
  fix tr :: Trie and k :: "AlphaChar list"
  assume a: "trie_ok tr" "trie_valid tr k"
  then show "\<exists>res. trie_retrieve tr (k @ [0]) = Some res"
    using retrieve_ok [OF a(1), of k "[]"] by (auto simp: trie_valid_def alpha_key_def)
  from trie_delete_any [OF a, of "[]"]
  show "\<exists>b tr'. trie_delete tr (k @ [0]) = Some (b, tr') \<and> trie_ok tr' \<and> trie_valid tr' = trie_valid tr \<and>
     (\<forall>n. trie_fits tr n \<longrightarrow> trie_fits tr' n) \<and> (b \<longleftrightarrow> trie_retrieve tr (k @ [0]) \<noteq> Some None) \<and>
     (\<forall>j. trie_valid tr j \<longrightarrow> trie_retrieve tr' (j @ [0]) = (if j = k then Some None else trie_retrieve tr (j @ [0])))"
    by blast
next
  fix tr :: Trie and k :: "AlphaChar list" and n and d :: TrieData
  assume a: "trie_ok tr" "trie_valid tr k" "trie_fits tr (key_cost k + n)"
  show "\<exists>tr'. trie_store tr (k @ [0]) d = Some (True, tr') \<and> trie_ok tr' \<and> trie_valid tr' = trie_valid tr \<and>
     trie_fits tr' n \<and> (\<forall>j. trie_valid tr j \<longrightarrow>
       trie_retrieve tr' (j @ [0]) = (if j = k then Some (Some d) else trie_retrieve tr (j @ [0])))"
    using trie_store_any [OF a, of "[]" d True] by (auto simp: trie_store_def)
  from trie_store_any [OF a, of "[]" d False]
  show "\<exists>b tr'. trie_store_if_absent tr (k @ [0]) d = Some (b, tr') \<and> trie_ok tr' \<and>
     trie_valid tr' = trie_valid tr \<and> trie_fits tr' n \<and> (b \<longleftrightarrow> trie_retrieve tr (k @ [0]) = Some None) \<and>
     (\<forall>j. trie_valid tr j \<longrightarrow>
       trie_retrieve tr' (j @ [0]) = (if j = k \<and> b then Some (Some d) else trie_retrieve tr (j @ [0])))"
    unfolding trie_store_if_absent_def by blast
qed

section \<open>A new trie\<close>

lemma tail_new_ok: "tail_ok tail_new" and tail_new_entries: "tail_entries tail_new i = None"
  by (auto simp: tail_ok_def tail_new_def tail_entries_def tail_live_def int32_limits intro: exI [of _ "[]"])

lemma trie_new_ok:
  assumes am: "alphabet_ok am"
  shows "\<exists>tr. trie_new am = Some (Some tr) \<and> trie_ok tr \<and> alpha_map tr = am \<and>
    (\<forall>n. int n \<le> 2796000 \<longrightarrow> trie_fits tr n) \<and> (\<forall>k r. 0 \<notin> set k \<longrightarrow> trie_retrieve tr (k @ 0 # r) = Some None)"
proof -
  let ?tr = "\<lparr>alpha_map = am, da = da_new, tail = tail_new, is_dirty = True\<rparr>"
  have new: "trie_new am = Some (Some ?tr)" using alpha_map_clone_lemma am by (simp add: trie_new_def alphabet_ok_def)
  have "leaves_ok am (da_view da_new) tail_new"
    by (auto simp: leaves_ok_def da_new_view split: if_splits)
  then have ok: "trie_ok ?tr" using am da_new_ok tail_new_ok by (simp add: trie_ok_def da_new_cells TRIE_INDEX_MAX_def)
  have "trie_retrieve ?tr (k @ 0 # r) = Some None" if nz: "0 \<notin> set k" for k r
  proof -
    obtain res where "trie_retrieve ?tr (k @ 0 # r) = Some res"
      "\<forall>d. res = Some d \<longleftrightarrow> holds (da_view da_new) tail_new (trie_key am k) d"
      using retrieve_ok [OF ok nz, of r] by auto
    moreover have "\<not> holds (da_view da_new) tail_new w d" for w d by (simp add: holds_def tail_new_entries)
    ultimately show ?thesis by (cases res) auto
  qed
  moreover have "trie_fits ?tr n" if "int n \<le> 2796000" for n
    using that by (simp add: trie_fits_def da_new_cells tail_new_def TRIE_INDEX_MAX_def INT32_MAX_def)
  ultimately show ?thesis using new ok by (intro exI [of _ ?tr]) simp
qed

section \<open>Enumeration\<close>

text \<open>Calling the callback on keys and data until it refuses.\<close>

fun visit_keys ::
  "(AlphaChar list \<Rightarrow> TrieData \<Rightarrow> 'u \<Rightarrow> (bool \<times> 'u) option) \<Rightarrow> (AlphaChar list \<times> TrieData) list \<Rightarrow> 'u
   \<Rightarrow> (bool \<times> 'u) option" where
  "visit_keys f [] u = Some (True, u)"
| "visit_keys f ((k, d) # kds) u =
     do { (ret, u) \<leftarrow> f (k @ [0]) d u; if ret then visit_keys f kds u else Some (False, u) }"

lemma tchar_back: "is_tchar am c \<Longrightarrow> \<exists>a. a \<noteq> 0 \<and> a \<in> alpha_set am \<and> alpha_map_char_to_trie am a = c"
  by (auto simp: is_tchar_def)

lemma tchars_back: "\<forall>c\<in>set w. is_tchar am c \<Longrightarrow> \<exists>k. alpha_key am k \<and> trie_key am k = w"
proof (induction w)
  case Nil
  then show ?case by (intro exI [of _ "[]"]) (simp add: alpha_key_def)
next
  case (Cons c w)
  then obtain k where "alpha_key am k" "trie_key am k = w" by auto
  moreover obtain a where "a \<noteq> 0" "a \<in> alpha_set am" "alpha_map_char_to_trie am a = c"
    using tchar_back [of am c] Cons.prems by auto
  ultimately show ?case by (intro exI [of _ "a # k"]) (simp add: alpha_key_def)
qed

text \<open>The key of a separate node, and the call the enumeration makes for it.\<close>

lemma leaf_call:
  fixes f :: "AlphaChar list \<Rightarrow> TrieData \<Rightarrow> 'u \<Rightarrow> (bool \<times> 'u) option"
  assumes ok: "trie_ok tr" and v: "da_view (da tr) ks = Some v" "v < 0"
  shows "\<exists>k d. alpha_key (alpha_map tr) k \<and> holds (da_view (da tr)) (tail tr) (trie_key (alpha_map tr) k) d \<and>
    (\<exists>xs. ks @ xs = trie_key (alpha_map tr) k @ [0]) \<and>
    (\<forall>u. trie_da_enum_func tr f (ks @ [0]) (the (walk_from (da tr) 2 ks)) u = f (k @ [0]) d u)"
proof -
  note p = trie_parts [OF ok]
  let ?am = "alpha_map tr"
  obtain s where s: "walk_from (da tr) 2 ks = Some s" "bs (da tr) s = v" using view_leaf [OF v] by blast
  obtain q d where e: "tail_entries (tail tr) (- v) = Some (Some (q @ [0]), d)" "length q \<le> 32767"
    "key_split ?am ks q" "0 \<notin> set q" using leaf_entry [OF p(5,1) v] by blast
  obtain w where w: "spells ks q w" "\<forall>c\<in>set w. is_tchar ?am c" using leaf_split_spells [OF p(1) e(3)] by blast
  obtain k where k: "alpha_key ?am k" "trie_key ?am k = w" using tchars_back [OF w(2)] by blast
  have nw: "0 \<notin> set w" using w(2) is_tchar_range [OF p(1)] by auto
  have ti: "trie_da_get_tail_index (da tr) s = Some (- v)" using tail_index_of [OF ok s(1)] s(2) v(2) by simp
  have cs: "\<exists>ks'. c_str (ks @ [0]) = Some ks' \<and> ks' @ q = w"
  proof (cases "0 \<in> set ks")
    case True
    then have "ks = w @ [0]" "q = []" using w(1) by (auto simp: spells_def)
    then show ?thesis using nw c_str_terminated [of w "[0]"] by simp
  next
    case False
    then have "w = ks @ q" using w(1) by (auto simp: spells_def)
    then show ?thesis using False by simp
  qed
  have "map (alpha_map_trie_to_char ?am) w = k" using trie_key_back [OF p(1) k(1)] k(2) by simp
  then have "trie_da_enum_func tr f (ks @ [0]) s u = f (k @ [0]) d u" for u
    using cs ti e(4) tail_get_suffix_live [OF p(3) e(1)] tail_get_data_live [OF p(3) e(1)]
    by (auto simp: trie_da_enum_func_def Let_def)
  moreover have "holds (da_view (da tr)) (tail tr) w d"
    by (rule holds_at [where V = "da_view (da tr)", OF v e(1) w(1)])
  ultimately show ?thesis using k spells_prefix [OF w(1)] s(1) by (intro exI [of _ k] exI [of _ d]) simp
qed

lemma visit_calls:
  assumes "\<forall>ks\<in>set L. \<forall>u. g (ks @ [0]) (the (walk_from d 2 ks)) u = f (fst (call ks) @ [0]) (snd (call ks)) u"
  shows "visit d g L u = visit_keys f (map call L) u"
  using assms
proof (induction L arbitrary: u)
  case (Cons ks L)
  obtain k x where "call ks = (k, x)" by (cases "call ks")
  then show ?case using Cons by (cases "f (k @ [0]) x u") (auto split: if_splits)
qed simp

lemma enumerate_ok:
  fixes f :: "AlphaChar list \<Rightarrow> TrieData \<Rightarrow> 'u \<Rightarrow> (bool \<times> 'u) option"
  assumes ok: "trie_ok tr"
  shows "\<exists>L. distinct (map fst L) \<and>
    (\<forall>k d. (k, d) \<in> set L \<longleftrightarrow> alpha_key (alpha_map tr) k \<and> trie_retrieve tr (k @ [0]) = Some (Some d)) \<and>
    trie_enumerate tr f u = visit_keys f L u"
proof -
  note p = trie_parts [OF ok]
  let ?am = "alpha_map tr" and ?H = "holds (da_view (da tr)) (tail tr)" and ?g = "trie_da_enum_func tr f"
  let ?leaf = "\<lambda>ks. \<exists>v<0. da_view (da tr) ks = Some v"
  obtain L0 where L0: "sorted_wrt lex_less L0" "set L0 = leaves_below (da tr) 2"
    "da_enumerate (da tr) ?g u = visit (da tr) ?g L0 u"
    using da_enumerate_ok [OF p(2,4), of ?g u] by blast
  have leaves: "ks \<in> set L0 \<longleftrightarrow> ?leaf ks" for ks unfolding L0(2)
    by (cases "walk_from (da tr) 2 ks") (auto simp: leaves_below_def da_view_def min_def)
  let ?P = "\<lambda>ks kd. alpha_key ?am (fst kd) \<and> ?H (trie_key ?am (fst kd)) (snd kd) \<and>
    (\<exists>xs. ks @ xs = trie_key ?am (fst kd) @ [0]) \<and>
    (\<forall>u. ?g (ks @ [0]) (the (walk_from (da tr) 2 ks)) u = f (fst kd @ [0]) (snd kd) u)"
  have "\<forall>ks\<in>set L0. \<exists>kd. ?P ks kd"
  proof
    fix ks
    assume "ks \<in> set L0"
    then obtain v where v: "da_view (da tr) ks = Some v" "v < 0" using leaves by blast
    obtain k d where "alpha_key ?am k" "?H (trie_key ?am k) d" "\<exists>xs. ks @ xs = trie_key ?am k @ [0]"
      "\<forall>u. trie_da_enum_func tr f (ks @ [0]) (the (walk_from (da tr) 2 ks)) u = f (k @ [0]) d u"
      using leaf_call [OF ok v, of f] by blast
    then show "\<exists>kd. ?P ks kd" by (intro exI [of _ "(k, d)"]) simp
  qed
  from bchoice [OF this] obtain call where "\<forall>ks\<in>set L0. ?P ks (call ks)" ..
  note call = bspec [OF this]
  have same: "ks = ks'" if l: "ks \<in> set L0" "ks' \<in> set L0" and c: "ks @ xs = w @ [0]" "ks' @ ys = w @ [0]" for ks ks' xs ys w
  proof -
    obtain v where v: "da_view (da tr) ks = Some v" "v < 0" using l(1) leaves by blast
    obtain v' where v': "da_view (da tr) ks' = Some v'" "v' < 0" using l(2) leaves by blast
    have "ks @ xs = ks' @ ys" using c by simp
    from leaf_unique [OF v v' this] show ?thesis .
  qed
  have "inj_on (fst \<circ> call) (set L0)"
  proof (rule inj_onI)
    fix ks ks'
    assume a: "ks \<in> set L0" "ks' \<in> set L0" "(fst \<circ> call) ks = (fst \<circ> call) ks'"
    obtain xs where "ks @ xs = trie_key ?am (fst (call ks)) @ [0]" using call [OF a(1)] by blast
    moreover obtain ys where "ks' @ ys = trie_key ?am (fst (call ks')) @ [0]" using call [OF a(2)] by blast
    ultimately show "ks = ks'" using same [OF a(1,2)] a(3) by simp
  qed
  moreover have "distinct L0"
  proof -
    have "irreflp lex_less" by (simp add: irreflp_def lexord_irreflexive)
    then show ?thesis using L0(1) by (induction L0) (auto simp: irreflp_def)
  qed
  ultimately have dist: "distinct (map fst (map call L0))" by (simp add: distinct_map comp_inj_on o_def)
  have mem: "(k, d) \<in> set (map call L0) \<longleftrightarrow> alpha_key ?am k \<and> trie_retrieve tr (k @ [0]) = Some (Some d)" for k d
  proof -
    have ret: "trie_retrieve tr (k @ [0]) = Some (Some d) \<longleftrightarrow> ?H (trie_key ?am k) d" if "alpha_key ?am k"
    proof -
      have "0 \<notin> set k" using that by (simp add: alpha_key_def)
      then obtain res where "trie_retrieve tr (k @ [0]) = Some res" "\<forall>d. res = Some d \<longleftrightarrow> ?H (trie_key ?am k) d"
        using retrieve_ok [OF ok, of k "[]"] by blast
      then show ?thesis by simp
    qed
    show ?thesis
    proof
      assume "(k, d) \<in> set (map call L0)"
      then obtain ks where "ks \<in> set L0" "call ks = (k, d)" by auto
      then show "alpha_key ?am k \<and> trie_retrieve tr (k @ [0]) = Some (Some d)" using call [of ks] ret by simp
    next
      assume a: "alpha_key ?am k \<and> trie_retrieve tr (k @ [0]) = Some (Some d)"
      then have "?H (trie_key ?am k) d" using ret by blast
      then obtain ks i q where h: "da_view (da tr) ks = Some (- i)" "0 < i"
        "tail_entries (tail tr) i = Some (Some (q @ [0]), d)" "spells ks q (trie_key ?am k)" by (auto simp: holds_def)
      have i: "ks \<in> set L0" using leaves h(1,2) by auto
      obtain xs where xs: "ks @ xs = trie_key ?am k @ [0]" using spells_prefix [OF h(4)] by blast
      obtain ys where ys: "ks @ ys = trie_key ?am (fst (call ks)) @ [0]" using call [OF i] by blast
      have v: "da_view (da tr) ks = Some (- i)" "- i < 0" "tail_entries (tail tr) (- (- i)) = Some (Some (q @ [0]), d)"
        using h(1-3) by simp_all
      have "spells ks q (trie_key ?am (fst (call ks))) \<and> snd (call ks) = d"
        using holds_decided [OF refl v ys] call [OF i] by blast
      then have "trie_key ?am (fst (call ks)) = trie_key ?am k" "snd (call ks) = d"
        using spells_unique h(4) by blast+
      then have "call ks = (k, d)" using trie_key_inj [OF p(1)] call [OF i] a by (metis prod.collapse)
      then show "(k, d) \<in> set (map call L0)" using i by force
    qed
  qed
  have "visit (da tr) ?g L0 u = visit_keys f (map call L0) u"
    by (rule visit_calls) (use call in blast)
  then have "trie_enumerate tr f u = visit_keys f (map call L0) u" using L0(3) by (simp add: trie_enumerate_def)
  then show ?thesis using dist mem by blast
qed

section \<open>Walking step by step\<close>

text \<open>Walking a string with the stepwise interface, stopping at the first character that fails.\<close>

fun walk_string :: "Trie \<Rightarrow> TrieState \<Rightarrow> AlphaChar list \<Rightarrow> (bool \<times> TrieState) option" where
  "walk_string tr s [] = Some (True, s)"
| "walk_string tr s (c # p) =
     do { (ret, s) \<leftarrow> trie_state_walk tr s c; if ret then walk_string tr s p else Some (False, s) }"

text \<open>Inside a suffix the state walks it as \<open>walk_tail\<close> does.\<close>

lemma walk_string_suffix:
  assumes "ts_is_suffix s" and "0 \<notin> set u" and "walk_tail tr (ts_index s) (ts_suffix_idx s) (u @ 0 # r) = Some b"
  shows "\<exists>s'. walk_string tr s (u @ [0]) = Some (b, s') \<and> ts_is_suffix s' \<and> ts_index s' = ts_index s"
  using assms
proof (induction u arbitrary: s)
  case Nil
  then obtain i where "tail_walk_char (tail tr) (ts_index s) (ts_suffix_idx s) 0 = Some (b, i)"
    by (auto simp: bind_eq_Some_conv split: if_splits)
  then have "trie_state_walk tr s 0 = Some (b, s\<lparr>ts_suffix_idx := i\<rparr>)"
    using Nil(1) by (simp add: trie_state_walk_def Let_def)
  then show ?case using Nil(1) by (intro exI [of _ "s\<lparr>ts_suffix_idx := i\<rparr>"]) (cases b; simp)
next
  case (Cons c u)
  then obtain ok i where w: "tail_walk_char (tail tr) (ts_index s) (ts_suffix_idx s)
      (alpha_map_char_to_trie (alpha_map tr) c) = Some (ok, i)"
    and next': "if ok then walk_tail tr (ts_index s) i (u @ 0 # r) = Some b else b = False"
    by (auto simp: bind_eq_Some_conv split: if_splits)
  have step: "trie_state_walk tr s c = Some (ok, s\<lparr>ts_suffix_idx := i\<rparr>)"
    using Cons.prems(1) w by (simp add: trie_state_walk_def Let_def)
  show ?case
  proof (cases ok)
    case False
    then show ?thesis using step next' Cons.prems(1) by simp
  next
    case True
    then have "walk_tail tr (ts_index (s\<lparr>ts_suffix_idx := i\<rparr>)) (ts_suffix_idx (s\<lparr>ts_suffix_idx := i\<rparr>)) (u @ 0 # r) = Some b"
      using next' by simp
    moreover have "ts_is_suffix (s\<lparr>ts_suffix_idx := i\<rparr>)" "0 \<notin> set u" using Cons.prems(1,2) by simp_all
    ultimately show ?thesis using Cons.IH [of "s\<lparr>ts_suffix_idx := i\<rparr>"] step True by simp
  qed
qed

definition branch_state :: "TrieIndex \<Rightarrow> int \<Rightarrow> TrieState" where
  "branch_state i x = \<lparr>ts_index = i, ts_suffix_idx = x, ts_is_suffix = False\<rparr>"

text \<open>One character at a node of the branches.\<close>

lemma state_walk_branch:
  assumes ok: "trie_ok tr" and w: "walk_from (da tr) 2 ks = Some i" and b: "0 \<le> bs (da tr) i"
    and c: "step (da tr) i (alpha_map_char_to_trie (alpha_map tr) c) = res"
  shows "res = None \<Longrightarrow> trie_state_walk tr (branch_state i x) c = Some (False, branch_state i x)"
    and "res = Some j \<Longrightarrow> 0 \<le> bs (da tr) j \<Longrightarrow> trie_state_walk tr (branch_state i x) c = Some (True, branch_state j x)"
    and "res = Some j \<Longrightarrow> bs (da tr) j < 0 \<Longrightarrow> trie_state_walk tr (branch_state i x) c =
      Some (True, \<lparr>ts_index = - bs (da tr) j, ts_suffix_idx = 0, ts_is_suffix = True\<rparr>)"
proof -
  note p = trie_parts [OF ok]
  let ?tc = "alpha_map_char_to_trie (alpha_map tr) c"
  have i: "i \<in> nodes (da tr)" by (rule walk_node [OF p(2) root_node w])
  have walk: "da_walk (da tr) i ?tc = Some (case step (da tr) i ?tc of None \<Rightarrow> (False, i) | Some j \<Rightarrow> (True, j))"
    by (rule da_walk_step(1) [OF p(2) i b p(4)])
  show "res = None \<Longrightarrow> trie_state_walk tr (branch_state i x) c = Some (False, branch_state i x)"
    using walk c by (simp add: trie_state_walk_def branch_state_def)
  have sep: "trie_da_is_separate (da tr) j = Some (bs (da tr) j < 0)" and wj: "walk_from (da tr) 2 (ks @ [?tc]) = Some j"
    if "res = Some j"
  proof -
    show wj: "walk_from (da tr) 2 (ks @ [?tc]) = Some j" using w c that by (simp add: walk_snoc)
    have "j \<in> nodes (da tr)" by (rule walk_node [OF p(2) root_node wj])
    then show "trie_da_is_separate (da tr) j = Some (bs (da tr) j < 0)"
      using da_ring [OF p(2)] node_range [OF p(2), of j] by (simp add: trie_da_is_separate_def accessors)
  qed
  show "res = Some j \<Longrightarrow> 0 \<le> bs (da tr) j \<Longrightarrow> trie_state_walk tr (branch_state i x) c = Some (True, branch_state j x)"
    using walk c sep by (simp add: trie_state_walk_def branch_state_def)
  show "res = Some j \<Longrightarrow> bs (da tr) j < 0 \<Longrightarrow> trie_state_walk tr (branch_state i x) c =
      Some (True, \<lparr>ts_index = - bs (da tr) j, ts_suffix_idx = 0, ts_is_suffix = True\<rparr>)"
    using walk c sep tail_index_of [OF ok wj] by (simp add: trie_state_walk_def branch_state_def)
qed

lemma state_walk_holds:
  assumes ok: "trie_ok tr" and "0 \<notin> set u" and "walk_from (da tr) 2 ks = Some i" and "0 \<le> bs (da tr) i"
  shows "\<exists>b s. walk_string tr (branch_state i x) (u @ [0]) = Some (b, s) \<and>
    (\<forall>d. holds (da_view (da tr)) (tail tr) (ks @ trie_key (alpha_map tr) u) d \<longleftrightarrow>
       b \<and> trie_state_get_data tr s = Some d) \<and> (b \<longrightarrow> (\<exists>d. trie_state_get_data tr s = Some d))"
  using assms(2-4)
proof (induction u arbitrary: ks i)
  case Nil
  note p = trie_parts [OF ok]
  have st: "\<And>res. step (da tr) i 0 = res \<Longrightarrow> step (da tr) i (alpha_map_char_to_trie (alpha_map tr) 0) = res" by simp
  show ?case
  proof (cases "step (da tr) i 0")
    case None
    have "\<not> holds (da_view (da tr)) (tail tr) ks d" for d
      by (rule stopped_not_held [OF Nil.prems(2,3) None, of "[]"]) simp
    then show ?thesis using state_walk_branch(1) [OF ok Nil.prems(2,3) st [OF None]]
      by (intro exI [of _ False] exI [of _ "branch_state i x"]) simp
  next
    case (Some j)
    have w: "walk_from (da tr) 2 (ks @ [0]) = Some j" using Nil.prems(2) Some by (simp add: walk_snoc)
    have neg: "bs (da tr) j < 0"
    proof (rule ccontr)
      assume "\<not> bs (da tr) j < 0"
      then have "da_view (da tr) (ks @ [0]) = Some 0" using w by (simp add: da_view_def)
      then show False using leaves_parts(2) [OF p(5)] by fastforce
    qed
    have v: "da_view (da tr) (ks @ [0]) = Some (bs (da tr) j)" using w neg by (simp add: da_view_def)
    obtain q d where e: "tail_entries (tail tr) (- bs (da tr) j) = Some (Some (q @ [0]), d)" "length q \<le> 32767"
      "key_split (alpha_map tr) (ks @ [0]) q" "0 \<notin> set q" using leaf_entry [OF p(5,1) v neg] by blast
    have "\<not> is_tchar (alpha_map tr) 0" using is_tchar_range [OF p(1)] by blast
    then have q: "q = []" using e(3) by (auto simp: key_split_def)
    let ?s = "\<lparr>ts_index = - bs (da tr) j, ts_suffix_idx = 0, ts_is_suffix = True\<rparr>"
    have "trie_state_get_data tr ?s = Some d"
      using tail_get_data_live [OF p(3) e(1)] by (simp add: trie_state_get_data_def)
    moreover have "holds (da_view (da tr)) (tail tr) ks y \<longleftrightarrow> y = d" for y
      using holds_decided [OF refl v neg e(1), of "[]" ks y] q by (simp add: spells_def)
    ultimately show ?thesis using state_walk_branch(3) [OF ok Nil.prems(2,3) st [OF Some] refl neg]
      by (intro exI [of _ True] exI [of _ ?s]) auto
  qed
next
  case (Cons c u)
  note p = trie_parts [OF ok]
  let ?tc = "alpha_map_char_to_trie (alpha_map tr) c" and ?key = "trie_key (alpha_map tr)"
  have c: "c \<noteq> 0" "0 \<notin> set u" using Cons.prems by auto
  show ?case
  proof (cases "step (da tr) i ?tc")
    case None
    have "\<not> holds (da_view (da tr)) (tail tr) (ks @ ?tc # ?key u) d" for d
      by (rule stopped_not_held [OF Cons.prems(2,3) None, of "?key u @ [0]"]) simp
    then show ?thesis using state_walk_branch(1) [OF ok Cons.prems(2,3) None]
      by (intro exI [of _ False] exI [of _ "branch_state i x"]) simp
  next
    case (Some j)
    have w: "walk_from (da tr) 2 (ks @ [?tc]) = Some j" using Cons.prems(2) Some by (simp add: walk_snoc)
    show ?thesis
    proof (cases "bs (da tr) j < 0")
      case False
      then have b: "0 \<le> bs (da tr) j" by simp
      then show ?thesis using Cons.IH [OF c(2) w b] state_walk_branch(2) [OF ok Cons.prems(2,3) Some refl b] by simp
    next
      case neg: True
      have v: "da_view (da tr) (ks @ [?tc]) = Some (bs (da tr) j)" using w neg by (simp add: da_view_def)
      obtain q d where e: "tail_entries (tail tr) (- bs (da tr) j) = Some (Some (q @ [0]), d)" "length q \<le> 32767"
        "key_split (alpha_map tr) (ks @ [?tc]) q" "0 \<notin> set q" using leaf_entry [OF p(5,1) v neg] by blast
      let ?s = "\<lparr>ts_index = - bs (da tr) j, ts_suffix_idx = 0, ts_is_suffix = True\<rparr>"
      have s: "ts_is_suffix ?s" "walk_tail tr (ts_index ?s) (ts_suffix_idx ?s) (u @ 0 # []) = Some (?key u = q)"
        using walk_tail_ok [OF ok e(1,4,2) c(2), of 0 "[]"] by simp_all
      obtain s' where s': "walk_string tr ?s (u @ [0]) = Some (?key u = q, s')" "ts_is_suffix s'"
        "ts_index s' = - bs (da tr) j"
        using walk_string_suffix [OF s(1) c(2) s(2)] by auto
      have gd: "trie_state_get_data tr s' = Some d"
        using tail_get_data_live [OF p(3) e(1)] s'(2,3) by (simp add: trie_state_get_data_def)
      have "da_view (da tr) ks = Some 0" using Cons.prems(2,3) by (simp add: da_view_def)
      then have nz: "0 \<notin> set ks" by (rule leaves_parts(2) [OF p(5)])
      have "spells (ks @ [?tc]) q (ks @ ?tc # ?key u) \<longleftrightarrow> ?key u = q"
        using nz char_to_trie_nonzero [OF p(1) c(1)] by (auto simp: spells_def)
      then have "holds (da_view (da tr)) (tail tr) (ks @ ?tc # ?key u) y \<longleftrightarrow> ?key u = q \<and> y = d" for y
        using holds_decided [OF refl v neg e(1), of "?key u @ [0]" "ks @ ?tc # ?key u" y] by simp
      then show ?thesis using state_walk_branch(3) [OF ok Cons.prems(2,3) Some refl neg] s'(1) gd
        by (intro exI [of _ "?key u = q"] exI [of _ s']) auto
    qed
  qed
qed

lemma walk_root_ok:
  assumes ok: "trie_ok tr" and nz: "0 \<notin> set k"
  shows "\<exists>b s. walk_string tr trie_root (k @ [0]) = Some (b, s) \<and>
    trie_retrieve tr (k @ 0 # r) = (if b then map_option Some (trie_state_get_data tr s) else Some None)"
proof -
  note p = trie_parts [OF ok]
  have w: "walk_from (da tr) 2 [] = Some 2" by simp
  have "0 \<le> bs (da tr) 2"
    using leaves_parts(1) [OF p(5)] by (auto simp: da_view_def min_def split: if_splits)
  then obtain b s where
    s: "walk_string tr (branch_state 2 0) (k @ [0]) = Some (b, s)"
    "\<forall>d. holds (da_view (da tr)) (tail tr) (trie_key (alpha_map tr) k) d \<longleftrightarrow> b \<and> trie_state_get_data tr s = Some d"
    "b \<longrightarrow> (\<exists>d. trie_state_get_data tr s = Some d)"
    using state_walk_holds [OF ok nz w, of 0] unfolding append_Nil by blast
  obtain res where res: "trie_retrieve tr (k @ 0 # r) = Some res"
    "\<forall>d. res = Some d \<longleftrightarrow> holds (da_view (da tr)) (tail tr) (trie_key (alpha_map tr) k) d"
    using retrieve_ok [OF ok nz] by blast
  have "trie_root = branch_state 2 0" by (simp add: trie_root_def trie_state_new_def branch_state_def da_get_root_def)
  moreover have "Some res = (if b then map_option Some (trie_state_get_data tr s) else Some None)"
  proof (cases b)
    case True
    then obtain d where d: "trie_state_get_data tr s = Some d" using s(3) by blast
    then have "res = Some d" using s(2) res(2) True by blast
    then show ?thesis using d True by simp
  next
    case False
    have "res \<noteq> Some d" for d using s(2) res(2) False by blast
    then have "res = None" by (cases res) auto
    then show ?thesis using False by simp
  qed
  ultimately show ?thesis using s(1) res(1) by simp
qed

section \<open>Saving and loading\<close>

text \<open>
  A saved trie is read back with the suffixes of the free blocks empty and not dirty. The codecs of
  the three parts give the codec of the whole.
\<close>

definition plain_trie :: "Trie \<Rightarrow> Trie" where
  "plain_trie tr = tr\<lparr>tail := plain_tail (tail tr), is_dirty := False\<rparr>"

definition trie_file_ok :: "Trie \<Rightarrow> bool" where
  "trie_file_ok tr \<longleftrightarrow> alpha_map_file_ok (alpha_map tr) \<and> da_file_ok (da tr) \<and> tail_file_ok (tail tr) \<and> \<not> is_dirty tr"

definition enc_trie :: "Trie \<Rightarrow> bytes" where
  "enc_trie tr = enc_alpha_map (alpha_map tr) @ enc_da (da tr) @ enc_tail (tail tr)"

definition put_trie :: "Trie \<Rightarrow> FILE \<Rightarrow> bool \<times> FILE" where
  "put_trie tr f = (case trie_fwrite tr f of None \<Rightarrow> (False, f) | Some (r, _, f') \<Rightarrow> (r = 0, f'))"

lemma put_trie_eq:
  assumes "trie_file_ok tr"
  shows "put_trie tr = write_seq (\<lambda>f. (fst (alpha_map_fwrite_bin (alpha_map tr) f) = 0, snd (alpha_map_fwrite_bin (alpha_map tr) f)))
    (write_seq (put_da (da tr)) (put_tail (tail tr)))"
proof
  fix f
  obtain r1 f1 where a: "alpha_map_fwrite_bin (alpha_map tr) f = (r1, f1)" by (cases "alpha_map_fwrite_bin (alpha_map tr) f")
  obtain r2 f2 where d: "da_fwrite (da tr) f1 = Some (r2, f2)"
    using da_fwrite_defined [of "da tr" f1] assms unfolding trie_file_ok_def da_file_ok_def by blast
  obtain r3 f3 where t: "tail_fwrite (tail tr) f2 = Some (r3, f3)"
    using tail_fwrite_defined [of "tail tr" f2] assms unfolding trie_file_ok_def by blast
  show "put_trie tr f = write_seq (\<lambda>f. (fst (alpha_map_fwrite_bin (alpha_map tr) f) = 0, snd (alpha_map_fwrite_bin (alpha_map tr) f)))
    (write_seq (put_da (da tr)) (put_tail (tail tr))) f"
    using a d t by (simp add: put_trie_def trie_fwrite_def write_seq_def put_da_def put_tail_def)
qed

interpretation trie_codec: file_codec put_trie trie_fread enc_trie trie_file_ok
proof unfold_locales
  fix tr
  assume ok: "trie_file_ok tr"
  then have v: "alpha_map_file_ok (alpha_map tr)" "da_file_ok (da tr)" "tail_file_ok (tail tr)" "\<not> is_dirty tr"
    by (simp_all add: trie_file_ok_def)
  show "appends (put_trie tr) (enc_trie tr)"
    unfolding put_trie_eq [OF ok] enc_trie_def
    by (intro appends_seq alpha_codec.put_appends da_codec.put_appends tail_codec.put_appends v)
  let ?mk = "\<lambda>am d t. \<lparr>alpha_map = am, da = d, tail = t, is_dirty = False\<rparr> :: Trie"
  have "trie_fread = read_seq alpha_map_fread_bin (\<lambda>am. read_seq da_fread (\<lambda>d.
      read_seq tail_fread (\<lambda>t f. Some (Some (?mk am d t), f))))"
    by (simp add: fun_eq_iff trie_fread_def)
  moreover have "?mk (alpha_map tr) (da tr) (tail tr) = tr" using v(4) by (cases tr) simp
  moreover have "consumes (read_seq tail_fread (\<lambda>t f. Some (Some (?mk (alpha_map tr) (da tr) t), f)))
      (enc_tail (tail tr)) (?mk (alpha_map tr) (da tr) (tail tr))"
    by (rule consumes_then [OF tail_codec.get_consumes [OF v(3)]])
  then have "consumes (read_seq da_fread (\<lambda>d. read_seq tail_fread (\<lambda>t f. Some (Some (?mk (alpha_map tr) d t), f))))
      (enc_da (da tr) @ enc_tail (tail tr)) (?mk (alpha_map tr) (da tr) (tail tr))"
    by (intro consumes_seq [where x = "da tr"] da_codec.get_consumes v)
  then have "consumes (read_seq alpha_map_fread_bin (\<lambda>am. read_seq da_fread (\<lambda>d.
      read_seq tail_fread (\<lambda>t f. Some (Some (?mk am d t), f)))))
      (enc_alpha_map (alpha_map tr) @ enc_da (da tr) @ enc_tail (tail tr)) (?mk (alpha_map tr) (da tr) (tail tr))"
    by (intro consumes_seq [where x = "alpha_map tr"] alpha_codec.get_consumes v)
  ultimately show "consumes trie_fread (enc_trie tr) tr" unfolding enc_trie_def by simp
qed

lemma plain_entry:
  assumes "tail_ok t" and "tail_entries t i = Some (Some s, d)"
  shows "tail_entries (plain_tail t) i = Some (Some s, d)"
proof -
  have "tail_live t i" using assms(2) by (auto simp: tail_entries_def split: if_splits)
  then have "nat (i - 1) < length (tails t)" using tail_live_index [OF assms(1)] by force
  then show ?thesis using assms(2)
    by (auto simp: tail_entries_def tail_live_def plain_tail_def plain_block_def split: if_splits)
qed

lemma plain_leaves:
  assumes l: "leaves_ok am V t" and t: "tail_ok t"
  shows "leaves_ok am V (plain_tail t)" and "holds V (plain_tail t) w y \<longleftrightarrow> holds V t w y"
proof -
  note p = leaves_parts [OF l]
  have e: "\<exists>q d. tail_entries t (- v) = Some (Some (q @ [0]), d) \<and>
      tail_entries (plain_tail t) (- v) = Some (Some (q @ [0]), d)" if "V ks = Some v" "v < 0" for ks v
    using p(3) [OF that] plain_entry [OF t] unfolding leaf_ok_def by blast
  have "leaf_ok am (plain_tail t) ks (- v)" if v: "V ks = Some v" "v < 0" for ks v
  proof -
    have "tail_entries (plain_tail t) (- v) = tail_entries t (- v)" using e [OF v] by auto
    then show ?thesis using p(3) [OF v] leaf_ok_cong by blast
  qed
  then show "leaves_ok am V (plain_tail t)" using l unfolding leaves_ok_def by blast
  have "tail_entries (plain_tail t) i = Some (Some (q @ [0]), y) \<longleftrightarrow> tail_entries t i = Some (Some (q @ [0]), y)"
    if "V ks = Some (- i)" "0 < i" for ks i q
    using e [OF that(1)] that(2) by auto
  then show "holds V (plain_tail t) w y \<longleftrightarrow> holds V t w y" unfolding holds_def by blast
qed

lemma plain_trie_ok:
  assumes ok: "trie_ok tr"
  shows "trie_ok (plain_trie tr)" and "0 \<notin> set k \<Longrightarrow> trie_retrieve (plain_trie tr) (k @ 0 # r) = trie_retrieve tr (k @ 0 # r)"
proof -
  note p = trie_parts [OF ok]
  show ok': "trie_ok (plain_trie tr)"
    using p plain_leaves(1) [OF p(5,3)] plain_tail_ok [OF p(3)] by (simp add: trie_ok_def plain_trie_def)
  show "trie_retrieve (plain_trie tr) (k @ 0 # r) = trie_retrieve tr (k @ 0 # r)" if nz: "0 \<notin> set k"
  proof -
    let ?H = "holds (da_view (da tr)) (tail tr) (trie_key (alpha_map tr) k)"
    obtain a where a: "trie_retrieve tr (k @ 0 # r) = Some a" "\<forall>d. a = Some d \<longleftrightarrow> ?H d"
      using retrieve_ok [OF ok nz] by blast
    obtain b where "trie_retrieve (plain_trie tr) (k @ 0 # r) = Some b" "\<forall>d. b = Some d \<longleftrightarrow>
      holds (da_view (da (plain_trie tr))) (tail (plain_trie tr)) (trie_key (alpha_map (plain_trie tr)) k) d"
      using retrieve_ok [OF ok' nz] by blast
    then have b: "trie_retrieve (plain_trie tr) (k @ 0 # r) = Some b" "\<forall>d. b = Some d \<longleftrightarrow> ?H d"
      using plain_leaves(2) [OF p(5,3)] by (simp_all add: plain_trie_def)
    have "a = b" by (rule option_eq_by_values) (use a(2) b(2) in blast)
    then show ?thesis using a(1) b(1) by simp
  qed
qed

lemma trie_leaf_bases:
  assumes ok: "trie_ok tr"
  shows "da_file_ok (da tr)"
proof (rule da_ok_file [OF trie_parts(2) [OF ok]], rule ballI)
  note p = trie_parts [OF ok]
  fix i
  assume i: "i \<in> nodes (da tr)"
  then obtain ks where w: "walk_from (da tr) 2 ks = Some i" using p(2) by (auto simp: da_ok_def)
  show "INT32_MIN \<le> bs (da tr) i"
  proof (cases "bs (da tr) i < 0")
    case True
    then show ?thesis using tail_index_of [OF ok w] by (auto simp: is_int32_def)
  qed (simp add: INT32_MIN_def)
qed

lemma save_load_ok:
  assumes ok: "trie_ok tr" and am: "alpha_map_file_ok (alpha_map tr)" and t: "tail_file_ok (plain_tail (tail tr))"
    and n: "length (enc_trie (plain_trie tr)) \<le> n"
  shows "\<exists>f. trie_fwrite tr \<lparr>contents = [], fpos = 0, room = n\<rparr> = Some (0, tr\<lparr>is_dirty := False\<rparr>, f) \<and>
    trie_new_from_file (Some (fseek_set 0 f)) = Some (Some (plain_trie tr))"
proof -
  let ?f = "\<lparr>contents = [], fpos = 0, room = n\<rparr> :: FILE" and ?p = "plain_trie tr"
  have v: "trie_file_ok ?p"
    using am t trie_leaf_bases [OF ok] by (simp add: trie_file_ok_def plain_trie_def)
  note sl = trie_codec.save_load [OF v n]
  obtain r1 f1 where a: "alpha_map_fwrite_bin (alpha_map tr) ?f = (r1, f1)" by (cases "alpha_map_fwrite_bin (alpha_map tr) ?f")
  obtain r2 f2 where d: "da_fwrite (da tr) f1 = Some (r2, f2)"
    using da_fwrite_defined [of "da tr" f1] trie_leaf_bases [OF ok] unfolding da_file_ok_def by blast
  obtain r3 f3 where tl: "tail_fwrite (tail tr) f2 = Some (r3, f3)"
    using tail_fwrite_defined [OF t, of f2] unfolding tail_fwrite_plain by blast
  have "put_trie ?p ?f = (if r1 = 0 then if r2 = 0 then (r3 = 0, f3) else (False, f2) else (False, f1))"
    using a d tl by (simp add: put_trie_def trie_fwrite_def plain_trie_def tail_fwrite_plain)
  then have r: "r1 = 0" "r2 = 0" "r3 = 0" "f3 = \<lparr>contents = enc_trie ?p, fpos = length (enc_trie ?p), room = n\<rparr>"
    using sl(1) by (auto split: if_splits)
  then have "trie_fwrite tr ?f = Some (0, tr\<lparr>is_dirty := False\<rparr>, f3)"
    using a d tl by (simp add: trie_fwrite_def)
  moreover have "trie_new_from_file (Some (fseek_set 0 f3)) = Some (Some ?p)"
    using sl(2) r(4) by (simp add: trie_new_from_file_def fseek_set_def)
  ultimately show ?thesis by blast
qed

section \<open>Properties\<close>

lemma held_chars:
  assumes ok: "trie_ok tr" and h: "holds (da_view (da tr)) (tail tr) w d"
  shows "\<forall>c\<in>set w. is_tchar (alpha_map tr) c"
proof -
  note p = trie_parts [OF ok]
  obtain ks i q where a: "da_view (da tr) ks = Some (- i)" "0 < i"
    "tail_entries (tail tr) i = Some (Some (q @ [0]), d)" "spells ks q w" using h by (auto simp: holds_def)
  obtain q' d' where e: "tail_entries (tail tr) (- (- i)) = Some (Some (q' @ [0]), d')"
    "key_split (alpha_map tr) ks q'" using leaf_entry [OF p(5,1) a(1)] a(2) by auto
  then obtain w' where "spells ks q w'" "\<forall>c\<in>set w'. is_tchar (alpha_map tr) c"
    using leaf_split_spells [OF p(1) e(2)] a(3) by auto
  then show ?thesis using spells_unique [OF a(4)] by blast
qed

definition dns_trie :: Trie where
  "dns_trie = \<lparr>alpha_map = dns_alphabet, da = da_new, tail = tail_new, is_dirty = True\<rparr>"

lemma dns_trie_new: "trie_new dns_alphabet = Some (Some dns_trie)"
  using alpha_map_clone_lemma dns_alphabet_ok by (simp add: trie_new_def alphabet_ok_def dns_trie_def)

lemma dns_trie_facts:
  "trie_ok dns_trie" "int n \<le> 2796000 \<Longrightarrow> trie_fits dns_trie n" "alpha_map dns_trie = dns_alphabet"
  "0 \<notin> set k \<Longrightarrow> trie_retrieve dns_trie (k @ 0 # r) = Some None"
  using trie_new_ok [OF dns_alphabet_ok] dns_trie_new by auto

lemma dns_valid: "set k \<subseteq> {0x61, 0x62, 0x2e} \<Longrightarrow> length k \<le> 32767 \<Longrightarrow> trie_valid dns_trie k"
  by (auto simp: trie_valid_def alpha_key_def dns_trie_facts(3) dns_alphabet_def alpha_set_def range_set_def)

text \<open>All characters outside the alphabet have the same trie character.\<close>

lemma foreign_keys_collide:
  "\<exists>tr'. trie_store dns_trie [0x41, 0] 7 = Some (True, tr') \<and> trie_retrieve tr' [0x42, 0] = Some (Some 7)"
proof -
  have "case trie_store dns_trie [0x41, 0] 7 of None \<Rightarrow> False
      | Some (b, tr') \<Rightarrow> b \<and> trie_retrieve tr' [0x42, 0] = Some (Some 7)" by code_simp
  then show ?thesis by (auto split: option.splits prod.splits)
qed

text \<open>The trie of the witnesses: one key.\<close>

lemma example_trie:
  "\<exists>tr. trie_store dns_trie ([0x61] @ [0]) 7 = Some (True, tr) \<and> trie_ok tr \<and> alpha_key (alpha_map tr) [0x61] \<and>
    trie_retrieve tr ([0x61] @ [0]) = Some (Some 7)"
proof -
  have v: "trie_valid dns_trie [0x61]" by (simp add: dns_valid)
  have "trie_fits dns_trie (key_cost [0x61] + 0)" by (simp add: dns_trie_facts(2) key_cost_def)
  from tm.store_law [OF dns_trie_facts(1) v this, of 7] obtain tr where
    tr: "trie_store dns_trie ([0x61] @ [0]) 7 = Some (True, tr)" "trie_ok tr" "trie_valid tr = trie_valid dns_trie"
    and get: "\<forall>j. trie_valid dns_trie j \<longrightarrow>
      trie_retrieve tr (j @ [0]) = (if j = [0x61] then Some (Some 7) else trie_retrieve dns_trie (j @ [0]))" by blast
  have "trie_valid tr [0x61]" unfolding tr(3) by (rule v)
  then have "alpha_key (alpha_map tr) [0x61]" by (simp add: trie_valid_def)
  then show ?thesis using tr(1,2) get [rule_format, OF v] by simp
qed

text \<open>C1: Storing a key over the alphabet succeeds while there is room, and afterwards the trie maps
  the key to the new data and every other key to what it mapped to before; the old value of the key
  is overwritten.\<close>

theorem trie_store_updates:
  assumes "trie_ok tr" and "trie_valid tr k" and "trie_fits tr (key_cost k)"
  shows "\<exists>tr'. trie_store tr (k @ [0]) d = Some (True, tr') \<and> trie_ok tr' \<and>
    (\<forall>j. trie_valid tr j \<longrightarrow>
       trie_retrieve tr' (j @ [0]) = (if j = k then Some (Some d) else trie_retrieve tr (j @ [0])))"
proof -
  have "trie_fits tr (key_cost k + 0)" using assms(3) by simp
  from tm.store_law [OF assms(1,2) this, of d] show ?thesis by blast
qed

theorem trie_store_updates_witness:
  "\<exists>tr'. trie_store dns_trie ([0x61, 0x2e, 0x62] @ [0]) 7 = Some (True, tr') \<and>
     trie_retrieve tr' ([0x61, 0x2e, 0x62] @ [0]) = Some (Some 7) \<and> trie_retrieve tr' ([0x61] @ [0]) = Some None"
proof -
  have v: "trie_valid dns_trie [0x61, 0x2e, 0x62]" "trie_valid dns_trie [0x61]" by (simp_all add: dns_valid)
  have "trie_fits dns_trie (key_cost [0x61, 0x2e, 0x62])" by (simp add: dns_trie_facts(2) key_cost_def)
  then show ?thesis using trie_store_updates [OF dns_trie_facts(1) v(1), of 7] v dns_trie_facts(4) [of "[0x61]" "[]"]
    by fastforce
qed

text \<open>\<open>trie_store_if_absent\<close> stores exactly when the key is absent and says so; a key that is there
  keeps its data.\<close>

theorem trie_store_if_absent_keeps:
  assumes "trie_ok tr" and "trie_valid tr k" and "trie_fits tr (key_cost k)"
  shows "\<exists>b tr'. trie_store_if_absent tr (k @ [0]) d = Some (b, tr') \<and> trie_ok tr' \<and>
    (b \<longleftrightarrow> trie_retrieve tr (k @ [0]) = Some None) \<and>
    (\<forall>j. trie_valid tr j \<longrightarrow>
       trie_retrieve tr' (j @ [0]) = (if j = k \<and> b then Some (Some d) else trie_retrieve tr (j @ [0])))"
proof -
  have "trie_fits tr (key_cost k + 0)" using assms(3) by simp
  from tm.store_new_law [OF assms(1,2) this, of d] show ?thesis by blast
qed

theorem trie_store_if_absent_keeps_witness:
  "\<exists>tr'. trie_store_if_absent dns_trie ([0x61] @ [0]) 7 = Some (True, tr') \<and>
     trie_retrieve tr' ([0x61] @ [0]) = Some (Some 7)"
proof -
  have v: "trie_valid dns_trie [0x61]" by (simp add: dns_valid)
  have "trie_fits dns_trie (key_cost [0x61])" by (simp add: dns_trie_facts(2) key_cost_def)
  then obtain b tr' where "trie_store_if_absent dns_trie ([0x61] @ [0]) 7 = Some (b, tr')"
    "b \<longleftrightarrow> trie_retrieve dns_trie ([0x61] @ [0]) = Some None"
    "trie_retrieve tr' ([0x61] @ [0]) = (if b then Some (Some 7) else trie_retrieve dns_trie ([0x61] @ [0]))"
    using trie_store_if_absent_keeps [OF dns_trie_facts(1) v, of 7] v by auto
  then show ?thesis using dns_trie_facts(4) [of "[0x61]" "[]"] by simp
qed

text \<open>C2: Deleting a key reports whether it was there, afterwards the key is absent and every other
  key keeps its data. This includes the pruning of the branches only the deleted key used.\<close>

theorem trie_delete_removes:
  assumes "trie_ok tr" and "trie_valid tr k"
  shows "\<exists>b tr'. trie_delete tr (k @ [0]) = Some (b, tr') \<and> trie_ok tr' \<and>
    (b \<longleftrightarrow> trie_retrieve tr (k @ [0]) \<noteq> Some None) \<and>
    (\<forall>j. trie_valid tr j \<longrightarrow>
       trie_retrieve tr' (j @ [0]) = (if j = k then Some None else trie_retrieve tr (j @ [0])))"
  using tm.remove_law [OF assms] by blast

theorem trie_delete_removes_witness:
  "\<exists>tr1 tr2. trie_store dns_trie ([0x61] @ [0]) 7 = Some (True, tr1) \<and>
     trie_delete tr1 ([0x61] @ [0]) = Some (True, tr2) \<and> trie_retrieve tr2 ([0x61] @ [0]) = Some None"
proof -
  have v: "trie_valid dns_trie [0x61]" by (simp add: dns_valid)
  have "trie_fits dns_trie (key_cost [0x61] + 0)" by (simp add: dns_trie_facts(2) key_cost_def)
  from tm.store_law [OF dns_trie_facts(1) v this, of 7] obtain tr1 where
    1: "trie_store dns_trie ([0x61] @ [0]) 7 = Some (True, tr1)" "trie_ok tr1" "trie_valid tr1 [0x61]"
    "trie_retrieve tr1 ([0x61] @ [0]) = Some (Some 7)" using v by auto
  from trie_delete_removes [OF 1(2,3)] 1(3,4) obtain tr2 where
    "trie_delete tr1 ([0x61] @ [0]) = Some (True, tr2)" "trie_retrieve tr2 ([0x61] @ [0]) = Some None" by auto
  with 1(1) show ?thesis by blast
qed

text \<open>C11: Looking up any terminated key, whatever its characters, in a trie in its invariant runs without
  leaving the arrays and ends, does not depend on what follows the terminator, and never finds a key
  with a character outside the alphabet. The invariant includes that every key stored so far is over the
  alphabet, which \<open>trie_store\<close> does not check: a store of a key with a foreign character in the empty
  trie of the domains breaks it, and afterwards a different foreign key finds that key's data.\<close>

theorem trie_retrieve_safe:
  assumes "trie_ok tr" and "0 \<notin> set k"
  shows "(\<exists>res. (\<forall>r. trie_retrieve tr (k @ 0 # r) = Some res) \<and> (\<not> set k \<subseteq> alpha_set (alpha_map tr) \<longrightarrow> res = None)) \<and>
    (\<exists>tr'. trie_store dns_trie [0x41, 0] 7 = Some (True, tr') \<and> trie_retrieve tr' [0x42, 0] = Some (Some 7))"
proof -
  let ?H = "holds (da_view (da tr)) (tail tr) (trie_key (alpha_map tr) k)"
  obtain res where res: "trie_retrieve tr (k @ 0 # []) = Some res" "\<forall>d. res = Some d \<longleftrightarrow> ?H d"
    using retrieve_ok [OF assms] by blast
  have "trie_retrieve tr (k @ 0 # r) = Some res" for r
  proof -
    obtain res' where res': "trie_retrieve tr (k @ 0 # r) = Some res'" "\<forall>d. res' = Some d \<longleftrightarrow> ?H d"
      using retrieve_ok [OF assms] by blast
    have "res' = res" by (rule option_eq_by_values) (use res(2) res'(2) in blast)
    then show ?thesis using res'(1) by simp
  qed
  moreover have "res = None" if out: "\<not> set k \<subseteq> alpha_set (alpha_map tr)"
  proof -
    obtain c where c: "c \<in> set k" "c \<notin> alpha_set (alpha_map tr)" using out by blast
    then have "alpha_map_char_to_trie (alpha_map tr) c = 255"
      using char_to_trie_notin [of c "alpha_map tr"] assms(2) by (auto simp: TRIE_CHAR_MAX_def)
    then have "255 \<in> set (trie_key (alpha_map tr) k)" using c(1) by (force simp: trie_key_def)
    then have "\<not> ?H d" for d
      using held_chars [OF assms(1)] is_tchar_range [OF trie_parts(1) [OF assms(1)]] by blast
    then show ?thesis using res(2) by (cases res) auto
  qed
  ultimately show ?thesis using foreign_keys_collide by blast
qed

theorem trie_retrieve_safe_witness:
  "\<exists>res. \<forall>r. trie_retrieve dns_trie ([0x61, 0x41] @ 0 # r) = Some res"
  using trie_retrieve_safe [OF dns_trie_facts(1), of "[0x61, 0x41]"] by auto

text \<open>C29: Enumerating a trie calls the callback once for every key the trie holds, with its data, and
  for nothing else, until the callback refuses.\<close>

theorem trie_enumerate_complete:
  fixes f :: "AlphaChar list \<Rightarrow> TrieData \<Rightarrow> 'u \<Rightarrow> (bool \<times> 'u) option"
  assumes "trie_ok tr"
  shows "\<exists>L. distinct (map fst L) \<and>
    (\<forall>k d. (k, d) \<in> set L \<longleftrightarrow> alpha_key (alpha_map tr) k \<and> trie_retrieve tr (k @ [0]) = Some (Some d)) \<and>
    trie_enumerate tr f u = visit_keys f L u"
  using enumerate_ok [OF assms] .

theorem trie_enumerate_complete_witness:
  "\<exists>tr L. trie_store dns_trie ([0x61] @ [0]) 7 = Some (True, tr) \<and> ([0x61], 7) \<in> set L \<and>
    trie_enumerate tr (\<lambda>k d n. Some (True, n + d)) (0 :: int) = visit_keys (\<lambda>k d n. Some (True, n + d)) L 0"
proof -
  obtain tr where tr: "trie_store dns_trie ([0x61] @ [0]) 7 = Some (True, tr)" "trie_ok tr" "alpha_key (alpha_map tr) [0x61]"
    "trie_retrieve tr ([0x61] @ [0]) = Some (Some 7)" using example_trie by blast
  obtain L where L: "\<forall>k d. (k, d) \<in> set L \<longleftrightarrow> alpha_key (alpha_map tr) k \<and> trie_retrieve tr (k @ [0]) = Some (Some d)"
    "trie_enumerate tr (\<lambda>k d n. Some (True, n + d)) (0 :: int) = visit_keys (\<lambda>k d n. Some (True, n + d)) L 0"
    using trie_enumerate_complete [OF tr(2), of "\<lambda>k d n. Some (True, n + d)" "0 :: int"] by blast
  have "([0x61], 7) \<in> set L" using L(1) tr(3,4) by simp
  then show ?thesis using tr(1) L(2) by blast
qed

text \<open>C31: Walking a key character by character through the stepwise interface, terminator included,
  succeeds exactly when \<open>trie_retrieve\<close> finds the key, and then \<open>trie_state_get_data\<close> returns its data.\<close>

theorem trie_walk_agrees:
  assumes "trie_ok tr" and "0 \<notin> set k"
  shows "\<exists>b s. walk_string tr trie_root (k @ [0]) = Some (b, s) \<and>
    trie_retrieve tr (k @ 0 # r) = (if b then map_option Some (trie_state_get_data tr s) else Some None)"
  using assms by (rule walk_root_ok)

theorem trie_walk_agrees_witness:
  "\<exists>tr s. trie_store dns_trie ([0x61] @ [0]) 7 = Some (True, tr) \<and>
    walk_string tr trie_root ([0x61] @ [0]) = Some (True, s) \<and> trie_state_get_data tr s = Some 7"
proof -
  obtain tr where tr: "trie_store dns_trie ([0x61] @ [0]) 7 = Some (True, tr)" "trie_ok tr"
    "trie_retrieve tr ([0x61] @ [0]) = Some (Some 7)" using example_trie by blast
  have "0 \<notin> set ([0x61] :: AlphaChar list)" by simp
  from trie_walk_agrees [OF tr(2) this, of "[]"] obtain b s where s: "walk_string tr trie_root ([0x61] @ [0]) = Some (b, s)"
    "trie_retrieve tr ([0x61] @ 0 # []) = (if b then map_option Some (trie_state_get_data tr s) else Some None)" by blast
  then show ?thesis using tr(1,3) by (cases b) auto
qed

text \<open>C30: Saving a trie whose suffixes fit the file format to a medium with room clears the dirty
  flag, and the trie loaded from that file answers every lookup as the saved one does.\<close>

theorem trie_save_load:
  assumes "trie_ok tr" and "alpha_map_file_ok (alpha_map tr)" and "tail_file_ok (plain_tail (tail tr))"
    and "length (enc_trie (plain_trie tr)) \<le> n"
  shows "\<exists>f tr'. trie_save tr (Some \<lparr>contents = [], fpos = 0, room = n\<rparr>) = Some (0, tr\<lparr>is_dirty := False\<rparr>, Some f) \<and>
    trie_new_from_file (Some (fseek_set 0 f)) = Some (Some tr') \<and> trie_ok tr' \<and> alpha_map tr' = alpha_map tr \<and>
    (\<forall>k r. 0 \<notin> set k \<longrightarrow> trie_retrieve tr' (k @ 0 # r) = trie_retrieve tr (k @ 0 # r))"
proof -
  obtain f where "trie_fwrite tr \<lparr>contents = [], fpos = 0, room = n\<rparr> = Some (0, tr\<lparr>is_dirty := False\<rparr>, f)"
    "trie_new_from_file (Some (fseek_set 0 f)) = Some (Some (plain_trie tr))"
    using save_load_ok [OF assms] by blast
  then show ?thesis using plain_trie_ok [OF assms(1)]
    by (intro exI [of _ f] exI [of _ "plain_trie tr"]) (simp add: trie_save_def plain_trie_def)
qed

theorem trie_save_load_witness:
  "\<exists>f tr'. trie_save dns_trie (Some \<lparr>contents = [], fpos = 0, room = 200\<rparr>) = Some (0, dns_trie\<lparr>is_dirty := False\<rparr>, Some f) \<and>
     trie_new_from_file (Some (fseek_set 0 f)) = Some (Some tr')"
proof -
  have 1: "alpha_map_file_ok (alpha_map dns_trie)"
    using dns_alphabet_ok by (simp add: alpha_map_file_ok_def dns_trie_def alphabet_ok_def dns_alphabet_def INT32_MAX_def)
  have 2: "tail_file_ok (plain_tail (tail dns_trie))"
    by (simp add: dns_trie_def tail_new_def plain_tail_def tail_file_ok_def int32_limits)
  have 3: "length (enc_trie (plain_trie dns_trie)) \<le> 200"
    by (simp add: enc_trie_def plain_trie_def dns_trie_def enc_alpha_map_def dns_alphabet_def enc_da_def da_new_def
        cell_codec.enc_all_def enc_cell_def enc_tail_def tail_new_def plain_tail_def range_codec.enc_all_def)
  show ?thesis using trie_save_load [OF dns_trie_facts(1) 1 2 3] by blast
qed

text \<open>C3: A trie made by \<open>trie_new\<close> and filled with \<open>trie_store\<close> from a list of keys and data is the
  finite map of that list, the last pair of a key winning, on all keys over its alphabet of at most 32767
  characters. The conditions on the list: its keys are such keys (the tail file's 16-bit lengths bound them, and
  two keys with characters outside the alphabet can collide), and the lengths of the keys and two more for each
  are together at most 2796000, which keeps the indices of the arrays in range.\<close>

theorem trie_built_is_map:
  assumes "alphabet_ok am" and "\<forall>(k, d)\<in>set kds. alpha_key am k \<and> length k \<le> 32767"
    and "sum_list (map (key_cost \<circ> fst) kds) \<le> 2796000"
  shows "\<exists>tr0 tr. trie_new am = Some (Some tr0) \<and> store_each (\<lambda>tr k. trie_store tr (k @ [0])) tr0 kds = Some tr \<and>
    trie_ok tr \<and> (\<forall>k. alpha_key am k \<and> length k \<le> 32767 \<longrightarrow>
      trie_retrieve tr (k @ [0]) = Some (map_of (rev kds) k))"
proof -
  obtain tr0 where 0: "trie_new am = Some (Some tr0)" "trie_ok tr0" "alpha_map tr0 = am"
    "\<forall>n. int n \<le> 2796000 \<longrightarrow> trie_fits tr0 n" "\<forall>k r. 0 \<notin> set k \<longrightarrow> trie_retrieve tr0 (k @ 0 # r) = Some None"
    using trie_new_ok [OF assms(1)] by blast
  have v: "trie_valid tr0 k \<longleftrightarrow> alpha_key am k \<and> length k \<le> 32767" for k using 0(3) by (simp add: trie_valid_def)
  have "\<forall>(k, d)\<in>set kds. trie_valid tr0 k" using assms(2) v by blast
  moreover have "trie_fits tr0 (sum_list (map (key_cost \<circ> fst) kds) + 0)" using 0(4) assms(3) by simp
  ultimately obtain tr where tr: "store_each (\<lambda>tr k. trie_store tr (k @ [0])) tr0 kds = Some tr" "trie_ok tr"
    "\<forall>j. trie_valid tr0 j \<longrightarrow> trie_retrieve tr (j @ [0]) =
       (case map_of (rev kds) j of None \<Rightarrow> trie_retrieve tr0 (j @ [0]) | Some v \<Rightarrow> Some (Some v))"
    using tm.store_each_ok [OF 0(2)] by blast
  have "trie_retrieve tr (k @ [0]) = Some (map_of (rev kds) k)" if "alpha_key am k \<and> length k \<le> 32767" for k
    using that tr(3) v 0(5) by (auto simp: alpha_key_def split: option.splits)
  then show ?thesis using 0(1) tr(1,2) by blast
qed

theorem trie_built_is_map_witness:
  "\<exists>tr0 tr. trie_new dns_alphabet = Some (Some tr0) \<and>
     store_each (\<lambda>tr k. trie_store tr (k @ [0])) tr0 [([0x61], 1), ([0x62], 2), ([0x61], 3)] = Some tr \<and>
     trie_retrieve tr ([0x61] @ [0]) = Some (Some 3)"
proof -
  let ?L = "[([0x61], 1), ([0x62], 2), ([0x61], 3)] :: (AlphaChar list \<times> TrieData) list"
  have k: "alpha_key dns_alphabet [0x61]" "alpha_key dns_alphabet [0x62]"
    using dns_valid [of "[0x61]"] dns_valid [of "[0x62]"] by (simp_all add: trie_valid_def dns_trie_facts(3))
  then have "\<forall>(k, d)\<in>set ?L. alpha_key dns_alphabet k \<and> length k \<le> 32767" by simp
  moreover have "sum_list (map (key_cost \<circ> fst) ?L) \<le> 2796000" by (simp add: key_cost_def)
  ultimately obtain tr0 tr where "trie_new dns_alphabet = Some (Some tr0)"
    "store_each (\<lambda>tr k. trie_store tr (k @ [0])) tr0 ?L = Some tr"
    "trie_retrieve tr ([0x61] @ [0]) = Some (map_of (rev ?L) [0x61])"
    using trie_built_is_map [OF dns_alphabet_ok, of ?L] k by auto
  then show ?thesis by auto
qed

end
