(* ===== verification/TrieFiles.thy ===== *)
theory TrieFiles
  imports Dictionary
begin

text \<open>
  What a trie needs to go into a file: the 16-bit lengths and 32-bit numbers of
  \<open>src/server/tail.c\<close> have to hold its suffixes and data. Every store of a key of at most 32767
  characters with 32-bit data keeps a trie that way, so what is built can be saved.
\<close>

section \<open>Suffix stores that fit a file\<close>

definition suffix_fits :: "TrieChar list option \<Rightarrow> bool" where
  "suffix_fits s \<longleftrightarrow> (case s of None \<Rightarrow> True | Some p \<Rightarrow> p \<noteq> [] \<and> last p = 0 \<and> 0 \<notin> set (butlast p) \<and> length p \<le> 32768)"

definition tail_fits :: "Tail \<Rightarrow> bool" where
  "tail_fits t \<longleftrightarrow> is_int32 (first_free t) \<and>
     (\<forall>b\<in>set (tails t). is_int32 (next_free b) \<and> is_int32 (tdata b) \<and> suffix_fits (suffix b))"

lemma tail_fits_file: "tail_ok t \<Longrightarrow> tail_fits t \<Longrightarrow> tail_file_ok (plain_tail t)"
  by (auto simp: tail_ok_def tail_fits_def tail_file_ok_def plain_tail_def plain_block_def block_file_ok_def suffix_fits_def
      split: option.splits)

lemma tail_new_fits: "tail_fits tail_new"
  by (simp add: tail_fits_def tail_new_def int32_limits)

lemma tail_fits_set:
  assumes "tail_fits t" and "arr_set (tails t) i b = Some ts"
    and "is_int32 (next_free b)" "is_int32 (tdata b)" "suffix_fits (suffix b)"
  shows "tail_fits (t\<lparr>tails := ts\<rparr>)"
  using assms set_update_subset_insert [of "tails t" "nat i" b] by (auto simp: tail_fits_def arr_set_Some_iff)

lemma tail_fits_get:
  assumes "tail_fits t" and "arr_get (tails t) i = Some b"
  shows "is_int32 (next_free b)" "is_int32 (tdata b)" "suffix_fits (suffix b)"
  using assms nth_mem [of "nat i" "tails t"] by (auto simp: tail_fits_def arr_get_Some_iff)

lemma dup_suffix_fits:
  assumes "dup_suffix s = Some s'" and "\<forall>p. s = Some p \<longrightarrow> length p \<le> 32768"
  shows "suffix_fits s'"
  using assms by (auto simp: dup_suffix_def suffix_fits_def strdup_def c_str_Some_iff split: option.splits)

lemma tail_set_suffix_fits:
  assumes "tail_fits t" and "tail_set_suffix t i s = Some (x, t')" and "\<forall>p. s = Some p \<longrightarrow> length p \<le> 32768"
  shows "tail_fits t'"
  using assms(1,2) dup_suffix_fits [OF _ assms(3)]
  by (auto simp: tail_set_suffix_def Let_def bind_eq_Some_conv split: if_splits
      intro!: tail_fits_set dest: tail_fits_get)

lemma tail_set_data_fits:
  assumes "tail_fits t" and "tail_set_data t i d = Some (x, t')" and "is_int32 d"
  shows "tail_fits t'"
  using assms by (auto simp: tail_set_data_def Let_def bind_eq_Some_conv split: if_splits
      intro!: tail_fits_set dest: tail_fits_get)

lemma tail_add_suffix_fits:
  assumes "tail_fits t" and "tail_add_suffix t s = Some (i, t')" and "\<forall>p. s = Some p \<longrightarrow> length p \<le> 32768"
  shows "tail_fits t'"
proof -
  obtain t1 x where a: "tail_alloc_block t = Some (i, t1)" and s: "tail_set_suffix t1 i s = Some (x, t')"
    using assms(2) by (auto simp: tail_add_suffix_def bind_eq_Some_conv)
  have f: "is_int32 (next_free fresh_block)" "is_int32 (tdata fresh_block)" "suffix_fits (suffix fresh_block)"
    by (simp_all add: fresh_block_def int32_limits TRIE_DATA_ERROR_def suffix_fits_def)
  have "tail_fits t1"
  proof (cases "first_free t = 0")
    case True
    then show ?thesis using a assms(1) f by (auto simp: tail_alloc_block_def bind_eq_Some_conv tail_fits_def)
  next
    case False
    then obtain b ts where b: "arr_get (tails t) (first_free t) = Some b" "arr_set (tails t) (first_free t) fresh_block = Some ts"
      "t1 = t\<lparr>tails := ts, first_free := next_free b\<rparr>"
      using a by (auto simp: tail_alloc_block_def bind_eq_Some_conv)
    then show ?thesis using tail_fits_set [OF assms(1) b(2) f] tail_fits_get(1) [OF assms(1) b(1)] by (simp add: tail_fits_def)
  qed
  then show ?thesis using tail_set_suffix_fits [OF _ s assms(3)] by blast
qed

section \<open>Storing keeps a trie that fits a file\<close>

lemma branch_in_branch_fits:
  assumes f: "tail_fits (tail tr)" and r: "trie_branch_in_branch tr s str data = Some (b, tr')"
    and l: "length str \<le> 32768" "is_int32 data"
  shows "tail_fits (tail tr')"
proof -
  obtain c i d where c: "deref str = Some c" "da_insert_branch (da tr) s c = Some (i, d)"
    using r by (auto simp: trie_branch_in_branch_def bind_eq_Some_conv)
  show ?thesis
  proof (cases "TRIE_INDEX_ERROR = i")
    case True
    then show ?thesis using r c f by (auto simp: trie_branch_in_branch_def)
  next
    case False
    then obtain j t x t' d' where t: "tail_add_suffix (tail tr) (Some (if 0 \<noteq> c then tl str else str)) = Some (j, t)"
      "tail_set_data t j data = Some (x, t')" "tr' = tr\<lparr>da := d', tail := t', is_dirty := True\<rparr>"
      using r c by (auto simp only: trie_branch_in_branch_def Let_def bind_eq_Some_conv if_False option.inject prod.inject split_conv)
    have "tail_fits t" by (rule tail_add_suffix_fits [OF f t(1)]) (use l(1) in auto)
    then show ?thesis using tail_set_data_fits [OF _ t(2) l(2)] t(3) by simp
  qed
qed

lemma insert_common_shorter:
  "insert_common d s p str = Some (ok, d', s', p', str') \<Longrightarrow> length p' \<le> length p \<and> length str' \<le> length str"
  by (induction d s p str rule: insert_common.induct) (fastforce simp: bind_eq_Some_conv split: if_splits)+

lemma undo_branches_tail: "undo_branches tr d s t i = Some (b, tr') \<Longrightarrow> tail tr' = tail tr"
  by (auto simp: undo_branches_def bind_eq_Some_conv)

lemma branch_in_tail_fits:
  assumes f: "tail_fits (tail tr)" and r: "trie_branch_in_tail tr s str data = Some (b, tr')" and l: "length str \<le> 32768" "is_int32 data"
  shows "tail_fits (tail tr')"
proof -
  obtain i o' where i: "trie_da_get_tail_index (da tr) s = Some i" "tail_get_suffix (tail tr) i = Some o'"
    using r by (auto simp: trie_branch_in_tail_def bind_eq_Some_conv)
  show ?thesis
  proof (cases o')
    case None
    then show ?thesis using r i f by (simp add: trie_branch_in_tail_def)
  next
    case (Some old)
    have lo: "length old \<le> 32768"
    proof -
      obtain z where "arr_get (tails (tail tr)) (i - TAIL_START_BLOCKNO) = Some z" "suffix z = Some old"
        using i(2) Some by (auto simp: tail_get_suffix_def Let_def split: if_splits)
      then show ?thesis using tail_fits_get(3) [OF f] by (fastforce simp: suffix_fits_def)
    qed
    obtain ok d s' p str' where c: "insert_common (da tr) s old str = Some (ok, d, s', p, str')"
      using r i Some by (auto simp: trie_branch_in_tail_def bind_eq_Some_conv)
    note sh = insert_common_shorter [OF c]
    show ?thesis
    proof (cases ok)
      case False
      then show ?thesis using r i Some c f by (auto simp: trie_branch_in_tail_def dest!: undo_branches_tail)
    next
      case True
      obtain a p1 where p: "p = a # p1" using r i Some c True by (cases p) (auto simp: trie_branch_in_tail_def)
      obtain x d1 where x: "da_insert_branch d s' a = Some (x, d1)"
        using r i Some c True p by (auto simp: trie_branch_in_tail_def bind_eq_Some_conv)
      show ?thesis
      proof (cases "TRIE_INDEX_ERROR = x")
        case T: True
        then show ?thesis using r i Some c True p x f by (auto simp: trie_branch_in_tail_def dest!: undo_branches_tail)
      next
        case False
        then obtain y t d2 where t: "tail_set_suffix (tail tr) i (Some (if 0 \<noteq> a then p1 else p)) = Some (y, t)"
          "trie_branch_in_branch (tr\<lparr>da := d2, tail := t\<rparr>) s' str' data = Some (b, tr')"
          using r i Some c True p x by (auto simp: trie_branch_in_tail_def bind_eq_Some_conv Let_def split: if_splits)
        have "tail_fits t" using tail_set_suffix_fits [OF f t(1)] sh lo p by auto
        then show ?thesis using branch_in_branch_fits [OF _ t(2) _ l(2)] sh l(1) by simp
      qed
    qed
  qed
qed

lemma char_to_trie_str_length: "alpha_map_char_to_trie_str am s = Some p \<Longrightarrow> \<exists>u v. s = u @ 0 # v \<and> 0 \<notin> set u \<and> length p = length u + 1"
proof (induction am s arbitrary: p rule: alpha_map_char_to_trie_str.induct)
  case (2 am c str)
  show ?case
  proof (cases "c = 0")
    case True
    then show ?thesis using 2 by (intro exI [of _ "[]"] exI [of _ str]) auto
  next
    case False
    then obtain p' u v where "p = alpha_map_char_to_trie am c # p'" "str = u @ 0 # v" "0 \<notin> set u" "length p' = length u + 1"
      using 2 by auto
    then show ?thesis using False by (intro exI [of _ "c # u"] exI [of _ v]) auto
  qed
qed simp

lemma walk_branches_rest:
  "walk_branches tr s p = Some res \<Longrightarrow> \<exists>u p'. p = u @ p' \<and> 0 \<notin> set u \<and> (\<exists>s'. res = Arrived s' p' \<or> res = Stopped s' p')"
proof (induction tr s p arbitrary: res rule: walk_branches.induct)
  case (2 tr s c p)
  obtain sep where sep: "trie_da_is_separate (da tr) s = Some sep" using 2(2) by (auto simp: bind_eq_Some_conv)
  show ?case
  proof (cases sep)
    case True
    then show ?thesis using 2(2) sep by (intro exI [of _ "[]"] exI [of _ "c # p"]) auto
  next
    case False
    then obtain ok s' where w: "da_walk (da tr) s (alpha_map_char_to_trie (alpha_map tr) c) = Some (ok, s')"
      using 2(2) sep by (auto simp: bind_eq_Some_conv)
    show ?thesis
    proof (cases "ok \<and> c \<noteq> 0")
      case True
      then have "walk_branches tr s' p = Some res" using 2(2) sep False w by simp
      with 2(1) [OF sep False w refl] True obtain u p' where "p = u @ p'" "0 \<notin> set u" "\<exists>s'. res = Arrived s' p' \<or> res = Stopped s' p'"
        by auto
      then show ?thesis using True by (intro exI [of _ "c # u"] exI [of _ p']) auto
    next
      case F: False
      then have "\<exists>s'. res = Arrived s' (c # p) \<or> res = Stopped s' (c # p)" using 2(2) sep False w by (auto split: if_splits)
      then show ?thesis by (metis append_Nil empty_iff list.set(1))
    qed
  qed
qed (auto simp: bind_eq_Some_conv split: if_splits)

lemma rest_of_key:
  assumes "k @ 0 # r = u @ p" and "0 \<notin> set k" "0 \<notin> set u" and "alpha_map_char_to_trie_str am p = Some str"
  shows "length str \<le> length k + 1"
proof -
  obtain v w where v: "p = v @ 0 # w" "0 \<notin> set v" "length str = length v + 1" using char_to_trie_str_length [OF assms(4)] by blast
  have "c_str (k @ 0 # r) = Some k" using assms(2) by simp
  moreover have "c_str ((u @ v) @ 0 # w) = Some (u @ v)" using assms(3) v(2) by (intro c_str_terminated) simp
  ultimately have "k = u @ v" using assms(1) v(1) by simp
  then show ?thesis using v(3) by simp
qed

lemma trie_store_fits:
  assumes f: "tail_fits (tail tr)" and k: "0 \<notin> set k" "length k \<le> 32767" and d: "is_int32 data"
    and r: "trie_store_conditionally tr (k @ 0 # r) data ow = Some (b, tr')"
  shows "tail_fits (tail tr')"
proof -
  obtain res where res: "walk_branches tr da_get_root (k @ 0 # r) = Some res"
    using r by (auto simp: trie_store_conditionally_def bind_eq_Some_conv)
  obtain u p s where u: "k @ 0 # r = u @ p" "0 \<notin> set u" "res = Arrived s p \<or> res = Stopped s p"
    using walk_branches_rest [OF res] by blast
  have len: "length str \<le> 32768" if "alpha_map_char_to_trie_str (alpha_map tr) p = Some str" for str
    using rest_of_key [OF u(1) k(1) u(2) that] k(2) by simp
  show ?thesis
  proof (cases "res = Stopped s p")
    case True
    then obtain str where "alpha_map_char_to_trie_str (alpha_map tr) p = Some str" "trie_branch_in_branch tr s str data = Some (b, tr')"
      using r res by (auto simp: trie_store_conditionally_def bind_eq_Some_conv)
    then show ?thesis using branch_in_branch_fits [OF f _ _ d] len by blast
  next
    case False
    then have a: "res = Arrived s p" using u(3) by simp
    then obtain t found where t: "trie_da_get_tail_index (da tr) s = Some t" "walk_tail tr t 0 p = Some found"
      using r res by (auto simp: trie_store_conditionally_def bind_eq_Some_conv)
    show ?thesis
    proof (cases found)
      case T: True
      then show ?thesis using r res a t f tail_set_data_fits [OF f _ d]
        by (auto simp: trie_store_conditionally_def bind_eq_Some_conv split: if_splits)
    next
      case F: False
      then obtain str where "alpha_map_char_to_trie_str (alpha_map tr) p = Some str" "trie_branch_in_tail tr s str data = Some (b, tr')"
        using r res a t by (auto simp: trie_store_conditionally_def bind_eq_Some_conv)
      then show ?thesis using branch_in_tail_fits [OF f _ _ d] len by blast
    qed
  qed
qed

text \<open>What follows the terminator of a key does not matter.\<close>

lemma retrieve_rest:
  assumes ok: "trie_ok tr" and nz: "0 \<notin> set k"
  shows "trie_retrieve tr (k @ 0 # r) = trie_retrieve tr (k @ [0])"
proof -
  let ?H = "holds (da_view (da tr)) (tail tr) (trie_key (alpha_map tr) k)"
  obtain a where a: "trie_retrieve tr (k @ 0 # r) = Some a" "\<forall>d. a = Some d \<longleftrightarrow> ?H d"
    using retrieve_ok [OF ok nz] by blast
  obtain b where b: "trie_retrieve tr (k @ [0]) = Some b" "\<forall>d. b = Some d \<longleftrightarrow> ?H d"
    using retrieve_ok [OF ok nz] by blast
  have "a = b" by (rule option_eq_by_values) (use a(2) b(2) in blast)
  then show ?thesis using a(1) b(1) by simp
qed

section \<open>Properties\<close>

lemma dns_alphabet_file_ok: "alpha_map_file_ok dns_alphabet"
  using dns_alphabet_ok by (simp add: alpha_map_file_ok_def alphabet_ok_def dns_alphabet_def INT32_MAX_def)

lemma dns_trie_tail_fits: "tail_fits (tail dns_trie)"
  by (simp add: dns_trie_def tail_new_fits)

text \<open>C15: What a trie is made of stays within the types of its file: after a store of a key of at most 32767
  characters with 32-bit data, in a trie whose suffixes, data and links fit the 16-bit and 32-bit
  fields of the file, they still do, and so does every cell of the double array; the trie can be
  saved and loaded.\<close>

theorem stored_trie_fits_file:
  assumes "trie_ok tr" and "tail_fits (tail tr)" and "alpha_map_file_ok (alpha_map tr)"
    and "alpha_key (alpha_map tr) k" "length k \<le> 32767" "is_int32 data" and "trie_room tr (length k + 1)"
  shows "\<exists>b tr'. trie_store_conditionally tr (k @ 0 # r) data ow = Some (b, tr') \<and> tail_fits (tail tr') \<and>
    trie_file_ok (plain_trie tr')"
proof -
  obtain b tr' where s: "trie_store_conditionally tr (k @ 0 # r) data ow = Some (b, tr')" "trie_ok tr'" "alpha_map tr' = alpha_map tr"
    using store_ok [OF assms(1,4,5,7), of r data ow] by blast
  have "0 \<notin> set k" using assms(4) by (auto simp: alpha_key_def)
  then have f: "tail_fits (tail tr')" using trie_store_fits [OF assms(2) _ assms(5,6) s(1)] by blast
  have "tail_file_ok (plain_tail (tail tr'))" using tail_fits_file trie_parts(3) [OF s(2)] f by blast
  then have "trie_file_ok (plain_trie tr')"
    using trie_leaf_bases [OF s(2)] s(3) assms(3) by (simp add: trie_file_ok_def plain_trie_def)
  then show ?thesis using s(1) f by blast
qed

theorem stored_trie_fits_file_witness:
  "\<exists>b tr'. trie_store_conditionally dns_trie ([0x61, 0x62] @ 0 # []) 7 True = Some (b, tr') \<and> tail_fits (tail tr') \<and>
    trie_file_ok (plain_trie tr')"
proof (rule stored_trie_fits_file)
  show "trie_ok dns_trie" by (rule dns_trie_facts(1))
  show "tail_fits (tail dns_trie)" by (rule dns_trie_tail_fits)
  show "alpha_map_file_ok (alpha_map dns_trie)" using dns_alphabet_file_ok by (simp add: dns_trie_facts(3))
  show "alpha_key (alpha_map dns_trie) [0x61, 0x62]" using dns_valid [of "[0x61, 0x62]"] by (simp add: trie_valid_def)
  show "trie_room dns_trie (length [0x61, 0x62 :: AlphaChar] + 1)"
    using dns_trie_facts(2) [of "length [0x61, 0x62 :: AlphaChar] + 1"] by (simp add: trie_fits_def trie_room_def)
qed (simp_all add: int32_limits)

end
