(* ===== verification/CLib.thy ===== *)
theory CLib
  imports TrieDefs
begin

text \<open>
  What the programs use of the C library on byte strings and streams: \<open>fgets\<close>, \<open>atol\<close>,
  \<open>strncmp\<close>, \<open>memcpy\<close>, and the widening of a signed \<open>char\<close>.
\<close>

section \<open>Lines of a stream\<close>

text \<open>At most \<open>n\<close> characters up to a newline, which is kept.\<close>

fun take_line :: "nat \<Rightarrow> bytes \<Rightarrow> bytes \<times> bytes" where
  "take_line 0 s = ([], s)"
| "take_line n [] = ([], [])"
| "take_line (Suc n) (c # s) =
     (if c = 10 then ([c], s) else let (l, r) = take_line n s in (c # l, r))"

text \<open>
  \<open>fgets\<close> into a buffer: the line, a terminator, and what the buffer held behind it; nothing when the
  stream has ended. The second component is the rest of the stream.
\<close>

definition c_fgets :: "nat \<Rightarrow> bytes \<Rightarrow> bytes \<Rightarrow> (bytes \<times> bytes) option" where
  "c_fgets sz buff s =
     (if s = [] then None
      else let (l, r) = take_line (sz - 1) s in Some (l @ 0 # drop (length l + 1) buff, r))"

lemma take_line_shorter: "length (snd (take_line n s)) \<le> length s"
proof (induction n s rule: take_line.induct)
  case (3 n c s)
  then show ?case by (cases "take_line n s") auto
qed simp_all

lemma take_line_progress: "s \<noteq> [] \<Longrightarrow> 0 < n \<Longrightarrow> length (snd (take_line n s)) < length s"
proof (cases n; cases s)
  fix m c s'
  assume "n = Suc m" "s = c # s'"
  then show ?thesis using take_line_shorter [of m s'] by (cases "take_line m s'") auto
qed auto

lemma take_line_newline: "10 \<notin> set l \<Longrightarrow> length l < n \<Longrightarrow> take_line n (l @ 10 # s) = (l @ [10], s)"
proof (induction l arbitrary: n)
  case Nil
  then show ?case by (cases n) auto
next
  case (Cons c l)
  then obtain m where "n = Suc m" by (cases n) auto
  then show ?case using Cons by simp
qed

lemma take_line_length: "length (fst (take_line n s)) \<le> n"
proof (induction n s rule: take_line.induct)
  case (3 n c s)
  then show ?case by (cases "take_line n s") auto
qed simp_all

lemma c_fgets_shorter: "1 < sz \<Longrightarrow> c_fgets sz buff s = Some (b, s') \<Longrightarrow> length s' < length s"
  using take_line_progress [of s "sz - 1"] by (auto simp: c_fgets_def Let_def split: prod.splits if_splits)

lemma c_fgets_length:
  assumes "c_fgets sz buff s = Some (b, s')" and "length buff = sz" and "0 < sz"
  shows "length b = sz"
proof -
  obtain l r where t: "take_line (sz - 1) s = (l, r)" by (cases "take_line (sz - 1) s")
  then have "length l \<le> sz - 1" "b = l @ 0 # drop (length l + 1) buff"
    using assms take_line_length [of "sz - 1" s] by (auto simp: c_fgets_def split: if_splits)
  then show ?thesis using assms(2,3) by simp
qed

lemma c_fgets_line:
  assumes "10 \<notin> set l" and "length l + 1 < sz"
  shows "c_fgets sz buff (l @ 10 # s) = Some (l @ 10 # 0 # drop (length l + 2) buff, s)"
  using assms by (simp add: c_fgets_def take_line_newline)

section \<open>Signed characters\<close>

text \<open>\<open>char\<close> is signed on the targets, so widening one to 32 bits extends its sign.\<close>

definition char_to_alpha :: "uint8 \<Rightarrow> AlphaChar" where
  "char_to_alpha c = scast c"

section \<open>Numbers\<close>

definition is_space :: "uint8 \<Rightarrow> bool" where
  "is_space c \<longleftrightarrow> c = 32 \<or> 9 \<le> c \<and> c \<le> 13"

definition is_digit :: "uint8 \<Rightarrow> bool" where
  "is_digit c \<longleftrightarrow> 48 \<le> c \<and> c \<le> 57"

text \<open>The digits at the front of a terminated string; the value has to be a 64-bit \<open>long\<close>.\<close>

fun digits_value :: "int \<Rightarrow> bytes \<Rightarrow> int option" where
  "digits_value acc [] = None"
| "digits_value acc (c # s) =
     (if is_digit c
      then (let v = acc * 10 + (uint c - 48) in if v < 2 ^ 63 then digits_value v s else None)
      else Some acc)"

fun skip_space :: "bytes \<Rightarrow> bytes" where
  "skip_space [] = []"
| "skip_space (c # s) = (if is_space c then skip_space s else c # s)"

definition c_atol :: "bytes \<Rightarrow> int option" where
  "c_atol s =
     (case skip_space s of
        [] \<Rightarrow> None
      | c # r \<Rightarrow> if c = 45 then map_option uminus (digits_value 0 r)
                 else if c = 43 then digits_value 0 r
                 else digits_value 0 (c # r))"

text \<open>The decimal notation of a number.\<close>

fun decimal :: "nat \<Rightarrow> bytes" where
  "decimal n = (if n < 10 then [of_nat (48 + n)] else decimal (n div 10) @ [of_nat (48 + n mod 10)])"

declare decimal.simps [simp del]

lemma digit_char: "d < 10 \<Longrightarrow> is_digit (of_nat (48 + d)) \<and> uint (of_nat (48 + d) :: uint8) = 48 + int d"
proof -
  assume d: "d < 10"
  have "unat (of_nat (48 + d) :: uint8) = (48 + d) mod 2 ^ LENGTH(8)" by (rule unat_of_nat)
  then have u: "unat (of_nat (48 + d) :: uint8) = 48 + d" using d by simp
  have "uint (of_nat (48 + d) :: uint8) = int (48 + d)" using u uint_nat by metis
  moreover have "is_digit (of_nat (48 + d))" using u d unfolding is_digit_def word_le_nat_alt by simp
  ultimately show ?thesis by simp
qed

lemma decimal_digits: "c \<in> set (decimal n) \<Longrightarrow> is_digit c"
proof (induction n rule: decimal.induct)
  case (1 n)
  then show ?case using digit_char by (subst (asm) decimal.simps) (auto split: if_splits)
qed

lemma decimal_nonempty: "decimal n \<noteq> []"
  by (subst decimal.simps) simp

lemma digits_value_append:
  assumes "\<forall>c\<in>set s. is_digit c" and "digits_value acc (s @ [0]) = Some v"
  shows "digits_value acc (s @ t) = digits_value v t"
  using assms
proof (induction s arbitrary: acc)
  case Nil
  then show ?case by (simp add: is_digit_def)
next
  case (Cons c s)
  then show ?case by (auto simp: Let_def split: if_splits)
qed

lemma digits_value_decimal:
  assumes "int n < 2 ^ 63"
  shows "digits_value 0 (decimal n @ [0]) = Some (int n)"
  using assms
proof (induction n rule: less_induct)
  case (less n)
  have nd: "\<not> is_digit 0" by (simp add: is_digit_def)
  show ?case
  proof (cases "n < 10")
    case True
    then show ?thesis using digit_char [OF True] nd by (subst decimal.simps) simp
  next
    case False
    have "digits_value 0 (decimal (n div 10) @ [0]) = Some (int (n div 10))"
      using less False by (intro less.IH) auto
    then have "digits_value 0 (decimal (n div 10) @ [of_nat (48 + n mod 10), 0]) =
        digits_value (int (n div 10)) [of_nat (48 + n mod 10), 0]"
      by (intro digits_value_append) (auto dest: decimal_digits)
    moreover have "int (n div 10) * 10 + int (n mod 10) = int n" by presburger
    ultimately show ?thesis using False digit_char [of "n mod 10"] less.prems nd
      by (subst decimal.simps) simp
  qed
qed

lemma digits_value_number:
  assumes "int n < 2 ^ 63" and "\<not> is_digit c"
  shows "digits_value 0 (decimal n @ c # r) = Some (int n)"
  using digits_value_append [of "decimal n" 0 "int n" "c # r"] digits_value_decimal [OF assms(1)] assms(2)
  by (auto dest: decimal_digits)

lemma digit_plain: "is_digit c \<Longrightarrow> \<not> is_space c \<and> c \<noteq> 45 \<and> c \<noteq> 43 \<and> c \<noteq> 10 \<and> c \<noteq> 0"
  by (auto simp: is_digit_def is_space_def word_le_nat_alt)

lemma atol_decimal:
  assumes "int n < 2 ^ 63" and "\<not> is_digit c"
  shows "c_atol (decimal n @ c # r) = Some (int n)"
proof -
  obtain d s where d: "decimal n = d # s" using decimal_nonempty by (cases "decimal n") auto
  then have "is_digit d" using decimal_digits [of d n] by simp
  then show ?thesis using digits_value_number [OF assms, of r] digit_plain [of d] d by (simp add: c_atol_def)
qed

lemma decimal_length: "n < 10 ^ k \<Longrightarrow> 0 < k \<Longrightarrow> length (decimal n) \<le> k"
proof (induction k arbitrary: n)
  case (Suc k)
  show ?case
  proof (cases "n < 10")
    case True
    then show ?thesis by (subst decimal.simps) simp
  next
    case False
    then have "0 < k" using Suc.prems(1) by (cases k) auto
    moreover have "n div 10 < 10 ^ k" using Suc.prems(1) by (simp add: less_mult_imp_div_less)
    ultimately show ?thesis using Suc.IH [of "n div 10"] False by (subst decimal.simps) simp
  qed
qed simp

section \<open>Comparing and copying\<close>

text \<open>\<open>strncmp (a, b, n) == 0\<close>.\<close>

fun c_strneq :: "nat \<Rightarrow> bytes \<Rightarrow> bytes \<Rightarrow> bool option" where
  "c_strneq 0 a b = Some True"
| "c_strneq (Suc n) (a # s) (b # t) =
     (if a \<noteq> b then Some False else if a = 0 then Some True else c_strneq n s t)"
| "c_strneq (Suc n) a b = None"

lemma c_strneq_prefix:
  assumes "n \<le> length a" and "n \<le> length k" and "0 \<notin> set k"
  shows "c_strneq n a (k @ 0 # r) = Some (take n a = take n k)"
  using assms
proof (induction n a k rule: c_strneq.induct)
  case (2 n a s b t)
  then show ?case by auto
qed auto

text \<open>\<open>memcpy (a, b, n)\<close> into a block that starts at \<open>a\<close>.\<close>

definition c_memcpy :: "bytes \<Rightarrow> bytes \<Rightarrow> nat \<Rightarrow> bytes option" where
  "c_memcpy a b n = (if n \<le> length a \<and> n \<le> length b then Some (take n b @ drop n a) else None)"

end
