(* ===== verification/List2Tri.thy ===== *)
theory List2Tri
  imports TrieFiles CLib
begin

text \<open>
  The program that builds the trie of popular domains, \<open>src/server/list2tri.c\<close>: it stores the lines
  of \<open>out.list\<close> with the numbers 1, 2, 3, ... and saves the trie. The server uses the numbers as
  indices of its table of addresses. With it the test that loads the saved trie, \<open>src/server/test_tri.c\<close>.
\<close>

section \<open>The program\<close>

text \<open>The first newline of the 80 bytes becomes the terminator; the last byte is always one.\<close>

fun replace_first :: "bytes \<Rightarrow> bytes" where
  "replace_first [] = []"
| "replace_first (c # cs) = (if c = 10 then 0 # cs else c # replace_first cs)"

definition replace_n :: "bytes \<Rightarrow> bytes" where
  "replace_n buff = (replace_first buff)[79 := 0]"

definition list2tri_key :: "bytes \<Rightarrow> AlphaChar list" where
  "list2tri_key buff = map char_to_alpha buff"

function list2tri_loop :: "Trie \<Rightarrow> bytes \<Rightarrow> int \<Rightarrow> bytes \<Rightarrow> Trie option" where
  "list2tri_loop tr buff var domains =
     (case c_fgets 80 buff domains of
        None \<Rightarrow> Some tr
      | Some (buff, domains) \<Rightarrow>
          (let buff = replace_n buff
           in do {
             next_var \<leftarrow> add32 var 1;
             (_, tr) \<leftarrow> trie_store tr (list2tri_key buff) var;
             list2tri_loop tr buff next_var domains
           }))"
  by pat_completeness auto
termination
  by (relation "measure (\<lambda>(tr, buff, var, domains). length domains)") (auto dest: c_fgets_shorter [rotated])

declare list2tri_loop.simps [simp del]

text \<open>\<open>main\<close>, given what \<open>fopen\<close> returned for \<open>out.list\<close> and inside \<open>trie_save\<close>.\<close>

definition list2tri_main :: "bytes option \<Rightarrow> FILE option \<Rightarrow> (int \<times> Trie \<times> FILE option) option" where
  "list2tri_main out_list tri_file =
     do {
       am \<leftarrow> list2tri_alphabet;
       created \<leftarrow> trie_new am;
       tr \<leftarrow> created;
       domains \<leftarrow> out_list;
       tr \<leftarrow> list2tri_loop tr (replicate 80 0) 1 domains;
       trie_save tr tri_file
     }"

text \<open>
  \<open>src/server/test_tri.c\<close> loads the trie and prints the number of each line of \<open>out.list\<close> it finds; the
  result here is the list of the numbers printed. Its \<open>replace_n\<close> and \<open>char2alphachar\<close> are those above.
\<close>

function test_tri_loop :: "Trie \<Rightarrow> bytes \<Rightarrow> bytes \<Rightarrow> TrieData list option" where
  "test_tri_loop tr buff domains =
     (case c_fgets 80 buff domains of
        None \<Rightarrow> Some []
      | Some (buff, domains) \<Rightarrow>
          (let buff = replace_n buff
           in do {
             a \<leftarrow> trie_retrieve tr (list2tri_key buff);
             printed \<leftarrow> test_tri_loop tr buff domains;
             Some (case a of None \<Rightarrow> printed | Some var \<Rightarrow> var # printed)
           }))"
  by pat_completeness auto
termination
  by (relation "measure (\<lambda>(tr, buff, domains). length domains)") (auto dest: c_fgets_shorter [rotated])

declare test_tri_loop.simps [simp del]

definition test_tri_main :: "FILE option \<Rightarrow> bytes option \<Rightarrow> TrieData list option" where
  "test_tri_main tri_file out_list =
     do {
       loaded \<leftarrow> trie_new_from_file tri_file;
       tr \<leftarrow> loaded;
       domains \<leftarrow> out_list;
       test_tri_loop tr (replicate 80 0) domains
     }"

section \<open>Lines\<close>

text \<open>A file of domains: each line over the characters of the alphabet and shorter than the buffer.\<close>

definition domain_char :: "uint8 \<Rightarrow> bool" where
  "domain_char c \<longleftrightarrow> c = 0x2d \<or> c = 0x2e \<or> c = 0x5f \<or> 0x30 \<le> c \<and> c \<le> 0x39 \<or> 0x61 \<le> c \<and> c \<le> 0x7a"

definition domain_line :: "bytes \<Rightarrow> bool" where
  "domain_line l \<longleftrightarrow> length l \<le> 78 \<and> (\<forall>c\<in>set l. domain_char c)"

definition file_of :: "bytes list \<Rightarrow> bytes" where
  "file_of ls = concat (map (\<lambda>l. l @ [10]) ls)"

definition number_from :: "int \<Rightarrow> bytes list \<Rightarrow> (AlphaChar list \<times> TrieData) list" where
  "number_from v ls = zip (map list2tri_key ls) (map (\<lambda>i. v + int i) [0..<length ls])"

text \<open>The number of a line, counted from 1; of a repeated line the last one.\<close>

definition line_number :: "bytes list \<Rightarrow> bytes \<Rightarrow> int option" where
  "line_number ls d = map_of (rev (zip ls (map (\<lambda>i. 1 + int i) [0..<length ls]))) d"

text \<open>An empty file on a medium of \<open>n\<close> bytes.\<close>

definition blank_file :: "nat \<Rightarrow> FILE" where
  "blank_file n = \<lparr>contents = [], fpos = 0, room = n\<rparr>"

lemma number_from_Cons: "number_from v (l # ls) = (list2tri_key l, v) # number_from (v + 1) ls"
proof -
  have "map (\<lambda>i. v + int i) [0..<length (l # ls)] = v # map (\<lambda>i. (v + 1) + int i) [0..<length ls]"
    by (simp add: upt_conv_Cons map_Suc_upt [symmetric] del: upt_Suc map_map) (simp add: comp_def add.assoc)
  then show ?thesis by (simp add: number_from_def)
qed

lemma domain_char_cases:
  assumes "domain_char c"
  shows "char_to_alpha c = ucast c" "c \<noteq> 0" "c \<noteq> 10" "ucast c \<in> alpha_set dns_alphabet"
proof -
  have n: "45 \<le> unat c" "unat c \<le> 122" using assms by (auto simp: domain_char_def word_le_nat_alt)
  have "unat (0 :: uint8) = 0" "unat (10 :: uint8) = 10" by simp_all
  then show "c \<noteq> 0" "c \<noteq> 10" using n(1) by (force+)
  have "uint c < 128" using n(2) unat_eq_nat_uint [of c] by linarith
  then have "uint c < 2 ^ 7" by simp
  moreover have "- (2 ^ 7) \<le> uint c" using uint_ge_0 [of c] by (rule order_trans [rotated]) simp
  ultimately have "signed_take_bit 7 (uint c) = uint c" by (intro signed_take_bit_int_eq_self)
  then have "sint c = uint c" by (simp add: sint_uint)
  then show "char_to_alpha c = ucast c" by (simp only: char_to_alpha_def scast_eq ucast_eq)
  show "ucast c \<in> alpha_set dns_alphabet" using assms
    by (auto simp: domain_char_def dns_alphabet_def alpha_set_def range_set_def word_le_nat_alt unat_ucast8)
qed


lemma domain_line_key:
  assumes "domain_line l"
  shows "alpha_key dns_alphabet (list2tri_key l)" "length (list2tri_key l) = length l" "10 \<notin> set l" "0 \<notin> set l"
proof -
  have c: "c \<in> set l \<Longrightarrow> domain_char c" for c using assms by (simp add: domain_line_def)
  show "10 \<notin> set l" "0 \<notin> set l" using c domain_char_cases(2,3) by blast+
  show "length (list2tri_key l) = length l" by (simp add: list2tri_key_def)
  have "char_to_alpha c \<in> alpha_set dns_alphabet \<and> char_to_alpha c \<noteq> 0" if "c \<in> set l" for c
  proof -
    note d = domain_char_cases [OF c [OF that]]
    have "unat (ucast c :: AlphaChar) = unat c" by (rule unat_ucast8)
    moreover have "unat c \<noteq> 0" using d(2) by (simp add: unat_eq_zero)
    ultimately have "(ucast c :: AlphaChar) \<noteq> 0" by force
    then show ?thesis using d by simp
  qed
  then show "alpha_key dns_alphabet (list2tri_key l)" by (auto simp: alpha_key_def list2tri_key_def)
qed

lemma replace_first_line: "10 \<notin> set l \<Longrightarrow> replace_first (l @ 10 # r) = l @ 0 # r"
  by (induction l) auto

text \<open>One line through the buffer: the key is the line, terminated.\<close>

lemma line_buffer:
  assumes l: "domain_line l" and b: "length buff = 80"
  shows "\<exists>buff' r. c_fgets 80 buff (l @ 10 # s) = Some (buff', s) \<and> length (replace_n buff') = 80 \<and>
    replace_n buff' = l @ 0 # r"
proof -
  have len: "length l \<le> 78" using l by (simp add: domain_line_def)
  let ?r = "0 # drop (length l + 2) buff"
  have f: "c_fgets 80 buff (l @ 10 # s) = Some (l @ 10 # ?r, s)"
    using c_fgets_line [OF domain_line_key(3) [OF l], of 80 buff s] len by simp
  have "replace_n (l @ 10 # ?r) = (l @ 0 # ?r)[79 := 0]"
    using replace_first_line [OF domain_line_key(3) [OF l], of ?r] by (simp add: replace_n_def)
  also have "\<dots> = l @ 0 # ?r[78 - length l := 0]" 
  proof -
    have "79 - length l = Suc (78 - length l)" "\<not> 79 < length l" using len by simp_all
    then show ?thesis by (simp add: list_update_append del: drop_Suc_Cons)
  qed
  finally have r: "replace_n (l @ 10 # ?r) = l @ 0 # ?r[78 - length l := 0]" .
  moreover have "length (replace_n (l @ 10 # ?r)) = 80"
    unfolding r using len b by (simp del: list_update.simps drop_Suc_Cons)
  ultimately show ?thesis using f by blast
qed

lemma line_key:
  assumes "domain_line l" and "length buff = 80"
  shows "\<exists>buff' r. c_fgets 80 buff (l @ 10 # s) = Some (buff', s) \<and> length (replace_n buff') = 80 \<and>
    list2tri_key (replace_n buff') = list2tri_key l @ 0 # r"
proof -
  have "list2tri_key (l @ 0 # r) = list2tri_key l @ 0 # list2tri_key r" for r
    by (simp add: list2tri_key_def char_to_alpha_def)
  then show ?thesis using line_buffer [OF assms, of s] by metis
qed

lemma map_of_inj_keys: "inj f \<Longrightarrow> map_of (map (map_prod f id) xs) (f k) = map_of xs k"
  by (induction xs) (auto simp: inj_eq)

lemma char_to_alpha_inj: "inj char_to_alpha"
proof (rule injI)
  fix x y :: uint8
  assume "char_to_alpha x = char_to_alpha y"
  then have "(scast (scast x :: uint32) :: uint8) = scast (scast y :: uint32)" by (simp add: char_to_alpha_def)
  then show "x = y" by (simp add: scast_up_scast_id is_up)
qed

lemma list2tri_key_inj: "inj list2tri_key"
  using char_to_alpha_inj by (simp add: list2tri_key_def [abs_def])

lemma line_number_key: "map_of (rev (number_from 1 ls)) (list2tri_key d) = line_number ls d"
proof -
  have "rev (number_from 1 ls) = map (map_prod list2tri_key id) (rev (zip ls (map (\<lambda>i. 1 + int i) [0..<length ls])))"
    by (simp add: number_from_def zip_map1 rev_map map_prod_def)
  then show ?thesis using map_of_inj_keys [OF list2tri_key_inj] by (simp add: line_number_def)
qed

lemma list2tri_loop_ok:
  assumes "trie_ok tr" and "alpha_map tr = dns_alphabet" and "\<forall>l\<in>set ls. domain_line l" and "length buff = 80"
    and "trie_fits tr (sum_list (map (\<lambda>l. length l + 2) ls))" and "INT32_MIN \<le> v" "v + int (length ls) \<le> INT32_MAX"
    and "tail_fits (tail tr)"
  shows "\<exists>tr'. list2tri_loop tr buff v (file_of ls) = Some tr' \<and> trie_ok tr' \<and> alpha_map tr' = dns_alphabet \<and>
    tail_fits (tail tr') \<and>
    (\<forall>w y. holds (da_view (da tr')) (tail tr') w y \<longrightarrow>
       holds (da_view (da tr)) (tail tr) w y \<or> v \<le> y \<and> y < v + int (length ls)) \<and>
    (\<forall>k. trie_valid tr k \<longrightarrow> trie_retrieve tr' (k @ [0]) =
       (case map_of (rev (number_from v ls)) k of None \<Rightarrow> trie_retrieve tr (k @ [0]) | Some d \<Rightarrow> Some (Some d)))"
  using assms
proof (induction ls arbitrary: tr buff v)
  case Nil
  then show ?case by (simp add: list2tri_loop.simps file_of_def c_fgets_def number_from_def)
next
  case (Cons l ls)
  have l: "domain_line l" using Cons.prems(3) by simp
  note lk = domain_line_key [OF l]
  let ?k = "list2tri_key l"
  obtain buff' r where f: "c_fgets 80 buff (l @ 10 # file_of ls) = Some (buff', file_of ls)"
    "length (replace_n buff') = 80" "list2tri_key (replace_n buff') = ?k @ 0 # r"
    using line_key [OF l Cons.prems(4)] by blast
  have v: "trie_valid tr ?k" using lk l Cons.prems(2) by (simp add: trie_valid_def domain_line_def)
  have k: "alpha_key (alpha_map tr) ?k" "length ?k \<le> 32767" "0 \<notin> set ?k" using v by (auto simp: trie_valid_def alpha_key_def)
  have "trie_fits tr (key_cost ?k + sum_list (map (\<lambda>l. length l + 2) ls))"
    using Cons.prems(5) lk(2) by (simp add: key_cost_def add.commute add.left_commute)
  from trie_store_any [OF Cons.prems(1) v this, of r v True] obtain tr1 where
    s: "trie_store tr (?k @ 0 # r) v = Some (True, tr1)" "trie_ok tr1" "trie_valid tr1 = trie_valid tr"
      "trie_fits tr1 (sum_list (map (\<lambda>l. length l + 2) ls))"
    and ret: "\<forall>j r'. trie_valid tr j \<longrightarrow> trie_retrieve tr1 (j @ 0 # r') =
       (if j = ?k then Some (Some v) else trie_retrieve tr (j @ 0 # r'))"
    unfolding trie_store_def by auto
  have "trie_room tr (length ?k + 1)" using Cons.prems(5) lk(2) by (simp add: trie_fits_def trie_room_def)
  from store_ok [OF Cons.prems(1) k(1,2) this, of r v True] s(1) Cons.prems(2) have
    am: "alpha_map tr1 = dns_alphabet" and
    held: "\<forall>w y. holds (da_view (da tr1)) (tail tr1) w y \<longrightarrow> holds (da_view (da tr)) (tail tr) w y \<or> y = v"
    by (auto simp: trie_store_def split: if_splits)
  have tf: "tail_fits (tail tr1)"
    using trie_store_fits [OF Cons.prems(8) k(3,2) _ s(1) [unfolded trie_store_def]] Cons.prems(6,7) by (simp add: is_int32_def)
  have i: "is_int32 (v + 1)" using Cons.prems(6,7) by (simp add: int32_limits)
  have run: "list2tri_loop tr buff v (file_of (l # ls)) = list2tri_loop tr1 (replace_n buff') (v + 1) (file_of ls)"
    using f s(1) i by (subst list2tri_loop.simps) (simp add: file_of_def accessors Let_def)
  have vn: "INT32_MIN \<le> v + 1" "(v + 1) + int (length ls) \<le> INT32_MAX" using Cons.prems(6,7) by simp_all
  have ls: "\<forall>l\<in>set ls. domain_line l" using Cons.prems(3) by simp
  obtain tr' where tr': "list2tri_loop tr1 (replace_n buff') (v + 1) (file_of ls) = Some tr'" "trie_ok tr'"
    "alpha_map tr' = dns_alphabet" "tail_fits (tail tr')"
    and held': "\<forall>w y. holds (da_view (da tr')) (tail tr') w y \<longrightarrow>
       holds (da_view (da tr1)) (tail tr1) w y \<or> v + 1 \<le> y \<and> y < (v + 1) + int (length ls)"
    and ret': "\<forall>k. trie_valid tr1 k \<longrightarrow> trie_retrieve tr' (k @ [0]) =
       (case map_of (rev (number_from (v + 1) ls)) k of None \<Rightarrow> trie_retrieve tr1 (k @ [0]) | Some d \<Rightarrow> Some (Some d))"
    using Cons.IH [OF s(2) am ls f(2) s(4) vn tf] by blast
  have "trie_retrieve tr' (k @ [0]) = (case map_of (rev (number_from v (l # ls))) k of
      None \<Rightarrow> trie_retrieve tr (k @ [0]) | Some d \<Rightarrow> Some (Some d))" if "trie_valid tr k" for k
    using ret' ret that s(3) by (auto simp: number_from_Cons map_add_def split: option.splits)
  moreover have "holds (da_view (da tr)) (tail tr) w y \<or> v \<le> y \<and> y < v + int (length (l # ls))"
    if "holds (da_view (da tr')) (tail tr') w y" for w y
    using held' [rule_format, OF that] held [rule_format, of w y] by auto
  ultimately show ?case using run tr' by (intro exI [of _ tr'] conjI allI impI) simp_all
qed

section \<open>Properties\<close>

text \<open>The file \<open>list2tri\<close> leaves, on a medium with enough room, and the trie it holds.\<close>

lemma list2tri_saves:
  assumes "\<forall>l\<in>set ls. domain_line l" and "sum_list (map (\<lambda>l. length l + 2) ls) \<le> 2796000"
  shows "\<exists>N loaded. trie_ok loaded \<and>
    (\<forall>n\<ge>N. \<exists>tr f. list2tri_main (Some (file_of ls)) (Some (blank_file n)) = Some (0, tr, Some f) \<and>
       trie_new_from_file (Some (fseek_set 0 f)) = Some (Some loaded)) \<and>
    (\<forall>d r. domain_line d \<longrightarrow> trie_retrieve loaded (list2tri_key d @ 0 # r) = Some (line_number ls d)) \<and>
    (\<forall>k v. 0 \<notin> set k \<and> trie_retrieve loaded (k @ [0]) = Some (Some v) \<longrightarrow> 1 \<le> v \<and> v \<le> int (length ls))"
proof -
  have fits: "trie_fits dns_trie (sum_list (map (\<lambda>l. length l + 2) ls))"
    using assms(2) by (intro dns_trie_facts(2)) linarith
  have "2 * length ls \<le> sum_list (map (\<lambda>l. length l + 2) ls)" by (induction ls) auto
  then have n: "1 + int (length ls) \<le> INT32_MAX" using assms(2) by (simp add: INT32_MAX_def)
  obtain tr where tr: "list2tri_loop dns_trie (replicate 80 0) 1 (file_of ls) = Some tr" "trie_ok tr"
    "alpha_map tr = dns_alphabet" "tail_fits (tail tr)"
    and held: "\<forall>w y. holds (da_view (da tr)) (tail tr) w y \<longrightarrow>
      holds (da_view (da dns_trie)) (tail dns_trie) w y \<or> 1 \<le> y \<and> y < 1 + int (length ls)"
    and ret: "\<forall>k. trie_valid dns_trie k \<longrightarrow> trie_retrieve tr (k @ [0]) =
       (case map_of (rev (number_from 1 ls)) k of None \<Rightarrow> trie_retrieve dns_trie (k @ [0]) | Some d \<Rightarrow> Some (Some d))"
    using list2tri_loop_ok [OF dns_trie_facts(1,3) assms(1) _ fits _ n dns_trie_tail_fits, of "replicate 80 0"]
    by (auto simp: INT32_MIN_def)
  have none: "\<not> holds (da_view (da dns_trie)) (tail dns_trie) w y" for w y
    by (auto simp: holds_def dns_trie_def tail_entries_def tail_live_def tail_new_def)
  let ?N = "length (enc_trie (plain_trie tr))"
  have am: "alpha_map_file_ok (alpha_map tr)" using dns_alphabet_file_ok tr(3) by simp
  have tl: "tail_file_ok (plain_tail (tail tr))" using tail_fits_file trie_parts(3) [OF tr(2)] tr(4) by blast
  note pt = plain_trie_ok [OF tr(2)]
  have "\<exists>tr' f. list2tri_main (Some (file_of ls)) (Some (blank_file n)) = Some (0, tr', Some f) \<and>
       trie_new_from_file (Some (fseek_set 0 f)) = Some (Some (plain_trie tr))" if "?N \<le> n" for n
    using save_load_ok [OF tr(2) am tl that] tr(1)
    by (auto simp: list2tri_main_def list2tri_alphabet_eq dns_trie_new trie_save_def blank_file_def)
  moreover have "trie_retrieve (plain_trie tr) (list2tri_key d @ 0 # r) = Some (line_number ls d)" if d: "domain_line d" for d r
  proof -
    have v: "trie_valid dns_trie (list2tri_key d)" "0 \<notin> set (list2tri_key d)"
      using domain_line_key [OF d] d by (auto simp: trie_valid_def dns_trie_facts(3) domain_line_def alpha_key_def)
    have e: "trie_retrieve (plain_trie tr) (list2tri_key d @ 0 # r) = trie_retrieve tr (list2tri_key d @ 0 # r)"
      "trie_retrieve tr (list2tri_key d @ 0 # r) = trie_retrieve tr (list2tri_key d @ [0])"
      using pt(2) [OF v(2)] retrieve_rest [OF tr(2) v(2), of r] by simp_all
    show ?thesis using e ret [rule_format, OF v(1)] dns_trie_facts(4) [OF v(2), of "[]"]
      by (simp add: line_number_key split: option.splits)
  qed
  moreover have "1 \<le> v \<and> v \<le> int (length ls)" if "0 \<notin> set k" "trie_retrieve (plain_trie tr) (k @ [0]) = Some (Some v)" for k v
  proof -
    have "trie_retrieve tr (k @ [0]) = Some (Some v)" using pt(2) [OF that(1), of "[]"] that(2) by simp
    then have "holds (da_view (da tr)) (tail tr) (trie_key (alpha_map tr) k) v" using retrieve_ok [OF tr(2) that(1), of "[]"] by auto
    then show ?thesis using held none by fastforce
  qed
  ultimately show ?thesis using pt(1) by (intro exI [of _ ?N] exI [of _ "plain_trie tr"]) blast
qed

lemma test_tri_loop_ok:
  assumes "\<forall>d r. domain_line d \<longrightarrow> trie_retrieve tr (list2tri_key d @ 0 # r) = Some (g d)"
    and "\<forall>l\<in>set ms. domain_line l" and "length buff = 80"
  shows "test_tri_loop tr buff (file_of ms) = Some (List.map_filter g ms)"
  using assms(2,3)
proof (induction ms arbitrary: buff)
  case Nil
  then show ?case by (simp add: test_tri_loop.simps file_of_def c_fgets_def List.map_filter_simps)
next
  case (Cons l ms)
  have l: "domain_line l" using Cons.prems(1) by simp
  obtain buff' r where f: "c_fgets 80 buff (l @ 10 # file_of ms) = Some (buff', file_of ms)"
    "length (replace_n buff') = 80" "list2tri_key (replace_n buff') = list2tri_key l @ 0 # r"
    using line_key [OF l Cons.prems(2)] by blast
  have "test_tri_loop tr (replace_n buff') (file_of ms) = Some (List.map_filter g ms)"
    using Cons.IH [OF _ f(2)] Cons.prems(1) by simp
  then show ?case using f assms(1) [rule_format, OF l, of r]
    by (subst test_tri_loop.simps) (simp add: file_of_def Let_def List.map_filter_simps split: option.splits)
qed

text \<open>Given a file of domains over the alphabet, each at most 78 characters long, \<open>list2tri\<close>
  builds a trie that maps every domain to the number of its line, the last line of a repeated domain
  winning, and maps nothing else.\<close>

theorem list2tri_numbers_lines:
  assumes "\<forall>l\<in>set ls. domain_line l" and "sum_list (map (\<lambda>l. length l + 2) ls) \<le> 2796000"
  shows "\<exists>tr. list2tri_loop dns_trie (replicate 80 0) 1 (file_of ls) = Some tr \<and> trie_ok tr \<and>
    (\<forall>k. alpha_key dns_alphabet k \<and> length k \<le> 32767 \<longrightarrow>
       trie_retrieve tr (k @ [0]) = Some (map_of (rev (number_from 1 ls)) k))"
proof -
  have fits: "trie_fits dns_trie (sum_list (map (\<lambda>l. length l + 2) ls))"
    using assms(2) by (intro dns_trie_facts(2)) linarith
  have "2 * length ls \<le> sum_list (map (\<lambda>l. length l + 2) ls)" by (induction ls) auto
  then have n: "1 + int (length ls) \<le> INT32_MAX" using assms(2) by (simp add: INT32_MAX_def)
  obtain tr where tr: "list2tri_loop dns_trie (replicate 80 0) 1 (file_of ls) = Some tr" "trie_ok tr"
    "\<forall>k. trie_valid dns_trie k \<longrightarrow> trie_retrieve tr (k @ [0]) =
       (case map_of (rev (number_from 1 ls)) k of None \<Rightarrow> trie_retrieve dns_trie (k @ [0]) | Some d \<Rightarrow> Some (Some d))"
    using list2tri_loop_ok [OF dns_trie_facts(1,3) assms(1) _ fits _ n dns_trie_tail_fits, of "replicate 80 0"]
    by (auto simp: INT32_MIN_def)
  have "trie_retrieve tr (k @ [0]) = Some (map_of (rev (number_from 1 ls)) k)"
    if "alpha_key dns_alphabet k \<and> length k \<le> 32767" for k
    using tr(3) that dns_trie_facts(4) [of k "[]"]
    by (auto simp: trie_valid_def dns_trie_facts(3) alpha_key_def split: option.splits)
  then show ?thesis using tr(1,2) by blast
qed

theorem list2tri_numbers_lines_witness:
  "\<exists>tr. list2tri_loop dns_trie (replicate 80 0) 1 (file_of [[0x61, 0x2e], [0x62]]) = Some tr \<and>
     trie_retrieve tr ([0x62] @ [0]) = Some (Some 2)"
proof -
  let ?ls = "[[0x61, 0x2e], [0x62]] :: bytes list"
  have "\<forall>l\<in>set ?ls. domain_line l" by (simp add: domain_line_def domain_char_def)
  moreover have "sum_list (map (\<lambda>l. length l + 2) ?ls) \<le> 2796000" by simp
  moreover have "alpha_key dns_alphabet [0x62]"
    using dns_valid [of "[0x62]"] by (simp add: trie_valid_def dns_trie_facts(3))
  ultimately obtain tr where "list2tri_loop dns_trie (replicate 80 0) 1 (file_of ?ls) = Some tr"
    "trie_retrieve tr ([0x62] @ [0]) = Some (map_of (rev (number_from 1 ?ls)) [0x62])"
    using list2tri_numbers_lines [of ?ls] by auto
  moreover have "map_of (rev (number_from 1 ?ls)) [0x62] = Some 2"
    by (simp add: number_from_def list2tri_key_def char_to_alpha_def)
  ultimately show ?thesis by auto
qed

text \<open>C12: What \<open>list2tri\<close> saves, \<open>test_tri\<close> loads: given two files of domains over the alphabet, each at
  most 78 characters long, where the characters of the first file and two more for each line are at most
  2796000, and a medium with enough room, the first program succeeds, and the second
  prints, for each line of its file that is in the file of the first and in the order of the lines,
  the number of its last line there, and prints nothing for any other line.\<close>

theorem test_tri_prints_numbers:
  assumes "\<forall>l\<in>set ls. domain_line l" and "sum_list (map (\<lambda>l. length l + 2) ls) \<le> 2796000"
    and "\<forall>m\<in>set ms. domain_line m"
  shows "\<exists>N. \<forall>n\<ge>N. \<exists>tr f. list2tri_main (Some (file_of ls)) (Some (blank_file n)) = Some (0, tr, Some f) \<and>
    test_tri_main (Some (fseek_set 0 f)) (Some (file_of ms)) = Some (List.map_filter (line_number ls) ms)"
proof -
  obtain N loaded where sv: "\<forall>n\<ge>N. \<exists>tr f. list2tri_main (Some (file_of ls)) (Some (blank_file n)) = Some (0, tr, Some f) \<and>
       trie_new_from_file (Some (fseek_set 0 f)) = Some (Some loaded)"
    and ret: "\<forall>d r. domain_line d \<longrightarrow> trie_retrieve loaded (list2tri_key d @ 0 # r) = Some (line_number ls d)"
    using list2tri_saves [OF assms(1,2)] by blast
  have "test_tri_loop loaded (replicate 80 0) (file_of ms) = Some (List.map_filter (line_number ls) ms)"
    by (rule test_tri_loop_ok [OF ret assms(3)]) simp
  then show ?thesis using sv by (intro exI [of _ N]) (fastforce simp: test_tri_main_def)
qed

theorem test_tri_prints_numbers_witness:
  "\<exists>n tr f. list2tri_main (Some (file_of [[0x61, 0x2e], [0x62], [0x61, 0x2e]])) (Some (blank_file n)) = Some (0, tr, Some f) \<and>
     test_tri_main (Some (fseek_set 0 f)) (Some (file_of [[0x62], [0x63], [0x61, 0x2e]])) = Some [2, 3]"
proof -
  let ?ls = "[[0x61, 0x2e], [0x62], [0x61, 0x2e]] :: bytes list" and ?ms = "[[0x62], [0x63], [0x61, 0x2e]] :: bytes list"
  have "\<forall>l\<in>set ?ls. domain_line l" "\<forall>l\<in>set ?ms. domain_line l" by (simp_all add: domain_line_def domain_char_def)
  moreover have "sum_list (map (\<lambda>l. length l + 2) ?ls) \<le> 2796000" by simp
  moreover have "List.map_filter (line_number ?ls) ?ms = [2, 3]" by (simp add: line_number_def List.map_filter_simps)
  ultimately show ?thesis using test_tri_prints_numbers [of ?ls ?ms] by (metis order_refl)
qed

end
