(* ===== verification/Kache.thy ===== *)
theory Kache
  imports List2Tri
begin

text \<open>
  The address cache of the server, \<open>src/server/dl_kache.c\<close> and \<open>src/server/hash.c\<close>: the trie numbers
  the popular domains, whose addresses are in a table indexed by that number; every other domain
  lives in the one slot of a hash table its hash selects, with its first four characters to tell
  domains of the same slot apart.

  The two tables have millions of entries; they are functions on the index with the size as the
  guard of every access. Addresses and time stamps are those of \<open>data_t\<close>; \<open>dc_alloc\<close> succeeds.
\<close>

section \<open>Data\<close>

definition HASHSIZE :: nat where
  "HASHSIZE = 33554432"

definition TRIESIZE :: nat where
  "TRIESIZE = 1843314 + 1"

record data_t =
  ip :: uint32
  timestamp :: int

record hash_data_t =
  h_data :: data_t
  part_key :: bytes

record Kache =
  main_tr :: Trie
  main_tr_data :: "nat \<Rightarrow> data_t"
  hash_data :: "nat \<Rightarrow> hash_data_t"

text \<open>The pointer \<open>kache_retrieve\<close> returns: into the table of the trie or into the hash table.\<close>

datatype slot = Main nat | Hashed nat

section \<open>The hash\<close>

fun hash_from :: "uint32 \<Rightarrow> bytes \<Rightarrow> uint32 option" where
  "hash_from h [] = None"
| "hash_from h (c # str) = (if c = 0 then Some h else hash_from (h * 131 + ucast c) str)"

definition BKDRHash :: "bytes \<Rightarrow> uint32 option" where
  "BKDRHash str = do { h \<leftarrow> hash_from 0 str; Some (h AND 0x1ffffff) }"

section \<open>Looking up and storing\<close>

definition char2alphachar :: "bytes \<Rightarrow> AlphaChar list option" where
  "char2alphachar chars = do { n \<leftarrow> c_strlen chars; Some (map ucast (take (n + 1) chars)) }"

definition part_len :: "bytes \<Rightarrow> nat option" where
  "part_len key = do { n \<leftarrow> c_strlen key; Some (if n > 4 then 4 else n) }"

definition hash_slot :: "Kache \<Rightarrow> bytes \<Rightarrow> nat option" where
  "hash_slot k key = do { h \<leftarrow> BKDRHash key; if unat h < HASHSIZE then Some (unat h) else None }"

text \<open>The number the trie gives a key is read through a pointer to an unsigned integer.\<close>

definition trie_number :: "Kache \<Rightarrow> bytes \<Rightarrow> (nat option) option" where
  "trie_number k key =
     do {
       temp \<leftarrow> char2alphachar key;
       found \<leftarrow> trie_retrieve (main_tr k) temp;
       Some (map_option (\<lambda>d. unat (word_of_int d :: uint32)) found)
     }"

definition kache_retrieve :: "Kache \<Rightarrow> bytes option \<Rightarrow> (slot option) option" where
  "kache_retrieve k key_ptr =
     (case key_ptr of
        None \<Rightarrow> Some None
      | Some key \<Rightarrow>
          do {
            found \<leftarrow> trie_number k key;
            case found of
              Some index \<Rightarrow> if index \<le> TRIESIZE then Some (Some (Main index)) else None
            | None \<Rightarrow>
                do {
                  len \<leftarrow> part_len key;
                  hash_val \<leftarrow> hash_slot k key;
                  same \<leftarrow> c_strneq len (part_key (hash_data k hash_val)) key;
                  if \<not> same then Some None else Some (Some (Hashed hash_val))
                }
          })"

text \<open>Reading through the returned pointer.\<close>

definition slot_data :: "Kache \<Rightarrow> slot \<Rightarrow> data_t option" where
  "slot_data k p =
     (case p of
        Main i \<Rightarrow> if i < TRIESIZE then Some (main_tr_data k i) else None
      | Hashed h \<Rightarrow> if h < HASHSIZE then Some (h_data (hash_data k h)) else None)"

definition kache_store :: "Kache \<Rightarrow> bytes option \<Rightarrow> data_t \<Rightarrow> Kache option" where
  "kache_store k key_ptr data =
     (case key_ptr of
        None \<Rightarrow> Some k
      | Some key \<Rightarrow>
          do {
            found \<leftarrow> trie_number k key;
            case found of
              Some index \<Rightarrow>
                if index < TRIESIZE
                then Some (k\<lparr>main_tr_data := (main_tr_data k)(index := data)\<rparr>) else None
            | None \<Rightarrow>
                do {
                  len \<leftarrow> part_len key;
                  hash_val \<leftarrow> hash_slot k key;
                  part \<leftarrow> c_memcpy (part_key (hash_data k hash_val)) key len;
                  Some (k\<lparr>hash_data := (hash_data k)(hash_val := \<lparr>h_data = data, part_key = part\<rparr>)\<rparr>)
                }
          })"

section \<open>Start\<close>

text \<open>
  The loop over \<open>ip.list\<close>: \<open>n\<close> lines are left and the next goes to index \<open>i\<close>. A missing line fails
  the assertion.
\<close>

fun load_ips :: "nat \<Rightarrow> nat \<Rightarrow> bytes \<Rightarrow> bytes \<Rightarrow> int \<Rightarrow> (nat \<Rightarrow> data_t) \<Rightarrow> (nat \<Rightarrow> data_t) option" where
  "load_ips 0 i buff iplist now data = Some data"
| "load_ips (Suc n) i buff iplist now data =
     do {
       (buff, iplist) \<leftarrow> c_fgets 80 buff iplist;
       temp \<leftarrow> c_atol buff;
       load_ips n (i + 1) buff iplist now (data(i := \<lparr>ip = word_of_int temp, timestamp = now\<rparr>))
     }"

text \<open>The files as \<open>fopen\<close> returns them, the time, and the contents of the fresh memory blocks.\<close>

definition kache_init ::
  "FILE option \<Rightarrow> bytes option \<Rightarrow> int \<Rightarrow> (nat \<Rightarrow> data_t) \<Rightarrow> bytes \<Rightarrow> Kache option" where
  "kache_init triepath iplistpath now fresh_data fresh_buff =
     do {
       loaded \<leftarrow> trie_new_from_file triepath;
       tr \<leftarrow> loaded;
       iplist \<leftarrow> iplistpath;
       data \<leftarrow> load_ips (TRIESIZE - 1) 1 fresh_buff iplist now fresh_data;
       Some \<lparr>main_tr = tr, main_tr_data = data,
         hash_data = (\<lambda>_. \<lparr>h_data = \<lparr>ip = 0, timestamp = 0\<rparr>, part_key = replicate 4 0\<rparr>)\<rparr>
     }"

section \<open>The invariant\<close>

definition kache_ok :: "Kache \<Rightarrow> bool" where
  "kache_ok k \<longleftrightarrow> trie_ok (main_tr k) \<and>
     (\<forall>key d. 0 \<notin> set key \<and> trie_retrieve (main_tr k) (key @ [0]) = Some (Some d) \<longrightarrow> 0 \<le> d \<and> d < int TRIESIZE) \<and>
     (\<forall>h. length (part_key (hash_data k h)) = 4)"

text \<open>The slot that stands for a key, whatever it holds at the moment.\<close>

definition home :: "Kache \<Rightarrow> bytes \<Rightarrow> slot" where
  "home k key = (case trie_retrieve (main_tr k) (map ucast key @ [0]) of
      Some (Some d) \<Rightarrow> Main (nat d)
    | _ \<Rightarrow> Hashed (the (hash_slot k (key @ [0]))))"

text \<open>A lookup as the server does it: the entry found, if any.\<close>

definition kache_get :: "Kache \<Rightarrow> bytes \<Rightarrow> (data_t option) option" where
  "kache_get k key =
     do {
       p \<leftarrow> kache_retrieve k (Some key);
       case p of None \<Rightarrow> Some None | Some s \<Rightarrow> map_option Some (slot_data k s)
     }"

section \<open>Lemmas\<close>

lemma hash_from_total: "\<exists>v. hash_from h (key @ 0 # r) = Some v \<and> (\<forall>r'. 0 \<notin> set key \<longrightarrow> hash_from h (key @ 0 # r') = Some v)"
  by (induction key arbitrary: h) auto

lemma hash_bound: "unat (h AND 0x1ffffff :: uint32) < HASHSIZE"
proof -
  have "h AND 0x1ffffff \<le> 0x1ffffff" by (rule word_and_le1)
  then show ?thesis by (simp add: word_le_nat_alt HASHSIZE_def)
qed

lemma hash_slot_total:
  assumes "0 \<notin> set key"
  shows "\<exists>h<HASHSIZE. \<forall>k r. hash_slot k (key @ 0 # r) = Some h"
proof -
  obtain v where "\<forall>r. hash_from 0 (key @ 0 # r) = Some v" using hash_from_total [of 0 key "[]"] assms by blast
  then show ?thesis using hash_bound [of v]
    by (intro exI [of _ "unat (v AND 0x1ffffff)"]) (simp add: hash_slot_def BKDRHash_def)
qed

lemma char2alphachar_ok: "0 \<notin> set key \<Longrightarrow> char2alphachar (key @ 0 # r) = Some (map ucast key @ [0])"
  by (simp add: char2alphachar_def c_strlen_def)

lemma part_len_ok: "0 \<notin> set key \<Longrightarrow> part_len (key @ 0 # r) = Some (min 4 (length key))"
  by (simp add: part_len_def c_strlen_def)

lemma ucast_nonzero: "(c :: uint8) \<noteq> 0 \<Longrightarrow> (ucast c :: uint32) \<noteq> 0"
proof
  assume c: "c \<noteq> 0" "(ucast c :: uint32) = 0"
  then have "unat (ucast c :: uint32) = 0" by simp
  then have "unat c = 0" by (simp only: unat_ucast8)
  then show False using c(1) by (simp add: unat_eq_zero)
qed

lemma alpha_nonzero: "0 \<notin> set key \<Longrightarrow> 0 \<notin> set (map ucast (key :: bytes) :: AlphaChar list)"
proof
  assume nz: "0 \<notin> set key" and "0 \<in> set (map ucast key :: AlphaChar list)"
  then obtain c where c: "c \<in> set key" "(ucast c :: uint32) = 0" by (metis imageE set_map)
  then have "c = 0" using ucast_nonzero by blast
  then show False using c(1) nz by simp
qed

text \<open>The trie decides the home of a key.\<close>

lemma trie_number_ok:
  assumes ok: "kache_ok k" and nz: "0 \<notin> set key"
  shows "(\<exists>i<TRIESIZE. home k key = Main i \<and> (\<forall>r. trie_number k (key @ 0 # r) = Some (Some i))) \<or>
    (\<exists>h<HASHSIZE. home k key = Hashed h \<and> (\<forall>r. trie_number k (key @ 0 # r) = Some None) \<and>
       (\<forall>k r. hash_slot k (key @ 0 # r) = Some h))"
proof -
  have t: "trie_ok (main_tr k)" using ok by (simp add: kache_ok_def)
  obtain res where res: "trie_retrieve (main_tr k) (map ucast key @ [0]) = Some res"
    using retrieve_ok [OF t alpha_nonzero [OF nz], of "[]"] by blast
  then have num: "trie_number k (key @ 0 # r) = Some (map_option (\<lambda>d. unat (word_of_int d :: uint32)) res)" for r
    by (simp add: trie_number_def char2alphachar_ok [OF nz])
  show ?thesis
  proof (cases res)
    case None
    obtain h where "h < HASHSIZE" "\<forall>k r. hash_slot k (key @ 0 # r) = Some h" using hash_slot_total [OF nz] by blast
    then show ?thesis using None res num by (simp add: home_def)
  next
    case (Some d)
    have d: "0 \<le> d" "d < int TRIESIZE"
      using ok alpha_nonzero [OF nz] res Some unfolding kache_ok_def by blast+
    have "unat (word_of_int d :: uint32) = nat d"
      using d by (simp add: unat_eq_nat_uint uint_word_of_int TRIESIZE_def)
    moreover have "nat d < TRIESIZE" using d by linarith
    ultimately show ?thesis using Some res num by (simp add: home_def)
  qed
qed

lemma home_cases:
  assumes "kache_ok k" and "0 \<notin> set key"
  obtains (main) i where "i < TRIESIZE" "home k key = Main i" "\<And>r. trie_number k (key @ 0 # r) = Some (Some i)"
  | (hashed) h where "h < HASHSIZE" "home k key = Hashed h" "\<And>r. trie_number k (key @ 0 # r) = Some None"
    "\<And>k r. hash_slot k (key @ 0 # r) = Some h"
  using trie_number_ok [OF assms] by blast


definition slot_in :: "slot \<Rightarrow> bool" where
  "slot_in s = (case s of Main i \<Rightarrow> i < TRIESIZE | Hashed h \<Rightarrow> h < HASHSIZE)"

lemma retrieve_home:
  assumes ok: "kache_ok k" and nz: "0 \<notin> set key"
  shows "kache_retrieve k (Some (key @ 0 # r)) = Some
      (case home k key of
         Main i \<Rightarrow> Some (Main i)
       | Hashed h \<Rightarrow> if take (min 4 (length key)) (part_key (hash_data k h)) = take 4 key then Some (Hashed h) else None)"
    and "slot_in (home k key)"
proof -
  have "min (length key) 4 \<le> length (part_key (hash_data k h))" for h using ok by (simp add: kache_ok_def)
  then have same: "c_strneq (min 4 (length key)) (part_key (hash_data k h)) (key @ 0 # r) =
      Some (take (min 4 (length key)) (part_key (hash_data k h)) = take (min 4 (length key)) key)" for h
    using nz by (intro c_strneq_prefix) (simp_all add: min.commute)
  have t4: "take (min 4 (length key)) key = take 4 key" by (simp add: min_def)
  from ok nz show "kache_retrieve k (Some (key @ 0 # r)) = Some
      (case home k key of
         Main i \<Rightarrow> Some (Main i)
       | Hashed h \<Rightarrow> if take (min 4 (length key)) (part_key (hash_data k h)) = take 4 key then Some (Hashed h) else None)"
    by (cases rule: home_cases) (simp_all add: kache_retrieve_def part_len_ok [OF nz] same t4)
  from ok nz show "slot_in (home k key)" by (cases rule: home_cases) (simp_all add: slot_in_def)
qed

lemma get_home:
  assumes "kache_ok k" and "0 \<notin> set key"
  shows "kache_get k (key @ 0 # r) = Some
      (case home k key of
         Main i \<Rightarrow> Some (main_tr_data k i)
       | Hashed h \<Rightarrow> if take (min 4 (length key)) (part_key (hash_data k h)) = take 4 key
                     then Some (h_data (hash_data k h)) else None)"
  using retrieve_home [OF assms] by (cases "home k key") (simp_all add: kache_get_def slot_data_def slot_in_def)

lemma store_home:
  assumes ok: "kache_ok k" and nz: "0 \<notin> set key"
  shows "kache_store k (Some (key @ 0 # r)) d = Some
      (case home k key of
         Main i \<Rightarrow> k\<lparr>main_tr_data := (main_tr_data k)(i := d)\<rparr>
       | Hashed h \<Rightarrow> k\<lparr>hash_data := (hash_data k)(h := \<lparr>h_data = d,
           part_key = take 4 key @ drop (length key) (part_key (hash_data k h))\<rparr>)\<rparr>)"
proof -
  have l: "length (part_key (hash_data k h)) = 4" for h using ok by (simp add: kache_ok_def)
  have m: "c_memcpy (part_key (hash_data k h)) (key @ 0 # r) (min 4 (length key)) =
      Some (take 4 key @ drop (length key) (part_key (hash_data k h)))" for h
    using l [of h] by (cases "length key \<le> 4") (simp_all add: c_memcpy_def min_def)
  from ok nz show ?thesis
    by (cases rule: home_cases) (simp_all add: kache_store_def part_len_ok [OF nz] m)
qed

text \<open>A lookup does not depend on the bytes after the terminator, and gives an element of one of the tables.\<close>

lemma retrieve_slot:
  assumes "kache_ok k" and "0 \<notin> set key"
  shows "\<exists>res. (\<forall>r. kache_retrieve k (Some (key @ 0 # r)) = Some res) \<and>
    (\<forall>p. res = Some p \<longrightarrow> (\<exists>e. slot_data k p = Some e))"
  using retrieve_home [OF assms]
  by (cases "home k key") (auto simp: slot_in_def slot_data_def)

lemma home_cong: "main_tr k' = main_tr k \<Longrightarrow> home k' j = home k j"
  by (simp add: home_def hash_slot_def split: option.splits)

lemma kache_store_law:
  assumes ok: "kache_ok k" and nz: "0 \<notin> set key"
  shows "\<exists>k'. kache_store k (Some (key @ 0 # r)) d = Some k' \<and> kache_ok k' \<and> (\<forall>j. home k' j = home k j) \<and>
    (\<forall>j r'. 0 \<notin> set j \<longrightarrow> kache_get k' (j @ 0 # r') =
       (if home k j \<noteq> home k key then kache_get k (j @ 0 # r')
        else case home k key of
            Main i \<Rightarrow> Some (Some d)
          | Hashed h \<Rightarrow> if take (min 4 (length j)) (take 4 key @ drop (length key) (part_key (hash_data k h))) = take 4 j
                        then Some (Some d) else Some None))"
proof -
  have l: "length (part_key (hash_data k h)) = 4" for h using ok by (simp add: kache_ok_def)
  show ?thesis
  proof (cases "home k key")
    case (Main i)
    let ?k = "k\<lparr>main_tr_data := (main_tr_data k)(i := d)\<rparr>"
    have ok': "kache_ok ?k" using ok by (simp add: kache_ok_def)
    have h: "home ?k j = home k j" for j by (rule home_cong) simp
    show ?thesis
      by (intro exI [of _ ?k] conjI allI impI)
        (use Main h in \<open>auto simp: store_home [OF ok nz] ok' get_home [OF ok'] get_home [OF ok] split: slot.split\<close>)
  next
    case (Hashed hv)
    let ?p = "take 4 key @ drop (length key) (part_key (hash_data k hv))"
    let ?k = "k\<lparr>hash_data := (hash_data k)(hv := \<lparr>h_data = d, part_key = ?p\<rparr>)\<rparr>"
    have "length ?p = 4" using l [of hv] by (cases "length key \<le> 4") simp_all
    then have ok': "kache_ok ?k" using ok by (simp add: kache_ok_def)
    have h: "home ?k j = home k j" for j by (rule home_cong) simp
    show ?thesis
      by (intro exI [of _ ?k] conjI allI impI)
        (use Hashed h in \<open>auto simp: store_home [OF ok nz] ok' get_home [OF ok'] get_home [OF ok] split: slot.split\<close>)
  qed
qed


section \<open>Loading the addresses\<close>

definition ip_lines :: "nat list \<Rightarrow> bytes" where
  "ip_lines ips = concat (map (\<lambda>v. decimal v @ [10]) ips)"

lemma load_ips_ok:
  assumes "\<forall>v\<in>set ips. v < 2 ^ 32" and "length buff = 80"
  shows "\<exists>data'. load_ips (length ips) i buff (ip_lines ips) now data = Some data' \<and>
    (\<forall>j<length ips. data' (i + j) = \<lparr>ip = of_nat (ips ! j), timestamp = now\<rparr>) \<and>
    (\<forall>j. j < i \<or> i + length ips \<le> j \<longrightarrow> data' j = data j)"
  using assms
proof (induction ips arbitrary: i buff data)
  case Nil
  then show ?case by simp
next
  case (Cons v ips)
  have v: "v < 2 ^ 32" using Cons.prems(1) by simp
  then have "v < 10 ^ 10" by simp
  then have l: "length (decimal v) + 1 < 80" using decimal_length [of v 10] by simp
  have nl: "10 \<notin> set (decimal v)" using decimal_digits digit_plain by blast
  let ?buff = "decimal v @ 10 # 0 # drop (length (decimal v) + 2) buff"
  have f: "c_fgets 80 buff (decimal v @ 10 # ip_lines ips) = Some (?buff, ip_lines ips)"
    by (rule c_fgets_line [OF nl l])
  have b: "length ?buff = 80" by (rule c_fgets_length [OF f Cons.prems(2)]) simp
  have nd: "\<not> is_digit 10" by (simp add: is_digit_def)
  have "int v < 2 ^ 63" using v by simp
  then have a: "c_atol ?buff = Some (int v)" by (rule atol_decimal [OF _ nd])
  let ?data = "data(i := \<lparr>ip = of_nat v, timestamp = now\<rparr>)"
  have "\<forall>v\<in>set ips. v < 2 ^ 32" using Cons.prems(1) by simp
  then obtain data' where d: "load_ips (length ips) (i + 1) ?buff (ip_lines ips) now ?data = Some data'"
    "\<forall>j<length ips. data' (i + 1 + j) = \<lparr>ip = of_nat (ips ! j), timestamp = now\<rparr>"
    "\<forall>j. j < i + 1 \<or> i + 1 + length ips \<le> j \<longrightarrow> data' j = ?data j"
    using Cons.IH [OF _ b, of "i + 1" ?data] by blast
  have "load_ips (length (v # ips)) i buff (ip_lines (v # ips)) now data = Some data'"
    using f a d(1) by (simp add: ip_lines_def)
  moreover have "data' (i + j) = \<lparr>ip = of_nat ((v # ips) ! j), timestamp = now\<rparr>" if "j < length (v # ips)" for j
  proof (cases j)
    case 0
    then show ?thesis using d(3) by simp
  next
    case (Suc m)
    then show ?thesis using d(2) that by simp
  qed
  moreover have "data' j = data j" if "j < i \<or> i + length (v # ips) \<le> j" for j
    using d(3) that by auto
  ultimately show ?case by blast
qed

section \<open>The interface of a cache\<close>

text \<open>
  What the threads of the server rely on: lookups that always answer, an entry that is found right
  after it was stored, and no entry that nobody stored. A store may drop other entries.
\<close>

fun put_each :: "('c \<Rightarrow> 'k \<Rightarrow> 'd \<Rightarrow> 'c option) \<Rightarrow> 'c \<Rightarrow> ('k \<times> 'd) list \<Rightarrow> 'c option" where
  "put_each put c [] = Some c"
| "put_each put c ((k, d) # kds) = do { c \<leftarrow> put c k d; put_each put c kds }"

locale address_cache =
  fixes ok :: "'c \<Rightarrow> bool"
    and key_ok :: "'k \<Rightarrow> bool"
    and get :: "'c \<Rightarrow> 'k \<Rightarrow> ('d option) option"
    and put :: "'c \<Rightarrow> 'k \<Rightarrow> 'd \<Rightarrow> 'c option"
  assumes get_total: "ok c \<Longrightarrow> key_ok k \<Longrightarrow> \<exists>res. get c k = Some res"
    and put_law: "ok c \<Longrightarrow> key_ok k \<Longrightarrow> \<exists>c'. put c k d = Some c' \<and> ok c' \<and> get c' k = Some (Some d) \<and>
      (\<forall>j. key_ok j \<longrightarrow> get c' j = get c j \<or> get c' j = Some (Some d) \<or> get c' j = Some None)"
begin

text \<open>After any sequence of stores a lookup gives what was there before, a stored value, or a miss.\<close>

lemma put_each_ok:
  assumes "ok c" and "\<forall>(k, d)\<in>set kds. key_ok k"
  shows "\<exists>c'. put_each put c kds = Some c' \<and> ok c' \<and> (\<forall>j. key_ok j \<longrightarrow>
    get c' j = get c j \<or> get c' j = Some None \<or> (\<exists>(k, d)\<in>set kds. get c' j = Some (Some d)))"
  using assms
proof (induction kds arbitrary: c)
  case Nil
  then show ?case by simp
next
  case (Cons kd kds)
  obtain k d where kd: "kd = (k, d)" by (cases kd)
  then have k: "key_ok k" using Cons.prems(2) by simp
  obtain c1 where c1: "put c k d = Some c1" "ok c1"
    "\<forall>j. key_ok j \<longrightarrow> get c1 j = get c j \<or> get c1 j = Some (Some d) \<or> get c1 j = Some None"
    using put_law [OF Cons.prems(1) k] by blast
  have "\<forall>(k, d)\<in>set kds. key_ok k" using Cons.prems(2) by simp
  then obtain c' where c': "put_each put c1 kds = Some c'" "ok c'"
    "\<forall>j. key_ok j \<longrightarrow> get c' j = get c1 j \<or> get c' j = Some None \<or> (\<exists>(k, d)\<in>set kds. get c' j = Some (Some d))"
    using Cons.IH [OF c1(2)] by blast
  have "get c' j = get c j \<or> get c' j = Some None \<or> (\<exists>(k, d)\<in>set (kd # kds). get c' j = Some (Some d))"
    if j: "key_ok j" for j
  proof -
    consider "get c' j = get c1 j" | "get c' j = Some None" | "\<exists>(k, d)\<in>set kds. get c' j = Some (Some d)"
      using c'(3) j by blast
    then show ?thesis
    proof cases
      case 1
      then show ?thesis using c1(3) j kd by auto
    qed auto
  qed
  then show ?case using c1(1) c'(1,2) kd by auto
qed

end

definition terminated :: "bytes \<Rightarrow> bool" where
  "terminated key \<longleftrightarrow> 0 \<in> set key"

lemma terminated_split: "terminated key \<Longrightarrow> \<exists>k r. key = k @ 0 # r \<and> 0 \<notin> set k"
  using split_list_first [of 0 key] by (auto simp: terminated_def)

interpretation ac: address_cache kache_ok terminated kache_get "\<lambda>k key. kache_store k (Some key)"
proof unfold_locales
  fix k key
  assume a: "kache_ok k" "terminated key"
  then obtain s r where s: "key = s @ 0 # r" "0 \<notin> set s" using terminated_split by blast
  then show "\<exists>res. kache_get k key = Some res" using get_home [OF a(1)] by blast
  fix d
  obtain k' where k': "kache_store k (Some key) d = Some k'" "kache_ok k'"
    "\<forall>j r'. 0 \<notin> set j \<longrightarrow> kache_get k' (j @ 0 # r') =
       (if home k j \<noteq> home k s then kache_get k (j @ 0 # r')
        else case home k s of
            Main i \<Rightarrow> Some (Some d)
          | Hashed h \<Rightarrow> if take (min 4 (length j)) (take 4 s @ drop (length s) (part_key (hash_data k h))) = take 4 j
                        then Some (Some d) else Some None)"
    using kache_store_law [OF a(1) s(2), of r d] s(1) by blast
  have "kache_get k' key = Some (Some d)"
    using k'(3) s by (auto split: slot.split simp: min_def)
  moreover have "kache_get k' j = kache_get k j \<or> kache_get k' j = Some (Some d) \<or> kache_get k' j = Some None"
    if j: "terminated j" for j
  proof -
    obtain t q where t: "j = t @ 0 # q" "0 \<notin> set t" using terminated_split [OF j] by blast
    then show ?thesis using k'(3) by (auto split: slot.split)
  qed
  ultimately show "\<exists>k'. kache_store k (Some key) d = Some k' \<and> kache_ok k' \<and> kache_get k' key = Some (Some d) \<and>
      (\<forall>j. terminated j \<longrightarrow> kache_get k' j = kache_get k j \<or> kache_get k' j = Some (Some d) \<or> kache_get k' j = Some None)"
    using k'(1,2) by blast
qed

section \<open>Properties\<close>

definition empty_kache :: Kache where
  "empty_kache = \<lparr>main_tr = dns_trie, main_tr_data = (\<lambda>_. \<lparr>ip = 0, timestamp = 0\<rparr>),
     hash_data = (\<lambda>_. \<lparr>h_data = \<lparr>ip = 0, timestamp = 0\<rparr>, part_key = replicate 4 0\<rparr>)\<rparr>"

lemma empty_kache_ok: "kache_ok empty_kache"
  using dns_trie_facts(1) dns_trie_facts(4) [of _ "[]"] by (auto simp: kache_ok_def empty_kache_def)

lemma empty_kache_home: "0 \<notin> set key \<Longrightarrow> home empty_kache key = Hashed (the (hash_slot empty_kache (key @ [0])))"
  using dns_trie_facts(4) [OF alpha_nonzero, of key "[]"] by (simp add: home_def empty_kache_def)

text \<open>C16: A stored address is found by the next lookup of the same domain, and the lookups of all
  domains that live elsewhere (another number of the trie, another hash slot) are not affected.\<close>

theorem kache_store_then_retrieve:
  assumes "kache_ok k" and "0 \<notin> set key"
  shows "\<exists>k'. kache_store k (Some (key @ 0 # r)) d = Some k' \<and> kache_ok k' \<and>
    (\<forall>r'. kache_get k' (key @ 0 # r') = Some (Some d)) \<and>
    (\<forall>j r'. 0 \<notin> set j \<and> home k j \<noteq> home k key \<longrightarrow> kache_get k' (j @ 0 # r') = kache_get k (j @ 0 # r'))"
proof -
  obtain k' where k': "kache_store k (Some (key @ 0 # r)) d = Some k'" "kache_ok k'"
    "\<forall>j r'. 0 \<notin> set j \<longrightarrow> kache_get k' (j @ 0 # r') =
       (if home k j \<noteq> home k key then kache_get k (j @ 0 # r')
        else case home k key of
            Main i \<Rightarrow> Some (Some d)
          | Hashed h \<Rightarrow> if take (min 4 (length j)) (take 4 key @ drop (length key) (part_key (hash_data k h))) = take 4 j
                        then Some (Some d) else Some None)"
    using kache_store_law [OF assms] by blast
  have "kache_get k' (key @ 0 # r') = Some (Some d)" for r'
    using k'(3) assms(2) by (auto split: slot.split simp: min_def)
  then show ?thesis using k' by auto
qed

theorem kache_store_then_retrieve_witness:
  "\<exists>k'. kache_store empty_kache (Some ([0x61, 0x62] @ 0 # [])) \<lparr>ip = 7, timestamp = 5\<rparr> = Some k' \<and>
     kache_get k' ([0x61, 0x62] @ 0 # []) = Some (Some \<lparr>ip = 7, timestamp = 5\<rparr>)"
proof -
  have "0 \<notin> set ([0x61, 0x62] :: bytes)" by simp
  from kache_store_then_retrieve [OF empty_kache_ok this, of "[]" "\<lparr>ip = 7, timestamp = 5\<rparr>"]
  show ?thesis by blast
qed

text \<open>C18: Storing a domain of at least four characters evicts every other domain of its hash slot: a
  different domain with the same hash that is not in the trie is afterwards answered with the new
  address when its first four characters agree, and is a miss otherwise, whatever it held before.\<close>

theorem kache_store_evicts:
  assumes "kache_ok k" and "0 \<notin> set key" "0 \<notin> set j" and "4 \<le> length key"
    and "home k key = Hashed h" and "home k j = Hashed h"
  shows "\<exists>k'. kache_store k (Some (key @ 0 # r)) d = Some k' \<and>
    kache_get k' (j @ 0 # r') = Some (if take (min 4 (length j)) key = take 4 j then Some d else None)"
proof -
  have "take (min 4 (length j)) (take 4 key) = take (min 4 (length j)) key" by simp
  then show ?thesis using kache_store_law [OF assms(1,2), of r d] assms(3-6)
    by (auto simp: min_def split: if_splits)
qed

theorem kache_store_evicts_witness:
  "\<exists>k'. kache_store empty_kache (Some ([0x6d, 0x61, 0x69, 0x6c, 0x61, 0x6d, 0x30, 0x61, 0x62] @ 0 # []))
       \<lparr>ip = 7, timestamp = 5\<rparr> = Some k' \<and>
     kache_get k' ([0x6d, 0x61, 0x69, 0x6c, 0x62, 0x61, 0x65, 0x79, 0x30] @ 0 # []) =
       Some (Some \<lparr>ip = 7, timestamp = 5\<rparr>)"
proof -
  let ?a = "[0x6d, 0x61, 0x69, 0x6c, 0x61, 0x6d, 0x30, 0x61, 0x62] :: bytes"
    and ?b = "[0x6d, 0x61, 0x69, 0x6c, 0x62, 0x61, 0x65, 0x79, 0x30] :: bytes"
  have "hash_slot empty_kache (?a @ [0]) = Some 5508514" "hash_slot empty_kache (?b @ [0]) = Some 5508514"
    by (simp_all add: hash_slot_def BKDRHash_def HASHSIZE_def)
  then have h: "home empty_kache ?a = Hashed 5508514" "home empty_kache ?b = Hashed 5508514"
    by (simp_all add: empty_kache_home del: append_Cons append_Nil)
  have nz: "0 \<notin> set ?a" "0 \<notin> set ?b" "4 \<le> length ?a" by simp_all
  from kache_store_evicts [OF empty_kache_ok nz h, of "[]" "\<lparr>ip = 7, timestamp = 5\<rparr>" "[]"]
  show ?thesis by simp
qed

text \<open>Whatever sequence of domains is stored, a lookup afterwards gives what it gave before, a
  miss, or an address that one of the stores put in: the cache never makes up data.\<close>

theorem kache_invents_nothing:
  assumes "kache_ok k" and "\<forall>(key, d)\<in>set kds. terminated key" and "terminated j"
  shows "\<exists>k'. put_each (\<lambda>k key. kache_store k (Some key)) k kds = Some k' \<and> kache_ok k' \<and>
    (kache_get k' j = kache_get k j \<or> kache_get k' j = Some None \<or>
     (\<exists>(key, d)\<in>set kds. kache_get k' j = Some (Some d)))"
  using ac.put_each_ok [OF assms(1,2)] assms(3) by blast

theorem kache_invents_nothing_witness:
  "\<exists>k'. put_each (\<lambda>k key. kache_store k (Some key)) empty_kache [([0x61, 0], \<lparr>ip = 7, timestamp = 5\<rparr>)] = Some k' \<and>
     kache_ok k'"
  using kache_invents_nothing [OF empty_kache_ok, of "[([0x61, 0], \<lparr>ip = 7, timestamp = 5\<rparr>)]" "[0]"]
  by (auto simp: terminated_def)

text \<open>At the start the table of the trie holds, at every number from 1, the address of that line of
  \<open>ip.list\<close> with the current time, and a domain that is neither empty nor in the trie is a miss.\<close>

theorem kache_init_loads:
  assumes "trie_new_from_file f = Some (Some tr)" and "length ips = TRIESIZE - 1" and "\<forall>v\<in>set ips. v < 2 ^ 32"
    and "length buff = 80"
  shows "\<exists>k. kache_init (f) (Some (ip_lines ips)) now fresh buff = Some k \<and> main_tr k = tr \<and>
    (\<forall>i. 1 \<le> i \<and> i < TRIESIZE \<longrightarrow> slot_data k (Main i) = Some \<lparr>ip = of_nat (ips ! (i - 1)), timestamp = now\<rparr>) \<and>
    (\<forall>key r. kache_ok k \<and> 0 \<notin> set key \<and> key \<noteq> [] \<and> (\<forall>i. home k key \<noteq> Main i) \<longrightarrow> kache_get k (key @ 0 # r) = Some None)"
proof -
  obtain data where d: "load_ips (length ips) 1 buff (ip_lines ips) now fresh = Some data"
    "\<forall>j<length ips. data (1 + j) = \<lparr>ip = of_nat (ips ! j), timestamp = now\<rparr>"
    using load_ips_ok [OF assms(3,4)] by blast
  let ?k = "\<lparr>main_tr = tr, main_tr_data = data,
    hash_data = (\<lambda>_. \<lparr>h_data = \<lparr>ip = 0, timestamp = 0\<rparr>, part_key = replicate 4 0\<rparr>)\<rparr>"
  have "kache_init f (Some (ip_lines ips)) now fresh buff = Some ?k"
    using assms(1) d(1) [unfolded assms(2)] by (simp add: kache_init_def)
  moreover have "slot_data ?k (Main i) = Some \<lparr>ip = of_nat (ips ! (i - 1)), timestamp = now\<rparr>"
    if i: "1 \<le> i" "i < TRIESIZE" for i
    using d(2) [rule_format, of "i - 1"] i assms(2) by (simp add: slot_data_def)
  moreover have "kache_get ?k (key @ 0 # r) = Some None"
    if k: "kache_ok ?k" "0 \<notin> set key" "key \<noteq> []" "\<forall>i. home ?k key \<noteq> Main i" for key r
  proof -
    obtain h where h: "home ?k key = Hashed h" using k(4) by (cases "home ?k key") auto
    obtain c s where c: "key = c # s" using k(3) by (cases key) auto
    then have "take (min 4 (length key)) (replicate 4 0) \<noteq> take 4 key" using k(2)
      by (auto simp: eval_nat_numeral)
    then show ?thesis using get_home [OF k(1,2), of r] h by simp
  qed
  ultimately show ?thesis by (intro exI [of _ ?k]) simp
qed

theorem kache_init_loads_witness:
  "\<exists>f k. kache_init f (Some (ip_lines (replicate (TRIESIZE - 1) 16777343))) 9 (\<lambda>_. \<lparr>ip = 0, timestamp = 0\<rparr>) (replicate 80 0) = Some k \<and>
     slot_data k (Main 5) = Some \<lparr>ip = 16777343, timestamp = 9\<rparr>"
proof -
  have 1: "alpha_map_file_ok (alpha_map dns_trie)"
    using dns_alphabet_ok by (simp add: alpha_map_file_ok_def dns_trie_def alphabet_ok_def dns_alphabet_def INT32_MAX_def)
  have 2: "tail_file_ok (plain_tail (tail dns_trie))"
    by (simp add: dns_trie_def tail_new_def plain_tail_def tail_file_ok_def int32_limits)
  obtain f where f: "trie_new_from_file (Some (fseek_set 0 f)) = Some (Some (plain_trie dns_trie))"
    using save_load_ok [OF dns_trie_facts(1) 1 2 order_refl] by blast
  have "slot_data k (Main 5) = Some \<lparr>ip = 16777343, timestamp = 9\<rparr>"
    if "\<forall>i. 1 \<le> i \<and> i < TRIESIZE \<longrightarrow> slot_data k (Main i) =
      Some \<lparr>ip = of_nat (replicate (TRIESIZE - 1) 16777343 ! (i - 1)), timestamp = 9\<rparr>" for k
    using that [rule_format, of 5] by (simp add: TRIESIZE_def)
  then show ?thesis
    using kache_init_loads [OF f, of "replicate (TRIESIZE - 1) 16777343" "replicate 80 0" 9 "\<lambda>_. \<lparr>ip = 0, timestamp = 0\<rparr>"]
    by auto
qed

end
