(* ===== verification/Server.thy ===== *)
theory Server
  imports Kache
begin

text \<open>
  The request side of the server, \<open>src/server/serv_thread_make.c\<close> and \<open>src/server/udp_server.c\<close>:
  reading a request, and answering it in place. A request is a header of 13 bytes and a sequence of
  terminated domains; the answer overwrites the domains with four bytes of address each, from the
  front, while the domains behind are still being read.

  A block of memory is the list of its bytes. What the network delivers is a list of chunks, one for
  each \<open>read\<close>. The cache may change between two lookups of a request, so a lookup is a function of
  the number of the domain; \<open>kache_lookup\<close> is the one on a sequence of caches and clock readings.
  The targets are little-endian.
\<close>

section \<open>Constants\<close>

definition HEAD_LENGTH :: nat where
  "HEAD_LENGTH = 13"

definition MAGIC_NUMBER :: uint32 where
  "MAGIC_NUMBER = 0x12345678"

definition TIME_OUT :: int where
  "TIME_OUT = 86400"

definition FIRST_WITH_ERROR :: uint8 where
  "FIRST_WITH_ERROR = 0x3f"

definition FIRST_WITHOUT_ERROR :: uint8 where
  "FIRST_WITHOUT_ERROR = 0x7f"

definition SECOND_WITH_ERROR :: uint8 where
  "SECOND_WITH_ERROR = 0xbf"

definition SECOND_WITHOUT_ERROR :: uint8 where
  "SECOND_WITHOUT_ERROR = 0xff"

text \<open>The addresses 127.0.0.2 and 127.0.0.1 as \<open>inet_pton\<close> stores them, read as a word.\<close>

definition CACHE_MISS :: uint32 where
  "CACHE_MISS = 0x0200007f"

definition DNS_ERROR :: uint32 where
  "DNS_ERROR = 0x0100007f"

definition MAX_UDP_LENGTH :: nat where
  "MAX_UDP_LENGTH = 1024 * 128"

section \<open>Words in memory\<close>

definition le32 :: "uint32 \<Rightarrow> bytes" where
  "le32 w = [ucast w, ucast (drop_bit 8 w), ucast (drop_bit 16 w), ucast (drop_bit 24 w)]"

definition get32 :: "bytes \<Rightarrow> nat \<Rightarrow> uint32 option" where
  "get32 b i =
     (if i + 4 \<le> length b
      then Some (ucast (b ! i) OR push_bit 8 (ucast (b ! (i + 1))) OR push_bit 16 (ucast (b ! (i + 2)))
                 OR push_bit 24 (ucast (b ! (i + 3))))
      else None)"

text \<open>Overwriting part of a block.\<close>

definition put_bytes :: "bytes \<Rightarrow> nat \<Rightarrow> bytes \<Rightarrow> bytes option" where
  "put_bytes b i v = (if i + length v \<le> length b then Some (take i b @ v @ drop (i + length v) b) else None)"

definition put_byte :: "bytes \<Rightarrow> nat \<Rightarrow> uint8 \<Rightarrow> bytes option" where
  "put_byte b i v = (if i < length b then Some (b[i := v]) else None)"

section \<open>Looking a domain up\<close>

text \<open>The address in the cache unless it is missing or older than a day.\<close>

definition fresh_lookup :: "Kache \<Rightarrow> int \<Rightarrow> bytes \<Rightarrow> (uint32 option) option" where
  "fresh_lookup k now domain =
     do {
       p \<leftarrow> kache_retrieve k (Some domain);
       case p of
         None \<Rightarrow> Some None
       | Some s \<Rightarrow> do { d \<leftarrow> slot_data k s; Some (if timestamp d + TIME_OUT < now then None else Some (ip d)) }
     }"

definition kache_lookup :: "(nat \<Rightarrow> Kache) \<Rightarrow> (nat \<Rightarrow> int) \<Rightarrow> nat \<Rightarrow> bytes \<Rightarrow> (uint32 option) option" where
  "kache_lookup caches clock i domain = fresh_lookup (caches i) (clock i) domain"

text \<open>The UDP server also takes a stored \<open>CACHE_MISS\<close> for a miss.\<close>

definition udp_lookup :: "(nat \<Rightarrow> Kache) \<Rightarrow> (nat \<Rightarrow> int) \<Rightarrow> nat \<Rightarrow> bytes \<Rightarrow> (uint32 option) option" where
  "udp_lookup caches clock i domain =
     do {
       found \<leftarrow> fresh_lookup (caches i) (clock i) domain;
       Some (if found = Some CACHE_MISS then None else found)
     }"

section \<open>Answering in place\<close>

text \<open>
  The loop over the domains: \<open>cur\<close> is the offset of the current domain, \<open>base\<close> the offset of the
  first address. It collects the copies of the missed domains with their numbers, the list of
  \<open>dm_node\<close>s. It stops when \<open>limit\<close> bytes have been read; every step leaves the block or moves on.
\<close>

function answer_loop ::
  "(nat \<Rightarrow> bytes \<Rightarrow> (uint32 option) option) \<Rightarrow> int \<Rightarrow> nat \<Rightarrow> bytes \<Rightarrow> nat \<Rightarrow> nat \<Rightarrow> nat \<Rightarrow> (bytes \<times> nat) list
   \<Rightarrow> (bytes \<times> nat \<times> (bytes \<times> nat) list) option" where
  "answer_loop lookup limit base block cur readcount ipcount misses =
     (case c_strlen (drop cur block) of
        None \<Rightarrow> None
      | Some len \<Rightarrow>
          do {
            result \<leftarrow> lookup ipcount (drop cur block);
            let misses =
              (case result of
                 None \<Rightarrow> misses @ [(take (len + 1) (drop cur block), ipcount)]
               | Some _ \<Rightarrow> misses);
            block' \<leftarrow> put_bytes block (base + 4 * ipcount)
              (le32 (case result of None \<Rightarrow> CACHE_MISS | Some a \<Rightarrow> a));
            if limit \<le> int (readcount + len + 1) then Some (block', ipcount + 1, misses)
            else answer_loop lookup limit base block' (cur + len + 1) (readcount + len + 1) (ipcount + 1) misses
          })"
  by pat_completeness auto

lemma c_strlen_bound: "c_strlen s = Some n \<Longrightarrow> n < length s"
  by (auto simp: c_strlen_def c_str_Some_iff)

lemma put_bytes_length: "put_bytes b i v = Some b' \<Longrightarrow> length b' = length b"
  by (auto simp: put_bytes_def split: if_splits)

termination answer_loop
  by (relation "measure (\<lambda>(lookup, limit, base, block, cur, readcount, ipcount, misses). length block - cur)")
    (auto dest!: put_bytes_length c_strlen_bound)

declare answer_loop.simps [simp del]

text \<open>What one request causes: the message sent back, and the misses handed to the DNS threads.\<close>

record answer =
  sent :: bytes
  missed :: "(bytes \<times> nat) list"
  head_block :: bytes

definition tcp_do_search ::
  "(nat \<Rightarrow> bytes \<Rightarrow> (uint32 option) option) \<Rightarrow> bytes \<Rightarrow> bytes \<Rightarrow> int \<Rightarrow> answer option" where
  "tcp_do_search lookup headptr requestptr rbuflen =
     do {
       (block, ipcount, misses) \<leftarrow> answer_loop lookup rbuflen 0 requestptr 0 0 0 [];
       head \<leftarrow> put_byte headptr (HEAD_LENGTH - 1)
         (if misses = [] then FIRST_WITHOUT_ERROR else FIRST_WITH_ERROR);
       if HEAD_LENGTH \<le> length head \<and> ipcount * 4 \<le> length block
       then Some \<lparr>sent = take HEAD_LENGTH head @ take (ipcount * 4) block, missed = misses, head_block = head\<rparr>
       else None
     }"

section \<open>Reading a request over TCP\<close>

text \<open>
  The \<open>read\<close> loop: each \<open>read\<close> asks for \<open>n\<close> bytes again, whatever arrived before, and returns at
  most \<open>n\<close>. A chunk is the result of one \<open>read\<close>; an empty chunk or the end of the list is the end of
  the connection.
\<close>

fun read_loop :: "nat \<Rightarrow> nat \<Rightarrow> bytes list \<Rightarrow> bytes \<Rightarrow> nat \<Rightarrow> nat \<Rightarrow> bytes option" where
  "read_loop n tot [] block off readcount = Some block"
| "read_loop n tot (chunk # chunks) block off readcount =
     (let c = take n chunk
      in if c = [] then Some block
         else do {
           block \<leftarrow> put_bytes block off c;
           if tot \<le> readcount + length c
           then (if 0 < n then put_byte block (n - 1) 0 else None)
           else read_loop n tot chunks block (off + length c) (readcount + length c)
         })"

datatype served = Refused | Served bool answer

text \<open>
  One connection. \<open>fresh_head\<close> is what the allocator returns for the 13 bytes of the header, with the
  rest of its block: the reserved byte is read as a word and so three bytes too far. \<open>fresh\<close> gives
  the contents of the block for the request. The flag of \<open>Served\<close> says that the connection had been
  closed before the request was answered.
\<close>

definition serv ::
  "(nat \<Rightarrow> bytes \<Rightarrow> (uint32 option) option) \<Rightarrow> bytes \<Rightarrow> (nat \<Rightarrow> bytes) \<Rightarrow> bytes list \<Rightarrow> served option" where
  "serv lookup fresh_head fresh chunks =
     (case chunks of
        [] \<Rightarrow> Some Refused
      | first # rest \<Rightarrow>
          if length first \<noteq> HEAD_LENGTH then Some Refused
          else do {
            buf \<leftarrow> put_bytes fresh_head 0 first;
            total_length \<leftarrow> get32 buf 0;
            magic_number \<leftarrow> get32 buf 4;
            request_number \<leftarrow> get32 buf 8;
            reserved_byte \<leftarrow> get32 buf 12;
            if magic_number \<noteq> MAGIC_NUMBER then Some Refused
            else do {
              let closed = (total_length = 0);
              let n = unat (total_length - of_nat HEAD_LENGTH);
              let request = take n (fresh n);
              request \<leftarrow> read_loop n (unat total_length) rest request 0 HEAD_LENGTH;
              a \<leftarrow> tcp_do_search lookup buf request (sint (total_length - of_nat HEAD_LENGTH));
              Some (Served closed a)
            }
          })"

section \<open>Requests over UDP\<close>

text \<open>The datagram is in the first bytes of a block that is reused for every request.\<close>

definition udp_do_search :: "(nat \<Rightarrow> bytes \<Rightarrow> (uint32 option) option) \<Rightarrow> bytes \<Rightarrow> (answer option) option" where
  "udp_do_search lookup buf =
     do {
       total_length \<leftarrow> get32 buf 0;
       if total_length = 0 then Some None
       else do {
         (block, ipcount, misses) \<leftarrow> answer_loop lookup (uint (total_length - of_nat HEAD_LENGTH)) HEAD_LENGTH buf HEAD_LENGTH 0 0 [];
         block \<leftarrow> put_byte block (HEAD_LENGTH - 1)
           (if misses = [] then FIRST_WITHOUT_ERROR else FIRST_WITH_ERROR);
         let send_len = HEAD_LENGTH + ipcount * 4;
         if send_len \<le> length block
         then Some (Some \<lparr>sent = take send_len block, missed = misses, head_block = block\<rparr>)
         else None
       }
     }"

text \<open>One turn of \<open>udp_recv\<close>: the datagram is copied, its length is not looked at again.\<close>

definition udp_turn ::
  "(nat \<Rightarrow> bytes \<Rightarrow> (uint32 option) option) \<Rightarrow> bytes \<Rightarrow> bytes \<Rightarrow> (answer option \<times> bytes) option" where
  "udp_turn lookup readbuf datagram =
     do {
       buf \<leftarrow> put_bytes readbuf 0 (take (HEAD_LENGTH + MAX_UDP_LENGTH) datagram);
       magic \<leftarrow> get32 buf 4;
       if MAGIC_NUMBER = magic
       then do {
         a \<leftarrow> udp_do_search lookup buf;
         Some (a, case a of None \<Rightarrow> buf | Some r \<Rightarrow> head_block r)
       }
       else Some (None, buf)
     }"

section \<open>Words in memory, read and written\<close>

lemma le32_length [simp]: "length (le32 w) = 4"
  by (simp add: le32_def)

lemma le32_word:
  "ucast (ucast (w :: uint32) :: uint8) OR push_bit 8 (ucast (ucast (drop_bit 8 w) :: uint8))
     OR push_bit 16 (ucast (ucast (drop_bit 16 w) :: uint8)) OR push_bit 24 (ucast (ucast (drop_bit 24 w) :: uint8)) = w"
proof (rule bit_word_eqI)
  fix n
  assume "n < LENGTH(32)"
  then consider "n < 8" | "8 \<le> n" "n < 16" | "16 \<le> n" "n < 24" | "24 \<le> n" "n < 32" by fastforce
  then show "bit (ucast (ucast w :: uint8) OR push_bit 8 (ucast (ucast (drop_bit 8 w) :: uint8))
     OR push_bit 16 (ucast (ucast (drop_bit 16 w) :: uint8)) OR push_bit 24 (ucast (ucast (drop_bit 24 w) :: uint8)) :: uint32) n
     \<longleftrightarrow> bit w n"
    by cases (auto simp: bit_or_iff bit_push_bit_iff bit_ucast_iff bit_drop_bit_eq)
qed

lemma get32_le32: "length a = i \<Longrightarrow> get32 (a @ le32 w @ b) i = Some w"
proof -
  assume i: "length a = i"
  have n: "(a @ le32 w @ b) ! (i + j) = le32 w ! j" if "j < 4" for j
    using that i by (simp add: nth_append)
  then show ?thesis using i le32_word [of w] n [of 0] n [of 1] n [of 2] n [of 3]
    by (simp add: get32_def le32_def)
qed

lemma put_bytes_middle: "length a = i \<Longrightarrow> length v \<le> length b \<Longrightarrow> put_bytes (a @ b) i v = Some (a @ v @ drop (length v) b)"
  by (simp add: put_bytes_def)

section \<open>Well-formed requests\<close>

definition message :: "bytes list \<Rightarrow> bytes" where
  "message ds = concat (map (\<lambda>d. d @ [0]) ds)"

lemma message_simps [simp]: "message [] = []" "message (d # ds) = d @ 0 # message ds"
  by (simp_all add: message_def)

text \<open>Domains without zeros, and long enough for their addresses to fit where they were.\<close>

definition domains_ok :: "bytes list \<Rightarrow> bool" where
  "domains_ok ds \<longleftrightarrow> ds \<noteq> [] \<and> (\<forall>d\<in>set ds. 0 \<notin> set d \<and> 3 \<le> length d)"

fun addresses :: "(nat \<Rightarrow> bytes \<Rightarrow> uint32 option) \<Rightarrow> nat \<Rightarrow> bytes list \<Rightarrow> uint32 list" where
  "addresses L i [] = []"
| "addresses L i (d # ds) = (case L i d of None \<Rightarrow> CACHE_MISS | Some a \<Rightarrow> a) # addresses L (i + 1) ds"

fun misses_of :: "(nat \<Rightarrow> bytes \<Rightarrow> uint32 option) \<Rightarrow> nat \<Rightarrow> bytes list \<Rightarrow> (bytes \<times> nat) list" where
  "misses_of L i [] = []"
| "misses_of L i (d # ds) = (if L i d = None then [(d @ [0], i)] else []) @ misses_of L (i + 1) ds"

text \<open>A lookup that depends on the domain only, not on what follows its terminator.\<close>

definition looks_up :: "(nat \<Rightarrow> bytes \<Rightarrow> (uint32 option) option) \<Rightarrow> (nat \<Rightarrow> bytes \<Rightarrow> uint32 option) \<Rightarrow> bool" where
  "looks_up lookup L \<longleftrightarrow> (\<forall>i d r. 0 \<notin> set d \<longrightarrow> lookup i (d @ 0 # r) = Some (L i d))"

lemma c_strlen_at: "0 \<notin> set d \<Longrightarrow> c_strlen (d @ 0 # r) = Some (length d)"
  by (simp add: c_strlen_def)

lemma answer_loop_step:
  assumes L: "looks_up lookup L" and d: "0 \<notin> set d" "3 \<le> length d" and A: "length A = base + 4 * i"
    and cur: "cur = length A + length G"
  shows "\<exists>G'. length G' + 4 = length G + length d + 1 \<and>
    answer_loop lookup limit base (A @ G @ d @ 0 # R) cur readcount i M =
     (let block' = A @ le32 (case L i d of None \<Rightarrow> CACHE_MISS | Some a \<Rightarrow> a) @ G' @ R;
          M' = M @ (if L i d = None then [(d @ [0], i)] else [])
      in if limit \<le> int (readcount + length d + 1) then Some (block', i + 1, M')
         else answer_loop lookup limit base block' (cur + length d + 1) (readcount + length d + 1) (i + 1) M')"
proof -
  let ?block = "A @ G @ d @ 0 # R" and ?v = "le32 (case L i d of None \<Rightarrow> CACHE_MISS | Some a \<Rightarrow> a)"
  let ?G' = "drop 4 (G @ d @ [0])"
  have dr: "drop cur ?block = d @ 0 # R" using cur by simp
  have four: "4 - length (G @ d @ [0]) = 0" using d(2) by simp
  have "put_bytes (A @ (G @ d @ [0]) @ R) (base + 4 * i) ?v = Some (A @ ?v @ drop (length ?v) ((G @ d @ [0]) @ R))"
    using A d(2) by (intro put_bytes_middle) simp_all
  moreover have "drop (length ?v) ((G @ d @ [0]) @ R) = ?G' @ R"
    by (simp only: le32_length drop_append [of 4 "G @ d @ [0]" R] four drop_0)
  ultimately have p: "put_bytes ?block (base + 4 * i) ?v = Some (A @ ?v @ ?G' @ R)" by simp
  have "lookup i (d @ 0 # R) = Some (L i d)" using L d(1) by (simp add: looks_up_def)
  then have "answer_loop lookup limit base ?block cur readcount i M =
     (let block' = A @ ?v @ ?G' @ R; M' = M @ (if L i d = None then [(d @ [0], i)] else [])
      in if limit \<le> int (readcount + length d + 1) then Some (block', i + 1, M')
         else answer_loop lookup limit base block' (cur + length d + 1) (readcount + length d + 1) (i + 1) M')"
    using p by (subst answer_loop.simps, unfold dr c_strlen_at [OF d(1)]) (cases "L i d"; simp add: Let_def)
  moreover have "length ?G' + 4 = length G + length d + 1" using d(2) by simp
  ultimately show ?thesis by blast
qed

lemma answer_loop_ok:
  assumes L: "looks_up lookup L" and ds: "domains_ok ds" and A: "length A = base + 4 * i"
    and limit: "limit = int (readcount + length (message ds))"
  shows "\<exists>G'. answer_loop lookup limit base (A @ G @ message ds @ T) (length A + length G) readcount i M =
    Some (A @ concat (map le32 (addresses L i ds)) @ G' @ T, i + length ds, M @ misses_of L i ds)"
  using ds A limit
proof (induction ds arbitrary: A G i readcount M)
  case Nil
  then show ?case by (simp add: domains_ok_def)
next
  case (Cons d ds)
  have d: "0 \<notin> set d" "3 \<le> length d" using Cons.prems(1) by (simp_all add: domains_ok_def)
  let ?v = "le32 (case L i d of None \<Rightarrow> CACHE_MISS | Some a \<Rightarrow> a)"
  let ?M = "M @ (if L i d = None then [(d @ [0], i)] else [])"
  obtain G1 where g: "length G1 + 4 = length G + length d + 1"
    "answer_loop lookup limit base (A @ G @ d @ 0 # (message ds @ T)) (length A + length G) readcount i M =
     (let block' = A @ ?v @ G1 @ (message ds @ T); M' = ?M
      in if limit \<le> int (readcount + length d + 1) then Some (block', i + 1, M')
         else answer_loop lookup limit base block' (length A + length G + length d + 1) (readcount + length d + 1) (i + 1) M')"
    using answer_loop_step [OF L d Cons.prems(2) refl, where limit = limit and R = "message ds @ T" and
        readcount = readcount and M = M and G = G] by blast
  show ?case
  proof (cases "ds = []")
    case True
    then show ?thesis using g(2) Cons.prems(3) by (intro exI [of _ G1]) simp
  next
    case False
    have ds: "domains_ok ds" using Cons.prems(1) False by (simp add: domains_ok_def)
    have "message ds \<noteq> []" using False by (cases ds) simp_all
    then have go: "\<not> limit \<le> int (readcount + length d + 1)" using Cons.prems(3) by simp
    have A': "length (A @ ?v) = base + 4 * (i + 1)" using Cons.prems(2) by simp
    have lim: "limit = int ((readcount + length d + 1) + length (message ds))" using Cons.prems(3) by simp
    have cur: "length A + length G + length d + 1 = length (A @ ?v) + length G1" using g(1) by simp
    have run: "answer_loop lookup limit base (A @ G @ message (d # ds) @ T) (length A + length G) readcount i M =
        answer_loop lookup limit base ((A @ ?v) @ G1 @ message ds @ T) (length (A @ ?v) + length G1)
          (readcount + length d + 1) (i + 1) ?M"
      unfolding cur [symmetric] using g(2) by (simp only: Let_def go if_False message_simps append_assoc append_Cons)
    obtain G' where "answer_loop lookup limit base ((A @ ?v) @ G1 @ message ds @ T) (length (A @ ?v) + length G1)
        (readcount + length d + 1) (i + 1) ?M =
      Some ((A @ ?v) @ concat (map le32 (addresses L (i + 1) ds)) @ G' @ T, i + 1 + length ds, ?M @ misses_of L (i + 1) ds)"
      using Cons.IH [OF ds A' lim] by blast
    then show ?thesis unfolding run by (intro exI [of _ G']) simp
  qed
qed

lemma addresses_length [simp]: "length (addresses L i ds) = length ds"
  by (induction ds arbitrary: i) simp_all

lemma words_length [simp]: "length (concat (map le32 ws)) = 4 * length ws"
  by (induction ws) simp_all

lemma message_long: "domains_ok ds \<Longrightarrow> 4 * length ds \<le> length (message ds)"
proof -
  have "(\<forall>d\<in>set ds. 3 \<le> length d) \<Longrightarrow> 4 * length ds \<le> length (message ds)" by (induction ds) auto
  then show "domains_ok ds \<Longrightarrow> ?thesis" by (simp add: domains_ok_def)
qed

text \<open>The reply: the header with the flag of the first answer, then one address for each domain.\<close>

definition first_reply :: "bytes \<Rightarrow> (nat \<Rightarrow> bytes \<Rightarrow> uint32 option) \<Rightarrow> bytes list \<Rightarrow> bytes" where
  "first_reply head L ds = take 12 head @
     [if misses_of L 0 ds = [] then FIRST_WITHOUT_ERROR else FIRST_WITH_ERROR] @
     concat (map le32 (addresses L 0 ds))"

lemma tcp_do_search_ok:
  assumes L: "looks_up lookup L" and ds: "domains_ok ds" and h: "13 \<le> length head"
  shows "\<exists>head'. tcp_do_search lookup head (message ds) (int (length (message ds))) =
    Some \<lparr>sent = first_reply head L ds, missed = misses_of L 0 ds, head_block = head'\<rparr>"
proof -
  have "int (length (message ds)) = int (0 + length (message ds))" by simp
  from answer_loop_ok [OF L ds, of "[]" 0 0, OF _ this, of "[]" "[]" "[]"] obtain G where
    a: "answer_loop lookup (int (length (message ds))) 0 (message ds) 0 0 0 [] =
      Some (concat (map le32 (addresses L 0 ds)) @ G, length ds, misses_of L 0 ds)" by auto
  let ?f = "if misses_of L 0 ds = [] then FIRST_WITHOUT_ERROR else FIRST_WITH_ERROR"
  have "take 13 (head[12 := ?f]) = take 12 head @ [?f]"
    using h by (subst take_Suc_conv_app_nth [of 12, simplified]) simp_all
  then show ?thesis using a h by (simp add: tcp_do_search_def put_byte_def HEAD_LENGTH_def first_reply_def)
qed

section \<open>Reading a request\<close>

definition request_head :: "bytes list \<Rightarrow> uint32 \<Rightarrow> uint8 \<Rightarrow> bytes" where
  "request_head ds req b = le32 (of_nat (13 + length (message ds))) @ le32 MAGIC_NUMBER @ le32 req @ [b]"

lemma request_head_length [simp]: "length (request_head ds req b) = 13"
  by (simp add: request_head_def)

lemma head_fields:
  assumes "4 \<le> length (b # rest)"
  shows "get32 (request_head ds req b @ rest) 0 = Some (of_nat (13 + length (message ds)))"
    "get32 (request_head ds req b @ rest) 4 = Some MAGIC_NUMBER"
    "get32 (request_head ds req b @ rest) 8 = Some req"
    "get32 (request_head ds req b @ rest) 12 \<noteq> None"
proof -
  show "get32 (request_head ds req b @ rest) 0 = Some (of_nat (13 + length (message ds)))"
    using get32_le32 [of "[]" 0] by (simp add: request_head_def)
  show "get32 (request_head ds req b @ rest) 4 = Some MAGIC_NUMBER"
    using get32_le32 [of "le32 (of_nat (13 + length (message ds)))" 4 MAGIC_NUMBER "le32 req @ [b] @ rest"]
    by (simp add: request_head_def)
  show "get32 (request_head ds req b @ rest) 8 = Some req"
    using get32_le32 [of "le32 (of_nat (13 + length (message ds))) @ le32 MAGIC_NUMBER" 8 req "[b] @ rest"]
    by (simp add: request_head_def)
  show "get32 (request_head ds req b @ rest) 12 \<noteq> None" using assms by (simp add: get32_def)
qed

lemma message_end: "ds \<noteq> [] \<Longrightarrow> \<exists>m. message ds = m @ [0]"
proof (induction ds)
  case (Cons d ds)
  then show ?case
  proof (cases "ds = []")
    case False
    then obtain m where "message ds = m @ [0]" using Cons.IH by blast
    then show ?thesis by simp
  qed simp
qed simp

text \<open>A body that arrives in any number of pieces and ends with a zero is in the block afterwards.\<close>

lemma read_loop_ok:
  assumes "concat chunks @ [] = drop off body" and "\<forall>c\<in>set chunks. c \<noteq> []" and "off < length body"
    and "length block = length body" and "take off block = take off body" and "body ! (length body - 1) = 0"
    and "n = length body" and "tot = 13 + length body"
  shows "read_loop n tot chunks block off (13 + off) = Some body"
  using assms(1-5)
proof (induction chunks arbitrary: block off)
  case Nil
  then show ?case by simp
next
  case (Cons c chunks)
  have c: "c \<noteq> []" "drop off body = c @ concat chunks" using Cons.prems(1,2) by auto
  have len: "off + length c + length (concat chunks) = length body"
    using arg_cong [OF c(2), of length] Cons.prems(3) by simp
  have tk: "take n c = c" using len assms(7) by simp
  let ?b = "take off block @ c @ drop (off + length c) block"
  have put: "put_bytes block off c = Some ?b" using len Cons.prems(4) by (simp add: put_bytes_def)
  have lb: "length ?b = length body" using len Cons.prems(3,4) by simp
  have "take (off + length c) body = take off body @ take (length c) (drop off body)" by (rule take_add)
  then have tb: "take (off + length c) ?b = take (off + length c) body"
    using c(2) Cons.prems(3-5) by simp
  show ?case
  proof (cases "concat chunks = []")
    case True
    have l: "off + length c = length body" using len unfolding True by simp
    have "length ?b \<le> off + length c" using lb l by linarith
    then have "?b = take (off + length c) ?b" by (rule take_all [symmetric])
    also have "\<dots> = body" unfolding tb unfolding l by (rule take_all) simp
    finally have "?b = body" .
    moreover have "body[n - 1 := 0] = body" using assms(6,7) list_update_id [of body "n - 1"] by simp
    moreover have "0 < n" using assms(7) Cons.prems(3) by linarith
    moreover have "n - 1 < length body" using assms(7) Cons.prems(3) by linarith
    moreover have "tot \<le> 13 + off + length c" using len True assms(8) by simp
    ultimately show ?thesis using c(1) tk put by (simp add: put_byte_def Let_def)
  next
    case False
    then have "\<not> tot \<le> 13 + off + length c" using len assms(8) by (cases "concat chunks") auto
    moreover have "concat chunks @ [] = drop (off + length c) body"
      using arg_cong [OF c(2), of "drop (length c)"] by (simp add: add.commute)
    moreover have "off + length c < length body" using False len by (cases "concat chunks") auto
    moreover have "\<forall>c\<in>set chunks. c \<noteq> []" using Cons.prems(2) by simp
    ultimately have "read_loop n tot chunks ?b (off + length c) (13 + (off + length c)) = Some body"
      using lb tb by (intro Cons.IH)
    then show ?thesis using c(1) tk put \<open>\<not> tot \<le> 13 + off + length c\<close> by (simp add: Let_def add.assoc)
  qed
qed

lemma sizes:
  assumes "13 + m < 2 ^ 31"
  shows "unat (of_nat (13 + m) - of_nat HEAD_LENGTH :: uint32) = m"
    "sint (of_nat (13 + m) - of_nat HEAD_LENGTH :: uint32) = int m"
    "unat (of_nat (13 + m) :: uint32) = 13 + m" "(of_nat (13 + m) :: uint32) \<noteq> 0"
proof -
  have e: "of_nat (13 + m) - of_nat HEAD_LENGTH = (of_nat m :: uint32)" by (simp add: HEAD_LENGTH_def)
  show u: "unat (of_nat (13 + m) - of_nat HEAD_LENGTH :: uint32) = m"
    unfolding e using assms by (simp add: unat_of_nat)
  have "uint (of_nat m :: uint32) = int m" using u unfolding e by (metis uint_nat)
  moreover have "signed_take_bit 31 (int m) = int m"
  proof (rule signed_take_bit_int_eq_self)
    show "- (2 ^ 31) \<le> int m" by simp
    show "int m < 2 ^ 31" using assms by simp
  qed
  ultimately show "sint (of_nat (13 + m) - of_nat HEAD_LENGTH :: uint32) = int m"
    unfolding e by (simp add: sint_uint)
  show t: "unat (of_nat (13 + m) :: uint32) = 13 + m" using assms unfolding unat_of_nat by simp
  show "(of_nat (13 + m) :: uint32) \<noteq> 0"
  proof
    assume "(of_nat (13 + m) :: uint32) = 0"
    then have "unat (of_nat (13 + m) :: uint32) = 0" by (simp only: unat_0)
    then show False using t by simp
  qed
qed

lemma serv_ok:
  assumes L: "looks_up lookup L" and ds: "domains_ok ds" and size: "13 + length (message ds) < 2 ^ 31"
    and mem: "16 \<le> length fresh_head" "\<forall>n. n \<le> length (fresh n)"
    and chunks: "concat chunks = message ds" "\<forall>c\<in>set chunks. c \<noteq> []"
  shows "\<exists>head'. serv lookup fresh_head fresh (request_head ds req b # chunks) =
    Some (Served False \<lparr>sent = first_reply (request_head ds req b) L ds, missed = misses_of L 0 ds, head_block = head'\<rparr>)"
proof -
  let ?h = "request_head ds req b" and ?m = "length (message ds)"
  let ?buf = "?h @ drop 13 fresh_head"
  have put: "put_bytes fresh_head 0 ?h = Some ?buf" using mem(1) by (simp add: put_bytes_def)
  have long: "4 \<le> length (b # drop 13 fresh_head)" using mem(1) by simp
  note f = head_fields [OF long, where ds = ds and req = req]
  note sz = sizes [OF size]
  obtain m where m: "message ds = m @ [0]" using message_end ds by (auto simp: domains_ok_def)
  have rd: "read_loop ?m (13 + ?m) chunks (take ?m (fresh ?m)) 0 13 = Some (message ds)"
    using read_loop_ok [of chunks 0 "message ds" "take ?m (fresh ?m)" ?m "13 + ?m"] chunks mem(2) m by simp
  obtain head' where a: "tcp_do_search lookup ?buf (message ds) (int ?m) =
      Some \<lparr>sent = first_reply ?buf L ds, missed = misses_of L 0 ds, head_block = head'\<rparr>"
    using tcp_do_search_ok [OF L ds, of ?buf] by auto
  have "first_reply ?buf L ds = first_reply ?h L ds" by (simp add: first_reply_def)
  moreover have hl: "length ?h = HEAD_LENGTH" by (simp add: HEAD_LENGTH_def)
  moreover obtain w where "get32 ?buf 12 = Some w" using f(4) by auto
  ultimately show ?thesis
    using put f(1-3) a rd sz by (simp add: serv_def Let_def HEAD_LENGTH_def)
qed

text \<open>With less than 16 bytes in the header's block the reserved byte is read past its end.\<close>

lemma serv_short_block:
  assumes "length fresh_head < 16" and "length first = HEAD_LENGTH"
  shows "serv lookup fresh_head fresh (first # chunks) = None"
proof (cases "put_bytes fresh_head 0 first")
  case None
  then show ?thesis using assms(2) by (simp add: serv_def)
next
  case (Some buf)
  then have "get32 buf 12 = None" using put_bytes_length [OF Some] assms(1) by (simp add: get32_def)
  then show ?thesis using assms(2) Some
    by (cases "get32 buf 0"; cases "get32 buf 4"; cases "get32 buf 8"; simp add: serv_def)
qed

section \<open>Lookups in the cache\<close>

definition cached :: "Kache \<Rightarrow> int \<Rightarrow> bytes \<Rightarrow> uint32 option" where
  "cached k now d = (case kache_get k (d @ [0]) of
      Some (Some e) \<Rightarrow> if timestamp e + TIME_OUT < now then None else Some (ip e)
    | _ \<Rightarrow> None)"

lemma fresh_lookup_ok:
  assumes "kache_ok k" and "0 \<notin> set d"
  shows "fresh_lookup k now (d @ 0 # r) = Some (cached k now d)"
  using retrieve_home [OF assms] get_home [OF assms, of "[]"]
  by (cases "home k d") (auto simp: fresh_lookup_def cached_def slot_data_def slot_in_def)

lemma kache_looks_up:
  "\<forall>i. kache_ok (caches i) \<Longrightarrow> looks_up (kache_lookup caches clock) (\<lambda>i. cached (caches i) (clock i))"
  by (simp add: looks_up_def kache_lookup_def fresh_lookup_ok)

definition udp_cached :: "Kache \<Rightarrow> int \<Rightarrow> bytes \<Rightarrow> uint32 option" where
  "udp_cached k now d = (if cached k now d = Some CACHE_MISS then None else cached k now d)"

lemma udp_looks_up:
  "\<forall>i. kache_ok (caches i) \<Longrightarrow> looks_up (udp_lookup caches clock) (\<lambda>i. udp_cached (caches i) (clock i))"
  by (simp add: looks_up_def udp_lookup_def udp_cached_def fresh_lookup_ok)

section \<open>Requests over UDP\<close>

lemma udp_turn_ok:
  assumes L: "looks_up lookup L" and ds: "domains_ok ds" and size: "length (message ds) \<le> MAX_UDP_LENGTH"
    and body: "put_bytes readbuf 0 datagram = Some (request_head ds req b @ message ds @ T)"
    and dl: "length datagram \<le> HEAD_LENGTH + MAX_UDP_LENGTH"
  shows "\<exists>buf'. udp_turn lookup readbuf datagram =
    Some (Some \<lparr>sent = first_reply (request_head ds req b) L ds, missed = misses_of L 0 ds, head_block = buf'\<rparr>, buf')"
proof -
  let ?h = "request_head ds req b" and ?m = "length (message ds)"
  have sz: "13 + ?m < 2 ^ 31" using size by (simp add: MAX_UDP_LENGTH_def)
  note s = sizes [OF sz]
  have long: "4 \<le> length (b # message ds @ T)"
    using message_long [OF ds] ds by (cases ds) (auto simp: domains_ok_def)
  note f = head_fields [OF long, where ds = ds and req = req]
  let ?limit = "uint (of_nat (13 + ?m) - of_nat HEAD_LENGTH :: uint32)"
  have limit: "?limit = int (0 + ?m)" using s(1) by (metis uint_nat add_0)
  have "length ?h = HEAD_LENGTH + 4 * 0" by (simp add: HEAD_LENGTH_def)
  from answer_loop_ok [OF L ds this limit, of "[]" T "[]"] obtain G where
    a: "answer_loop lookup ?limit HEAD_LENGTH (?h @ message ds @ T) HEAD_LENGTH 0 0 [] =
      Some (?h @ concat (map le32 (addresses L 0 ds)) @ G @ T, length ds, misses_of L 0 ds)"
    by (auto simp: HEAD_LENGTH_def)
  let ?f = "if misses_of L 0 ds = [] then FIRST_WITHOUT_ERROR else FIRST_WITH_ERROR"
    and ?R = "concat (map le32 (addresses L 0 ds))"
  have hf: "?h[12 := ?f] = take 12 ?h @ [?f]"
    by (subst upd_conv_take_nth_drop) simp_all
  let ?buf = "(?h @ ?R @ G @ T)[12 := ?f]"
  have p: "put_byte (?h @ ?R @ G @ T) (HEAD_LENGTH - 1) ?f = Some ?buf"
    by (simp add: put_byte_def HEAD_LENGTH_def)
  have buf: "?buf = (take 12 ?h @ [?f]) @ ?R @ G @ T" unfolding hf [symmetric] by (simp add: list_update_append)
  have "take (HEAD_LENGTH + length ds * 4) ?buf = first_reply ?h L ds"
    unfolding buf by (simp add: first_reply_def HEAD_LENGTH_def)
  moreover have "HEAD_LENGTH + length ds * 4 \<le> length ?buf" unfolding buf by (simp add: HEAD_LENGTH_def)
  ultimately have "udp_do_search lookup (?h @ message ds @ T) =
      Some (Some \<lparr>sent = first_reply ?h L ds, missed = misses_of L 0 ds, head_block = ?buf\<rparr>)"
    using f(1) s(4) a p by (simp add: udp_do_search_def Let_def)
  then show ?thesis using body dl f(2) by (simp add: udp_turn_def)
qed

lemma answer_loop_misses:
  "answer_loop lookup limit base block cur readcount ipcount misses = Some (b, n, M) \<Longrightarrow>
    take (length misses) M = misses"
proof (induction lookup limit base block cur readcount ipcount misses arbitrary: b n M rule: answer_loop.induct)
  case (1 lookup limit base block cur readcount ipcount misses)
  obtain len result block' where s: "c_strlen (drop cur block) = Some len"
    "lookup ipcount (drop cur block) = Some result"
    "put_bytes block (base + 4 * ipcount) (le32 (case result of None \<Rightarrow> CACHE_MISS | Some a \<Rightarrow> a)) = Some block'"
    using "1.prems" by (subst (asm) answer_loop.simps) (auto simp: Let_def bind_eq_Some_conv split: option.splits)
  define M1 where "M1 = (case result of None \<Rightarrow> misses @ [(take (len + 1) (drop cur block), ipcount)] | Some _ \<Rightarrow> misses)"
  have run: "(if limit \<le> int (readcount + len + 1) then Some (block', ipcount + 1, M1)
     else answer_loop lookup limit base block' (cur + len + 1) (readcount + len + 1) (ipcount + 1) M1) = Some (b, n, M)"
    using "1.prems" s by (subst (asm) answer_loop.simps) (auto simp: Let_def M1_def split: if_splits)
  have "take (length M1) M = M1"
  proof (cases "limit \<le> int (readcount + len + 1)")
    case True
    then show ?thesis using run by simp
  next
    case False
    then show ?thesis using "1.IH" [OF s(1) s(2) refl s(3)] run unfolding M1_def by simp
  qed
  moreover have "take (length misses) M1 = misses" by (simp add: M1_def split: option.split)
  moreover have "length misses \<le> length M1" by (simp add: M1_def split: option.split)
  ultimately show ?case by (metis min.absorb1 take_take)
qed

section \<open>Properties\<close>



text \<open>A connection whose first read does not bring a whole header, or whose header does not carry
  the magic number, is closed without an answer, without allocating the block the header asks for.\<close>

theorem serv_refuses:
  assumes "16 \<le> length fresh_head"
    and "chunks = [] \<or> length (hd chunks) \<noteq> HEAD_LENGTH \<or>
         get32 (hd chunks @ drop 13 fresh_head) 4 \<noteq> Some MAGIC_NUMBER"
  shows "serv lookup fresh_head fresh chunks = Some Refused"
proof (cases chunks)
  case Nil
  then show ?thesis by (simp add: serv_def)
next
  case (Cons first rest)
  show ?thesis
  proof (cases "length first = HEAD_LENGTH")
    case False
    then show ?thesis using Cons by (simp add: serv_def)
  next
    case True
    have put: "put_bytes fresh_head 0 first = Some (first @ drop 13 fresh_head)"
      using True assms(1) by (simp add: put_bytes_def HEAD_LENGTH_def)
    have len: "length (first @ drop 13 fresh_head) = length fresh_head"
      using True assms(1) by (simp add: HEAD_LENGTH_def)
    have get: "\<exists>w. get32 (first @ drop 13 fresh_head) i = Some w" if "i + 4 \<le> 16" for i
      using that assms(1) len by (simp add: get32_def del: length_append)
    obtain w0 w4 w8 w12 where w: "get32 (first @ drop 13 fresh_head) 0 = Some w0"
      "get32 (first @ drop 13 fresh_head) 4 = Some w4" "get32 (first @ drop 13 fresh_head) 8 = Some w8"
      "get32 (first @ drop 13 fresh_head) 12 = Some w12"
      using get [of 0] get [of 4] get [of 8] get [of 12] by auto
    then have "w4 \<noteq> MAGIC_NUMBER" using assms(2) Cons True by simp
    then show ?thesis using Cons True put w by (simp add: serv_def)
  qed
qed

theorem serv_refuses_witness:
  "serv (\<lambda>_ _. None) (replicate 16 0) (\<lambda>n. []) [[1, 2, 3]] = Some Refused"
proof (rule serv_refuses)
  show "16 \<le> length (replicate 16 (0 :: uint8))" by simp
  show "[[1, 2, 3]] = [] \<or> length (hd [[1, 2, 3 :: uint8]]) \<noteq> HEAD_LENGTH \<or>
      get32 (hd [[1, 2, 3]] @ drop 13 (replicate 16 0)) 4 \<noteq> Some MAGIC_NUMBER"
    by (simp add: HEAD_LENGTH_def)
qed

text \<open>C32: Every \<open>read\<close> asks for the whole length of the body again: when the first piece of a body is
  followed by more bytes than are missing, for instance by the start of a second request, the second
  piece is written past the end of the allocated block.\<close>

theorem serv_overruns_block:
  assumes "16 \<le> length fresh_head" and "13 + n < 2 ^ 31" and "length (fresh n) = n"
    and "head = le32 (of_nat (13 + n)) @ le32 MAGIC_NUMBER @ le32 req @ [b]"
    and "c1 \<noteq> []" "length c1 < n" and "length c2 \<le> n" "n < length c1 + length c2"
  shows "serv lookup fresh_head fresh (head # c1 # c2 # chunks) = None"
proof -
  have hl: "length head = HEAD_LENGTH" using assms(4) by (simp add: HEAD_LENGTH_def)
  let ?buf = "head @ drop 13 fresh_head"
  have put: "put_bytes fresh_head 0 head = Some ?buf" using assms(1) hl by (simp add: put_bytes_def HEAD_LENGTH_def)
  have f: "get32 ?buf 0 = Some (of_nat (13 + n))"
    using get32_le32 [of "[]" 0] assms(4) by simp
  have f4: "get32 ?buf 4 = Some MAGIC_NUMBER"
    using get32_le32 [of "le32 (of_nat (13 + n))" 4 MAGIC_NUMBER "le32 req @ [b] @ drop 13 fresh_head"] assms(4) by simp
  have f8: "get32 ?buf 8 = Some req"
    using get32_le32 [of "le32 (of_nat (13 + n)) @ le32 MAGIC_NUMBER" 8 req "[b] @ drop 13 fresh_head"] assms(4) by simp
  obtain w where f12: "get32 ?buf 12 = Some w" using assms(1) hl by (auto simp: get32_def HEAD_LENGTH_def)
  have sz: "unat (of_nat (13 + n) - of_nat HEAD_LENGTH :: uint32) = n" "unat (of_nat (13 + n) :: uint32) = 13 + n"
    using sizes [OF assms(2)] by simp_all
  let ?block = "take n (fresh n)"
  have "put_bytes ?block 0 c1 = Some (c1 @ drop (length c1) ?block)"
    using assms(3,6) by (simp add: put_bytes_def)
  moreover have "put_bytes (c1 @ drop (length c1) ?block) (length c1) c2 = None"
    using assms(3,6,8) by (simp add: put_bytes_def)
  moreover have "c2 \<noteq> []" using assms(6,8) by auto
  ultimately have "read_loop n (13 + n) (c1 # c2 # chunks) ?block 0 HEAD_LENGTH = None"
    using assms(5-7) by (simp add: HEAD_LENGTH_def Let_def)
  then show ?thesis using put f f4 f8 f12 sz hl by (simp add: serv_def Let_def)
qed

theorem serv_overruns_block_witness:
  "serv (\<lambda>_ _. Some None) (replicate 16 0) (\<lambda>n. replicate n 0)
    ((le32 (of_nat (13 + 8)) @ le32 MAGIC_NUMBER @ le32 1 @ [70]) # [0x61, 0x62, 0x63] # [0x64, 0, 0x65, 0x66, 0x67, 0, 1] # []) = None"
  by (rule serv_overruns_block [where n = 8]) simp_all

text \<open>A missed domain of a single character makes the server lose the domain behind it: the four
  bytes of its answer cover the start of the next domain, and the next string looked up, and handed
  to the DNS threads, is the empty one.\<close>

theorem short_domain_hides_next:
  assumes "c \<noteq> 0" and "2 \<le> length d" and "\<And>r. lookup 0 (c # 0 # r) = Some None" and "\<And>r. lookup 1 (0 # r) = Some None"
    and "tcp_do_search lookup head (message [[c], d]) (int (length (message [[c], d]))) = Some a"
  shows "take 2 (missed a) = [([c, 0], 0), ([0], 1)]"
proof -
  let ?block = "message [[c], d]" and ?l = "int (length (message [[c], d]))"
  obtain x y r where d: "d = x # y # r" using assms(2) by (cases d; cases "tl d") auto
  let ?b1 = "[0x7f, 0, 0, 2] @ r @ [0]"
  have p1: "put_bytes ?block 0 (le32 CACHE_MISS) = Some ?b1"
    using d by (simp add: put_bytes_def le32_def CACHE_MISS_def)
  have "c_strlen ?block = Some 1" using assms(1) c_strlen_at [of "[c]"] by simp
  then have s1: "answer_loop lookup ?l 0 ?block 0 0 0 [] = answer_loop lookup ?l 0 ?b1 2 2 1 [([c, 0], 0)]"
    using assms(3) d p1 by (subst answer_loop.simps) (simp add: Let_def numeral_2_eq_2)
  have "c_strlen (drop 2 ?b1) = Some 0" using c_strlen_at [of "[]" "2 # r @ [0]"] by simp
  then have s2: "answer_loop lookup ?l 0 ?b1 2 2 1 [([c, 0], 0)] =
      do { b2 \<leftarrow> put_bytes ?b1 4 (le32 CACHE_MISS); answer_loop lookup ?l 0 b2 3 3 2 [([c, 0], 0), ([0], 1)] }"
    using assms(4) d by (subst answer_loop.simps) (simp add: Let_def numeral_2_eq_2 numeral_3_eq_3)
  obtain block n M where run: "answer_loop lookup ?l 0 ?block 0 0 0 [] = Some (block, n, M)" and a: "missed a = M"
    using assms(5) by (auto simp: tcp_do_search_def bind_eq_Some_conv split: if_splits)
  then obtain b2 where "answer_loop lookup ?l 0 b2 3 3 2 [([c, 0], 0), ([0], 1)] = Some (block, n, M)"
    using run unfolding s1 s2 by (auto simp: bind_eq_Some_conv)
  from answer_loop_misses [OF this] a show ?thesis by (simp add: numeral_2_eq_2)
qed

theorem short_domain_hides_next_witness:
  "\<exists>a. tcp_do_search (\<lambda>i _. Some (if i < 2 then None else Some 0x04030201)) (replicate 16 0)
      (message [[0x61], replicate 17 0x62]) (int (length (message [[0x61 :: uint8], replicate 17 0x62]))) = Some a \<and>
     take 2 (missed a) = [([0x61, 0], 0), ([0], 1)]"
proof -
  let ?m = "message [[0x61 :: uint8], replicate 17 0x62]"
    and ?L = "\<lambda>i _. Some (if i < 2 then None else Some 0x04030201) :: uint32 option option"
  have "tcp_do_search ?L (replicate 16 0) ?m (int (length ?m)) \<noteq> None" by code_simp
  then obtain a where a: "tcp_do_search ?L (replicate 16 0) ?m (int (length ?m)) = Some a" by blast
  have "take 2 (missed a) = [([0x61, 0], 0), ([0], 1)]"
    by (rule short_domain_hides_next [OF _ _ _ _ a]) simp_all
  with a show ?thesis by blast
qed



end
