(* ===== verification/DnsQueue.thy ===== *)
theory DnsQueue
  imports Server
begin

text \<open>
  The queue of domains the DNS threads look up: \<open>dns_thread_t\<close> and the array \<open>dns_array\<close> with its two
  indices (\<open>src/server/server.h\<close>), the part of \<open>do_dns_search\<close> that appends an entry
  (\<open>serv_thread_make.c\<close>, \<open>udp_server.c\<close>) and the part of \<open>thread_main_dns\<close> that takes one
  (\<open>dns_thread_make.c\<close>), each under \<open>dns_array_mutex\<close>. The contract of the queue is the locale
  \<open>bounded_fifo\<close>, interpreted on the array.
\<close>

section \<open>Entries\<close>

definition ARRAYSIZE :: nat where
  "ARRAYSIZE = 5024000"

definition TCP_DNS_REQUEST :: uint8 where
  "TCP_DNS_REQUEST = 1"

definition UDP_DNS_REQUEST :: uint8 where
  "UDP_DNS_REQUEST = 2"

text \<open>
  The blocks \<open>number\<close>, \<open>ipptr\<close>, \<open>mutex\<close>, \<open>headptr\<close> and \<open>miss\<close> of an entry are released together and shared
  by all entries of a request: \<open>request\<close> is the address of the five, or \<open>NULL\<close>.
\<close>

record dns_thread_t =
  sockfd :: int
  request :: "nat option"
  req_index :: uint32
  req_count :: int
  req_total :: int
  domain :: bytes
  tcp_or_udp :: uint8

section \<open>The array\<close>

record dns_ring =
  dns_array :: "nat \<Rightarrow> dns_thread_t"
  iget :: nat
  iput :: nat

text \<open>
  What a thread of the server does next: it goes on, it ends the whole process with \<open>exit(0)\<close>, or
  it leaves defined behaviour.
\<close>

datatype 'a outcome = Next 'a | Exit | Undefined

definition dns_put :: "dns_thread_t \<Rightarrow> dns_ring \<Rightarrow> dns_ring outcome" where
  "dns_put job r =
     (if iput r < ARRAYSIZE
      then let r = r\<lparr>dns_array := (dns_array r)(iput r := job)\<rparr>;
               r = r\<lparr>iput := (if iput r + 1 = ARRAYSIZE then 0 else iput r + 1)\<rparr>
           in if iget r = iput r then Exit else Next r
      else Undefined)"

text \<open>With nothing to take the thread waits, the value \<^term>\<open>Next None\<close>.\<close>

definition dns_get :: "dns_ring \<Rightarrow> (dns_thread_t \<times> dns_ring) option outcome" where
  "dns_get r =
     (if iget r = iput r then Next None
      else if iget r < ARRAYSIZE
           then Next (Some (dns_array r (iget r), r\<lparr>iget := (if iget r + 1 = ARRAYSIZE then 0 else iget r + 1)\<rparr>))
           else Undefined)"

section \<open>A bounded queue\<close>

text \<open>Operations on a queue, and what a sequence of them takes out.\<close>

datatype 'j queue_op = Put 'j | Get

fun run_queue ::
  "('j \<Rightarrow> 's \<Rightarrow> 's outcome) \<Rightarrow> ('s \<Rightarrow> ('j \<times> 's) option outcome) \<Rightarrow> 'j queue_op list \<Rightarrow> 's \<Rightarrow> ('j option list \<times> 's) outcome" where
  "run_queue put get [] q = Next ([], q)"
| "run_queue put get (Put j # ops) q =
     (case put j q of Next q \<Rightarrow> run_queue put get ops q | Exit \<Rightarrow> Exit | Undefined \<Rightarrow> Undefined)"
| "run_queue put get (Get # ops) q =
     (case get q of
        Next p \<Rightarrow>
          (case run_queue put get ops (case p of None \<Rightarrow> q | Some (j, q') \<Rightarrow> q') of
             Next (out, q) \<Rightarrow> Next (map_option fst p # out, q)
           | Exit \<Rightarrow> Exit | Undefined \<Rightarrow> Undefined)
      | Exit \<Rightarrow> Exit | Undefined \<Rightarrow> Undefined)"

text \<open>The queue as a list that must stay shorter than \<open>cap\<close>.\<close>

definition list_put :: "nat \<Rightarrow> 'j \<Rightarrow> 'j list \<Rightarrow> 'j list outcome" where
  "list_put cap j js = (if length js + 1 < cap then Next (js @ [j]) else Exit)"

definition list_get :: "'j list \<Rightarrow> ('j \<times> 'j list) option outcome" where
  "list_get js = Next (case js of [] \<Rightarrow> None | j # js \<Rightarrow> Some (j, js))"

locale bounded_fifo =
  fixes good :: "'s \<Rightarrow> bool"
    and items :: "'s \<Rightarrow> 'j list"
    and put :: "'j \<Rightarrow> 's \<Rightarrow> 's outcome"
    and get :: "'s \<Rightarrow> ('j \<times> 's) option outcome"
    and cap :: nat
  assumes put_room: "good q \<Longrightarrow> length (items q) + 1 < cap \<Longrightarrow> \<exists>q'. put j q = Next q' \<and> good q' \<and> items q' = items q @ [j]"
    and put_full: "good q \<Longrightarrow> cap \<le> length (items q) + 1 \<Longrightarrow> put j q = Exit"
    and get_empty: "good q \<Longrightarrow> items q = [] \<Longrightarrow> get q = Next None"
    and get_first: "good q \<Longrightarrow> items q = j # js \<Longrightarrow> \<exists>q'. get q = Next (Some (j, q')) \<and> good q' \<and> items q' = js"
begin

lemma put_cases:
  assumes "good q"
  obtains q' where "put j q = Next q'" "good q'" "items q' = items q @ [j]" "length (items q) + 1 < cap"
    | "put j q = Exit" "cap \<le> length (items q) + 1"
  using put_room [OF assms] put_full [OF assms] by (meson leI)

lemma get_cases:
  assumes "good q"
  obtains j q' where "get q = Next (Some (j, q'))" "good q'" "items q = j # items q'"
    | "get q = Next None" "items q = []"
  using get_empty [OF assms] get_first [OF assms] by (cases "items q") metis+

lemma run_refines:
  "good q \<Longrightarrow> map_outcome (apsnd items) (run_queue put get ops q) = run_queue (list_put cap) list_get ops (items q)"
proof (induction ops arbitrary: q)
  case (Cons p ops)
  show ?case
  proof (cases p)
    case (Put j)
    show ?thesis using Cons.prems
    proof (cases rule: put_cases [of q j])
      case (1 q')
      then show ?thesis using Put Cons.IH [of q'] by (simp add: list_put_def)
    next
      case 2
      then show ?thesis using Put by (simp add: list_put_def)
    qed
  next
    case Get
    show ?thesis using Cons.prems
    proof (cases rule: get_cases [of q])
      case (1 j q')
      have "list_get (items q) = Next (Some (j, items q'))" using 1(3) by (simp add: list_get_def)
      then show ?thesis using 1 Get Cons.IH [of q', symmetric]
        by (cases "run_queue put get ops q'") auto
    next
      case 2
      have "list_get (items q) = Next None" using 2(2) by (simp add: list_get_def)
      then show ?thesis using 2 Get Cons.IH [of q, symmetric] Cons.prems
        by (cases "run_queue put get ops q") auto
    qed
  qed
qed simp

end

section \<open>The array is a bounded queue\<close>

definition ring_ok :: "dns_ring \<Rightarrow> bool" where
  "ring_ok r \<longleftrightarrow> iget r < ARRAYSIZE \<and> iput r < ARRAYSIZE"

text \<open>The entries between the indices, oldest first.\<close>

definition ring_items :: "dns_ring \<Rightarrow> dns_thread_t list" where
  "ring_items r = map (dns_array r)
     (if iget r \<le> iput r then [iget r..<iput r] else [iget r..<ARRAYSIZE] @ [0..<iput r])"

lemma ring_items_put:
  assumes "ring_ok r" and "n = (if iput r + 1 = ARRAYSIZE then 0 else iput r + 1)" and "iget r \<noteq> n"
  shows "ring_items (r\<lparr>dns_array := (dns_array r)(iput r := job), iput := n\<rparr>) = ring_items r @ [job]"
proof -
  have e: "map ((dns_array r)(iput r := job)) [a..<b] = map (dns_array r) [a..<b]" if "b \<le> iput r \<or> iput r < a" for a b
    using that by (intro map_cong) auto
  consider "iput r + 1 = ARRAYSIZE" "n = 0" "iget r \<le> iput r" "0 < iget r"
    | "n = iput r + 1" "iget r \<le> iput r" | "n = iput r + 1" "iput r + 1 < iget r"
    using assms unfolding ring_ok_def by (cases "iput r + 1 = ARRAYSIZE") force+
  then show ?thesis
  proof cases
    case 1
    then have "[iget r..<ARRAYSIZE] = [iget r..<iput r] @ [iput r]" by (simp flip: 1(1))
    then show ?thesis using 1 e [of "iput r" "iget r"] by (simp add: ring_items_def)
  next
    case 2
    then show ?thesis using e [of "iput r" "iget r"] by (simp add: ring_items_def)
  next
    case 3
    then have "\<not> iget r \<le> n" "\<not> iget r \<le> iput r" by simp_all
    then show ?thesis using 3 e [of "iput r" 0] e [of ARRAYSIZE "iget r"] by (simp add: ring_items_def)
  qed
qed

lemma ring_length:
  "ring_ok r \<Longrightarrow> length (ring_items r) = (if iget r \<le> iput r then iput r - iget r else ARRAYSIZE - iget r + iput r)"
  by (simp add: ring_items_def)

interpretation dq: bounded_fifo ring_ok ring_items dns_put dns_get ARRAYSIZE
proof unfold_locales
  fix q :: dns_ring and job
  assume ok: "ring_ok q"
  let ?n = "if iput q + 1 = ARRAYSIZE then 0 else iput q + 1"
  have put: "dns_put job q = (if iget q = ?n then Exit
      else Next (q\<lparr>dns_array := (dns_array q)(iput q := job), iput := ?n\<rparr>))"
    using ok by (auto simp: dns_put_def ring_ok_def Let_def)
  have full: "iget q = ?n \<longleftrightarrow> ARRAYSIZE \<le> length (ring_items q) + 1"
    using ok unfolding ring_length [OF ok] ring_ok_def by (cases "iput q + 1 = ARRAYSIZE") auto
  show "\<exists>q'. dns_put job q = Next q' \<and> ring_ok q' \<and> ring_items q' = ring_items q @ [job]"
    if "length (ring_items q) + 1 < ARRAYSIZE"
  proof -
    have ne: "iget q \<noteq> ?n" using that full by linarith
    have "ring_ok (q\<lparr>dns_array := (dns_array q)(iput q := job), iput := ?n\<rparr>)" using ok by (auto simp: ring_ok_def)
    then show ?thesis using put ne ring_items_put [OF ok refl ne] by simp
  qed
  show "dns_put job q = Exit" if "ARRAYSIZE \<le> length (ring_items q) + 1" using that full put by simp
next
  fix q :: dns_ring
  assume "ring_ok q" "ring_items q = []"
  then show "dns_get q = Next None"
    by (auto simp: dns_get_def ring_items_def ring_ok_def split: if_splits)
next
  fix q :: dns_ring and j js
  assume ok: "ring_ok q" and items: "ring_items q = j # js"
  let ?n = "if iget q + 1 = ARRAYSIZE then 0 else iget q + 1"
  have ne: "iget q \<noteq> iput q" using items by (auto simp: ring_items_def)
  have "ring_items q = dns_array q (iget q) # ring_items (q\<lparr>iget := ?n\<rparr>)"
  proof (cases "iget q \<le> iput q")
    case True
    then show ?thesis using ok ne by (auto simp: ring_items_def ring_ok_def upt_conv_Cons)
  next
    case False
    then show ?thesis using ok by (auto simp: ring_items_def ring_ok_def upt_conv_Cons)
  qed
  then show "\<exists>q'. dns_get q = Next (Some (j, q')) \<and> ring_ok q' \<and> ring_items q' = js"
    using ok ne items by (auto simp: dns_get_def ring_ok_def)
qed

text \<open>C22: The array with its two indices is a queue: for every sequence of appending and taking, from
  any state of the indices, the entries come out in the order they went in, a thread waits exactly
  when all have been taken, and the process ends when the queue would hold 5024000 entries.\<close>

theorem dns_array_is_fifo:
  assumes "ring_ok r"
  shows "map_outcome (apsnd ring_items) (run_queue dns_put dns_get ops r) =
    run_queue (list_put ARRAYSIZE) list_get ops (ring_items r)"
  by (rule dq.run_refines [OF assms])

theorem dns_array_is_fifo_witness:
  "\<exists>j1 j2 r. ring_ok r \<and> iput r + 1 = ARRAYSIZE \<and>
    (case run_queue dns_put dns_get [Put j1, Put j2, Get, Get, Get] r of
       Next (out, _) \<Rightarrow> out = [Some j1, Some j2, None] | _ \<Rightarrow> False)"
proof -
  let ?j = "\<lambda>n. \<lparr>sockfd = n, request = None, req_index = 0, req_count = 0, req_total = 0, domain = [0], tcp_or_udp = 1\<rparr>"
  let ?r = "\<lparr>dns_array = (\<lambda>_. ?j 0), iget = 5023999, iput = 5023999\<rparr>"
  let ?ops = "[Put (?j 7), Put (?j 8), Get, Get, Get]"
  have ok: "ring_ok ?r" by (simp add: ring_ok_def ARRAYSIZE_def)
  have "ring_items ?r = []" by (simp add: ring_items_def)
  then have "map_outcome (apsnd ring_items) (run_queue dns_put dns_get ?ops ?r) = Next ([Some (?j 7), Some (?j 8), None], [])"
    using dns_array_is_fifo [OF ok, of ?ops] by (simp add: list_put_def list_get_def ARRAYSIZE_def)
  then have "case run_queue dns_put dns_get ?ops ?r of
       Next (out, _) \<Rightarrow> out = [Some (?j 7), Some (?j 8), None] | _ \<Rightarrow> False"
    by (cases "run_queue dns_put dns_get ?ops ?r") auto
  then show ?thesis using ok by (intro exI [of _ "?j 7"] exI [of _ "?j 8"] exI [of _ ?r]) (simp add: ARRAYSIZE_def)
qed

end
