(* ===== verification/DnsThreads.thy ===== *)
theory DnsThreads
  imports DnsQueue "HOL-Library.Multiset"
begin

text \<open>
  The threads that look missed domains up, \<open>thread_main_dns\<close> of \<open>src/server/dns_thread_make.c\<close>, and the two
  \<open>do_dns_search\<close> that hand the domains over. The state of the process is what the threads share, with
  the point each DNS thread has reached; a step lets one thread run up to the next point where
  another one can interfere. Any interleaving of steps is a run.

  \<open>dnsrequest\<close> asks the resolver: its result, like the clock and the success of \<open>writev\<close>, comes with
  the step. \<open>submitted\<close> and \<open>found\<close> record the history for the specification; no step reads them.
\<close>

section \<open>Requests\<close>

definition HAVE_ERROR :: uint8 where
  "HAVE_ERROR = 0"

definition NO_ERROR :: uint8 where
  "NO_ERROR = 1"

text \<open>The blocks the entries of one TCP request share.\<close>

record shared =
  number :: int
  ipptr :: "uint32 list"
  headptr :: bytes
  miss :: uint8

text \<open>The entries \<open>do_dns_search\<close> appends, one for each \<open>dm_node\<close>.\<close>

definition tcp_entry :: "nat \<Rightarrow> int \<Rightarrow> nat \<Rightarrow> nat \<Rightarrow> bytes \<times> nat \<Rightarrow> dns_thread_t" where
  "tcp_entry a fd n i miss_node = \<lparr>sockfd = fd, request = Some a, req_index = of_nat (snd miss_node), req_count = int i,
     req_total = int n, domain = fst miss_node, tcp_or_udp = TCP_DNS_REQUEST\<rparr>"

definition udp_entry :: "bytes \<times> nat \<Rightarrow> dns_thread_t" where
  "udp_entry miss_node = \<lparr>sockfd = -1, request = None, req_index = -1, req_count = -1,
     req_total = -1, domain = fst miss_node, tcp_or_udp = UDP_DNS_REQUEST\<rparr>"

definition tcp_entries :: "nat \<Rightarrow> int \<Rightarrow> (bytes \<times> nat) list \<Rightarrow> dns_thread_t list" where
  "tcp_entries a fd misses = map (\<lambda>i. tcp_entry a fd (length misses) i (misses ! i)) [0..<length misses]"

section \<open>Threads\<close>

text \<open>
  The points of a DNS thread: at the queue; with an entry, before \<open>dnsrequest\<close>; with the result stored,
  before \<open>mutex\<close> is locked; after it is unlocked, before \<open>*number\<close> is read; having read zero, before
  \<open>writev\<close>; after \<open>writev\<close>, before the blocks are released.
\<close>

datatype point =
    Waiting
  | Resolving dns_thread_t
  | Resolved dns_thread_t
  | Counted dns_thread_t
  | Answering dns_thread_t
  | Answered dns_thread_t

record worker =
  point :: point
  missindex :: uint8

text \<open>
  \<open>feeders\<close> are the threads in the loop of a \<open>do_dns_search\<close>, each with the entries it has still to
  append; \<open>seconds\<close> are the messages sent, with request and connection.
\<close>

record process =
  queue :: dns_ring
  blocks :: "nat \<Rightarrow> shared option"
  feeders :: "dns_thread_t list list"
  workers :: "worker list"
  cache :: Kache
  seconds :: "(nat \<times> int \<times> bytes) list"
  closed :: "int list"
  submitted :: "(int \<times> bytes \<times> (bytes \<times> nat) list) list"
  found :: "nat \<Rightarrow> nat \<Rightarrow> uint32 option option"

definition dns_address :: "uint32 option \<Rightarrow> uint32" where
  "dns_address r = (case r of None \<Rightarrow> DNS_ERROR | Some a \<Rightarrow> a)"

text \<open>Running the rest of a thread on a block, which must not have been released.\<close>

definition with_block :: "process \<Rightarrow> dns_thread_t \<Rightarrow> (nat \<Rightarrow> shared \<Rightarrow> 'a outcome) \<Rightarrow> 'a outcome" where
  "with_block s job f =
     (case request job of
        None \<Rightarrow> Undefined
      | Some a \<Rightarrow> (case blocks s a of None \<Rightarrow> Undefined | Some b \<Rightarrow> f a b))"

definition store_result :: "process \<Rightarrow> dns_thread_t \<Rightarrow> uint32 \<Rightarrow> int \<Rightarrow> (Kache \<Rightarrow> 'a outcome) \<Rightarrow> 'a outcome" where
  "store_result s job address now f =
     (case kache_store (cache s) (Some (domain job)) \<lparr>ip = address, timestamp = now\<rparr> of
        None \<Rightarrow> Undefined
      | Some k \<Rightarrow> f k)"

definition resolve :: "dns_thread_t \<Rightarrow> uint32 option \<Rightarrow> int \<Rightarrow> worker \<Rightarrow> process \<Rightarrow> (worker \<times> process) outcome" where
  "resolve job r now w s =
     (if tcp_or_udp job = UDP_DNS_REQUEST
      then store_result s job (dns_address r) now (\<lambda>k. Next (w\<lparr>point := Waiting\<rparr>, s\<lparr>cache := k\<rparr>))
      else with_block s job (\<lambda>a b.
        if 0 \<le> req_count job \<and> 2 * nat (req_count job) + 1 < length (ipptr b)
        then let i = nat (req_count job);
                 b = b\<lparr>ipptr := (ipptr b)[2 * i := req_index job, 2 * i + 1 := dns_address r]\<rparr>;
                 w = (if r = None then w\<lparr>missindex := HAVE_ERROR\<rparr> else w)
             in store_result s job (ipptr b ! (2 * i + 1)) now (\<lambda>k.
                  Next (w\<lparr>point := Resolved job\<rparr>,
                    s\<lparr>cache := k, blocks := (blocks s)(a := Some b), found := (found s)(a := (found s a)(i := Some r))\<rparr>))
        else Undefined))"

definition count_down :: "dns_thread_t \<Rightarrow> worker \<Rightarrow> process \<Rightarrow> (worker \<times> process) outcome" where
  "count_down job w s =
     with_block s job (\<lambda>a b.
       let b = (if HAVE_ERROR = missindex w then b\<lparr>miss := HAVE_ERROR\<rparr> else b);
           b = b\<lparr>number := number b - 1\<rparr>
       in Next (w\<lparr>point := Counted job\<rparr>, s\<lparr>blocks := (blocks s)(a := Some b)\<rparr>))"

definition look_at_number :: "dns_thread_t \<Rightarrow> worker \<Rightarrow> process \<Rightarrow> (worker \<times> process) outcome" where
  "look_at_number job w s =
     with_block s job (\<lambda>a b. Next (w\<lparr>point := (if number b = 0 then Answering job else Waiting)\<rparr>, s))"

definition send_second :: "dns_thread_t \<Rightarrow> bool \<Rightarrow> worker \<Rightarrow> process \<Rightarrow> (worker \<times> process) outcome" where
  "send_second job written w s =
     with_block s job (\<lambda>a b.
       case put_byte (headptr b) (HEAD_LENGTH - 1)
              (if HAVE_ERROR = miss b then SECOND_WITH_ERROR else SECOND_WITHOUT_ERROR) of
         None \<Rightarrow> Undefined
       | Some head \<Rightarrow>
           if length head < HEAD_LENGTH \<or> int (length (ipptr b)) < req_total job * 2 then Undefined
           else if written
           then Next (w\<lparr>point := Answered job\<rparr>, s\<lparr>blocks := (blocks s)(a := Some (b\<lparr>headptr := head\<rparr>)),
                  seconds := seconds s @ [(a, sockfd job,
                    take HEAD_LENGTH head @ concat (map le32 (take (nat (req_total job * 2)) (ipptr b))))]\<rparr>)
           else Exit)"

definition release :: "dns_thread_t \<Rightarrow> worker \<Rightarrow> process \<Rightarrow> (worker \<times> process) outcome" where
  "release job w s =
     with_block s job (\<lambda>a b.
       Next (w\<lparr>point := Waiting\<rparr>, s\<lparr>closed := closed s @ [sockfd job], blocks := (blocks s)(a := None)\<rparr>))"

definition take_entry :: "worker \<Rightarrow> process \<Rightarrow> (worker \<times> process) outcome" where
  "take_entry w s =
     (case dns_get (queue s) of
        Next None \<Rightarrow> Next (w, s)
      | Next (Some (job, q)) \<Rightarrow> Next (w\<lparr>point := Resolving job\<rparr>, s\<lparr>queue := q\<rparr>)
      | Exit \<Rightarrow> Exit
      | Undefined \<Rightarrow> Undefined)"

definition work :: "uint32 option \<Rightarrow> int \<Rightarrow> bool \<Rightarrow> worker \<Rightarrow> process \<Rightarrow> (worker \<times> process) outcome" where
  "work r now written w s =
     (case point w of
        Waiting \<Rightarrow> take_entry w s
      | Resolving job \<Rightarrow> resolve job r now w s
      | Resolved job \<Rightarrow> count_down job w s
      | Counted job \<Rightarrow> look_at_number job w s
      | Answering job \<Rightarrow> send_second job written w s
      | Answered job \<Rightarrow> release job w s)"

section \<open>The process\<close>

text \<open>
  A step: a TCP thread enters \<open>do_dns_search\<close> with a connection, a header, the missed domains and
  whatever the allocator returns for \<open>ipptr\<close>; the UDP thread enters its own; a thread in the loop
  appends its next entry; DNS thread \<open>i\<close> runs. A number that is no thread's is nobody's step.
\<close>

datatype step =
    Tcp_search int bytes "(bytes \<times> nat) list" "uint32 list"
  | Udp_search "(bytes \<times> nat) list"
  | Append nat
  | Work nat "uint32 option" int bool

fun do_step :: "step \<Rightarrow> process \<Rightarrow> process outcome" where
  "do_step (Tcp_search fd head misses fresh) s =
     (let a = length (submitted s);
          b = \<lparr>number = int (length misses), ipptr = take (2 * length misses) fresh, headptr = head, miss = NO_ERROR\<rparr>
      in Next (s\<lparr>blocks := (blocks s)(a := Some b), feeders := feeders s @ [tcp_entries a fd misses],
           submitted := submitted s @ [(fd, head, misses)], found := (found s)(a := (\<lambda>_. None))\<rparr>))"
| "do_step (Udp_search misses) s = Next (s\<lparr>feeders := feeders s @ [map udp_entry misses]\<rparr>)"
| "do_step (Append f) s =
     (if f < length (feeders s)
      then case feeders s ! f of
             [] \<Rightarrow> Next s
           | job # jobs \<Rightarrow>
               (case dns_put job (queue s) of
                  Next q \<Rightarrow> Next (s\<lparr>queue := q, feeders := (feeders s)[f := jobs]\<rparr>)
                | Exit \<Rightarrow> Exit
                | Undefined \<Rightarrow> Undefined)
      else Next s)"
| "do_step (Work i r now written) s =
     (if i < length (workers s)
      then case work r now written (workers s ! i) s of
             Next (w, s) \<Rightarrow> Next (s\<lparr>workers := (workers s)[i := w]\<rparr>)
           | Exit \<Rightarrow> Exit
           | Undefined \<Rightarrow> Undefined
      else Next s)"

fun run_steps :: "step list \<Rightarrow> process \<Rightarrow> process outcome" where
  "run_steps [] s = Next s"
| "run_steps (x # xs) s =
     (case do_step x s of Next s \<Rightarrow> run_steps xs s | Exit \<Rightarrow> Exit | Undefined \<Rightarrow> Undefined)"

text \<open>What \<open>do_search\<close> calls \<open>do_dns_search\<close> with: at least one miss_node, copies of C strings, its header.\<close>

definition misses_ok :: "(bytes \<times> nat) list \<Rightarrow> bool" where
  "misses_ok misses \<longleftrightarrow> misses \<noteq> [] \<and> (\<forall>d\<in>set misses. terminated (fst d))"

fun step_ok :: "step \<Rightarrow> bool" where
  "step_ok (Tcp_search fd head misses fresh) \<longleftrightarrow> misses_ok misses \<and> HEAD_LENGTH \<le> length head \<and> 2 * length misses \<le> length fresh"
| "step_ok (Udp_search misses) \<longleftrightarrow> misses_ok misses"
| "step_ok _ \<longleftrightarrow> True"

text \<open>The process after the start, with \<open>n\<close> DNS threads at the queue.\<close>

definition started :: "nat \<Rightarrow> Kache \<Rightarrow> (nat \<Rightarrow> dns_thread_t) \<Rightarrow> process" where
  "started n k arr = \<lparr>queue = \<lparr>dns_array = arr, iget = 0, iput = 0\<rparr>, blocks = (\<lambda>_. None), feeders = [],
     workers = replicate n \<lparr>point = Waiting, missindex = NO_ERROR\<rparr>, cache = k, seconds = [], closed = [],
     submitted = [], found = (\<lambda>_ _. None)\<rparr>"

inductive reachable :: "nat \<Rightarrow> process \<Rightarrow> bool" for n where
  start: "kache_ok k \<Longrightarrow> reachable n (started n k arr)"
| step: "reachable n s \<Longrightarrow> step_ok x \<Longrightarrow> do_step x s = Next s' \<Longrightarrow> reachable n s'"

section \<open>The entries on their way\<close>

text \<open>
  The invariant speaks of the multiset \<open>J\<close> of the entries in the feeders and in the queue, and of the
  multiset \<open>M\<close> of the DNS threads. An entry is unfilled until its result is stored, and open until it
  has been subtracted from \<open>number\<close>.
\<close>

definition resolving :: "worker \<Rightarrow> dns_thread_t multiset" where
  "resolving w = (case point w of Resolving j \<Rightarrow> {#j#} | _ \<Rightarrow> {#})"

definition resolved :: "worker \<Rightarrow> dns_thread_t multiset" where
  "resolved w = (case point w of Resolved j \<Rightarrow> {#j#} | _ \<Rightarrow> {#})"

definition unfilled :: "dns_thread_t multiset \<Rightarrow> worker multiset \<Rightarrow> nat \<Rightarrow> dns_thread_t multiset" where
  "unfilled J M a = {#j \<in># J + sum_mset (image_mset resolving M). request j = Some a#}"

definition open_jobs :: "dns_thread_t multiset \<Rightarrow> worker multiset \<Rightarrow> nat \<Rightarrow> dns_thread_t multiset" where
  "open_jobs J M a = unfilled J M a + {#j \<in># sum_mset (image_mset resolved M). request j = Some a#}"

lemma resolving_simps [simp]:
  "point w = Waiting \<Longrightarrow> resolving w = {#}" "point w = Resolving j \<Longrightarrow> resolving w = {#j#}"
  "point w = Resolved j \<Longrightarrow> resolving w = {#}" "point w = Counted j \<Longrightarrow> resolving w = {#}"
  "point w = Answering j \<Longrightarrow> resolving w = {#}" "point w = Answered j \<Longrightarrow> resolving w = {#}"
  by (simp_all add: resolving_def)

lemma resolved_simps [simp]:
  "point w = Waiting \<Longrightarrow> resolved w = {#}" "point w = Resolving j \<Longrightarrow> resolved w = {#}"
  "point w = Resolved j \<Longrightarrow> resolved w = {#j#}" "point w = Counted j \<Longrightarrow> resolved w = {#}"
  "point w = Answering j \<Longrightarrow> resolved w = {#}" "point w = Answered j \<Longrightarrow> resolved w = {#}"
  by (simp_all add: resolved_def)

lemma unfilled_simps [simp]:
  "unfilled J (add_mset w M) a = {#j \<in># resolving w. request j = Some a#} + unfilled J M a"
  "unfilled (add_mset j J) M a = (if request j = Some a then add_mset j (unfilled J M a) else unfilled J M a)"
  "unfilled (J + J') M a = {#j \<in># J'. request j = Some a#} + unfilled J M a"
  by (simp_all add: unfilled_def ac_simps)

lemma open_jobs_simps [simp]:
  "open_jobs J (add_mset w M) a = {#j \<in># resolving w + resolved w. request j = Some a#} + open_jobs J M a"
  "open_jobs (add_mset j J) M a = (if request j = Some a then add_mset j (open_jobs J M a) else open_jobs J M a)"
  "open_jobs (J + J') M a = {#j \<in># J'. request j = Some a#} + open_jobs J M a"
  by (simp_all add: open_jobs_def ac_simps)

lemma open_jobs_request: "j \<in># open_jobs J M a \<Longrightarrow> request j = Some a"
  by (auto simp: open_jobs_def unfilled_def)

section \<open>The invariant\<close>

definition answered :: "process \<Rightarrow> nat \<Rightarrow> bool" where
  "answered s a \<longleftrightarrow> (\<exists>fd m. (a, fd, m) \<in> set (seconds s))"

definition entry_ok :: "process \<Rightarrow> dns_thread_t \<Rightarrow> bool" where
  "entry_ok s j \<longleftrightarrow> terminated (domain j) \<and>
     (case request j of
        None \<Rightarrow> tcp_or_udp j = UDP_DNS_REQUEST
      | Some a \<Rightarrow> a < length (submitted s) \<and>
          (case submitted s ! a of (fd, head, misses) \<Rightarrow>
             \<exists>i<length misses. j = tcp_entry a fd (length misses) i (misses ! i)))"

text \<open>What a worker past \<open>dnsrequest\<close> works on.\<close>

definition past :: "worker \<Rightarrow> dns_thread_t \<Rightarrow> bool" where
  "past w j \<longleftrightarrow> point w = Resolved j \<or> point w = Counted j \<or> point w = Answering j \<or> point w = Answered j"

definition entries_ok :: "dns_thread_t multiset \<Rightarrow> worker multiset \<Rightarrow> process \<Rightarrow> bool" where
  "entries_ok J M s \<longleftrightarrow> (\<forall>j\<in>#J. entry_ok s j) \<and>
     (\<forall>w\<in>#M. \<forall>j. (point w = Resolving j \<longrightarrow> entry_ok s j) \<and> (past w j \<longrightarrow> entry_ok s j \<and> request j \<noteq> None))"

text \<open>An entry's result is in its place, and a failure is on record or about to be.\<close>

definition slot_filled :: "process \<Rightarrow> nat \<Rightarrow> shared \<Rightarrow> (bytes \<times> nat) list \<Rightarrow> nat \<Rightarrow> bool" where
  "slot_filled s a b misses i \<longleftrightarrow> (\<exists>r. found s a i = Some r \<and>
     ipptr b ! (2 * i) = of_nat (snd (misses ! i)) \<and> ipptr b ! (2 * i + 1) = dns_address r)"

definition failure_kept :: "worker multiset \<Rightarrow> nat \<Rightarrow> shared \<Rightarrow> bool" where
  "failure_kept M a b \<longleftrightarrow> miss b = HAVE_ERROR \<or>
     (\<exists>w\<in>#M. \<exists>j. point w = Resolved j \<and> request j = Some a \<and> missindex w = HAVE_ERROR)"

definition block_ok :: "dns_thread_t multiset \<Rightarrow> worker multiset \<Rightarrow> process \<Rightarrow> nat \<Rightarrow> bool" where
  "block_ok J M s a \<longleftrightarrow>
     (case submitted s ! a of (fd, head, misses) \<Rightarrow>
       (case blocks s a of
          None \<Rightarrow> open_jobs J M a = {#} \<and> answered s a
        | Some b \<Rightarrow> number b = int (size (open_jobs J M a)) \<and> length (ipptr b) = 2 * length misses \<and>
            HEAD_LENGTH \<le> length (headptr b) \<and> take 12 (headptr b) = take 12 head \<and>
            (\<forall>i<length misses. (\<exists>j\<in>#unfilled J M a. req_count j = int i) \<or> slot_filled s a b misses i) \<and>
            (\<forall>i<length misses. found s a i = Some None \<longrightarrow> failure_kept M a b)))"

text \<open>A thread that has read zero; a request with nothing open has been answered or is in good hands.\<close>

definition late_ok :: "dns_thread_t multiset \<Rightarrow> worker multiset \<Rightarrow> process \<Rightarrow> nat \<Rightarrow> bool" where
  "late_ok J M s a \<longleftrightarrow>
     (\<forall>w\<in>#M. \<forall>j. request j = Some a \<longrightarrow>
        (point w = Answering j \<longrightarrow> open_jobs J M a = {#}) \<and>
        (point w = Answered j \<longrightarrow> open_jobs J M a = {#} \<and> answered s a)) \<and>
     (open_jobs J M a = {#} \<longrightarrow> answered s a \<or>
        (\<exists>w\<in>#M. \<exists>j. request j = Some a \<and> (point w = Counted j \<or> point w = Answering j)))"

text \<open>The message: the header, a flag, and the number and the address of each missed domain.\<close>

definition second_words :: "(nat \<Rightarrow> uint32 option option) \<Rightarrow> (bytes \<times> nat) list \<Rightarrow> uint32 list" where
  "second_words results misses =
     concat (map (\<lambda>i. [of_nat (snd (misses ! i)), dns_address (the (results i))]) [0..<length misses])"

definition second_reply :: "bytes \<Rightarrow> uint8 \<Rightarrow> (nat \<Rightarrow> uint32 option option) \<Rightarrow> (bytes \<times> nat) list \<Rightarrow> bytes" where
  "second_reply head flag results misses = take 12 head @ [flag] @ concat (map le32 (second_words results misses))"

definition reply_ok :: "process \<Rightarrow> nat \<Rightarrow> int \<Rightarrow> bytes \<Rightarrow> bool" where
  "reply_ok s a connection m \<longleftrightarrow> a < length (submitted s) \<and>
     (case submitted s ! a of (fd, head, misses) \<Rightarrow> connection = fd \<and>
       (\<forall>i<length misses. found s a i \<noteq> None) \<and>
       (\<exists>flag\<in>{SECOND_WITH_ERROR, SECOND_WITHOUT_ERROR}.
          ((\<exists>i<length misses. found s a i = Some None) \<longrightarrow> flag = SECOND_WITH_ERROR) \<and>
          m = second_reply head flag (found s a) misses))"

definition replies_ok :: "dns_thread_t multiset \<Rightarrow> worker multiset \<Rightarrow> process \<Rightarrow> bool" where
  "replies_ok J M s \<longleftrightarrow> (\<forall>(a, fd, m)\<in>set (seconds s). open_jobs J M a = {#} \<and> reply_ok s a fd m)"

definition threads_ok :: "dns_thread_t multiset \<Rightarrow> worker multiset \<Rightarrow> process \<Rightarrow> bool" where
  "threads_ok J M s \<longleftrightarrow> entries_ok J M s \<and> (\<forall>a<length (submitted s). block_ok J M s a \<and> late_ok J M s a) \<and> replies_ok J M s"

definition waiting_entries :: "process \<Rightarrow> dns_thread_t multiset" where
  "waiting_entries s = mset (concat (feeders s)) + mset (ring_items (queue s))"

definition process_ok :: "process \<Rightarrow> bool" where
  "process_ok s \<longleftrightarrow> ring_ok (queue s) \<and> kache_ok (cache s) \<and> threads_ok (waiting_entries s) (mset (workers s)) s"

section \<open>Every step keeps the invariant\<close>

lemma with_block_Next:
  assumes "with_block s job f = Next v"
  obtains a b where "request job = Some a" "blocks s a = Some b" "f a b = Next v"
  using assms by (auto simp: with_block_def split: option.splits)

lemma past_simps [simp]:
  "point w = Waiting \<Longrightarrow> past w j \<longleftrightarrow> False" "point w = Resolving k \<Longrightarrow> past w j \<longleftrightarrow> False"
  "point w = Resolved k \<Longrightarrow> past w j \<longleftrightarrow> j = k" "point w = Counted k \<Longrightarrow> past w j \<longleftrightarrow> j = k"
  "point w = Answering k \<Longrightarrow> past w j \<longleftrightarrow> j = k" "point w = Answered k \<Longrightarrow> past w j \<longleftrightarrow> j = k"
  by (auto simp: past_def)

text \<open>The entry a worker has in hand.\<close>

definition worker_ok :: "process \<Rightarrow> worker \<Rightarrow> bool" where
  "worker_ok s w \<longleftrightarrow> (\<forall>j. (point w = Resolving j \<longrightarrow> entry_ok s j) \<and> (past w j \<longrightarrow> entry_ok s j \<and> request j \<noteq> None))"

lemma entries_ok_worker: "entries_ok J M s \<longleftrightarrow> (\<forall>j\<in>#J. entry_ok s j) \<and> (\<forall>w\<in>#M. worker_ok s w)"
  by (simp add: entries_ok_def worker_ok_def)

lemma worker_ok_simps [simp]:
  "point w = Waiting \<Longrightarrow> worker_ok s w" "point w = Resolving k \<Longrightarrow> worker_ok s w \<longleftrightarrow> entry_ok s k"
  "point w = Resolved k \<Longrightarrow> worker_ok s w \<longleftrightarrow> entry_ok s k \<and> request k \<noteq> None"
  "point w = Counted k \<Longrightarrow> worker_ok s w \<longleftrightarrow> entry_ok s k \<and> request k \<noteq> None"
  "point w = Answering k \<Longrightarrow> worker_ok s w \<longleftrightarrow> entry_ok s k \<and> request k \<noteq> None"
  "point w = Answered k \<Longrightarrow> worker_ok s w \<longleftrightarrow> entry_ok s k \<and> request k \<noteq> None"
  by (simp_all add: worker_ok_def)

lemma threads_okD:
  assumes "threads_ok J M s" and "a < length (submitted s)"
  shows "block_ok J M s a" "late_ok J M s a"
  using assms by (auto simp: threads_ok_def)

lemma past_request:
  assumes "threads_ok J (add_mset w M) s" and "past w j"
  obtains a where "request j = Some a" "a < length (submitted s)" "entry_ok s j"
  using assms by (auto simp: threads_ok_def entries_ok_def entry_ok_def)

lemma look_at_number_ok:
  assumes ok: "threads_ok J (add_mset w M) s" and w: "point w = Counted job"
    and run: "look_at_number job w s = Next (w', s')"
  shows "threads_ok J (add_mset w' M) s' \<and> s' = s"
proof -
  obtain a b where b: "request job = Some a" "blocks s a = Some b"
    and n: "Next (w\<lparr>point := (if number b = 0 then Answering job else Waiting)\<rparr>, s) = Next (w', s')"
    using run unfolding look_at_number_def by (rule with_block_Next)
  then have w': "w' = w\<lparr>point := (if number b = 0 then Answering job else Waiting)\<rparr>" and s': "s' = s" by simp_all
  have "past w job" using w by (simp add: past_def)
  with ok obtain a' where "request job = Some a'" and al: "a' < length (submitted s)" by (rule past_request)
  then have al: "a < length (submitted s)" using b(1) by simp
  have jobs: "open_jobs J (add_mset w' M) c = open_jobs J M c" "open_jobs J (add_mset w M) c = open_jobs J M c"
    "unfilled J (add_mset w' M) c = unfilled J M c" "unfilled J (add_mset w M) c = unfilled J M c" for c
    using w w' by simp_all
  have e: "entries_ok J (add_mset w' M) s"
    using ok w w' unfolding threads_ok_def entries_ok_worker by (cases "number b = 0") simp_all
  have r: "replies_ok J (add_mset w' M) s" using ok jobs by (simp add: threads_ok_def replies_ok_def)
  have "block_ok J (add_mset w' M) s c" if "c < length (submitted s)" for c
    using threads_okD(1) [OF ok that] w w' unfolding block_ok_def failure_kept_def jobs by (auto split: prod.splits option.splits)
  moreover have "number b = 0 \<longleftrightarrow> open_jobs J M a = {#}"
    using threads_okD(1) [OF ok al] b(2) unfolding block_ok_def jobs by (auto split: prod.splits)
  then have "late_ok J (add_mset w' M) s c" if "c < length (submitted s)" for c
    using threads_okD(2) [OF ok that] w w' b(1) unfolding late_ok_def jobs by auto
  ultimately show ?thesis using e r s' by (simp add: threads_ok_def)
qed

lemma count_down_ok:
  assumes ok: "threads_ok J (add_mset w M) s" and w: "point w = Resolved job"
    and run: "count_down job w s = Next (w', s')"
  shows "threads_ok J (add_mset w' M) s' \<and> queue s' = queue s \<and> feeders s' = feeders s \<and> workers s' = workers s \<and> cache s' = cache s"
proof -
  obtain a b where b: "request job = Some a" "blocks s a = Some b"
    and n: "Next (w\<lparr>point := Counted job\<rparr>, s\<lparr>blocks := (blocks s)(a := Some ((if HAVE_ERROR = missindex w then b\<lparr>miss := HAVE_ERROR\<rparr> else b)
      \<lparr>number := number (if HAVE_ERROR = missindex w then b\<lparr>miss := HAVE_ERROR\<rparr> else b) - 1\<rparr>))\<rparr>) = Next (w', s')"
    using run unfolding count_down_def Let_def by (rule with_block_Next)
  then have w': "w' = w\<lparr>point := Counted job\<rparr>"
    and s': "s' = s\<lparr>blocks := (blocks s)(a := Some (b\<lparr>miss := (if HAVE_ERROR = missindex w then HAVE_ERROR else miss b), number := number b - 1\<rparr>))\<rparr>"
    by (cases "HAVE_ERROR = missindex w"; simp)+
  have jobs: "open_jobs J (add_mset w' M) c = open_jobs J M c"
    "open_jobs J (add_mset w M) c = (if c = a then add_mset job (open_jobs J M c) else open_jobs J M c)"
    "unfilled J (add_mset w' M) c = unfilled J M c" "unfilled J (add_mset w M) c = unfilled J M c" for c
    using w w' b(1) by simp_all
  have sub: "submitted s' = submitted s" "seconds s' = seconds s" "found s' = found s" "answered s' = answered s"
    using s' by (auto simp: answered_def)
  have eo: "entry_ok s' j = entry_ok s j" for j unfolding entry_ok_def sub ..
  have wo: "worker_ok s' v = worker_ok s v" for v unfolding worker_ok_def eo ..
  have e: "entries_ok J (add_mset w' M) s'" using ok w w' unfolding threads_ok_def entries_ok_worker eo wo by simp
  have r: "replies_ok J (add_mset w' M) s'"
    using ok unfolding threads_ok_def replies_ok_def reply_ok_def sub jobs by (auto split: if_splits)
  have "block_ok J (add_mset w' M) s' c" if "c < length (submitted s)" for c
  proof (cases "c = a")
    case True
    then show ?thesis using threads_okD(1) [OF ok that] b w w' s'
      unfolding block_ok_def failure_kept_def slot_filled_def jobs sub by (auto split: prod.splits)
  next
    case False
    then show ?thesis using threads_okD(1) [OF ok that] b w w' s'
      unfolding block_ok_def failure_kept_def slot_filled_def jobs sub by (auto split: prod.splits option.splits)
  qed
  moreover have "late_ok J (add_mset w' M) s' c" if "c < length (submitted s)" for c
    using threads_okD(2) [OF ok that] w w' b(1) unfolding late_ok_def jobs sub by (auto split: if_splits)
  ultimately show ?thesis using e r s' by (simp add: threads_ok_def sub)
qed

lemma entry_ok_frame:
  assumes "submitted s' = submitted s"
  shows "entry_ok s' = entry_ok s" "worker_ok s' = worker_ok s"
proof -
  show e: "entry_ok s' = entry_ok s" unfolding entry_ok_def assms ..
  show "worker_ok s' = worker_ok s" unfolding worker_ok_def e ..
qed

lemma pairs_concat:
  "length ws = 2 * n \<Longrightarrow> \<forall>i<n. ws ! (2 * i) = x i \<and> ws ! (2 * i + 1) = y i \<Longrightarrow> ws = concat (map (\<lambda>i. [x i, y i]) [0..<n])"
proof (induction n arbitrary: ws)
  case (Suc n)
  let ?us = "take (2 * n) ws"
  have "drop (2 * n) ws = [ws ! (2 * n), ws ! (2 * n + 1)]"
    using Suc.prems(1) by (simp add: Cons_nth_drop_Suc [symmetric])
  then have "ws = ?us @ [x n, y n]" using Suc.prems(2) append_take_drop_id [of "2 * n" ws] by (metis lessI)
  moreover have "?us = concat (map (\<lambda>i. [x i, y i]) [0..<n])"
    using Suc.prems by (intro Suc.IH) simp_all
  ultimately show ?case by simp
qed simp

lemma tcp_entry_simps [simp]:
  "sockfd (tcp_entry a fd n i d) = fd" "request (tcp_entry a fd n i d) = Some a"
  "req_index (tcp_entry a fd n i d) = of_nat (snd d)" "req_count (tcp_entry a fd n i d) = int i"
  "req_total (tcp_entry a fd n i d) = int n" "domain (tcp_entry a fd n i d) = fst d"
  "tcp_or_udp (tcp_entry a fd n i d) = TCP_DNS_REQUEST"
  by (simp_all add: tcp_entry_def)

lemma entry_of:
  assumes "entry_ok s j" and "request j = Some a"
  obtains fd head misses i where "submitted s ! a = (fd, head, misses)" "i < length misses"
    "j = tcp_entry a fd (length misses) i (misses ! i)" "a < length (submitted s)"
  using assms by (auto simp: entry_ok_def split: prod.splits)

lemma second_reply_ok:
  assumes "\<forall>i<length misses. slot_filled s a b misses i" and "length (ipptr b) = 2 * length misses"
    and "HEAD_LENGTH \<le> length h" and "take 12 h = take 12 head"
  shows "take HEAD_LENGTH (h[12 := flag]) @ concat (map le32 (ipptr b)) = second_reply head flag (found s a) misses"
proof -
  have "ipptr b = second_words (found s a) misses"
    unfolding second_words_def using assms(1) by (intro pairs_concat [OF assms(2)]) (auto simp: slot_filled_def)
  moreover have "take 13 (h[12 := flag]) = take 12 h @ [flag]"
    using assms(3) by (subst take_Suc_conv_app_nth [of 12, simplified]) (simp_all add: HEAD_LENGTH_def)
  ultimately show ?thesis using assms(4) by (simp add: second_reply_def HEAD_LENGTH_def)
qed

lemma resolved_open:
  assumes "v \<in># M" and "point v = Resolved j" and "request j = Some a"
  shows "open_jobs J M a \<noteq> {#}"
proof -
  obtain M' where "M = add_mset v M'" using assms(1) by (rule mset_add)
  then show ?thesis using assms(2,3) by simp
qed

lemma send_second_ok:
  assumes ok: "threads_ok J (add_mset w M) s" and w: "point w = Answering job"
    and run: "send_second job written w s = Next (w', s')"
  shows "threads_ok J (add_mset w' M) s' \<and> queue s' = queue s \<and> feeders s' = feeders s \<and> workers s' = workers s \<and> cache s' = cache s"
proof -
  let ?flag = "\<lambda>b. if HAVE_ERROR = miss b then SECOND_WITH_ERROR else SECOND_WITHOUT_ERROR"
  obtain a b where b: "request job = Some a" "blocks s a = Some b"
    and n: "(case put_byte (headptr b) (HEAD_LENGTH - 1) (?flag b) of
         None \<Rightarrow> Undefined
       | Some head \<Rightarrow>
           if length head < HEAD_LENGTH \<or> int (length (ipptr b)) < req_total job * 2 then Undefined
           else if written
           then Next (w\<lparr>point := Answered job\<rparr>, s\<lparr>blocks := (blocks s)(a := Some (b\<lparr>headptr := head\<rparr>)),
                  seconds := seconds s @ [(a, sockfd job,
                    take HEAD_LENGTH head @ concat (map le32 (take (nat (req_total job * 2)) (ipptr b))))]\<rparr>)
           else Exit) = Next (w', s')"
    using run unfolding send_second_def by (rule with_block_Next)
  let ?h = "(headptr b)[12 := ?flag b]"
  have w': "w' = w\<lparr>point := Answered job\<rparr>"
    and s': "s' = s\<lparr>blocks := (blocks s)(a := Some (b\<lparr>headptr := ?h\<rparr>)), seconds := seconds s @ [(a, sockfd job,
                    take HEAD_LENGTH ?h @ concat (map le32 (take (nat (req_total job * 2)) (ipptr b))))]\<rparr>"
    using n by (auto simp: put_byte_def HEAD_LENGTH_def split: if_splits)
  have "worker_ok s w" using ok by (simp add: threads_ok_def entries_ok_worker)
  then have "entry_ok s job" using w by simp
  then obtain fd head misses i where sb: "submitted s ! a = (fd, head, misses)" and
    j: "job = tcp_entry a fd (length misses) i (misses ! i)" and al: "a < length (submitted s)"
    using b(1) by (rule entry_of)
  have jobs: "open_jobs J (add_mset w' M) c = open_jobs J M c" "open_jobs J (add_mset w M) c = open_jobs J M c"
    "unfilled J (add_mset w' M) c = unfilled J M c" "unfilled J (add_mset w M) c = unfilled J M c" for c
    using w w' by simp_all
  have none: "open_jobs J M a = {#}" using threads_okD(2) [OF ok al] b(1) w unfolding late_ok_def jobs by auto
  then have unf: "unfilled J M a = {#}" by (simp add: open_jobs_def)
  have blk: "length (ipptr b) = 2 * length misses" "HEAD_LENGTH \<le> length (headptr b)" "take 12 (headptr b) = take 12 head"
    "\<forall>i<length misses. slot_filled s a b misses i" "\<forall>i<length misses. found s a i = Some None \<longrightarrow> failure_kept (add_mset w M) a b"
    using threads_okD(1) [OF ok al] b(2) unfolding block_ok_def sb jobs unf by auto
  have kept: "failure_kept (add_mset w M) a b \<Longrightarrow> miss b = HAVE_ERROR"
  proof -
    assume f: "failure_kept (add_mset w M) a b"
    have "open_jobs J (add_mset w M) a = {#}" using none unfolding jobs .
    then show ?thesis using f resolved_open unfolding failure_kept_def by blast
  qed
  have sub: "submitted s' = submitted s" "found s' = found s" using s' by auto
  have an: "answered s a \<Longrightarrow> answered s' a" "answered s' a" "c \<noteq> a \<Longrightarrow> answered s' c = answered s c" for c
    using s' by (auto simp: answered_def)
  note eo = entry_ok_frame [OF sub(1)]
  have e: "entries_ok J (add_mset w' M) s'" using ok w w' unfolding threads_ok_def entries_ok_worker eo by simp
  have new: "reply_ok s a (sockfd job) (take HEAD_LENGTH ?h @ concat (map le32 (take (nat (req_total job * 2)) (ipptr b))))"
  proof -
    have t: "take (nat (req_total job * 2)) (ipptr b) = ipptr b" using blk(1) j by simp
    have "take HEAD_LENGTH ?h @ concat (map le32 (ipptr b)) = second_reply head (?flag b) (found s a) misses"
      by (rule second_reply_ok) (use blk in auto)
    moreover have "\<forall>i<length misses. found s a i \<noteq> None" using blk(4) by (auto simp: slot_filled_def)
    moreover have "(\<exists>i<length misses. found s a i = Some None) \<longrightarrow> ?flag b = SECOND_WITH_ERROR" using blk(5) kept by auto
    ultimately show ?thesis unfolding t reply_ok_def sb using al j by auto
  qed
  have ro: "reply_ok s' = reply_ok s" unfolding reply_ok_def sub by (intro ext) simp
  have r: "replies_ok J (add_mset w' M) s'"
    using ok new none s' unfolding threads_ok_def replies_ok_def jobs ro by auto
  have "block_ok J (add_mset w' M) s' c" if "c < length (submitted s)" for c
  proof (cases "c = a")
    case True
    then show ?thesis using threads_okD(1) [OF ok that] b w w' s' blk
      unfolding block_ok_def failure_kept_def slot_filled_def jobs sub by (auto simp: sb)
  next
    case False
    then show ?thesis using threads_okD(1) [OF ok that] b w w' s' an(3) [OF False]
      unfolding block_ok_def failure_kept_def slot_filled_def jobs sub by (auto split: prod.splits option.splits)
  qed
  moreover have "late_ok J (add_mset w' M) s' c" if "c < length (submitted s)" for c
  proof (cases "c = a")
    case True
    then show ?thesis using threads_okD(2) [OF ok that] w w' b(1) an none unfolding late_ok_def jobs by auto
  next
    case False
    then show ?thesis using threads_okD(2) [OF ok that] w w' b(1) an(3) [OF False] unfolding late_ok_def jobs by auto
  qed
  ultimately show ?thesis using e r s' by (simp add: threads_ok_def)
qed

lemma release_ok:
  assumes ok: "threads_ok J (add_mset w M) s" and w: "point w = Answered job"
    and run: "release job w s = Next (w', s')"
  shows "threads_ok J (add_mset w' M) s' \<and> queue s' = queue s \<and> feeders s' = feeders s \<and> workers s' = workers s \<and> cache s' = cache s"
proof -
  obtain a b where b: "request job = Some a" "blocks s a = Some b"
    and n: "Next (w\<lparr>point := Waiting\<rparr>, s\<lparr>closed := closed s @ [sockfd job], blocks := (blocks s)(a := None)\<rparr>) = Next (w', s')"
    using run unfolding release_def by (rule with_block_Next)
  then have w': "w' = w\<lparr>point := Waiting\<rparr>"
    and s': "s' = s\<lparr>closed := closed s @ [sockfd job], blocks := (blocks s)(a := None)\<rparr>" by simp_all
  have "past w job" using w by simp
  with ok obtain a' where "request job = Some a'" and al: "a' < length (submitted s)" by (rule past_request)
  then have al: "a < length (submitted s)" using b(1) by simp
  have jobs: "open_jobs J (add_mset w' M) c = open_jobs J M c" "open_jobs J (add_mset w M) c = open_jobs J M c"
    "unfilled J (add_mset w' M) c = unfilled J M c" "unfilled J (add_mset w M) c = unfilled J M c" for c
    using w w' by simp_all
  have none: "open_jobs J M a = {#}" "answered s a" using threads_okD(2) [OF ok al] b(1) w unfolding late_ok_def jobs by auto
  have sub: "submitted s' = submitted s" "found s' = found s" "seconds s' = seconds s" "answered s' = answered s"
    using s' by (auto simp: answered_def)
  note eo = entry_ok_frame [OF sub(1)]
  have e: "entries_ok J (add_mset w' M) s'" using ok w w' unfolding threads_ok_def entries_ok_worker eo by simp
  have r: "replies_ok J (add_mset w' M) s'" using ok unfolding threads_ok_def replies_ok_def reply_ok_def sub jobs by simp
  have "block_ok J (add_mset w' M) s' c" if "c < length (submitted s)" for c
  proof (cases "c = a")
    case True
    then show ?thesis using none s' unfolding block_ok_def jobs sub by (auto split: prod.splits)
  next
    case False
    then show ?thesis using threads_okD(1) [OF ok that] b w w' s'
      unfolding block_ok_def failure_kept_def slot_filled_def jobs sub by (auto split: prod.splits option.splits)
  qed
  moreover have "late_ok J (add_mset w' M) s' c" if "c < length (submitted s)" for c
  proof (cases "c = a")
    case True
    then show ?thesis using none(2) threads_okD(2) [OF ok that] w w' unfolding late_ok_def jobs sub by auto
  next
    case False
    then show ?thesis using threads_okD(2) [OF ok that] w w' b(1) unfolding late_ok_def jobs sub by auto
  qed
  ultimately show ?thesis using e r s' by (simp add: threads_ok_def)
qed

lemma store_result_ok:
  assumes "kache_ok (cache s)" and "terminated (domain job)"
  shows "\<exists>k. kache_ok k \<and> kache_store (cache s) (Some (domain job)) d = Some k"
proof -
  obtain n e where d: "domain job = n @ 0 # e" "0 \<notin> set n" using terminated_split [OF assms(2)] by blast
  show ?thesis using kache_store_law [OF assms(1) d(2), of e] unfolding d(1) by blast
qed

lemma other_codes: "TCP_DNS_REQUEST \<noteq> UDP_DNS_REQUEST"
  by (simp add: TCP_DNS_REQUEST_def UDP_DNS_REQUEST_def)

lemma resolve_udp_ok:
  assumes ok: "threads_ok J (add_mset w M) s" and w: "point w = Resolving job" and kache: "kache_ok (cache s)"
    and none: "request job = None"
  shows "\<exists>w' s'. resolve job r now w s = Next (w', s') \<and> threads_ok J (add_mset w' M) s' \<and> kache_ok (cache s') \<and>
    queue s' = queue s \<and> feeders s' = feeders s \<and> workers s' = workers s"
proof -
  have "worker_ok s w" using ok by (simp add: threads_ok_def entries_ok_worker)
  then have eo: "entry_ok s job" using w by simp
  then have "terminated (domain job)" "tcp_or_udp job = UDP_DNS_REQUEST" using none by (simp_all add: entry_ok_def)
  moreover obtain k where k: "kache_ok k" "kache_store (cache s) (Some (domain job)) \<lparr>ip = dns_address r, timestamp = now\<rparr> = Some k"
    using store_result_ok [OF kache \<open>terminated (domain job)\<close>] by blast
  ultimately have run: "resolve job r now w s = Next (w\<lparr>point := Waiting\<rparr>, s\<lparr>cache := k\<rparr>)"
    by (simp add: resolve_def store_result_def)
  let ?w = "w\<lparr>point := Waiting\<rparr>" and ?s = "s\<lparr>cache := k\<rparr>"
  have jobs: "open_jobs J (add_mset ?w M) c = open_jobs J M c" "open_jobs J (add_mset w M) c = open_jobs J M c"
    "unfilled J (add_mset ?w M) c = unfilled J M c" "unfilled J (add_mset w M) c = unfilled J M c" for c
    using w none by simp_all
  have sub: "submitted ?s = submitted s" "found ?s = found s" "seconds ?s = seconds s" "answered ?s = answered s" "blocks ?s = blocks s"
    by (auto simp: answered_def)
  note fr = entry_ok_frame [OF sub(1)]
  have "entries_ok J (add_mset ?w M) ?s" using ok w unfolding threads_ok_def entries_ok_worker fr by simp
  moreover have "replies_ok J (add_mset ?w M) ?s" using ok unfolding threads_ok_def replies_ok_def reply_ok_def sub jobs by simp
  moreover have "block_ok J (add_mset ?w M) ?s c" if "c < length (submitted s)" for c
    using threads_okD(1) [OF ok that] w unfolding block_ok_def failure_kept_def slot_filled_def jobs sub
    by (auto split: prod.splits option.splits)
  moreover have "late_ok J (add_mset ?w M) ?s c" if "c < length (submitted s)" for c
    using threads_okD(2) [OF ok that] w unfolding late_ok_def jobs sub by auto
  ultimately have "threads_ok J (add_mset ?w M) ?s" by (simp add: threads_ok_def)
  then show ?thesis using k run by (intro exI [of _ ?w] exI [of _ ?s]) simp
qed

lemma resolve_tcp_ok:
  assumes ok: "threads_ok J (add_mset w M) s" and w: "point w = Resolving job" and kache: "kache_ok (cache s)"
    and req: "request job = Some a"
  shows "\<exists>w' s'. resolve job r now w s = Next (w', s') \<and> threads_ok J (add_mset w' M) s' \<and> kache_ok (cache s') \<and>
    queue s' = queue s \<and> feeders s' = feeders s \<and> workers s' = workers s"
proof -
  have "worker_ok s w" using ok by (simp add: threads_ok_def entries_ok_worker)
  then have eo: "entry_ok s job" using w by simp
  obtain fd head misses i where sb: "submitted s ! a = (fd, head, misses)" and i: "i < length misses" and
    j: "job = tcp_entry a fd (length misses) i (misses ! i)" and al: "a < length (submitted s)"
    using eo req by (rule entry_of)
  have "open_jobs J (add_mset w M) a \<noteq> {#}" using w req by simp
  then obtain b where b: "blocks s a = Some b"
    using threads_okD(1) [OF ok al] unfolding block_ok_def by (auto split: prod.splits option.splits)
  have blk: "number b = int (size (open_jobs J (add_mset w M) a))" "length (ipptr b) = 2 * length misses"
    "HEAD_LENGTH \<le> length (headptr b)" "take 12 (headptr b) = take 12 head"
    "\<forall>i<length misses. (\<exists>j\<in>#unfilled J (add_mset w M) a. req_count j = int i) \<or> slot_filled s a b misses i"
    "\<forall>i<length misses. found s a i = Some None \<longrightarrow> failure_kept (add_mset w M) a b"
    using threads_okD(1) [OF ok al] b unfolding block_ok_def sb by auto
  let ?b = "b\<lparr>ipptr := (ipptr b)[2 * i := of_nat (snd (misses ! i)), 2 * i + 1 := dns_address r]\<rparr>"
  let ?w = "(if r = None then w\<lparr>missindex := HAVE_ERROR\<rparr> else w)\<lparr>point := Resolved job\<rparr>"
  have tu: "tcp_or_udp job \<noteq> UDP_DNS_REQUEST" using j other_codes by simp
  have "terminated (domain job)" using eo by (simp add: entry_ok_def)
  then obtain k where k: "kache_ok k"
    "kache_store (cache s) (Some (domain job)) \<lparr>ip = dns_address r, timestamp = now\<rparr> = Some k"
    using store_result_ok [OF kache] by blast
  let ?s = "s\<lparr>cache := k, blocks := (blocks s)(a := Some ?b), found := (found s)(a := (found s a)(i := Some r))\<rparr>"
  have guard: "0 \<le> req_count job \<and> 2 * nat (req_count job) + 1 < length (ipptr b)" "nat (req_count job) = i"
    "req_index job = of_nat (snd (misses ! i))"
    using i j blk(2) by simp_all
  have run: "resolve job r now w s = Next (?w, ?s)"
    using tu req b guard(1) k(2) i blk(2) unfolding resolve_def with_block_def guard(2,3) Let_def store_result_def
    by (cases r) simp_all
  have jobs: "open_jobs J (add_mset ?w M) c = open_jobs J (add_mset w M) c"
    "unfilled J (add_mset ?w M) c = unfilled J M c"
    "unfilled J (add_mset w M) c = (if c = a then add_mset job (unfilled J M c) else unfilled J M c)" for c
    using w req by simp_all
  have sub: "submitted ?s = submitted s" "seconds ?s = seconds s" "answered ?s = answered s"
    by (auto simp: answered_def)
  note fr = entry_ok_frame [OF sub(1)]
  have busy: "open_jobs J (add_mset w M) a \<noteq> {#}" using w req by simp
  have "entries_ok J (add_mset ?w M) ?s" using ok w eo req unfolding threads_ok_def entries_ok_worker fr by simp
  moreover have "replies_ok J (add_mset ?w M) ?s"
    unfolding replies_ok_def sub jobs
  proof (intro ballI, clarify)
    fix c fd' m
    assume "(c, fd', m) \<in> set (seconds s)"
    then have o: "open_jobs J (add_mset w M) c = {#}" "reply_ok s c fd' m"
      using ok by (auto simp: threads_ok_def replies_ok_def)
    then have "c \<noteq> a" using busy by auto
    then show "open_jobs J (add_mset w M) c = {#} \<and> reply_ok ?s c fd' m" using o by (simp add: reply_ok_def)
  qed
  moreover have "block_ok J (add_mset ?w M) ?s c" if "c < length (submitted s)" for c
  proof (cases "c = a")
    case True
    have "slot_filled ?s a ?b misses i" using i blk(2) by (simp add: slot_filled_def)
    moreover have "slot_filled ?s a ?b misses x" if "slot_filled s a b misses x" "x \<noteq> i" for x
    proof -
      have "2 * x \<noteq> 2 * i" "2 * x \<noteq> 2 * i + 1" "2 * x + 1 \<noteq> 2 * i" "2 * x + 1 \<noteq> 2 * i + 1" using that(2) by presburger+
      then show ?thesis using that by (simp add: slot_filled_def)
    qed
    ultimately have f: "\<forall>x<length misses. (\<exists>j\<in>#unfilled J M a. req_count j = int x) \<or> slot_filled ?s a ?b misses x"
      using blk(5) j unfolding jobs by fastforce
    have miss: "failure_kept (add_mset ?w M) a ?b" if "failure_kept (add_mset w M) a b \<or> r = None"
      using that w req by (auto simp: failure_kept_def)
    have "\<forall>x<length misses. found ?s a x = Some None \<longrightarrow> failure_kept (add_mset ?w M) a ?b"
      using blk(6) miss by auto
    then show ?thesis using f blk(1-4) unfolding True block_ok_def sub sb jobs by simp
  next
    case False
    then show ?thesis using threads_okD(1) [OF ok that] w req
      unfolding block_ok_def failure_kept_def slot_filled_def jobs sub by (auto split: prod.splits option.splits)
  qed
  moreover have "late_ok J (add_mset ?w M) ?s c" if "c < length (submitted s)" for c
    using threads_okD(2) [OF ok that] w unfolding late_ok_def jobs sub by auto
  ultimately have "threads_ok J (add_mset ?w M) ?s" unfolding threads_ok_def sub by blast
  then show ?thesis using run k(1) by (intro exI [of _ ?w] exI [of _ ?s]) simp
qed

lemma threads_ok_same:
  assumes "submitted s' = submitted s" "blocks s' = blocks s" "found s' = found s" "seconds s' = seconds s"
  shows "threads_ok J M s' = threads_ok J M s"
  unfolding threads_ok_def entries_ok_def entry_ok_def block_ok_def late_ok_def replies_ok_def reply_ok_def
    slot_filled_def failure_kept_def answered_def assms ..

lemma threads_ok_frame [simp]:
  "threads_ok J M (s\<lparr>workers := ws\<rparr>) = threads_ok J M s"
  "threads_ok J M (s\<lparr>queue := q\<rparr>) = threads_ok J M s"
  "threads_ok J M (s\<lparr>feeders := fs\<rparr>) = threads_ok J M s"
  by (rule threads_ok_same; simp)+

lemma take_entry_ok:
  assumes ok: "threads_ok (add_mset job J) (add_mset w M) s" and w: "point w = Waiting"
  shows "threads_ok J (add_mset (w\<lparr>point := Resolving job\<rparr>) M) s"
proof -
  let ?w = "w\<lparr>point := Resolving job\<rparr>"
  have jobs: "open_jobs J (add_mset ?w M) c = open_jobs (add_mset job J) (add_mset w M) c"
    "unfilled J (add_mset ?w M) c = unfilled (add_mset job J) (add_mset w M) c" for c
    using w by simp_all
  have "entries_ok J (add_mset ?w M) s" using ok w unfolding threads_ok_def entries_ok_worker by simp
  moreover have "replies_ok J (add_mset ?w M) s" using ok unfolding threads_ok_def replies_ok_def jobs by simp
  moreover have "block_ok J (add_mset ?w M) s c" if "c < length (submitted s)" for c
    using threads_okD(1) [OF ok that] w unfolding block_ok_def failure_kept_def jobs by (auto split: prod.splits option.splits)
  moreover have "late_ok J (add_mset ?w M) s c" if "c < length (submitted s)" for c
    using threads_okD(2) [OF ok that] w unfolding late_ok_def jobs by auto
  ultimately show ?thesis by (simp add: threads_ok_def)
qed

lemma resolve_ok:
  assumes "threads_ok J (add_mset w M) s" and "point w = Resolving job" and "kache_ok (cache s)"
  shows "\<exists>w' s'. resolve job r now w s = Next (w', s') \<and> threads_ok J (add_mset w' M) s' \<and> kache_ok (cache s') \<and>
    queue s' = queue s \<and> feeders s' = feeders s \<and> workers s' = workers s"
  by (cases "request job") (rule resolve_udp_ok [OF assms] resolve_tcp_ok [OF assms], assumption)+

lemma mset_replace: "i < length xs \<Longrightarrow> \<exists>M. mset xs = add_mset (xs ! i) M \<and> (\<forall>y. mset (xs[i := y]) = add_mset y M)"
  by (intro exI [of _ "mset xs - {#xs ! i#}"]) (simp add: mset_update)

lemma mset_concat_replace: "f < length xs \<Longrightarrow> xs ! f = x # ys \<Longrightarrow> mset (concat xs) = add_mset x (mset (concat (xs[f := ys])))"
proof (induction xs arbitrary: f)
  case (Cons z zs)
  then show ?case by (cases f) simp_all
qed simp

lemma work_ok:
  assumes ok: "process_ok s" and i: "i < length (workers s)"
    and run: "work r now written (workers s ! i) s = Next (w', s')"
  shows "process_ok (s'\<lparr>workers := (workers s)[i := w']\<rparr>) \<and> workers s' = workers s"
proof -
  let ?w = "workers s ! i" and ?J = "waiting_entries s"
  obtain M where M: "mset (workers s) = add_mset ?w M" "\<And>y. mset ((workers s)[i := y]) = add_mset y M"
    using mset_replace [OF i] by blast
  have t: "threads_ok ?J (add_mset ?w M) s" and q: "ring_ok (queue s)" "kache_ok (cache s)"
    using ok M(1) by (simp_all add: process_ok_def)
  have fin: "process_ok (s'\<lparr>workers := (workers s)[i := w']\<rparr>) \<and> workers s' = workers s"
    if "threads_ok ?J (add_mset w' M) s'" "queue s' = queue s" "feeders s' = feeders s" "kache_ok (cache s')" "workers s' = workers s"
    using that M(2) q by (simp add: process_ok_def waiting_entries_def)
  show ?thesis
  proof (cases "point ?w")
    case Waiting
    show ?thesis
    proof (cases rule: dq.get_cases [OF q(1)])
      case (1 job q')
      then have e: "w' = ?w\<lparr>point := Resolving job\<rparr>" "s' = s\<lparr>queue := q'\<rparr>"
        using run Waiting by (simp_all add: work_def take_entry_def)
      have "?J = add_mset job (mset (concat (feeders s)) + mset (ring_items q'))"
        using 1(3) by (simp add: waiting_entries_def)
      then have "threads_ok (mset (concat (feeders s)) + mset (ring_items q')) (add_mset w' M) s"
        using t take_entry_ok Waiting unfolding e by simp
      then show ?thesis using M(2) q 1(2) unfolding e(2) by (simp add: process_ok_def waiting_entries_def)
    next
      case 2
      then have "w' = ?w" "s' = s" using run Waiting by (auto simp: work_def take_entry_def)
      then show ?thesis using ok by simp
    qed
  next
    case (Resolving job)
    then have "resolve job r now ?w s = Next (w', s')" using run by (simp add: work_def)
    then have n: "threads_ok ?J (add_mset w' M) s' \<and> kache_ok (cache s') \<and> queue s' = queue s \<and> feeders s' = feeders s \<and> workers s' = workers s"
      using resolve_ok [OF t Resolving q(2), of r now] by auto
    show ?thesis by (rule fin) (use n in simp_all)
  next
    case (Resolved job)
    then have "count_down job ?w s = Next (w', s')" using run by (simp add: work_def)
    note n = count_down_ok [OF t Resolved this]
    show ?thesis by (rule fin) (use n q(2) in simp_all)
  next
    case (Counted job)
    then have "look_at_number job ?w s = Next (w', s')" using run by (simp add: work_def)
    then have n: "threads_ok ?J (add_mset w' M) s' \<and> s' = s" by (rule look_at_number_ok [OF t Counted])
    show ?thesis by (rule fin) (use n q(2) in auto)
  next
    case (Answering job)
    then have "send_second job written ?w s = Next (w', s')" using run by (simp add: work_def)
    note n = send_second_ok [OF t Answering this]
    show ?thesis by (rule fin) (use n q(2) in simp_all)
  next
    case (Answered job)
    then have "release job ?w s = Next (w', s')" using run by (simp add: work_def)
    note n = release_ok [OF t Answered this]
    show ?thesis by (rule fin) (use n q(2) in simp_all)
  qed
qed

lemma entry_ok_submitted:
  "entry_ok s j \<Longrightarrow> submitted s' = submitted s @ x \<Longrightarrow> entry_ok s' j"
  by (auto simp: entry_ok_def nth_append split: option.splits)

lemma worker_ok_submitted:
  "worker_ok s w \<Longrightarrow> submitted s' = submitted s @ x \<Longrightarrow> worker_ok s' w"
  by (auto simp: worker_ok_def intro: entry_ok_submitted)

lemma set_resolving: "j \<in># sum_mset (image_mset resolving M) \<longleftrightarrow> (\<exists>w\<in>#M. point w = Resolving j)"
  by (induction M) (auto simp: resolving_def split: point.splits)

lemma set_resolved: "j \<in># sum_mset (image_mset resolved M) \<longleftrightarrow> (\<exists>w\<in>#M. point w = Resolved j)"
  by (induction M) (auto simp: resolved_def split: point.splits)

lemma open_jobs_new:
  assumes "entries_ok J M s" and "a = length (submitted s)"
  shows "open_jobs J M a = {#}" "unfilled J M a = {#}"
proof -
  have "request j \<noteq> Some a" if "entry_ok s j" for j using that assms(2) by (auto simp: entry_ok_def)
  then have "request j \<noteq> Some a" if "j \<in># J \<or> j \<in># sum_mset (image_mset resolving M) \<or> j \<in># sum_mset (image_mset resolved M)" for j
    using that assms(1) unfolding set_resolving set_resolved entries_ok_def past_def by auto
  then show "open_jobs J M a = {#}" "unfilled J M a = {#}"
    unfolding open_jobs_def unfilled_def set_mset_eq_empty_iff [symmetric] by auto
qed

lemma append_ok:
  assumes ok: "process_ok s" and run: "do_step (Append f) s = Next s'"
  shows "process_ok s'"
proof (cases "f < length (feeders s) \<and> feeders s ! f \<noteq> []")
  case False
  then have "s' = s" using run by (auto split: if_splits list.splits)
  then show ?thesis using ok by simp
next
  case True
  then obtain job jobs where f: "f < length (feeders s)" "feeders s ! f = job # jobs" by (meson neq_Nil_conv)
  have q: "ring_ok (queue s)" using ok by (simp add: process_ok_def)
  show ?thesis
  proof (cases rule: dq.put_cases [OF q, of job])
    case (1 q')
    then have s': "s' = s\<lparr>queue := q', feeders := (feeders s)[f := jobs]\<rparr>" using run f by simp
    have "waiting_entries s' = waiting_entries s"
      using mset_concat_replace [OF f] 1(3) unfolding s' by (simp add: waiting_entries_def)
    then show ?thesis using ok 1(2) unfolding process_ok_def s' by simp
  next
    case 2
    then show ?thesis using run f by simp
  qed
qed

lemma new_entries:
  assumes "open_jobs J M a = {#}" and "size J' = n" and "\<forall>j\<in>#J'. request j = Some a"
  shows "size (open_jobs (J + J') M a) = n" "\<And>j. j \<in># J' \<Longrightarrow> j \<in># unfilled (J + J') M a"
proof -
  have "{#j \<in># J'. request j = Some a#} = J'" using assms(3) by (simp add: filter_mset_eq_conv)
  then show "size (open_jobs (J + J') M a) = n" using assms(1,2) by simp
  show "\<And>j. j \<in># J' \<Longrightarrow> j \<in># unfilled (J + J') M a" using assms(3) by simp
qed

lemma other_entries:
  assumes "\<forall>j\<in>#J'. request j \<noteq> Some a"
  shows "open_jobs (J + J') M a = open_jobs J M a" "unfilled (J + J') M a = unfilled J M a"
proof -
  have "{#j \<in># J'. request j = Some a#} = {#}"
    unfolding set_mset_eq_empty_iff [symmetric] using assms by auto
  then show "open_jobs (J + J') M a = open_jobs J M a" "unfilled (J + J') M a = unfilled J M a" by simp_all
qed

lemma tcp_search_ok:
  assumes ok: "process_ok s" and x: "step_ok (Tcp_search fd head misses fresh)"
    and run: "do_step (Tcp_search fd head misses fresh) s = Next s'"
  shows "process_ok s'"
proof -
  let ?a = "length (submitted s)" and ?J = "waiting_entries s" and ?M = "mset (workers s)"
    and ?b = "\<lparr>number = int (length misses), ipptr = take (2 * length misses) fresh, headptr = head, miss = NO_ERROR\<rparr>"
    and ?new = "mset (tcp_entries (length (submitted s)) fd misses)"
  have s': "s' = s\<lparr>blocks := (blocks s)(?a := Some ?b), feeders := feeders s @ [tcp_entries ?a fd misses],
       submitted := submitted s @ [(fd, head, misses)], found := (found s)(?a := (\<lambda>_. None))\<rparr>"
    using run by (simp add: Let_def)
  have t: "threads_ok ?J ?M s" using ok by (simp add: process_ok_def)
  have m: "misses \<noteq> []" "\<forall>d\<in>set misses. terminated (fst d)" "HEAD_LENGTH \<le> length head" "2 * length misses \<le> length fresh"
    using x by (simp_all add: misses_ok_def)
  have sub: "submitted s' = submitted s @ [(fd, head, misses)]" using s' by simp
  have new: "j \<in># ?new \<longleftrightarrow> (\<exists>i<length misses. j = tcp_entry ?a fd (length misses) i (misses ! i))" for j
    by (auto simp: tcp_entries_def)
  have eo: "entry_ok s' j" if "j \<in># ?new" for j
    using that m(2) unfolding new entry_ok_def sub by (auto simp: nth_append)
  have en: "entries_ok ?J ?M s" using t by (simp add: threads_ok_def)
  note none = open_jobs_new [OF en refl]
  have "entries_ok (?J + ?new) ?M s'"
    using en eo entry_ok_submitted [OF _ sub] worker_ok_submitted [OF _ sub] unfolding entries_ok_worker by auto
  moreover have old: "open_jobs (?J + ?new) ?M c = open_jobs ?J ?M c" "unfilled (?J + ?new) ?M c = unfilled ?J ?M c"
    "blocks s' c = blocks s c" "found s' c = found s c" "submitted s' ! c = submitted s ! c"
    if "c < ?a" for c
  proof -
    have "\<forall>j\<in>#?new. request j \<noteq> Some c" using that unfolding Ball_def new by auto
    then show "open_jobs (?J + ?new) ?M c = open_jobs ?J ?M c" "unfilled (?J + ?new) ?M c = unfilled ?J ?M c"
      by (rule other_entries)+
  qed (use that in \<open>simp_all add: s' nth_append\<close>)
  have an: "answered s' = answered s" using s' by (simp add: answered_def fun_eq_iff)
  have "block_ok (?J + ?new) ?M s' c \<and> late_ok (?J + ?new) ?M s' c" if "c < ?a" for c
    using threads_okD [OF t that] unfolding block_ok_def late_ok_def slot_filled_def old [OF that] an by (rule conjI)
  moreover have "block_ok (?J + ?new) ?M s' ?a"
  proof -
    have n: "size ?new = length misses" "\<forall>j\<in>#?new. request j = Some ?a" 
      by (simp add: tcp_entries_def) (use new in auto)
    note ne = new_entries [OF none(1) n]
    have "\<exists>j\<in>#unfilled (?J + ?new) ?M ?a. req_count j = int i" if "i < length misses" for i
    proof
      show "tcp_entry ?a fd (length misses) i (misses ! i) \<in># unfilled (?J + ?new) ?M ?a" using that ne(2) new by blast
    qed simp
    then show ?thesis using m(3,4) ne(1) unfolding block_ok_def sub s' by simp
  qed
  moreover have "late_ok (?J + ?new) ?M s' ?a"
  proof -
    have "tcp_entry ?a fd (length misses) 0 (misses ! 0) \<in># ?new" using m(1) unfolding new by (intro exI [of _ 0]) simp
    then have "open_jobs (?J + ?new) ?M ?a \<noteq> {#}" by auto
    moreover have "request j \<noteq> Some ?a" if "w \<in># ?M" "past w j" for w j
    proof -
      have "entry_ok s j" using en that unfolding entries_ok_def by blast
      then show ?thesis by (auto simp: entry_ok_def)
    qed
    ultimately show ?thesis unfolding late_ok_def past_def by metis
  qed
  moreover have "replies_ok (?J + ?new) ?M s'"
    unfolding replies_ok_def
  proof (intro ballI, clarify)
    fix c fd' r
    assume "(c, fd', r) \<in> set (seconds s')"
    then have o: "open_jobs ?J ?M c = {#}" "reply_ok s c fd' r" using t by (auto simp: threads_ok_def replies_ok_def s')
    then have "c < ?a" by (simp add: reply_ok_def)
    then have len: "c < length (submitted s') \<longleftrightarrow> c < length (submitted s)" by (simp add: sub)
    show "open_jobs (?J + ?new) ?M c = {#} \<and> reply_ok s' c fd' r"
      using o unfolding reply_ok_def old [OF \<open>c < ?a\<close>] len by (rule conjI)
  qed
  ultimately have "threads_ok (?J + ?new) ?M s'" unfolding threads_ok_def sub by (auto simp: less_Suc_eq)
  moreover have "waiting_entries s' = ?J + ?new" "workers s' = workers s" "queue s' = queue s" "cache s' = cache s"
    by (simp_all add: s' waiting_entries_def)
  ultimately show ?thesis using ok by (simp add: process_ok_def)
qed

lemma udp_search_ok:
  assumes ok: "process_ok s" and x: "step_ok (Udp_search misses)" and run: "do_step (Udp_search misses) s = Next s'"
  shows "process_ok s'"
proof -
  let ?J = "waiting_entries s" and ?M = "mset (workers s)" and ?new = "mset (map udp_entry misses)"
  have s': "s' = s\<lparr>feeders := feeders s @ [map udp_entry misses]\<rparr>" using run by simp
  have t: "threads_ok ?J ?M s" using ok by (simp add: process_ok_def)
  have new: "entry_ok s j \<and> request j = None" if "j \<in># ?new" for j
    using that x by (auto simp: misses_ok_def entry_ok_def udp_entry_def)
  then have jobs: "open_jobs (?J + ?new) ?M c = open_jobs ?J ?M c" "unfilled (?J + ?new) ?M c = unfilled ?J ?M c" for c
    by (intro other_entries; simp)+
  have "threads_ok (?J + ?new) ?M s"
    using t new unfolding threads_ok_def entries_ok_worker block_ok_def late_ok_def replies_ok_def jobs by auto
  moreover have "waiting_entries s' = ?J + ?new" by (simp add: s' waiting_entries_def)
  ultimately show ?thesis using ok unfolding process_ok_def s' by simp
qed

lemma do_step_ok:
  assumes ok: "process_ok s" and x: "step_ok x" and run: "do_step x s = Next s'"
  shows "process_ok s'"
proof (cases x)
  case (Tcp_search fd head misses fresh)
  then show ?thesis using assms tcp_search_ok by blast
next
  case (Udp_search misses)
  then show ?thesis using assms udp_search_ok by blast
next
  case (Append f)
  then show ?thesis using assms append_ok by blast
next
  case (Work i r now written)
  show ?thesis
  proof (cases "i < length (workers s)")
    case True
    then obtain w s1 where w: "work r now written (workers s ! i) s = Next (w, s1)"
      and s': "s' = s1\<lparr>workers := (workers s1)[i := w]\<rparr>"
      using run Work by (auto split: outcome.splits)
    then show ?thesis using work_ok [OF ok True w] by simp
  qed (use ok run Work in simp)
qed

lemma started_ok: "kache_ok k \<Longrightarrow> process_ok (started n k arr)"
  by (simp add: process_ok_def started_def ring_ok_def ARRAYSIZE_def waiting_entries_def ring_items_def
      threads_ok_def entries_ok_worker replies_ok_def)

lemma reachable_ok: "reachable n s \<Longrightarrow> process_ok s"
  by (induction rule: reachable.induct) (auto intro: started_ok do_step_ok)

section \<open>One DNS thread\<close>

text \<open>With a single thread a block is released only by the thread that answered it, and nobody else looks at it.\<close>

definition alone_ok :: "process \<Rightarrow> bool" where
  "alone_ok s \<longleftrightarrow> distinct (map fst (seconds s)) \<and>
     (\<exists>w. workers s = [w] \<and> (\<forall>j a. request j = Some a \<longrightarrow>
        (point w = Counted j \<or> point w = Answering j \<longrightarrow> blocks s a \<noteq> None \<and> \<not> answered s a) \<and>
        (point w = Answered j \<longrightarrow> blocks s a \<noteq> None)))"

lemma answered_seconds: "answered s a \<longleftrightarrow> a \<in> fst ` set (seconds s)"
  by (force simp: answered_def)

lemma block_released: "block_ok J M s a \<Longrightarrow> blocks s a = None \<Longrightarrow> open_jobs J M a = {#} \<and> answered s a"
  by (simp add: block_ok_def split: prod.splits)

lemma process_okD:
  assumes "process_ok s" and "i < length (workers s)"
  obtains M where "threads_ok (waiting_entries s) (add_mset (workers s ! i) M) s"
  using assms mset_replace [OF assms(2)] by (auto simp: process_ok_def)

lemma worker_job:
  assumes "process_ok s" and "i < length (workers s)" and "past (workers s ! i) job"
  obtains a where "request job = Some a" "a < length (submitted s)" "entry_ok s job"
proof -
  obtain M where "threads_ok (waiting_entries s) (add_mset (workers s ! i) M) s" using process_okD [OF assms(1,2)] .
  then show ?thesis using assms(3) past_request that by blast
qed

lemma resolved_block:
  assumes ok: "process_ok s" and i: "i < length (workers s)" and w: "point (workers s ! i) = Resolved job" and a: "request job = Some a"
  shows "blocks s a \<noteq> None" "\<not> answered s a"
proof -
  obtain M where t: "threads_ok (waiting_entries s) (add_mset (workers s ! i) M) s" using process_okD [OF ok i] .
  have busy: "open_jobs (waiting_entries s) (add_mset (workers s ! i) M) a \<noteq> {#}" using w a by simp
  have "past (workers s ! i) job" using w by simp
  then obtain a' where "request job = Some a'" "a' < length (submitted s)" using worker_job [OF ok i] by metis
  then have "a < length (submitted s)" using a by simp
  then show "blocks s a \<noteq> None" using threads_okD(1) [OF t, of a] block_released busy by blast
  show "\<not> answered s a" using t busy by (auto simp: threads_ok_def replies_ok_def answered_def)
qed

lemma work_defined:
  assumes ok: "process_ok s" and i: "i < length (workers s)"
    and live: "\<And>j a. point (workers s ! i) = Counted j \<or> point (workers s ! i) = Answering j \<or> point (workers s ! i) = Answered j \<Longrightarrow>
      request j = Some a \<Longrightarrow> blocks s a \<noteq> None"
  shows "work r now written (workers s ! i) s \<noteq> Undefined"
proof -
  let ?w = "workers s ! i"
  obtain M where t: "threads_ok (waiting_entries s) (add_mset ?w M) s" using process_okD [OF ok i] .
  have q: "ring_ok (queue s)" "kache_ok (cache s)" using ok by (simp_all add: process_ok_def)
  show ?thesis
  proof (cases "point ?w")
    case Waiting
    show ?thesis by (cases rule: dq.get_cases [OF q(1)]) (simp_all add: work_def take_entry_def Waiting)
  next
    case (Resolving job)
    then show ?thesis using resolve_ok [OF t Resolving q(2), of r now] by (auto simp: work_def)
  next
    case (Resolved job)
    then have "past ?w job" by simp
    then obtain a where a: "request job = Some a" using worker_job [OF ok i] by metis
    then show ?thesis using resolved_block(1) [OF ok i Resolved a] Resolved
      by (auto simp: work_def count_down_def with_block_def Let_def)
  next
    case (Counted job)
    then have "past ?w job" by simp
    then obtain a where a: "request job = Some a" using worker_job [OF ok i] by metis
    then show ?thesis using live [of job a] Counted by (auto simp: work_def look_at_number_def with_block_def)
  next
    case (Answering job)
    then have "past ?w job" by simp
    then obtain a where a: "request job = Some a" and al: "a < length (submitted s)" and eo: "entry_ok s job"
      using worker_job [OF ok i] by metis
    obtain fd head misses k where sb: "submitted s ! a = (fd, head, misses)" and j: "job = tcp_entry a fd (length misses) k (misses ! k)"
      using eo a by (rule entry_of)
    obtain b where b: "blocks s a = Some b" using live [of job a] Answering a by auto
    have "length (ipptr b) = 2 * length misses" "HEAD_LENGTH \<le> length (headptr b)"
      using threads_okD(1) [OF t al] b unfolding block_ok_def sb by auto
    then show ?thesis using Answering a b j
      by (auto simp: work_def send_second_def with_block_def put_byte_def HEAD_LENGTH_def)
  next
    case (Answered job)
    then have "past ?w job" by simp
    then obtain a where a: "request job = Some a" using worker_job [OF ok i] by metis
    then show ?thesis using live [of job a] Answered by (auto simp: work_def release_def with_block_def)
  qed
qed

text \<open>A thread that is about to use a block another thread has released.\<close>

definition bereft :: "process \<Rightarrow> nat \<Rightarrow> bool" where
  "bereft s i \<longleftrightarrow> i < length (workers s) \<and> (\<exists>j a. request j = Some a \<and> blocks s a = None \<and>
     (point (workers s ! i) = Counted j \<or> point (workers s ! i) = Answering j \<or> point (workers s ! i) = Answered j))"

lemma do_step_defined:
  assumes ok: "process_ok s" and x: "do_step x s = Undefined"
  shows "\<exists>i r now written. x = Work i r now written \<and> bereft s i"
proof (cases x)
  case (Work i r now written)
  then have i: "i < length (workers s)" and u: "work r now written (workers s ! i) s = Undefined"
    using x by (auto split: if_splits outcome.splits)
  have "bereft s i"
  proof (rule ccontr)
    assume n: "\<not> bereft s i"
    have "work r now written (workers s ! i) s \<noteq> Undefined"
      by (rule work_defined [OF ok i]) (use n i in \<open>auto simp: bereft_def\<close>)
    then show False using u by simp
  qed
  then show ?thesis using Work by blast
next
  case (Append f)
  have "ring_ok (queue s)" using ok by (simp add: process_ok_def)
  then have "dns_put job (queue s) \<noteq> Undefined" for job by (cases rule: dq.put_cases [of "queue s" job]) simp_all
  then show ?thesis using x Append by (auto split: if_splits list.splits outcome.splits)
qed (use x in \<open>simp_all add: Let_def\<close>)

lemma alone_defined: "process_ok s \<Longrightarrow> alone_ok s \<Longrightarrow> do_step x s \<noteq> Undefined"
proof
  assume ok: "process_ok s" "alone_ok s" and "do_step x s = Undefined"
  then obtain i where "bereft s i" using do_step_defined by blast
  then show False using ok(2) unfolding alone_ok_def bereft_def by fastforce
qed

lemma alone_work:
  assumes ok: "process_ok s" and al: "alone_ok s" and run: "do_step (Work i r now written) s = Next s'"
  shows "alone_ok s'"
proof -
  obtain w where ws: "workers s = [w]" and d: "distinct (map fst (seconds s))"
    and live: "\<And>j a. request j = Some a \<Longrightarrow> point w = Counted j \<or> point w = Answering j \<Longrightarrow> blocks s a \<noteq> None \<and> \<not> answered s a"
      "\<And>j a. request j = Some a \<Longrightarrow> point w = Answered j \<Longrightarrow> blocks s a \<noteq> None"
    using al unfolding alone_ok_def by blast
  show ?thesis
  proof (cases "i = 0")
    case False
    then have "s' = s" using run ws by simp
    then show ?thesis using al by simp
  next
    case True
    then obtain w' s1 where w: "work r now written w s = Next (w', s1)" and s1: "s' = s1\<lparr>workers := (workers s1)[0 := w']\<rparr>"
      using run ws by (auto split: outcome.splits)
    have "workers s1 = workers s" using work_ok [OF ok, of 0] w ws by simp
    then have s': "s' = s1\<lparr>workers := [w']\<rparr>" using s1 ws by simp
    have fin: "alone_ok s'" if "distinct (map fst (seconds s1))"
      "\<And>j a. request j = Some a \<Longrightarrow> point w' = Counted j \<or> point w' = Answering j \<Longrightarrow> blocks s1 a \<noteq> None \<and> \<not> answered s1 a"
      "\<And>j a. request j = Some a \<Longrightarrow> point w' = Answered j \<Longrightarrow> blocks s1 a \<noteq> None"
      using that unfolding alone_ok_def s' by (simp add: answered_def)
    have i0: "0 < length (workers s)" "workers s ! 0 = w" using ws by simp_all
    show ?thesis
    proof (cases "point w")
      case Waiting
      have "ring_ok (queue s)" using ok by (simp add: process_ok_def)
      then show ?thesis using w Waiting d
        by (cases rule: dq.get_cases [of "queue s"]) (auto simp: work_def take_entry_def intro!: fin)
    next
      case (Resolving job)
      then have "seconds s1 = seconds s \<and> (\<forall>j. point w' \<noteq> Counted j \<and> point w' \<noteq> Answering j \<and> point w' \<noteq> Answered j)"
        using w by (auto simp: work_def resolve_def store_result_def with_block_def Let_def split: if_splits option.splits)
      then show ?thesis using d by (intro fin) auto
    next
      case (Resolved job)
      then have "past w job" by simp
      then obtain a where a: "request job = Some a" using worker_job [OF ok i0(1)] unfolding i0(2) by metis
      have "point (workers s ! 0) = Resolved job" using Resolved i0(2) by simp
      note b = resolved_block [OF ok i0(1) this a]
      have "point w' = Counted job" "seconds s1 = seconds s" "blocks s1 a \<noteq> None"
        using w Resolved a by (auto simp: work_def count_down_def with_block_def Let_def split: option.splits)
      moreover have "\<not> answered s1 a" using b(2) calculation(2) by (simp add: answered_def)
      ultimately show ?thesis using d a by (intro fin) auto
    next
      case (Counted job)
      then have "past w job" by simp
      then obtain a where a: "request job = Some a" using worker_job [OF ok i0(1)] unfolding i0(2) by metis
      have "s1 = s" "point w' = Answering job \<or> point w' = Waiting"
        using w Counted by (auto simp: work_def look_at_number_def with_block_def split: option.splits if_splits)
      then show ?thesis using d live(1) [OF a] Counted a by (intro fin) auto
    next
      case (Answering job)
      then have "past w job" by simp
      then obtain a where a: "request job = Some a" using worker_job [OF ok i0(1)] unfolding i0(2) by metis
      obtain m where "point w' = Answered job" "seconds s1 = seconds s @ [(a, sockfd job, m)]" "blocks s1 a \<noteq> None"
        using w Answering a by (auto simp: work_def send_second_def with_block_def split: option.splits if_splits)
      moreover have "a \<notin> fst ` set (seconds s)" using live(1) [OF a] Answering unfolding answered_seconds by blast
      ultimately show ?thesis using d a by (intro fin) auto
    next
      case (Answered job)
      then have "point w' = Waiting" "seconds s1 = seconds s"
        using w by (auto simp: work_def release_def with_block_def split: option.splits)
      then show ?thesis using d by (intro fin) auto
    qed
  qed
qed

lemma alone_step:
  assumes ok: "process_ok s" and al: "alone_ok s" and run: "do_step x s = Next s'"
  shows "alone_ok s'"
proof (cases x)
  case (Work i r now written)
  then show ?thesis using alone_work [OF ok al] run by blast
next
  case (Tcp_search fd head misses fresh)
  let ?a = "length (submitted s)"
  obtain w where ws: "workers s = [w]" and d: "distinct (map fst (seconds s))"
    and live: "\<forall>j a. request j = Some a \<longrightarrow>
        (point w = Counted j \<or> point w = Answering j \<longrightarrow> blocks s a \<noteq> None \<and> \<not> answered s a) \<and>
        (point w = Answered j \<longrightarrow> blocks s a \<noteq> None)"
    using al unfolding alone_ok_def by blast
  have "workers s' = workers s" "seconds s' = seconds s" "blocks s a \<noteq> None \<Longrightarrow> blocks s' a \<noteq> None" for a
    using run Tcp_search by (auto simp: Let_def)
  then show ?thesis using ws d live unfolding alone_ok_def answered_def by simp
next
  case (Udp_search misses)
  then show ?thesis using al run by (auto simp: alone_ok_def answered_def)
next
  case (Append f)
  then have "workers s' = workers s" "seconds s' = seconds s" "blocks s' = blocks s"
    using run by (auto split: if_splits list.splits outcome.splits)
  then show ?thesis using al by (simp add: alone_ok_def answered_def)
qed

lemma reachable_alone: "reachable 1 s \<Longrightarrow> alone_ok s"
proof (induction rule: reachable.induct)
  case (start k arr)
  then show ?case by (simp add: alone_ok_def started_def)
next
  case (step s x s')
  then show ?case using alone_step reachable_ok by blast
qed

section \<open>After a failed lookup\<close>

text \<open>\<open>missindex\<close> is set by a failed lookup and by nothing else.\<close>

lemma work_missindex:
  "work r now written w s = Next (w', s') \<Longrightarrow> missindex w = HAVE_ERROR \<Longrightarrow> missindex w' = HAVE_ERROR"
  by (auto simp: work_def take_entry_def resolve_def count_down_def look_at_number_def send_second_def release_def
      store_result_def with_block_def Let_def split: point.splits outcome.splits option.splits if_splits)

lemma work_workers: "work r now written w s = Next (w', s') \<Longrightarrow> workers s' = workers s"
  by (auto simp: work_def take_entry_def resolve_def count_down_def look_at_number_def send_second_def release_def
      store_result_def with_block_def Let_def split: point.splits outcome.splits option.splits if_splits)

lemma do_step_missindex:
  assumes "do_step x s = Next s'" and "i < length (workers s)"
  shows "i < length (workers s')" and "missindex (workers s ! i) = HAVE_ERROR \<Longrightarrow> missindex (workers s' ! i) = HAVE_ERROR"
  using assms
  by (cases x; auto simp: Let_def nth_list_update work_workers split: outcome.splits if_splits list.splits dest: work_missindex)+

lemma run_missindex:
  "run_steps xs s = Next s' \<Longrightarrow> i < length (workers s) \<Longrightarrow> missindex (workers s ! i) = HAVE_ERROR \<Longrightarrow>
    i < length (workers s') \<and> missindex (workers s' ! i) = HAVE_ERROR"
proof (induction xs arbitrary: s)
  case (Cons x xs)
  then obtain s1 where "do_step x s = Next s1" "run_steps xs s1 = Next s'" by (auto split: outcome.splits)
  then show ?case using Cons.IH [of s1] do_step_missindex [of x s s1 i] Cons.prems by blast
qed simp

lemma failed_lookup_missindex:
  assumes "do_step (Work i None now written) s = Next s'" and "i < length (workers s)"
    and "point (workers s ! i) = Resolving j" and "request j \<noteq> None" and "process_ok s"
  shows "i < length (workers s') \<and> missindex (workers s' ! i) = HAVE_ERROR"
proof -
  obtain M where "mset (workers s) = add_mset (workers s ! i) M" using mset_replace [OF assms(2)] by blast
  then have "worker_ok s (workers s ! i)" using assms(5) by (simp add: process_ok_def threads_ok_def entries_ok_worker)
  then have "entry_ok s j" using assms(3) by simp
  moreover obtain a where "request j = Some a" using assms(4) by blast
  ultimately obtain fd head misses k where "j = tcp_entry a fd (length misses) k (misses ! k)" by (rule entry_of)
  then have "tcp_or_udp j \<noteq> UDP_DNS_REQUEST" using other_codes by simp
  then show ?thesis using assms(1-3)
    by (auto simp: work_def resolve_def store_result_def with_block_def Let_def split: outcome.splits option.splits if_splits)
qed

text \<open>A request that a failure is on record for, or about to be, and that was not answered without its flag.\<close>

definition bound_to_fail :: "process \<Rightarrow> nat \<Rightarrow> bool" where
  "bound_to_fail s a \<longleftrightarrow> a < length (submitted s) \<and>
     (\<forall>b. blocks s a = Some b \<longrightarrow> failure_kept (mset (workers s)) a b) \<and>
     (\<forall>(c, fd, m)\<in>set (seconds s). c = a \<longrightarrow> m ! (HEAD_LENGTH - 1) = SECOND_WITH_ERROR)"

lemma failure_kept_index:
  "failure_kept (mset ws) a b \<longleftrightarrow> miss b = HAVE_ERROR \<or>
    (\<exists>k<length ws. \<exists>j. point (ws ! k) = Resolved j \<and> request j = Some a \<and> missindex (ws ! k) = HAVE_ERROR)"
  by (fastforce simp: failure_kept_def in_set_conv_nth)

lemma failure_kept_worker:
  assumes "failure_kept (mset ws) a b" and "i < length ws" and "miss b = HAVE_ERROR \<longrightarrow> miss b' = HAVE_ERROR"
    and "\<And>j. point (ws ! i) = Resolved j \<Longrightarrow> request j = Some a \<Longrightarrow> missindex (ws ! i) = HAVE_ERROR \<Longrightarrow> miss b' = HAVE_ERROR"
  shows "failure_kept (mset (ws[i := w])) a b'"
  using assms unfolding failure_kept_index by (metis length_list_update nth_list_update_neq)

lemma bound_to_fail_work:
  assumes ok: "process_ok s" and i: "i < length (workers s)"
    and run: "work r now written (workers s ! i) s = Next (w', s')" and st: "bound_to_fail s a"
  shows "bound_to_fail (s'\<lparr>workers := (workers s)[i := w']\<rparr>) a"
proof -
  let ?w = "workers s ! i"
  have kept: "failure_kept (mset (workers s)) a b" if "blocks s a = Some b" for b
    using st that by (simp add: bound_to_fail_def)
  note kw = failure_kept_worker [OF kept i]
  show ?thesis
  proof (cases "point ?w")
    case Waiting
    then show ?thesis using run st kw i
      by (auto simp: bound_to_fail_def work_def take_entry_def split: outcome.splits option.splits)
  next
    case (Resolving job)
    then show ?thesis using run st kw i
      by (auto simp: bound_to_fail_def work_def resolve_def store_result_def with_block_def Let_def split: outcome.splits option.splits if_splits)
  next
    case (Resolved job)
    then show ?thesis using run st kw i
      by (auto simp: bound_to_fail_def work_def count_down_def with_block_def Let_def split: outcome.splits option.splits if_splits)
  next
    case (Counted job)
    then show ?thesis using run st kw i
      by (auto simp: bound_to_fail_def work_def look_at_number_def with_block_def split: outcome.splits option.splits if_splits)
  next
    case (Answering job)
    obtain M where M: "mset (workers s) = add_mset ?w M" using mset_replace [OF i] by blast
    let ?J = "waiting_entries s"
    have t: "threads_ok ?J (add_mset ?w M) s" using ok M by (simp add: process_ok_def)
    have sent_flag: "miss b = HAVE_ERROR" if b: "request job = Some a" "blocks s a = Some b" for b
    proof -
      have "past ?w job" using Answering by simp
      with t obtain c where c: "request job = Some c" "c < length (submitted s)" by (rule past_request)
      have "open_jobs ?J (add_mset ?w M) a = {#}"
        using threads_okD(2) [OF t, of c] c b(1) Answering unfolding late_ok_def by auto
      then show ?thesis using kept [OF b(2)] resolved_open unfolding failure_kept_def M by metis
    qed
    have head: "(take HEAD_LENGTH (h[HEAD_LENGTH - 1 := x]) @ ys) ! (HEAD_LENGTH - 1) = x" if "\<not> length h < HEAD_LENGTH" for h x and ys :: bytes
      using that by (simp add: nth_append HEAD_LENGTH_def)
    show ?thesis using run st kw i Answering sent_flag head
      by (auto simp: bound_to_fail_def work_def send_second_def with_block_def put_byte_def Let_def split: outcome.splits option.splits if_splits)
  next
    case (Answered job)
    then show ?thesis using run st kw i
      by (auto simp: bound_to_fail_def work_def release_def with_block_def split: outcome.splits option.splits if_splits)
  qed
qed

lemma bound_to_fail_step:
  assumes "process_ok s" and run: "do_step x s = Next s'" and st: "bound_to_fail s a"
  shows "bound_to_fail s' a"
proof (cases x)
  case (Tcp_search fd head misses fresh)
  then show ?thesis using run st by (auto simp: bound_to_fail_def Let_def)
next
  case (Udp_search misses)
  then show ?thesis using run st by (auto simp: bound_to_fail_def)
next
  case (Append f)
  then show ?thesis using run st by (auto simp: bound_to_fail_def split: if_splits list.splits outcome.splits)
next
  case (Work i r now written)
  show ?thesis
  proof (cases "i < length (workers s)")
    case True
    then obtain w s1 where w: "work r now written (workers s ! i) s = Next (w, s1)"
      and s': "s' = s1\<lparr>workers := (workers s1)[i := w]\<rparr>"
      using run Work by (auto split: outcome.splits)
    then show ?thesis using bound_to_fail_work [OF assms(1) True w st] work_workers [OF w] by simp
  qed (use run st Work in simp)
qed

lemma bound_to_fail_run:
  "process_ok s \<Longrightarrow> \<forall>x\<in>set xs. step_ok x \<Longrightarrow> run_steps xs s = Next s' \<Longrightarrow> bound_to_fail s a \<Longrightarrow> bound_to_fail s' a"
proof (induction xs arbitrary: s)
  case (Cons x xs)
  then obtain s1 where s1: "do_step x s = Next s1" "run_steps xs s1 = Next s'" by (auto split: outcome.splits)
  have x: "step_ok x" "\<forall>x\<in>set xs. step_ok x" using Cons.prems(2) by simp_all
  show ?case by (rule Cons.IH [OF do_step_ok [OF Cons.prems(1) x(1) s1(1)] x(2) s1(2) bound_to_fail_step [OF Cons.prems(1) s1(1) Cons.prems(4)]])
qed simp

lemma working_bound_to_fail:
  assumes ok: "process_ok s" and i: "i < length (workers s)" and w: "point (workers s ! i) = Resolved j" "request j = Some a"
    and e: "missindex (workers s ! i) = HAVE_ERROR"
  shows "bound_to_fail s a"
proof -
  obtain M where M: "mset (workers s) = add_mset (workers s ! i) M" using mset_replace [OF i] by blast
  have t: "threads_ok (waiting_entries s) (mset (workers s)) s" using ok by (simp add: process_ok_def)
  have "past (workers s ! i) j" using w(1) by simp
  with t [unfolded M] obtain c where "request j = Some c" "c < length (submitted s)" by (rule past_request)
  then have "a < length (submitted s)" using w(2) by simp
  moreover have "open_jobs (waiting_entries s) (mset (workers s)) a \<noteq> {#}"
    by (rule resolved_open [where v = "workers s ! i", OF _ w]) (use i in simp)
  then have "(a, fd, m) \<notin> set (seconds s)" for fd m
    using t by (auto simp: threads_ok_def replies_ok_def)
  moreover have "failure_kept (mset (workers s)) a b" for b unfolding failure_kept_index using i w e by blast
  ultimately show ?thesis by (auto simp: bound_to_fail_def)
qed

section \<open>Runs\<close>

lemma dns_put_small:
  assumes "iput r < 9"
  shows "dns_put job r = (if iget r = iput r + 1 then Exit
    else Next (r\<lparr>dns_array := (dns_array r)(iput r := job), iput := iput r + 1\<rparr>))"
  using assms by (simp add: dns_put_def ARRAYSIZE_def Let_def)

lemma dns_get_small:
  assumes "iget r < 9"
  shows "dns_get r = (if iget r = iput r then Next None else Next (Some (dns_array r (iget r), r\<lparr>iget := iget r + 1\<rparr>)))"
  using assms by (simp add: dns_get_def ARRAYSIZE_def)

lemmas run_facts = started_def tcp_entries_def dns_put_small dns_get_small work_def take_entry_def resolve_def
  with_block_def store_result_def count_down_def look_at_number_def send_second_def release_def
  put_byte_def HEAD_LENGTH_def other_codes

text \<open>The request of the example runs: two missed domains, the first and the fourth of a request.\<close>

definition two_misses :: "step list" where
  "two_misses = [Tcp_search 5 (replicate 13 0) [([0x61, 0], 0), ([0x62, 0], 3)] (replicate 4 0), Append 0, Append 0]"

lemma two_stores:
  obtains k k' where "kache_store empty_kache (Some [0x61, 0]) \<lparr>ip = x, timestamp = 9\<rparr> = Some k"
    "kache_store k (Some [0x62, 0]) \<lparr>ip = y, timestamp = 9\<rparr> = Some k'"
proof -
  obtain k where k: "kache_store empty_kache (Some [0x61, 0]) \<lparr>ip = x, timestamp = 9\<rparr> = Some k" "kache_ok k"
    using kache_store_law [OF empty_kache_ok, of "[0x61]" "[]" "\<lparr>ip = x, timestamp = 9\<rparr>"] by fastforce
  obtain k' where "kache_store k (Some [0x62, 0]) \<lparr>ip = y, timestamp = 9\<rparr> = Some k'"
    using kache_store_law [OF k(2), of "[0x62]" "[]" "\<lparr>ip = y, timestamp = 9\<rparr>"] by fastforce
  with k(1) show thesis by (rule that)
qed

definition both_see_zero :: "step list" where
  "both_see_zero =
     [Work 0 None 9 True, Work 1 None 9 True, Work 0 (Some 7) 9 True, Work 1 (Some 8) 9 True,
      Work 0 None 9 True, Work 1 None 9 True, Work 0 None 9 True, Work 1 None 9 True,
      Work 0 None 9 True, Work 1 None 9 True]"

definition in_turn :: "step list" where
  "in_turn = [Work 0 None 9 True, Work 0 (Some 7) 9 True, Work 0 None 9 True, Work 0 None 9 True,
     Work 0 None 9 True, Work 0 (Some 8) 9 True, Work 0 None 9 True, Work 0 None 9 True, Work 0 None 9 True, Work 0 None 9 True]"

definition fail_first :: "step list" where
  "fail_first = [Tcp_search 5 (replicate 13 0) [([0x61, 0], 0)] (replicate 2 0), Append 0, Work 0 None 9 True]"

definition then_succeed :: "step list" where
  "then_succeed =
     [Work 0 None 9 True, Work 0 None 9 True, Work 0 None 9 True, Work 0 None 9 True,
      Tcp_search 6 (replicate 13 1) [([0x62, 0], 3)] (replicate 2 0), Append 1,
      Work 0 None 9 True, Work 0 (Some 8) 9 True]"

definition and_answer :: "step list" where
  "and_answer = [Work 0 None 9 True, Work 0 None 9 True, Work 0 None 9 True, Work 0 None 9 True]"

lemma example_steps_ok: "\<forall>x\<in>set (two_misses @ both_see_zero). step_ok x" "\<forall>x\<in>set (two_misses @ in_turn). step_ok x"
  "\<forall>x\<in>set fail_first. step_ok x" "\<forall>x\<in>set then_succeed. step_ok x" "\<forall>x\<in>set and_answer. step_ok x"
  by (auto simp: two_misses_def both_see_zero_def in_turn_def fail_first_def then_succeed_def and_answer_def misses_ok_def terminated_def HEAD_LENGTH_def)

lemma example_run:
  "\<exists>s m. run_steps (two_misses @ both_see_zero) (started 2 empty_kache arr) = Next s \<and> seconds s = [(0, 5, m), (0, 5, m)] \<and>
    submitted s = [(5, replicate 13 0, [([0x61, 0], 0), ([0x62, 0], 3)])] \<and> feeders s = [[]] \<and> ring_items (queue s) = [] \<and>
    (\<exists>s'. run_steps [Work 0 None 9 True] s = Next s' \<and> run_steps [Work 1 None 9 True] s' = Undefined)"
proof -
  obtain k k' where k: "kache_store empty_kache (Some [0x61, 0]) \<lparr>ip = 7, timestamp = 9\<rparr> = Some k"
    "kache_store k (Some [0x62, 0]) \<lparr>ip = 8, timestamp = 9\<rparr> = Some k'" by (rule two_stores)
  show ?thesis
    by (simp add: two_misses_def both_see_zero_def run_facts k numeral_2_eq_2 Let_def dns_address_def ring_items_def)
qed

lemma in_turn_run:
  "\<exists>s m. run_steps (two_misses @ in_turn) (started 1 empty_kache arr) = Next s \<and> seconds s = [(0, 5, m)] \<and>
    length (submitted s) = 1 \<and> feeders s = [[]] \<and> ring_items (queue s) = [] \<and> map point (workers s) = [Waiting]"
proof -
  obtain k k' where k: "kache_store empty_kache (Some [0x61, 0]) \<lparr>ip = 7, timestamp = 9\<rparr> = Some k"
    "kache_store k (Some [0x62, 0]) \<lparr>ip = 8, timestamp = 9\<rparr> = Some k'" by (rule two_stores)
  show ?thesis
    by (simp add: two_misses_def in_turn_def run_facts k numeral_2_eq_2 Let_def dns_address_def ring_items_def)
qed

lemma replicate_last: "(replicate 13 c)[12 := x] = replicate 12 c @ [x]"
  by (simp add: numeral_eq_Suc)

lemma sticky_run:
  obtains s s0 s1 s2 j0 j m where "run_steps fail_first (started 1 empty_kache arr) = Next s"
    "do_step (Work 0 None 9 True) s = Next s0" "0 < length (workers s)" "point (workers s ! 0) = Resolving j0" "request j0 \<noteq> None"
    "run_steps then_succeed s0 = Next s1" "point (workers s1 ! 0) = Resolved j" "request j = Some 1"
    "run_steps and_answer s1 = Next s2" "(1, 6, m) \<in> set (seconds s2)" "found s2 1 0 = Some (Some 8)"
    "submitted s2 ! 1 = (6, replicate 13 1, [([0x62, 0], 3)])"
proof -
  obtain k k' where k: "kache_store empty_kache (Some [0x61, 0]) \<lparr>ip = DNS_ERROR, timestamp = 9\<rparr> = Some k"
    "kache_store k (Some [0x62, 0]) \<lparr>ip = 8, timestamp = 9\<rparr> = Some k'" by (rule two_stores)
  have "\<exists>s s0 s1 s2. run_steps fail_first (started 1 empty_kache arr) = Next s \<and>
    do_step (Work 0 None 9 True) s = Next s0 \<and> 0 < length (workers s) \<and> (\<exists>j0. point (workers s ! 0) = Resolving j0 \<and> request j0 \<noteq> None) \<and>
    run_steps then_succeed s0 = Next s1 \<and> (\<exists>j. point (workers s1 ! 0) = Resolved j \<and> request j = Some 1) \<and>
    run_steps and_answer s1 = Next s2 \<and> (\<exists>m. (1, 6, m) \<in> set (seconds s2)) \<and> found s2 1 0 = Some (Some 8) \<and>
    submitted s2 ! 1 = (6, replicate 13 1, [([0x62, 0], 3)])"
    by (simp add: fail_first_def then_succeed_def and_answer_def run_facts k numeral_2_eq_2 Let_def dns_address_def)
  then show thesis using that by (elim exE conjE) metis
qed

lemma run_reachable: "reachable n s \<Longrightarrow> \<forall>x\<in>set xs. step_ok x \<Longrightarrow> run_steps xs s = Next s' \<Longrightarrow> reachable n s'"
proof (induction xs arbitrary: s)
  case (Cons x xs)
  then obtain s1 where "do_step x s = Next s1" "run_steps xs s1 = Next s'" by (auto split: outcome.splits)
  then show ?case using Cons.IH [of s1] Cons.prems reachable.step [of n s x s1] by auto
qed simp


section \<open>Properties\<close>



text \<open>C9: No request is forgotten: when nothing is left to append or to take and every DNS thread
  waits, each TCP request has had its second message, whatever the interleaving was.\<close>

theorem every_request_answered:
  assumes "reachable n s" and "\<forall>js\<in>set (feeders s). js = []" and "ring_items (queue s) = []"
    and "\<forall>w\<in>set (workers s). point w = Waiting" and "a < length (submitted s)"
  shows "\<exists>connection m. (a, connection, m) \<in> set (seconds s)"
proof -
  have t: "threads_ok (waiting_entries s) (mset (workers s)) s" using reachable_ok [OF assms(1)] by (simp add: process_ok_def)
  have "concat (feeders s) = []" using assms(2) by simp
  then have "waiting_entries s = {#}" using assms(3) by (simp add: waiting_entries_def)
  moreover have "sum_mset (image_mset resolving (mset (workers s))) = {#}" "sum_mset (image_mset resolved (mset (workers s))) = {#}"
    using assms(4) unfolding set_mset_eq_empty_iff [symmetric] by (auto simp: set_resolving set_resolved)
  ultimately have "open_jobs (waiting_entries s) (mset (workers s)) a = {#}" by (simp add: open_jobs_def unfilled_def)
  then have "answered s a" using threads_okD(2) [OF t assms(5)] assms(4) unfolding late_ok_def by auto
  then show ?thesis by (simp add: answered_def)
qed

theorem every_request_answered_witness:
  "\<exists>s connection m. run_steps (two_misses @ in_turn) (started 1 empty_kache (\<lambda>_. udp_entry ([], 0))) = Next s \<and>
    length (submitted s) = 1 \<and> (0, connection, m) \<in> set (seconds s)"
proof -
  obtain s m where s: "run_steps (two_misses @ in_turn) (started 1 empty_kache (\<lambda>_. udp_entry ([], 0))) = Next s"
    "length (submitted s) = 1" "feeders s = [[]]" "ring_items (queue s) = []" "map point (workers s) = [Waiting]"
    using in_turn_run [of "\<lambda>_. udp_entry ([], 0)"] by (elim exE conjE) (rule that)
  have r: "reachable 1 s" by (rule run_reachable [OF reachable.start [OF empty_kache_ok] example_steps_ok(2) s(1)])
  have "\<forall>w\<in>set (workers s). point w = Waiting" using s(5) by (auto simp: map_eq_Cons_conv)
  then have "\<exists>connection m. (0, connection, m) \<in> set (seconds s)"
    using every_request_answered [OF r] s(2-4) by simp
  then show ?thesis using s(1,2) by blast
qed

text \<open>C10: With one DNS thread nothing is undefined: in every reachable state every possible step has a
  result, and no request is answered twice.\<close>

theorem single_thread_safe:
  assumes "reachable 1 s"
  shows "do_step x s \<noteq> Undefined \<and> distinct (map fst (seconds s))"
  using alone_defined [OF reachable_ok [OF assms] reachable_alone [OF assms]] reachable_alone [OF assms]
  by (simp add: alone_ok_def)

theorem single_thread_safe_witness:
  "do_step (Work 0 None 9 True) (started 1 empty_kache (\<lambda>_. udp_entry ([], 0))) \<noteq> Undefined"
  using single_thread_safe [OF reachable.start [OF empty_kache_ok]] by blast

text \<open>C20: With two DNS threads a request can be answered twice and its blocks used after they were
  released, because \<open>*number\<close> is compared with zero after \<open>mutex\<close> has been unlocked: both threads
  count down before either looks, both see zero, both send the second message, and the second one to
  clean up uses and frees what the first has freed.\<close>

theorem both_threads_see_zero:
  "\<exists>s s' m. reachable 2 s \<and> length (submitted s) = 1 \<and> seconds s = [(0, 5, m), (0, 5, m)] \<and>
    run_steps [Work 0 None 9 True] s = Next s' \<and> run_steps [Work 1 None 9 True] s' = Undefined"
proof -
  obtain s s' m where s: "run_steps (two_misses @ both_see_zero) (started 2 empty_kache (\<lambda>_. udp_entry ([], 0))) = Next s"
    "seconds s = [(0, 5, m), (0, 5, m)]" "submitted s = [(5, replicate 13 0, [([0x61, 0], 0), ([0x62, 0], 3)])]"
    "run_steps [Work 0 None 9 True] s = Next s'" "run_steps [Work 1 None 9 True] s' = Undefined"
    using example_run [of "\<lambda>_. udp_entry ([], 0)"] by (elim exE conjE) (rule that)
  moreover have "reachable 2 s" by (rule run_reachable [OF reachable.start [OF empty_kache_ok] example_steps_ok(1) s(1)])
  moreover have "length (submitted s) = 1" using s(3) by simp
  ultimately show ?thesis by blast
qed

text \<open>C21: A thread that has had one failed lookup reports an error in every TCP request it works on from
  then on, because \<open>missindex\<close> is never set back. In any run, once thread \<open>i\<close> has stored a failure for a
  TCP request: whenever it holds the result of an entry of a request afterwards, every second message
  that is ever sent for that request carries the flag of a failure, whatever its lookups gave and
  whichever thread sends it. In the run of the example the request has no failure.\<close>

theorem error_flag_sticks:
  assumes s: "reachable n s" and fail: "do_step (Work i None now written) s = Next s0" "i < length (workers s)"
      "point (workers s ! i) = Resolving j0" "request j0 \<noteq> None"
    and run: "\<forall>x\<in>set xs. step_ok x" "run_steps xs s0 = Next s1"
    and job: "point (workers s1 ! i) = Resolved j" "request j = Some a"
    and onward: "\<forall>x\<in>set ys. step_ok x" "run_steps ys s1 = Next s2" "(a, connection, m) \<in> set (seconds s2)"
  shows "m ! (HEAD_LENGTH - 1) = SECOND_WITH_ERROR"
proof -
  have r: "reachable n s0" by (rule reachable.step [OF s _ fail(1)]) simp
  have ok: "process_ok s1" by (rule reachable_ok [OF run_reachable [OF r run]])
  have "i < length (workers s1) \<and> missindex (workers s1 ! i) = HAVE_ERROR"
    using run_missindex [OF run(2)] failed_lookup_missindex [OF fail reachable_ok [OF s]] by blast
  then have "bound_to_fail s1 a" using working_bound_to_fail [OF ok _ job] by blast
  then have "bound_to_fail s2 a" by (rule bound_to_fail_run [OF ok onward(1,2)])
  then show ?thesis using onward(3) by (auto simp: bound_to_fail_def)
qed

theorem error_flag_sticks_witness:
  "\<exists>s m. reachable 1 s \<and> (1, 6, m) \<in> set (seconds s) \<and> submitted s ! 1 = (6, replicate 13 1, [([0x62, 0], 3)]) \<and>
    found s 1 0 = Some (Some 8) \<and> m ! (HEAD_LENGTH - 1) = SECOND_WITH_ERROR"
proof -
  obtain s s0 s1 s2 j0 j m where r: "run_steps fail_first (started 1 empty_kache (\<lambda>_. udp_entry ([], 0))) = Next s"
    "do_step (Work 0 None 9 True) s = Next s0" "0 < length (workers s)" "point (workers s ! 0) = Resolving j0" "request j0 \<noteq> None"
    "run_steps then_succeed s0 = Next s1" "point (workers s1 ! 0) = Resolved j" "request j = Some 1"
    "run_steps and_answer s1 = Next s2" "(1, 6, m) \<in> set (seconds s2)" "found s2 1 0 = Some (Some 8)"
    "submitted s2 ! 1 = (6, replicate 13 1, [([0x62, 0], 3)])"
    by (rule sticky_run)
  have s: "reachable 1 s" by (rule run_reachable [OF reachable.start [OF empty_kache_ok] example_steps_ok(3) r(1)])
  have s0: "reachable 1 s0" by (rule reachable.step [OF s _ r(2)]) simp
  have "reachable 1 s2"
    by (rule run_reachable [OF run_reachable [OF s0 example_steps_ok(4) r(6)] example_steps_ok(5) r(9)])
  moreover have "m ! (HEAD_LENGTH - 1) = SECOND_WITH_ERROR"
    by (rule error_flag_sticks [OF s r(2-5) example_steps_ok(4) r(6-8) example_steps_ok(5) r(9,10)])
  ultimately show ?thesis using r(10-12) by blast
qed

end
