(* ===== verification/Client.thy ===== *)
theory Client
  imports DnsThreads
begin

text \<open>
  The client, \<open>src/client/dc_client.c\<close>: checking and lowering the names, building a request, sending it
  over TCP or UDP, and calling the caller's function with the domains and their addresses.

  The calls are the list of their arguments: the offset of the domain in \<open>buf\<close>, and the address. What
  the server sends is the list of the results of successive \<open>read\<close>s, as in the server's model; whether
  \<open>connect\<close> and the write succeed, and the fresh memory of \<open>retbuf\<close>, are arguments. Buffers are shorter
  than 4 GB, so the 32-bit offsets do not wrap.
\<close>

section \<open>Preparing a request\<close>

definition SUCCESS :: int where
  "SUCCESS = 0"

definition NOT_IN_SET :: int where
  "NOT_IN_SET = 1"

definition CONNECT_WRONG :: int where
  "CONNECT_WRONG = 2"

definition OTHER_WRONG :: int where
  "OTHER_WRONG = 3"

definition RESERVED_BYTE :: uint8 where
  "RESERVED_BYTE = 0x46"

definition TCP_OR_UDP :: nat where
  "TCP_OR_UDP = 2048"

text \<open>The character as the function leaves it, if it is in the set.\<close>

definition is_in_set :: "uint8 \<Rightarrow> uint8 option" where
  "is_in_set c =
     (if 97 \<le> c \<and> c \<le> 122 \<or> c = 46 then Some c
      else if c = 45 then Some c
      else if 48 \<le> c \<and> c \<le> 57 then Some c
      else if 65 \<le> c \<and> c \<le> 90 then Some (c + 32)
      else if c = 95 then Some c
      else None)"

text \<open>The inner loop of \<open>pre_do\<close>: the offset it stops at, with \<^term>\<open>False\<close> at a character outside the set.\<close>

function name_loop :: "bytes \<Rightarrow> nat \<Rightarrow> (bool \<times> bytes \<times> nat) option" where
  "name_loop buf t =
     (if t < length buf
      then if buf ! t = 0 then Some (True, buf, t)
           else case is_in_set (buf ! t) of
                  None \<Rightarrow> Some (False, buf, t)
                | Some c \<Rightarrow> name_loop (buf[t := c]) (t + 1)
      else None)"
  by pat_completeness auto

termination name_loop
  by (relation "measure (\<lambda>(buf, t). length buf - t)") auto

declare name_loop.simps [simp del]

datatype prepared = Unknown_character bytes | Prepared bytes nat "nat list"

fun pre_do_loop :: "nat \<Rightarrow> bytes \<Rightarrow> nat \<Rightarrow> nat list \<Rightarrow> prepared option" where
  "pre_do_loop 0 buf total_length index = Some (Prepared buf (total_length + HEAD_LENGTH) index)"
| "pre_do_loop (Suc k) buf total_length index =
     do {
       (in_set, buf, t) \<leftarrow> name_loop buf total_length;
       if in_set then pre_do_loop k buf (t + 1) (if k \<noteq> 0 then index @ [t + 1] else index)
       else Some (Unknown_character buf)
     }"

definition pre_do :: "bytes \<Rightarrow> nat \<Rightarrow> prepared option" where
  "pre_do buf nbuf = (if nbuf = 0 then None else pre_do_loop nbuf buf 0 [0])"

definition build_head :: "bytes \<Rightarrow> uint32 \<Rightarrow> bytes option" where
  "build_head headbuf total_length =
     do {
       h \<leftarrow> put_bytes headbuf 0 (le32 total_length);
       h \<leftarrow> put_bytes h 4 (le32 MAGIC_NUMBER);
       h \<leftarrow> put_bytes h 8 (le32 1);
       put_byte h 12 RESERVED_BYTE
     }"

section \<open>Answers\<close>

type_synonym calls = "(nat \<times> uint32) list"

text \<open>The two \<open>read\<close> loops. The rest of the chunks is left in the connection.\<close>

fun read_reply :: "nat \<Rightarrow> bytes list \<Rightarrow> bytes \<Rightarrow> nat \<Rightarrow> (bytes \<times> bytes list) option" where
  "read_reply n [] retbuf cnt = Some (retbuf, [])"
| "read_reply n (chunk # chunks) retbuf cnt =
     (let c = take n chunk
      in if c = [] then Some (retbuf, chunks)
         else do {
           retbuf \<leftarrow> put_bytes retbuf cnt c;
           if n \<le> cnt + length c then Some (retbuf, chunks) else read_reply n chunks retbuf (cnt + length c)
         })"

text \<open>The first message without misses: one call for each domain, found one after the other.\<close>

fun call_each :: "bytes \<Rightarrow> bytes \<Rightarrow> nat list \<Rightarrow> nat \<Rightarrow> calls option" where
  "call_each buf retbuf [] cnt = Some []"
| "call_each buf retbuf (i # is) cnt =
     do {
       address \<leftarrow> get32 retbuf (HEAD_LENGTH + 4 * i);
       len \<leftarrow> c_strlen (drop cnt buf);
       rest \<leftarrow> call_each buf retbuf is (cnt + len + 1);
       Some ((cnt, address) # rest)
     }"

text \<open>The first message with misses: the calls for the others, and the number of misses.\<close>

fun call_found :: "bytes \<Rightarrow> nat list \<Rightarrow> nat list \<Rightarrow> (calls \<times> nat) option" where
  "call_found retbuf index [] = Some ([], 0)"
| "call_found retbuf index (i # is) =
     do {
       tempip \<leftarrow> get32 retbuf (HEAD_LENGTH + 4 * i);
       (rest, misscount) \<leftarrow> call_found retbuf index is;
       if tempip = CACHE_MISS then Some (rest, misscount + 1)
       else if i < length index then Some ((index ! i, tempip) # rest, misscount) else None
     }"

text \<open>The second message: the number of a domain comes from the server.\<close>

fun call_missed :: "bytes \<Rightarrow> nat list \<Rightarrow> nat list \<Rightarrow> calls option" where
  "call_missed retbuf index [] = Some []"
| "call_missed retbuf index (i # is) =
     do {
       k \<leftarrow> get32 retbuf (HEAD_LENGTH + 8 * i);
       address \<leftarrow> get32 retbuf (HEAD_LENGTH + 8 * i + 4);
       rest \<leftarrow> call_missed retbuf index is;
       if unat k < length index then Some ((index ! unat k, address) # rest) else None
     }"

section \<open>Searching\<close>

text \<open>The return code, the message sent if it came to that, the calls made, and the buffer.\<close>

record search =
  code :: int
  message_sent :: "bytes option"
  calls_made :: calls
  buffer :: bytes

definition tcp_dns_search :: "bytes \<Rightarrow> nat \<Rightarrow> bool \<Rightarrow> bool \<Rightarrow> bytes \<Rightarrow> (nat \<Rightarrow> bytes) \<Rightarrow> bytes list \<Rightarrow> search option" where
  "tcp_dns_search buf nbuf connected written fresh_head fresh chunks =
     do {
       p \<leftarrow> pre_do buf nbuf;
       case p of
         Unknown_character buf \<Rightarrow> Some \<lparr>code = NOT_IN_SET, message_sent = None, calls_made = [], buffer = buf\<rparr>
       | Prepared buf total_length index \<Rightarrow>
           if \<not> connected then Some \<lparr>code = CONNECT_WRONG, message_sent = None, calls_made = [], buffer = buf\<rparr>
           else do {
             headbuf \<leftarrow> build_head (take HEAD_LENGTH fresh_head) (of_nat total_length);
             let sent = Some (headbuf @ take (total_length - HEAD_LENGTH) buf);
             if \<not> written then Some \<lparr>code = OTHER_WRONG, message_sent = sent, calls_made = [], buffer = buf\<rparr>
             else do {
               let size = nbuf * 8 + HEAD_LENGTH;
               (retbuf, chunks) \<leftarrow> read_reply (HEAD_LENGTH + nbuf * 4) chunks (take size (fresh size)) 0;
               if HEAD_LENGTH - 1 < length retbuf \<and> retbuf ! (HEAD_LENGTH - 1) = FIRST_WITHOUT_ERROR
               then do {
                 calls \<leftarrow> call_each buf retbuf [0..<nbuf] 0;
                 Some \<lparr>code = SUCCESS, message_sent = sent, calls_made = calls, buffer = buf\<rparr>
               }
               else do {
                 (calls, misscount) \<leftarrow> call_found retbuf index [0..<nbuf];
                 (retbuf, chunks) \<leftarrow> read_reply (HEAD_LENGTH + misscount * 8) chunks (replicate size 0) 0;
                 calls2 \<leftarrow> call_missed retbuf index [0..<misscount];
                 Some \<lparr>code = SUCCESS, message_sent = sent, calls_made = calls @ calls2, buffer = buf\<rparr>
               }
             }
           }
     }"

text \<open>
  Over UDP there is one datagram; its length is the start of a walk along \<open>buf\<close> whose result is not
  used. \<open>reply\<close> is the datagram, if one ever arrives; \<open>recvfrom\<close> waits for it without a limit.
\<close>

fun udp_calls :: "bytes \<Rightarrow> bytes \<Rightarrow> nat list \<Rightarrow> nat list \<Rightarrow> nat \<Rightarrow> calls option" where
  "udp_calls buf retbuf index [] cnt = Some []"
| "udp_calls buf retbuf index (i # is) cnt =
     do {
       address \<leftarrow> get32 retbuf (HEAD_LENGTH + 4 * i);
       len \<leftarrow> c_strlen (drop cnt buf);
       rest \<leftarrow> udp_calls buf retbuf index is (cnt + len + 1);
       if i < length index then Some ((index ! i, address) # rest) else None
     }"

definition udp_dns_search :: "bytes \<Rightarrow> nat \<Rightarrow> bool \<Rightarrow> bytes \<Rightarrow> (nat \<Rightarrow> bytes) \<Rightarrow> bytes option \<Rightarrow> search option" where
  "udp_dns_search buf nbuf written fresh_head fresh reply =
     do {
       p \<leftarrow> pre_do buf nbuf;
       case p of
         Unknown_character buf \<Rightarrow> Some \<lparr>code = NOT_IN_SET, message_sent = None, calls_made = [], buffer = buf\<rparr>
       | Prepared buf total_length index \<Rightarrow>
           do {
             headbuf \<leftarrow> build_head (take HEAD_LENGTH fresh_head) (of_nat total_length);
             let sent = Some (headbuf @ take (total_length - HEAD_LENGTH) buf);
             if \<not> written then Some \<lparr>code = OTHER_WRONG, message_sent = sent, calls_made = [], buffer = buf\<rparr>
             else do {
               datagram \<leftarrow> reply;
               let size = nbuf * 8 + HEAD_LENGTH;
               let received = take (HEAD_LENGTH + nbuf * 4) datagram;
               retbuf \<leftarrow> put_bytes (take size (fresh size)) 0 received;
               calls \<leftarrow> udp_calls buf retbuf index [0..<nbuf] (length received);
               Some \<lparr>code = SUCCESS, message_sent = sent, calls_made = calls, buffer = buf\<rparr>
             }
           }
     }"

definition dns_search ::
  "bytes \<Rightarrow> nat \<Rightarrow> bool \<Rightarrow> bool \<Rightarrow> bytes \<Rightarrow> (nat \<Rightarrow> bytes) \<Rightarrow> bytes list \<Rightarrow> search option" where
  "dns_search buf nbuf connected written fresh_head fresh replies =
     (if nbuf > TCP_OR_UDP then tcp_dns_search buf nbuf connected written fresh_head fresh replies
      else udp_dns_search buf nbuf written fresh_head fresh (case replies of [] \<Rightarrow> None | r # _ \<Rightarrow> Some r))"

section \<open>Names\<close>

definition lower :: "uint8 \<Rightarrow> uint8" where
  "lower c = (case is_in_set c of None \<Rightarrow> c | Some c' \<Rightarrow> c')"

definition name_ok :: "bytes \<Rightarrow> bool" where
  "name_ok d \<longleftrightarrow> (\<forall>c\<in>set d. is_in_set c \<noteq> None)"

lemma in_set_nonzero: "is_in_set c = Some c' \<Longrightarrow> c \<noteq> 0 \<and> c' \<noteq> 0"
proof -
  assume a: "is_in_set c = Some c'"
  then have "c \<noteq> 0" by (auto simp: is_in_set_def split: if_splits)
  moreover have "c + 32 \<noteq> 0" if "c \<le> 90"
  proof
    assume "c + 32 = 0"
    then have "c = - 32" by (simp only: eq_neg_iff_add_eq_0)
    then show False using that by simp
  qed
  ultimately show ?thesis using a by (auto simp: is_in_set_def split: if_splits)
qed

lemma name_ok_simps [simp]: "name_ok []" "name_ok (c # d) \<longleftrightarrow> is_in_set c \<noteq> None \<and> name_ok d"
  by (simp_all add: name_ok_def)

lemma name_lower: "name_ok d \<Longrightarrow> 0 \<notin> set d \<and> 0 \<notin> set (map lower d)"
  by (induction d) (auto simp: lower_def dest: in_set_nonzero)

lemma name_loop_ok:
  "name_ok d \<Longrightarrow> length A = t \<Longrightarrow> name_loop (A @ d @ 0 # R) t = Some (True, A @ map lower d @ 0 # R, t + length d)"
proof (induction d arbitrary: A t)
  case Nil
  then show ?case by (subst name_loop.simps) (simp add: nth_append)
next
  case (Cons c d)
  then obtain c' where c: "is_in_set c = Some c'" by auto
  have "(A @ (c # d) @ 0 # R) ! t = c" "(A @ (c # d) @ 0 # R)[t := c'] = (A @ [c']) @ d @ 0 # R"
    using Cons.prems(2) by (simp_all add: nth_append list_update_append)
  then have "name_loop (A @ (c # d) @ 0 # R) t = name_loop ((A @ [c']) @ d @ 0 # R) (t + 1)"
    using Cons.prems(2) c in_set_nonzero [OF c] by (subst name_loop.simps) simp
  also have "\<dots> = Some (True, (A @ [c']) @ map lower d @ 0 # R, (t + 1) + length d)"
    using Cons.prems by (intro Cons.IH) simp_all
  finally show ?case using c by (simp add: lower_def)
qed

lemma name_loop_bad:
  "name_ok d \<Longrightarrow> length A = t \<Longrightarrow> c \<noteq> 0 \<Longrightarrow> is_in_set c = None \<Longrightarrow>
    name_loop (A @ d @ c # R) t = Some (False, A @ map lower d @ c # R, t + length d)"
proof (induction d arbitrary: A t)
  case Nil
  then show ?case by (subst name_loop.simps) (simp add: nth_append)
next
  case (Cons b d)
  then obtain c' where c: "is_in_set b = Some c'" by auto
  have "(A @ (b # d) @ c # R) ! t = b" "(A @ (b # d) @ c # R)[t := c'] = (A @ [c']) @ d @ c # R"
    using Cons.prems(2) by (simp_all add: nth_append list_update_append)
  then have "name_loop (A @ (b # d) @ c # R) t = name_loop ((A @ [c']) @ d @ c # R) (t + 1)"
    using Cons.prems(2) c in_set_nonzero [OF c] by (subst name_loop.simps) simp
  also have "\<dots> = Some (False, (A @ [c']) @ map lower d @ c # R, (t + 1) + length d)"
    using Cons.prems by (intro Cons.IH) simp_all
  finally show ?case using c by (simp add: lower_def)
qed

fun offsets :: "nat \<Rightarrow> bytes list \<Rightarrow> nat list" where
  "offsets t [] = []"
| "offsets t (d # ds) = t # offsets (t + length d + 1) ds"

lemma offsets_length [simp]: "length (offsets t ds) = length ds"
  by (induction ds arbitrary: t) simp_all

abbreviation lowered :: "bytes list \<Rightarrow> bytes list" where
  "lowered \<equiv> map (map lower)"

lemma message_lowered [simp]: "length (message (lowered ds)) = length (message ds)"
  by (induction ds) simp_all

lemma offsets_lowered [simp]: "offsets t (lowered ds) = offsets t ds"
  by (induction ds arbitrary: t) simp_all

lemma pre_do_loop_ok:
  "\<forall>d\<in>set ds. name_ok d \<Longrightarrow> length A = t \<Longrightarrow>
    pre_do_loop (length ds) (A @ message ds @ R) t index =
      Some (Prepared (A @ message (lowered ds) @ R) (t + length (message ds) + HEAD_LENGTH) (index @ tl (offsets t ds)))"
proof (induction ds arbitrary: A t index)
  case (Cons d ds)
  have n: "name_loop (A @ d @ 0 # (message ds @ R)) t = Some (True, A @ map lower d @ 0 # (message ds @ R), t + length d)"
    using Cons.prems by (intro name_loop_ok) simp_all
  let ?A = "A @ map lower d @ [0]" and ?t = "t + length d + 1" and ?i = "if length ds \<noteq> 0 then index @ [t + length d + 1] else index"
  have "pre_do_loop (length ds) (?A @ message ds @ R) ?t ?i =
      Some (Prepared (?A @ message (lowered ds) @ R) (?t + length (message ds) + HEAD_LENGTH) (?i @ tl (offsets ?t ds)))"
    using Cons.prems by (intro Cons.IH) simp_all
  moreover have "?i @ tl (offsets ?t ds) = index @ offsets ?t ds" by (cases ds) simp_all
  ultimately show ?case using n by simp
qed simp

lemma pre_do_ok:
  assumes "\<forall>d\<in>set ds. name_ok d" and "ds \<noteq> []"
  shows "pre_do (message ds @ R) (length ds) =
    Some (Prepared (message (lowered ds) @ R) (length (message ds) + HEAD_LENGTH) (offsets 0 ds))"
proof -
  have "[0] @ tl (offsets 0 ds) = offsets 0 ds" using assms(2) by (cases ds) simp_all
  then show ?thesis using pre_do_loop_ok [OF assms(1), of "[]" 0 R "[0]"] assms(2) by (simp add: pre_do_def)
qed

lemma pre_do_bad:
  assumes "\<forall>d\<in>set ds. name_ok d" and "name_ok d" and "c \<noteq> 0" and "is_in_set c = None" and "length ds < n"
  shows "\<exists>buf. pre_do (message ds @ d @ c # R) n = Some (Unknown_character buf)"
proof -
  have "\<exists>buf. pre_do_loop n (A @ message ds @ d @ c # R) (length A) index = Some (Unknown_character buf)" for A index
    using assms(1,5)
  proof (induction ds arbitrary: A index n)
    case Nil
    then show ?case using name_loop_bad [OF assms(2) refl assms(3,4), of A R] by (cases n) simp_all
  next
    case (Cons e ds)
    then obtain k where k: "n = Suc k" "length ds < k" by (cases n) auto
    have nl: "name_loop (A @ e @ 0 # (message ds @ d @ c # R)) (length A) =
        Some (True, A @ map lower e @ 0 # (message ds @ d @ c # R), length A + length e)"
      using Cons.prems(1) by (intro name_loop_ok) simp_all
    show ?case using Cons.IH [of k "A @ map lower e @ [0]" "index @ [length A + length e + 1]"] Cons.prems k nl by simp
  qed
  from this [of "[]" "[0]"] show ?thesis using assms(5) by (simp add: pre_do_def)
qed

lemma build_head_ok:
  assumes "13 \<le> length fresh_head" and "length (message ds') = length (message ds)"
  shows "build_head (take HEAD_LENGTH fresh_head) (of_nat (length (message ds) + HEAD_LENGTH)) = Some (request_head ds' 1 RESERVED_BYTE)"
proof -
  let ?h = "take 13 fresh_head" and ?l = "of_nat (length (message ds) + HEAD_LENGTH) :: uint32"
  have 1: "put_bytes ?h 0 (le32 ?l) = Some (le32 ?l @ drop 4 ?h)" using assms(1) by (simp add: put_bytes_def)
  have 2: "put_bytes (le32 ?l @ drop 4 ?h) 4 (le32 MAGIC_NUMBER) = Some (le32 ?l @ le32 MAGIC_NUMBER @ drop 8 ?h)"
    using assms(1) by (subst put_bytes_middle) (simp_all add: drop_drop)
  have 3: "put_bytes ((le32 ?l @ le32 MAGIC_NUMBER) @ drop 8 ?h) 8 (le32 1) = Some ((le32 ?l @ le32 MAGIC_NUMBER) @ le32 1 @ drop 12 ?h)"
    using assms(1) by (subst put_bytes_middle) (simp_all add: drop_drop)
  have "length (drop 12 ?h) = 1" using assms(1) by simp
  then obtain x where x: "drop 12 ?h = [x]" by (metis One_nat_def length_0_conv length_Suc_conv)
  have 4: "put_byte (le32 ?l @ le32 MAGIC_NUMBER @ le32 1 @ [x]) 12 RESERVED_BYTE =
      Some (le32 ?l @ le32 MAGIC_NUMBER @ le32 1 @ [RESERVED_BYTE])"
    by (simp add: put_byte_def list_update_append)
  have "build_head ?h ?l = Some (le32 ?l @ le32 MAGIC_NUMBER @ le32 1 @ [RESERVED_BYTE])"
    using 1 2 3 4 x by (simp add: build_head_def)
  then show ?thesis using assms(2) by (simp add: request_head_def HEAD_LENGTH_def add.commute)
qed


section \<open>Reading answers\<close>

lemma read_reply_ok:
  "concat cs = m \<Longrightarrow> \<forall>c\<in>set cs. c \<noteq> [] \<Longrightarrow> m \<noteq> [] \<Longrightarrow> n = cnt + length m \<Longrightarrow> n \<le> length b \<Longrightarrow>
    read_reply n (cs @ rest) b cnt = Some (take cnt b @ m @ drop n b, rest)"
proof (induction cs arbitrary: m b cnt)
  case (Cons c cs)
  have c: "c \<noteq> []" "m = c @ concat cs" using Cons.prems by auto
  have tk: "take n c = c" using c(2) Cons.prems(4) by simp
  let ?b = "take cnt b @ c @ drop (cnt + length c) b"
  have put: "put_bytes b cnt c = Some ?b" using c(2) Cons.prems(4,5) by (simp add: put_bytes_def)
  have lb: "length ?b = length b" using c(2) Cons.prems(4,5) by simp
  show ?case
  proof (cases "concat cs = []")
    case True
    then have "cs = []" using Cons.prems(2) by (cases cs) auto
    then show ?thesis using tk put c Cons.prems(4) by (simp add: Let_def)
  next
    case False
    then have "\<not> n \<le> cnt + length c" using c(2) Cons.prems(4) by (cases "concat cs") auto
    moreover have "read_reply n (cs @ rest) ?b (cnt + length c) = Some (take (cnt + length c) ?b @ concat cs @ drop n ?b, rest)"
      using Cons.prems False c(2) lb by (intro Cons.IH) auto
    moreover have "take (cnt + length c) ?b = take cnt b @ c" "drop n ?b = drop n b"
      using c(2) Cons.prems(4,5) by (simp_all add: ac_simps)
    ultimately show ?thesis using tk put c by (simp add: Let_def)
  qed
qed simp

lemma get32_word:
  assumes "i < length ws" and "length A = a"
  shows "get32 (A @ concat (map le32 ws) @ T) (a + 4 * i) = Some (ws ! i)"
proof -
  have "ws = take i ws @ ws ! i # drop (Suc i) ws" using assms(1) by (rule id_take_nth_drop)
  then have "A @ concat (map le32 ws) @ T =
      (A @ concat (map le32 (take i ws))) @ le32 (ws ! i) @ (concat (map le32 (drop (Suc i) ws)) @ T)"
    by (metis append.assoc concat.simps(2) concat_append list.simps(9) map_append)
  moreover have "length (A @ concat (map le32 (take i ws))) = a + 4 * i" using assms by simp
  ultimately show ?thesis using get32_le32 by metis
qed

lemma call_each_ok:
  assumes "\<forall>j<k + length ds. get32 ret (HEAD_LENGTH + 4 * j) = Some (ws ! j)"
    and "\<forall>d\<in>set ds. 0 \<notin> set d" and "length B = t"
  shows "call_each (B @ message ds @ R) ret [k..<k + length ds] t = Some (zip (offsets t ds) (map ((!) ws) [k..<k + length ds]))"
  using assms
proof (induction ds arbitrary: k B t)
  case (Cons d ds)
  have st: "c_strlen (drop t (B @ message (d # ds) @ R)) = Some (length d)"
    using Cons.prems(2,3) c_strlen_at [of d "message ds @ R"] by simp
  have up: "[k..<k + length (d # ds)] = k # [k + 1..<(k + 1) + length ds]" by (simp add: upt_conv_Cons del: upt_Suc)
  have "call_each ((B @ d @ [0]) @ message ds @ R) ret [k + 1..<(k + 1) + length ds] (t + length d + 1) =
      Some (zip (offsets (t + length d + 1) ds) (map ((!) ws) [k + 1..<(k + 1) + length ds]))"
    using Cons.prems by (intro Cons.IH) simp_all
  moreover have "get32 ret (HEAD_LENGTH + 4 * k) = Some (ws ! k)" using Cons.prems(1) by simp
  ultimately show ?case unfolding up using st by simp
qed simp

lemma call_found_ok:
  "\<forall>j\<in>set is. get32 ret (HEAD_LENGTH + 4 * j) = Some (ws ! j) \<and> j < length index \<Longrightarrow>
    call_found ret index is =
      Some (map (\<lambda>j. (index ! j, ws ! j)) (filter (\<lambda>j. ws ! j \<noteq> CACHE_MISS) is), length (filter (\<lambda>j. ws ! j = CACHE_MISS) is))"
  by (induction "is") simp_all

lemma call_missed_ok:
  "\<forall>j\<in>set is. get32 ret (HEAD_LENGTH + 8 * j) = Some (of_nat (k j)) \<and> get32 ret (HEAD_LENGTH + 8 * j + 4) = Some (x j) \<and>
      k j < length index \<and> k j < 2 ^ 32 \<Longrightarrow>
    call_missed ret index is = Some (map (\<lambda>j. (index ! k j, x j)) is)"
  by (induction "is") (simp_all add: unat_of_nat)

text \<open>The words of the two messages.\<close>

lemma addresses_nth: "i < length ds \<Longrightarrow> addresses L k ds ! i = (case L (k + i) (ds ! i) of None \<Rightarrow> CACHE_MISS | Some a \<Rightarrow> a)"
  by (induction ds arbitrary: k i) (auto simp: nth_Cons split: nat.split)

lemma misses_of_filter:
  "misses_of L k ds = map (\<lambda>i. (ds ! i @ [0], k + i)) (filter (\<lambda>i. L (k + i) (ds ! i) = None) [0..<length ds])"
proof (induction ds arbitrary: k)
  case (Cons d ds)
  have up: "[0..<length (d # ds)] = 0 # map Suc [0..<length ds]" by (simp add: upt_conv_Cons map_Suc_upt del: upt_Suc)
  show ?case unfolding up by (simp add: Cons filter_map comp_def)
qed simp

lemma pairs_nth:
  "i < n \<Longrightarrow> concat (map (\<lambda>i. [x i, y i]) [0..<n]) ! (2 * i) = x i \<and> concat (map (\<lambda>i. [x i, y i]) [0..<n]) ! (2 * i + 1) = y i"
proof (induction n)
  case (Suc n)
  have l: "length (concat (map (\<lambda>i. [x i, y i]) [0..<n])) = 2 * n" by (induction n) simp_all
  show ?case
  proof (cases "i = n")
    case True
    then show ?thesis using l by (simp add: nth_append)
  next
    case False
    then have "i < n" using Suc.prems by simp
    then show ?thesis using Suc.IH l by (simp add: nth_append)
  qed
qed simp

lemma pairs_length [simp]: "length (concat (map (\<lambda>i. [x i, y i]) [0..<n])) = 2 * n"
  by (induction n) simp_all


section \<open>A search over TCP\<close>

definition client_names :: "bytes list \<Rightarrow> bool" where
  "client_names ds \<longleftrightarrow> ds \<noteq> [] \<and> (\<forall>d\<in>set ds. name_ok d)"

definition hit_calls :: "(nat \<Rightarrow> bytes \<Rightarrow> uint32 option) \<Rightarrow> bytes list \<Rightarrow> calls" where
  "hit_calls L ds = map (\<lambda>i. (offsets 0 ds ! i, the (L i (ds ! i)))) (filter (\<lambda>i. L i (ds ! i) \<noteq> None) [0..<length ds])"

definition miss_calls :: "(nat \<Rightarrow> bytes \<Rightarrow> uint32 option) \<Rightarrow> (nat \<Rightarrow> uint32 option option) \<Rightarrow> bytes list \<Rightarrow> calls" where
  "miss_calls L results ds =
     (let misses = misses_of L 0 ds
      in map (\<lambda>j. (offsets 0 ds ! snd (misses ! j), dns_address (the (results j)))) [0..<length misses])"

text \<open>What the client has in \<open>retbuf\<close> after the first message.\<close>

lemma first_words:
  fixes L :: "nat \<Rightarrow> bytes \<Rightarrow> uint32 option"
  assumes "length ret = length ds * 8 + HEAD_LENGTH" and "12 \<le> length head"
  defines "b \<equiv> first_reply head L ds @ drop (HEAD_LENGTH + length ds * 4) ret"
  shows "b ! (HEAD_LENGTH - 1) = (if misses_of L 0 ds = [] then FIRST_WITHOUT_ERROR else FIRST_WITH_ERROR)"
    "\<forall>j<length ds. get32 b (HEAD_LENGTH + 4 * j) = Some (addresses L 0 ds ! j)" "HEAD_LENGTH - 1 < length b"
    "length (first_reply head L ds) = HEAD_LENGTH + length ds * 4" "length b = length ret"
proof -
  let ?A = "take 12 head @ [if misses_of L 0 ds = [] then FIRST_WITHOUT_ERROR else FIRST_WITH_ERROR]"
  have b: "b = ?A @ concat (map le32 (addresses L 0 ds)) @ drop (HEAD_LENGTH + length ds * 4) ret"
    by (simp add: b_def first_reply_def)
  have l: "length ?A = HEAD_LENGTH" using assms(2) by (simp add: HEAD_LENGTH_def)
  show "b ! (HEAD_LENGTH - 1) = (if misses_of L 0 ds = [] then FIRST_WITHOUT_ERROR else FIRST_WITH_ERROR)"
    unfolding b using assms(2) by (simp add: nth_append HEAD_LENGTH_def)
  show "\<forall>j<length ds. get32 b (HEAD_LENGTH + 4 * j) = Some (addresses L 0 ds ! j)"
    unfolding b using get32_word [OF _ l] by simp
  show f: "length (first_reply head L ds) = HEAD_LENGTH + length ds * 4"
    using assms(2) by (simp add: first_reply_def HEAD_LENGTH_def)
  then show "HEAD_LENGTH - 1 < length b" "length b = length ret" using assms(1) by (simp_all add: b_def HEAD_LENGTH_def)
qed

lemma tcp_search_run:
  assumes "pre_do buf nbuf = Some (Prepared buf' len index)"
    and "build_head (take HEAD_LENGTH fresh_head) (of_nat len) = Some h"
    and "read_reply (HEAD_LENGTH + nbuf * 4) chunks (take (nbuf * 8 + HEAD_LENGTH) (fresh (nbuf * 8 + HEAD_LENGTH))) 0 = Some (b, rest)"
    and "HEAD_LENGTH - 1 < length b" and "take (len - HEAD_LENGTH) buf' = m"
  shows "b ! (HEAD_LENGTH - 1) = FIRST_WITHOUT_ERROR \<Longrightarrow> call_each buf' b [0..<nbuf] 0 = Some calls \<Longrightarrow>
      tcp_dns_search buf nbuf True True fresh_head fresh chunks =
        Some \<lparr>code = SUCCESS, message_sent = Some (h @ m), calls_made = calls, buffer = buf'\<rparr>"
    and "b ! (HEAD_LENGTH - 1) \<noteq> FIRST_WITHOUT_ERROR \<Longrightarrow> call_found b index [0..<nbuf] = Some (calls, k) \<Longrightarrow>
      read_reply (HEAD_LENGTH + k * 8) rest (replicate (nbuf * 8 + HEAD_LENGTH) 0) 0 = Some (b2, rest2) \<Longrightarrow>
      call_missed b2 index [0..<k] = Some calls2 \<Longrightarrow>
      tcp_dns_search buf nbuf True True fresh_head fresh chunks =
        Some \<lparr>code = SUCCESS, message_sent = Some (h @ m), calls_made = calls @ calls2, buffer = buf'\<rparr>"
  using assms by (simp_all add: tcp_dns_search_def Let_def)

lemma tcp_first_ok:
  assumes ds: "client_names ds" and L: "\<forall>i. \<forall>d\<in>set ls. L i d \<noteq> Some CACHE_MISS"
    and mem: "13 \<le> length fresh_head" "\<forall>n. n \<le> length (fresh n)"
    and head: "12 \<le> length head" and low: "ls = lowered ds"
    and c1: "concat c1 = first_reply head L ls" "\<forall>c\<in>set c1. c \<noteq> []"
    and no: "misses_of L 0 ls = []"
  shows "tcp_dns_search (message ds @ R) (length ds) True True fresh_head fresh (c1 @ c2) =
    Some \<lparr>code = SUCCESS, message_sent = Some (request_head ls 1 RESERVED_BYTE @ message ls),
      calls_made = hit_calls L ls, buffer = message ls @ R\<rparr>"
proof -
  let ?n = "length ds" and ?size = "length ds * 8 + HEAD_LENGTH"
  let ?ret = "take ?size (fresh ?size)"
  have n: "length ls = ?n" "length (message ls) = length (message ds)" using low by simp_all
  have ret: "length ?ret = length ls * 8 + HEAD_LENGTH" using mem(2) n by (simp add: min_absorb2)
  let ?b = "first_reply head L ls @ drop (HEAD_LENGTH + length ls * 4) ?ret"
  note f = first_words [OF ret head, of L]
  have p: "pre_do (message ds @ R) ?n = Some (Prepared (message ls @ R) (length (message ds) + HEAD_LENGTH) (offsets 0 ls))"
    using pre_do_ok [of ds R] ds low by (simp add: client_names_def)
  have h: "build_head (take HEAD_LENGTH fresh_head) (of_nat (length (message ds) + HEAD_LENGTH)) = Some (request_head ls 1 RESERVED_BYTE)"
    using build_head_ok [OF mem(1) n(2)] .
  have "first_reply head L ls \<noteq> []" using f(4) by (auto simp: HEAD_LENGTH_def)
  then have rd: "read_reply (HEAD_LENGTH + ?n * 4) (c1 @ c2) ?ret 0 = Some (?b, c2)"
    using read_reply_ok [OF c1, of "HEAD_LENGTH + ?n * 4" 0 ?ret c2] f(4) n(1) ret by simp
  have nz: "\<forall>d\<in>set ls. 0 \<notin> set d" using ds low name_lower by (auto simp: client_names_def)
  have "call_each (message ls @ R) ?b [0..<?n] 0 = Some (zip (offsets 0 ls) (map ((!) (addresses L 0 ls)) [0..<?n]))"
    using call_each_ok [of 0 ls ?b "addresses L 0 ls" "[]" 0 R] f(2) nz n(1) by simp
  also have "zip (offsets 0 ls) (map ((!) (addresses L 0 ls)) [0..<?n]) = hit_calls L ls"
  proof -
    have all: "L i (ls ! i) \<noteq> None" if "i < ?n" for i using no that n(1) by (simp add: misses_of_filter filter_empty_conv)
    then have f: "filter (\<lambda>i. L i (ls ! i) \<noteq> None) [0..<length ls] = [0..<?n]" using n(1) by (simp add: filter_id_conv)
    have a: "addresses L 0 ls ! i = the (L i (ls ! i))" if "i < ?n" for i
      using all [OF that] that n(1) addresses_nth [of i ls L 0] by auto
    show ?thesis unfolding hit_calls_def f by (rule nth_equalityI) (simp_all add: n(1) a)
  qed
  finally have ce: "call_each (message ls @ R) ?b [0..<?n] 0 = Some (hit_calls L ls)" .
  have fl: "?b ! (HEAD_LENGTH - 1) = FIRST_WITHOUT_ERROR" using f(1) no by simp
  have tl: "take (length (message ds) + HEAD_LENGTH - HEAD_LENGTH) (message ls @ R) = message ls" using n(2) by simp
  show ?thesis by (rule tcp_search_run(1) [where fresh = fresh, OF p h rd f(3) tl fl ce])
qed

lemma flags_differ: "FIRST_WITH_ERROR \<noteq> FIRST_WITHOUT_ERROR"
  by (simp add: FIRST_WITH_ERROR_def FIRST_WITHOUT_ERROR_def)

lemma tcp_second_ok:
  assumes ds: "client_names ds" and L: "\<forall>i. \<forall>d\<in>set ls. L i d \<noteq> Some CACHE_MISS"
    and mem: "13 \<le> length fresh_head" "\<forall>n. n \<le> length (fresh n)"
    and head: "12 \<le> length head" "12 \<le> length head2" and low: "ls = lowered ds" and size: "length ds < 2 ^ 32"
    and c1: "concat c1 = first_reply head L ls" "\<forall>c\<in>set c1. c \<noteq> []"
    and some: "misses_of L 0 ls \<noteq> []"
    and c2: "concat c2 = second_reply head2 flag results (misses_of L 0 ls)" "\<forall>c\<in>set c2. c \<noteq> []"
  shows "tcp_dns_search (message ds @ R) (length ds) True True fresh_head fresh (c1 @ c2) =
    Some \<lparr>code = SUCCESS, message_sent = Some (request_head ls 1 RESERVED_BYTE @ message ls),
      calls_made = hit_calls L ls @ miss_calls L results ls, buffer = message ls @ R\<rparr>"
proof -
  let ?n = "length ds" and ?size = "length ds * 8 + HEAD_LENGTH" and ?ms = "misses_of L 0 ls"
  let ?ret = "take ?size (fresh ?size)" and ?m = "length (misses_of L 0 ls)"
  have n: "length ls = ?n" "length (message ls) = length (message ds)" using low by simp_all
  have ret: "length ?ret = length ls * 8 + HEAD_LENGTH" using mem(2) n by (simp add: min_absorb2)
  let ?b = "first_reply head L ls @ drop (HEAD_LENGTH + length ls * 4) ?ret"
  note f = first_words [OF ret head(1), of L]
  have p: "pre_do (message ds @ R) ?n = Some (Prepared (message ls @ R) (length (message ds) + HEAD_LENGTH) (offsets 0 ls))"
    using pre_do_ok [of ds R] ds low by (simp add: client_names_def)
  have h: "build_head (take HEAD_LENGTH fresh_head) (of_nat (length (message ds) + HEAD_LENGTH)) = Some (request_head ls 1 RESERVED_BYTE)"
    using build_head_ok [OF mem(1) n(2)] .
  have "first_reply head L ls \<noteq> []" using f(4) by (auto simp: HEAD_LENGTH_def)
  then have rd: "read_reply (HEAD_LENGTH + ?n * 4) (c1 @ c2) ?ret 0 = Some (?b, c2)"
    using read_reply_ok [OF c1, of "HEAD_LENGTH + ?n * 4" 0 ?ret c2] f(4) n(1) ret by simp
  have miss: "addresses L 0 ls ! i = CACHE_MISS \<longleftrightarrow> L i (ls ! i) = None" if "i < ?n" for i
  proof -
    have "L i (ls ! i) \<noteq> Some CACHE_MISS" using L that n(1) by simp
    then show ?thesis using that n(1) addresses_nth [of i ls L 0] by (auto split: option.split)
  qed
  have hit: "addresses L 0 ls ! i = the (L i (ls ! i))" if "i < ?n" "L i (ls ! i) \<noteq> None" for i
    using that n(1) addresses_nth [of i ls L 0] by auto
  have "call_found ?b (offsets 0 ls) [0..<?n] =
      Some (map (\<lambda>j. (offsets 0 ls ! j, addresses L 0 ls ! j)) (filter (\<lambda>j. addresses L 0 ls ! j \<noteq> CACHE_MISS) [0..<?n]),
        length (filter (\<lambda>j. addresses L 0 ls ! j = CACHE_MISS) [0..<?n]))"
    using f(2) n(1) by (intro call_found_ok) simp
  moreover have "filter (\<lambda>j. addresses L 0 ls ! j \<noteq> CACHE_MISS) [0..<?n] = filter (\<lambda>i. L i (ls ! i) \<noteq> None) [0..<?n]"
    "filter (\<lambda>j. addresses L 0 ls ! j = CACHE_MISS) [0..<?n] = filter (\<lambda>i. L i (ls ! i) = None) [0..<?n]"
    using miss by (auto intro!: filter_cong)
  ultimately have cf: "call_found ?b (offsets 0 ls) [0..<?n] = Some (hit_calls L ls, ?m)"
    using hit n(1) by (simp add: hit_calls_def misses_of_filter)
  let ?W = "second_words results ?ms"
  have mn: "?m \<le> ?n" unfolding misses_of_filter using n(1) length_filter_le [of "\<lambda>i. L (0 + i) (ls ! i) = None" "[0..<length ls]"] by simp
  have sl: "length (second_reply head2 flag results ?ms) = HEAD_LENGTH + ?m * 8"
    using head(2) by (simp add: second_reply_def second_words_def HEAD_LENGTH_def)
  let ?b2 = "second_reply head2 flag results ?ms @ drop (HEAD_LENGTH + ?m * 8) (replicate ?size 0)"
  have "second_reply head2 flag results ?ms \<noteq> []" using sl by (auto simp: HEAD_LENGTH_def)
  then have rd2: "read_reply (HEAD_LENGTH + ?m * 8) c2 (replicate ?size 0) 0 = Some (?b2, [])"
    using read_reply_ok [OF c2, of "HEAD_LENGTH + ?m * 8" 0 "replicate ?size 0" "[]"] sl mn by simp
  have w: "?W ! (2 * j) = of_nat (snd (?ms ! j))" "?W ! (2 * j + 1) = dns_address (the (results j))" "2 * j + 1 < length ?W"
    if "j < ?m" for j
    using that pairs_nth [of j ?m "\<lambda>i. of_nat (snd (?ms ! i))" "\<lambda>i. dns_address (the (results i))"]
    unfolding second_words_def by simp_all
  have g: "get32 ?b2 (HEAD_LENGTH + 4 * i) = Some (?W ! i)" if "i < length ?W" for i
    using that get32_word [of i ?W "take 12 head2 @ [flag]" HEAD_LENGTH] head(2) by (simp add: second_reply_def HEAD_LENGTH_def)
  have ix: "snd (?ms ! j) < ?n" if "j < ?m" for j
  proof -
    have "?ms ! j \<in> set ?ms" using that by simp
    then show ?thesis unfolding misses_of_filter using n(1) by auto
  qed
  have "call_missed ?b2 (offsets 0 ls) [0..<?m] = Some (map (\<lambda>j. (offsets 0 ls ! snd (?ms ! j), dns_address (the (results j)))) [0..<?m])"
  proof (intro call_missed_ok ballI)
    fix j assume "j \<in> set [0..<?m]"
    then have j: "j < ?m" by simp
    have e: "HEAD_LENGTH + 8 * j = HEAD_LENGTH + 4 * (2 * j)" "HEAD_LENGTH + 8 * j + 4 = HEAD_LENGTH + 4 * (2 * j + 1)" by simp_all
    have "2 * j < length ?W" using w(3) [OF j] by simp
    then have "get32 ?b2 (HEAD_LENGTH + 8 * j) = Some (of_nat (snd (?ms ! j)))" unfolding e(1) using g w(1) [OF j] by metis
    moreover have "get32 ?b2 (HEAD_LENGTH + 8 * j + 4) = Some (dns_address (the (results j)))"
      unfolding e(2) g [OF w(3) [OF j]] w(2) [OF j] ..
    moreover have "snd (?ms ! j) < 2 ^ 32" using ix [OF j] size by linarith
    moreover have "snd (?ms ! j) < length (offsets 0 ls)" using ix [OF j] n(1) by simp
    ultimately show "get32 ?b2 (HEAD_LENGTH + 8 * j) = Some (of_nat (snd (?ms ! j))) \<and>
        get32 ?b2 (HEAD_LENGTH + 8 * j + 4) = Some (dns_address (the (results j))) \<and>
        snd (?ms ! j) < length (offsets 0 ls) \<and> snd (?ms ! j) < 2 ^ 32" by blast
  qed
  then have cm: "call_missed ?b2 (offsets 0 ls) [0..<?m] = Some (miss_calls L results ls)" by (simp add: miss_calls_def Let_def)
  have fl: "?b ! (HEAD_LENGTH - 1) \<noteq> FIRST_WITHOUT_ERROR" using f(1) some flags_differ by simp
  have tl: "take (length (message ds) + HEAD_LENGTH - HEAD_LENGTH) (message ls @ R) = message ls" using n(2) by simp
  show ?thesis by (rule tcp_search_run(2) [where fresh = fresh, OF p h rd f(3) tl fl cf rd2 cm])
qed


lemma calls_cover:
  "mset (map fst (hit_calls L ds @ miss_calls L results ds)) = mset (offsets 0 ds)"
proof -
  let ?P = "\<lambda>i. L i (ds ! i) = None"
  have h: "map fst (hit_calls L ds) = map ((!) (offsets 0 ds)) (filter (\<lambda>i. \<not> ?P i) [0..<length ds])"
    by (simp add: hit_calls_def comp_def)
  have "map fst (miss_calls L results ds) = map (\<lambda>j. offsets 0 ds ! (filter ?P [0..<length ds] ! j)) [0..<length (filter ?P [0..<length ds])]"
    by (simp add: miss_calls_def misses_of_filter comp_def)
  also have "\<dots> = map ((!) (offsets 0 ds)) (filter ?P [0..<length ds])"
    by (rule nth_equalityI) simp_all
  finally have m: "map fst (miss_calls L results ds) = map ((!) (offsets 0 ds)) (filter ?P [0..<length ds])" .
  have "mset (filter (\<lambda>i. \<not> ?P i) [0..<length ds]) + mset (filter ?P [0..<length ds]) = mset [0..<length ds]"
    by (simp only: mset_filter) (metis multiset_partition union_commute)
  then have "mset (map fst (hit_calls L ds)) + mset (map fst (miss_calls L results ds)) = mset (map ((!) (offsets 0 ds)) [0..<length ds])"
    unfolding h m mset_map by (metis image_mset_union)
  moreover have "map ((!) (offsets 0 ds)) [0..<length ds] = offsets 0 ds" using map_nth [of "offsets 0 ds"] by simp
  ultimately show ?thesis by (simp only: map_append mset_append)
qed

section \<open>A search over UDP\<close>

text \<open>The walk needs one terminator for each domain in what lies behind its start.\<close>

definition zeros :: "bytes \<Rightarrow> nat" where
  "zeros b = length (filter (\<lambda>c. c = 0) b)"

lemma zeros_simps [simp]: "0 \<notin> set d \<Longrightarrow> zeros (d @ 0 # r) = Suc (zeros r)" "0 \<notin> set d \<Longrightarrow> zeros d = 0"
  by (auto simp: zeros_def filter_empty_conv)

lemma udp_calls_exact:
  "\<forall>j\<in>set is. get32 ret (HEAD_LENGTH + 4 * j) = Some (ws ! j) \<and> j < length index \<Longrightarrow>
    udp_calls buf ret index is cnt =
      (if length is \<le> zeros (drop cnt buf) then Some (map (\<lambda>j. (index ! j, ws ! j)) is) else None)"
proof (induction "is" arbitrary: cnt)
  case (Cons i js)
  show ?case
  proof (cases "0 \<in> set (drop cnt buf)")
    case True
    then obtain d r where d: "drop cnt buf = d @ 0 # r" "0 \<notin> set d" by (metis split_list_first)
    have "drop (cnt + length d + 1) buf = drop (length d + 1) (drop cnt buf)" by (simp add: add.commute add.left_commute)
    also have "\<dots> = r" unfolding d(1) by simp
    finally have "drop (cnt + length d + 1) buf = r" .
    moreover have "udp_calls buf ret index js (cnt + length d + 1) =
        (if length js \<le> zeros (drop (cnt + length d + 1) buf) then Some (map (\<lambda>j. (index ! j, ws ! j)) js) else None)"
      using Cons.prems by (intro Cons.IH) simp
    ultimately show ?thesis using Cons.prems d(2) by (simp add: d(1) c_strlen_at)
  next
    case False
    then have "c_strlen (drop cnt buf) = None" "zeros (drop cnt buf) = 0" by (simp_all add: c_strlen_def c_str_def)
    then show ?thesis using Cons.prems by simp
  qed
qed simp

lemma udp_search_result:
  assumes ds: "client_names ds" and mem: "13 \<le> length fresh_head" "\<forall>n. n \<le> length (fresh n)"
    and head: "12 \<le> length head" and low: "ls = lowered ds"
  shows "udp_dns_search (message ds @ R) (length ds) True fresh_head fresh (Some (first_reply head L ls)) =
    (if length ds \<le> zeros (drop (HEAD_LENGTH + 4 * length ds) (message ls @ R))
     then Some \<lparr>code = SUCCESS, message_sent = Some (request_head ls 1 RESERVED_BYTE @ message ls),
       calls_made = zip (offsets 0 ls) (addresses L 0 ls), buffer = message ls @ R\<rparr>
     else None)"
proof -
  let ?n = "length ds" and ?size = "length ds * 8 + HEAD_LENGTH" and ?buf = "message ls @ R"
  let ?ret = "take ?size (fresh ?size)"
  have n: "length ls = ?n" "length (message ls) = length (message ds)" using low by simp_all
  have ret: "length ?ret = length ls * 8 + HEAD_LENGTH" using mem(2) n by (simp add: min_absorb2)
  let ?b = "first_reply head L ls @ drop (HEAD_LENGTH + length ls * 4) ?ret"
  note f = first_words [OF ret head, of L]
  have p: "pre_do (message ds @ R) ?n = Some (Prepared ?buf (length (message ds) + HEAD_LENGTH) (offsets 0 ls))"
    using pre_do_ok [of ds R] ds low by (simp add: client_names_def)
  have h: "build_head (take HEAD_LENGTH fresh_head) (of_nat (length (message ds) + HEAD_LENGTH)) = Some (request_head ls 1 RESERVED_BYTE)"
    using build_head_ok [OF mem(1) n(2)] .
  have tk: "take (HEAD_LENGTH + ?n * 4) (first_reply head L ls) = first_reply head L ls" using f(4) n(1) by simp
  have put: "put_bytes ?ret 0 (first_reply head L ls) = Some ?b" using f(4) ret by (simp add: put_bytes_def)
  have "map (\<lambda>j. (offsets 0 ls ! j, addresses L 0 ls ! j)) [0..<?n] = zip (offsets 0 ls) (addresses L 0 ls)"
    by (rule nth_equalityI) (use n in simp_all)
  moreover have "udp_calls ?buf ?b (offsets 0 ls) [0..<?n] (HEAD_LENGTH + length ls * 4) =
      (if length [0..<?n] \<le> zeros (drop (HEAD_LENGTH + length ls * 4) ?buf)
       then Some (map (\<lambda>j. (offsets 0 ls ! j, addresses L 0 ls ! j)) [0..<?n]) else None)"
    by (rule udp_calls_exact) (use f(2) n in simp)
  ultimately have c: "udp_calls ?buf ?b (offsets 0 ls) [0..<?n] (HEAD_LENGTH + length ls * 4) =
      (if ?n \<le> zeros (drop (HEAD_LENGTH + 4 * ?n) ?buf) then Some (zip (offsets 0 ls) (addresses L 0 ls)) else None)"
    using n(1) by (simp add: mult.commute)
  have tl: "take (length (message ds) + HEAD_LENGTH - HEAD_LENGTH) ?buf = message ls" using n(2) by simp
  note run = udp_dns_search_def p bind.bind_lunit bind.bind_lzero prepared.case h Let_def not_True_eq_False if_False if_True tk put f(4) tl
  show ?thesis
  proof (cases "?n \<le> zeros (drop (HEAD_LENGTH + 4 * ?n) ?buf)")
    case True
    then show ?thesis using c by (simp only: run)
  next
    case False
    then show ?thesis using c by (simp only: run)
  qed
qed

lemma serv_head_block: "serv lookup fresh_head fresh chunks = Some (Served cl a) \<Longrightarrow> HEAD_LENGTH \<le> length (head_block a)"
  by (auto simp: serv_def tcp_do_search_def Let_def bind_eq_Some_conv split: list.splits if_splits)

lemma serv_sent: "serv lookup fresh_head fresh chunks = Some (Served cl a) \<Longrightarrow> sent a \<noteq> []"
  by (auto simp: serv_def tcp_do_search_def HEAD_LENGTH_def Let_def bind_eq_Some_conv split: list.splits if_splits)

section \<open>Properties\<close>

text \<open>What a request of the client meets on the server: the caches have no fresh 127.0.0.2.\<close>

definition served_by :: "(nat \<Rightarrow> Kache) \<Rightarrow> (nat \<Rightarrow> int) \<Rightarrow> nat \<Rightarrow> bytes \<Rightarrow> uint32 option" where
  "served_by caches clock i = cached (caches i) (clock i)"

definition good_request :: "(nat \<Rightarrow> Kache) \<Rightarrow> (nat \<Rightarrow> int) \<Rightarrow> bytes list \<Rightarrow> bool" where
  "good_request caches clock ds \<longleftrightarrow> (\<forall>i. kache_ok (caches i)) \<and> client_names ds \<and> (\<forall>d\<in>set ds. 3 \<le> length d) \<and>
     13 + length (message ds) < 2 ^ 31 \<and> (\<forall>i. \<forall>d\<in>set (lowered ds). served_by caches clock i d \<noteq> Some CACHE_MISS)"

lemma good_request_domains: "good_request caches clock ds \<Longrightarrow> domains_ok (lowered ds)"
  using name_lower by (auto simp: good_request_def client_names_def domains_ok_def)

lemma good_request_serv:
  assumes g: "good_request caches clock ds" and mem: "16 \<le> length fresh_head" "\<forall>n. n \<le> length (fresh n)"
    and body: "concat body = message (lowered ds)" "\<forall>c\<in>set body. c \<noteq> []"
  shows "\<exists>head'. serv (kache_lookup caches clock) fresh_head fresh (request_head (lowered ds) 1 RESERVED_BYTE # body) =
    Some (Served False \<lparr>sent = first_reply (request_head (lowered ds) 1 RESERVED_BYTE) (served_by caches clock) (lowered ds),
      missed = misses_of (served_by caches clock) 0 (lowered ds), head_block = head'\<rparr>)"
proof -
  have k: "\<forall>i. kache_ok (caches i)" and l: "13 + length (message (lowered ds)) < 2 ^ 31" using g by (auto simp: good_request_def)
  show ?thesis unfolding served_by_def [abs_def]
    using serv_ok [OF kache_looks_up [OF k] good_request_domains [OF g] l mem body] by blast
qed

lemma good_request_count: "good_request caches clock ds \<Longrightarrow> length ds < 2 ^ 32"
proof -
  assume g: "good_request caches clock ds"
  have "4 * length (lowered ds) \<le> length (message (lowered ds))" by (rule message_long [OF good_request_domains [OF g]])
  moreover have "13 + length (message ds) < 2 ^ 31" using g by (simp add: good_request_def)
  ultimately show ?thesis unfolding message_lowered length_map by simp
qed


lemma second_message_size:
  assumes "reachable n s" and "(k, connection, m) \<in> set (seconds s)"
  shows "0 < length m"
proof -
  have "reply_ok s k connection m"
    using reachable_ok [OF assms(1)] assms(2) by (auto simp: process_ok_def threads_ok_def replies_ok_def)
  then show ?thesis by (auto simp: reply_ok_def second_reply_def split: prod.splits)
qed

lemma cached_empty: "0 \<notin> set d \<Longrightarrow> d \<noteq> [] \<Longrightarrow> cached empty_kache now d = None"
  using get_home [OF empty_kache_ok, of d "[]"] empty_kache_home [of d]
  by (cases d) (auto simp: cached_def empty_kache_def)

lemma one_request_run:
  assumes "13 \<le> length head" and "terminated d"
  shows "\<exists>s m. reachable 1 s \<and> (0, 5, m) \<in> set (seconds s) \<and> submitted s ! 0 = (5, head, [(d, 0)])"
proof -
  let ?xs = "[Tcp_search 5 head [(d, 0)] (replicate 2 0), Append 0, Work 0 None 9 True, Work 0 (Some 7) 9 True,
    Work 0 None 9 True, Work 0 None 9 True, Work 0 None 9 True]"
  obtain e r where d: "d = e @ 0 # r" "0 \<notin> set e" using terminated_split [OF assms(2)] by blast
  obtain k where k: "kache_store empty_kache (Some d) \<lparr>ip = 7, timestamp = 9\<rparr> = Some k"
    using kache_store_law [OF empty_kache_ok d(2), of r "\<lparr>ip = 7, timestamp = 9\<rparr>"] unfolding d(1) by blast
  have "12 < length head" using assms(1) by simp
  then have "\<exists>s m. run_steps ?xs (started 1 empty_kache (\<lambda>_. udp_entry ([], 0))) = Next s \<and> (0, 5, m) \<in> set (seconds s) \<and>
      submitted s ! 0 = (5, head, [(d, 0)])"
    using assms(1) by (simp add: run_facts tcp_entry_def k numeral_2_eq_2 Let_def dns_address_def)
  moreover have "\<forall>x\<in>set ?xs. step_ok x" using assms by (simp add: misses_ok_def HEAD_LENGTH_def)
  ultimately show ?thesis using run_reachable [OF reachable.start [OF empty_kache_ok]] by blast
qed

lemma example_name:
  "lower 0x41 = 0x61" "lower 0x62 = 0x62" "lower 0x63 = 0x63" "client_names [[0x41, 0x62, 0x63]]"
  by (simp_all add: lower_def is_in_set_def client_names_def)

lemma example_request:
  "good_request (\<lambda>_. k) clock [[0x41, 0x62, 0x63]] \<longleftrightarrow> kache_ok k \<and> (\<forall>i :: nat. cached k (clock i) [0x61, 0x62, 0x63] \<noteq> Some CACHE_MISS)"
  using example_name by (auto simp: good_request_def served_by_def)

lemma request_short_block:
  "length fresh_head < 16 \<Longrightarrow> serv lookup fresh_head fresh (request_head ds req b # body) = None"
  by (simp add: serv_short_block HEAD_LENGTH_def)

lemma all_cached_ok:
  assumes g: "good_request caches clock ds" and none: "misses_of (served_by caches clock) 0 (lowered ds) = []"
    and mem: "\<forall>n. n \<le> length (fresh n)" "13 \<le> length client_head" "\<forall>n. n \<le> length (client_fresh n)"
    and body: "concat body = message (lowered ds)" "\<forall>c\<in>set body. c \<noteq> []"
  shows "if length fresh_head < 16
    then serv (kache_lookup caches clock) fresh_head fresh (request_head (lowered ds) 1 RESERVED_BYTE # body) = None
    else \<exists>a. serv (kache_lookup caches clock) fresh_head fresh (request_head (lowered ds) 1 RESERVED_BYTE # body) = Some (Served False a) \<and>
      (\<forall>reads. concat reads = sent a \<and> (\<forall>c\<in>set reads. c \<noteq> []) \<longrightarrow>
        tcp_dns_search (message ds @ R) (length ds) True True client_head client_fresh reads =
          Some \<lparr>code = SUCCESS, message_sent = Some (request_head (lowered ds) 1 RESERVED_BYTE @ message (lowered ds)),
            calls_made = hit_calls (served_by caches clock) (lowered ds), buffer = message (lowered ds) @ R\<rparr>)"
proof (cases "length fresh_head < 16")
  case True
  then show ?thesis by (simp add: request_short_block)
next
  case False
  let ?L = "served_by caches clock" and ?h = "request_head (lowered ds) 1 RESERVED_BYTE"
  have "16 \<le> length fresh_head" using False by simp
  then obtain head' where s: "serv (kache_lookup caches clock) fresh_head fresh (?h # body) =
    Some (Served False \<lparr>sent = first_reply ?h ?L (lowered ds), missed = misses_of ?L 0 (lowered ds), head_block = head'\<rparr>)"
    using good_request_serv [OF g _ mem(1) body] by blast
  have n: "client_names ds" and L: "\<forall>i. \<forall>d\<in>set (lowered ds). ?L i d \<noteq> Some CACHE_MISS"
    using g unfolding good_request_def by blast+
  have "tcp_dns_search (message ds @ R) (length ds) True True client_head client_fresh (reads @ []) =
      Some \<lparr>code = SUCCESS, message_sent = Some (?h @ message (lowered ds)),
        calls_made = hit_calls ?L (lowered ds), buffer = message (lowered ds) @ R\<rparr>"
    if "concat reads = first_reply ?h ?L (lowered ds)" "\<forall>c\<in>set reads. c \<noteq> []" for reads
    by (rule tcp_first_ok [OF n L mem(2,3) _ refl that none]) simp
  then show ?thesis using s False by auto
qed

text \<open>C5: Client and server together, all domains cached: the client's request, however the network cuts
  its body, is answered with the flag that ends the exchange, and however the answer is cut the client calls
  the function once for each of the caller's domains, in order, with the address in the cache. The conditions of
  \<open>good_request\<close>: names over the client's character set of at least three characters, less than 2 GiB of
  request, the caches in their invariant, and no fresh 127.0.0.2 among the cached addresses; the request's
  header arrives in one read. The server's block for the header has to be of at least 16 bytes, where it
  asks for 13: in a smaller one its behaviour is undefined.\<close>

theorem search_all_cached:
  assumes g: "good_request caches clock ds" and none: "misses_of (served_by caches clock) 0 (lowered ds) = []"
    and mem: "\<forall>n. n \<le> length (fresh n)" "13 \<le> length client_head" "\<forall>n. n \<le> length (client_fresh n)"
    and body: "concat body = message (lowered ds)" "\<forall>c\<in>set body. c \<noteq> []"
  shows "if length fresh_head < 16
    then serv (kache_lookup caches clock) fresh_head fresh (request_head (lowered ds) 1 RESERVED_BYTE # body) = None
    else \<exists>a. serv (kache_lookup caches clock) fresh_head fresh (request_head (lowered ds) 1 RESERVED_BYTE # body) = Some (Served False a) \<and>
      (\<forall>reads. concat reads = sent a \<and> (\<forall>c\<in>set reads. c \<noteq> []) \<longrightarrow>
        tcp_dns_search (message ds @ R) (length ds) True True client_head client_fresh reads =
          Some \<lparr>code = SUCCESS, message_sent = Some (request_head (lowered ds) 1 RESERVED_BYTE @ message (lowered ds)),
            calls_made = hit_calls (served_by caches clock) (lowered ds), buffer = message (lowered ds) @ R\<rparr>)"
  by (rule all_cached_ok [OF g none mem body])

theorem search_all_cached_witness:
  "\<exists>k a r. serv (kache_lookup (\<lambda>_. k) (\<lambda>_. 9)) (replicate 16 0) (\<lambda>n. replicate n 0)
      [request_head [[0x61, 0x62, 0x63]] 1 RESERVED_BYTE, [0x61], [0x62, 0x63, 0]] = Some (Served False a) \<and>
    tcp_dns_search (message [[0x41, 0x62, 0x63]]) 1 True True (replicate 13 0) (\<lambda>n. replicate n 0) (map (\<lambda>c. [c]) (sent a)) = Some r \<and>
    calls_made r = [(0, 7)]"
proof -
  let ?ds = "[[0x41, 0x62, 0x63]] :: bytes list" and ?d = "[0x61, 0x62, 0x63] :: bytes" and ?e = "\<lparr>ip = 7, timestamp = 9\<rparr>"
  have z: "0 \<notin> set ?d" by simp
  obtain k where k1: "kache_ok k" and get: "\<forall>j r. 0 \<notin> set j \<longrightarrow> kache_get k (j @ 0 # r) =
       (if home empty_kache j \<noteq> home empty_kache ?d then kache_get empty_kache (j @ 0 # r)
        else case home empty_kache ?d of
            Main i \<Rightarrow> Some (Some ?e)
          | Hashed h \<Rightarrow> if take (min 4 (length j)) (take 4 ?d @ drop (length ?d) (part_key (hash_data empty_kache h))) = take 4 j
                        then Some (Some ?e) else Some None)"
    using kache_store_law [OF empty_kache_ok z, of "[]" ?e] by blast
  have k2: "kache_get k (?d @ 0 # []) = Some (Some ?e)"
    unfolding get [rule_format, OF z, of "[]"] empty_kache_home [OF z] by simp
  note k = k1 k2
  have c: "cached k 9 ?d = Some 7" using k(2) by (simp add: cached_def TIME_OUT_def)
  have g: "good_request (\<lambda>_. k) (\<lambda>_. 9) ?ds" using k(1) c by (simp add: example_request CACHE_MISS_def)
  have none: "misses_of (served_by (\<lambda>_. k) (\<lambda>_. 9)) 0 (lowered ?ds) = []" using c by (simp add: example_name served_by_def)
  have l: "\<forall>n. n \<le> length (replicate n (0 :: uint8))" "16 \<le> length (replicate 16 (0 :: uint8))" "13 \<le> length (replicate 13 (0 :: uint8))"
    "concat [[0x61], [0x62, 0x63, 0]] = message (lowered ?ds)" "\<forall>c\<in>set [[0x61 :: uint8], [0x62, 0x63, 0]]. c \<noteq> []"
    by (simp_all add: example_name)
  have h: "hit_calls (served_by (\<lambda>_. k) (\<lambda>_. 9)) [?d] = [(0, 7)]" using c by (simp add: hit_calls_def served_by_def)
  have "16 \<le> length (replicate 16 (0 :: uint8))" by simp
  then obtain a where a: "serv (kache_lookup (\<lambda>_. k) (\<lambda>_. 9)) (replicate 16 0) (\<lambda>n. replicate n 0)
      [request_head [[0x61, 0x62, 0x63]] 1 RESERVED_BYTE, [0x61], [0x62, 0x63, 0]] = Some (Served False a)"
    and reads: "\<forall>reads. concat reads = sent a \<and> (\<forall>c\<in>set reads. c \<noteq> []) \<longrightarrow>
      tcp_dns_search (message ?ds) 1 True True (replicate 13 0) (\<lambda>n. replicate n 0) reads =
        Some \<lparr>code = SUCCESS, message_sent = Some (request_head [[0x61, 0x62, 0x63]] 1 RESERVED_BYTE @ message [[0x61, 0x62, 0x63]]),
          calls_made = [(0, 7)], buffer = message [[0x61, 0x62, 0x63]] @ []\<rparr>"
    using search_all_cached [OF g none l(1,3,1,4,5), of "replicate 16 0" "[]"] h unfolding append_Nil2 by (auto simp: example_name)
  have "concat (map (\<lambda>c. [c]) (sent a)) = sent a" "\<forall>c\<in>set (map (\<lambda>c. [c]) (sent a)). c \<noteq> []" by (simp_all add: concat_map_singleton)
  note r = reads [rule_format, OF conjI, OF this]
  show ?thesis by (intro exI conjI) (rule a, rule r, simp)
qed

lemma search_run:
  assumes g: "good_request caches clock ds" and some: "misses_of (served_by caches clock) 0 (lowered ds) \<noteq> []"
    and mem: "13 \<le> length client_head" "\<forall>n. n \<le> length (client_fresh n)"
    and srv: "serv lookup fresh_head fresh chunks = Some (Served cl a)"
    and a: "sent a = first_reply (request_head (lowered ds) 1 RESERVED_BYTE) (served_by caches clock) (lowered ds)"
      "missed a = misses_of (served_by caches clock) 0 (lowered ds)"
    and run: "reachable n s" "(k, connection, m) \<in> set (seconds s)" "submitted s ! k = (connection, head_block a, missed a)"
    and reads: "concat reads1 = sent a" "concat reads2 = m" "\<forall>c\<in>set (reads1 @ reads2). c \<noteq> []"
  shows "tcp_dns_search (message ds @ R) (length ds) True True client_head client_fresh (reads1 @ reads2) =
      Some \<lparr>code = SUCCESS, message_sent = Some (request_head (lowered ds) 1 RESERVED_BYTE @ message (lowered ds)),
        calls_made = hit_calls (served_by caches clock) (lowered ds) @ miss_calls (served_by caches clock) (found s k) (lowered ds),
        buffer = message (lowered ds) @ R\<rparr>"
proof -
  let ?L = "served_by caches clock" and ?h = "request_head (lowered ds) 1 RESERVED_BYTE"
  have "reply_ok s k connection m"
    using reachable_ok [OF run(1)] run(2) by (auto simp: process_ok_def threads_ok_def replies_ok_def)
  then obtain flag where m: "m = second_reply (head_block a) flag (found s k) (misses_of ?L 0 (lowered ds))"
    using run(3) a(2) by (auto simp: reply_ok_def)
  have n: "client_names ds" and L: "\<forall>i. \<forall>d\<in>set (lowered ds). ?L i d \<noteq> Some CACHE_MISS"
    using g unfolding good_request_def by blast+
  have "12 \<le> length (head_block a)" using serv_head_block [OF srv] by (simp add: HEAD_LENGTH_def)
  then show ?thesis
    by (intro tcp_second_ok [OF n L mem _ _ refl good_request_count [OF g] _ _ some, of ?h "head_block a" _ _ flag])
      (use reads a(1) m in auto)
qed

text \<open>C4: Client, server and DNS threads together, with misses: whatever the interleaving of the DNS
  threads, with any second message they send for the request, and however the two messages are cut, the client
  calls the function for each domain exactly once: for the cached ones in order with the address in the cache,
  then for the missed ones with the address the resolver found, or 127.0.0.1. The conditions of
  \<open>good_request\<close>: names over the client's character set of at least three characters, less than 2 GiB of
  request, the caches in their invariant, and no fresh 127.0.0.2 among the cached addresses; the header of the
  request arrives in one read, and no read of the client brings the end of one message and the start of the
  next. The server's block for the header has to be of at least 16 bytes, where it asks for 13: in a
  smaller one its behaviour is undefined.\<close>

theorem search_with_misses:
  assumes g: "good_request caches clock ds" and some: "misses_of (served_by caches clock) 0 (lowered ds) \<noteq> []"
    and mem: "\<forall>n. n \<le> length (fresh n)" "13 \<le> length client_head" "\<forall>n. n \<le> length (client_fresh n)"
    and body: "concat body = message (lowered ds)" "\<forall>c\<in>set body. c \<noteq> []"
  shows "if length fresh_head < 16
    then serv (kache_lookup caches clock) fresh_head fresh (request_head (lowered ds) 1 RESERVED_BYTE # body) = None
    else \<exists>a. serv (kache_lookup caches clock) fresh_head fresh (request_head (lowered ds) 1 RESERVED_BYTE # body) = Some (Served False a) \<and>
      (\<forall>n s k connection m reads1 reads2. reachable n s \<and> (k, connection, m) \<in> set (seconds s) \<and>
          submitted s ! k = (connection, head_block a, missed a) \<and>
          concat reads1 = sent a \<and> concat reads2 = m \<and> (\<forall>c\<in>set (reads1 @ reads2). c \<noteq> []) \<longrightarrow>
        (\<exists>calls. tcp_dns_search (message ds @ R) (length ds) True True client_head client_fresh (reads1 @ reads2) =
            Some \<lparr>code = SUCCESS, message_sent = Some (request_head (lowered ds) 1 RESERVED_BYTE @ message (lowered ds)),
              calls_made = calls, buffer = message (lowered ds) @ R\<rparr> \<and>
          calls = hit_calls (served_by caches clock) (lowered ds) @ miss_calls (served_by caches clock) (found s k) (lowered ds) \<and>
          mset (map fst calls) = mset (offsets 0 ds)))"
proof (cases "length fresh_head < 16")
  case True
  then show ?thesis by (simp add: request_short_block)
next
  case False
  let ?L = "served_by caches clock" and ?h = "request_head (lowered ds) 1 RESERVED_BYTE"
  have long: "16 \<le> length fresh_head" using False by simp
  obtain a where srv: "serv (kache_lookup caches clock) fresh_head fresh (?h # body) = Some (Served False a)"
    and a: "sent a = first_reply ?h ?L (lowered ds)" "missed a = misses_of ?L 0 (lowered ds)"
    using good_request_serv [OF g long mem(1) body] by fastforce
  have "tcp_dns_search (message ds @ R) (length ds) True True client_head client_fresh (reads1 @ reads2) =
      Some \<lparr>code = SUCCESS, message_sent = Some (?h @ message (lowered ds)),
        calls_made = hit_calls ?L (lowered ds) @ miss_calls ?L (found s k) (lowered ds), buffer = message (lowered ds) @ R\<rparr>"
    if run: "reachable n s" "(k, connection, m) \<in> set (seconds s)" "submitted s ! k = (connection, head_block a, missed a)"
      and reads: "concat reads1 = sent a" "concat reads2 = m" "\<forall>c\<in>set (reads1 @ reads2). c \<noteq> []" for n s k connection m reads1 reads2
    by (rule search_run [OF g some mem(2,3) srv a run reads])
  then show ?thesis using srv False calls_cover [of ?L "lowered ds"] by (auto simp del: map_append)
qed

theorem search_with_misses_witness:
  "\<exists>a s m r. serv (kache_lookup (\<lambda>_. empty_kache) (\<lambda>_. 9)) (replicate 16 0) (\<lambda>n. replicate n 0)
      [request_head [[0x61, 0x62, 0x63]] 1 RESERVED_BYTE, message [[0x61, 0x62, 0x63]]] = Some (Served False a) \<and>
    reachable 1 s \<and> (0, 5, m) \<in> set (seconds s) \<and>
    tcp_dns_search (message [[0x41, 0x62, 0x63]]) 1 True True (replicate 13 0) (\<lambda>n. replicate n 0) [sent a, m] = Some r \<and>
    mset (map fst (calls_made r)) = {#0#}"
proof -
  let ?ds = "[[0x41, 0x62, 0x63]] :: bytes list" and ?d = "[0x61, 0x62, 0x63] :: bytes"
    and ?h = "request_head [[0x61, 0x62, 0x63]] 1 RESERVED_BYTE" and ?z = "\<lambda>n. replicate n 0 :: bytes"
  have c: "cached empty_kache 9 ?d = None" by (rule cached_empty) simp_all
  have g: "good_request (\<lambda>_. empty_kache) (\<lambda>_. 9) ?ds" using empty_kache_ok c by (simp add: example_request)
  have m: "misses_of (served_by (\<lambda>_. empty_kache) (\<lambda>_. 9)) 0 (lowered ?ds) = [(?d @ [0], 0)]"
    using c by (simp add: example_name served_by_def)
  then have some: "misses_of (served_by (\<lambda>_. empty_kache) (\<lambda>_. 9)) 0 (lowered ?ds) \<noteq> []" by simp
  have l: "\<forall>n. n \<le> length (?z n)" "16 \<le> length (?z 16)" "13 \<le> length (?z 13)"
    "concat [message (lowered ?ds)] = message (lowered ?ds)" "\<forall>c\<in>set [message (lowered ?ds)]. c \<noteq> []"
    by (simp_all add: example_name)
  have srv: "\<exists>a. serv (kache_lookup (\<lambda>_. empty_kache) (\<lambda>_. 9)) (?z 16) ?z
      (request_head (lowered ?ds) 1 RESERVED_BYTE # [message (lowered ?ds)]) = Some (Served False a) \<and> missed a = [(?d @ [0], 0)]"
    using good_request_serv [OF g l(2,1,4,5)] m by fastforce
  have long: "\<not> length (?z 16) < 16" by simp
  from search_with_misses [OF g some l(1,3,1,4,5), of "?z 16" "[]", unfolded if_not_P [OF long]]
  obtain a where a1: "serv (kache_lookup (\<lambda>_. empty_kache) (\<lambda>_. 9)) (?z 16) ?z
      (request_head (lowered ?ds) 1 RESERVED_BYTE # [message (lowered ?ds)]) = Some (Served False a)"
    and run: "\<forall>n s k connection m reads1 reads2. reachable n s \<and> (k, connection, m) \<in> set (seconds s) \<and>
          submitted s ! k = (connection, head_block a, missed a) \<and>
          concat reads1 = sent a \<and> concat reads2 = m \<and> (\<forall>c\<in>set (reads1 @ reads2). c \<noteq> []) \<longrightarrow>
        (\<exists>calls. tcp_dns_search (message ?ds @ []) (length ?ds) True True (?z 13) ?z (reads1 @ reads2) =
            Some \<lparr>code = SUCCESS, message_sent = Some (request_head (lowered ?ds) 1 RESERVED_BYTE @ message (lowered ?ds)),
              calls_made = calls, buffer = message (lowered ?ds) @ []\<rparr> \<and>
          calls = hit_calls (served_by (\<lambda>_. empty_kache) (\<lambda>_. 9)) (lowered ?ds) @
            miss_calls (served_by (\<lambda>_. empty_kache) (\<lambda>_. 9)) (found s k) (lowered ?ds) \<and>
          mset (map fst calls) = mset (offsets 0 ?ds))" by (elim exE conjE)
  have a: "serv (kache_lookup (\<lambda>_. empty_kache) (\<lambda>_. 9)) (?z 16) ?z
      (request_head (lowered ?ds) 1 RESERVED_BYTE # [message (lowered ?ds)]) = Some (Served False a)" "missed a = [(?d @ [0], 0)]"
    using srv a1 by auto
  have "13 \<le> length (head_block a)" using serv_head_block [OF a(1)] by (simp add: HEAD_LENGTH_def)
  moreover have "terminated (?d @ [0])" by (simp add: terminated_def)
  ultimately obtain s x where s: "reachable 1 s" "(0, 5, x) \<in> set (seconds s)" "submitted s ! 0 = (5, head_block a, missed a)"
    using one_request_run [of "head_block a" "?d @ [0]"] unfolding a(2) by blast
  have "x \<noteq> []" using second_message_size [OF s(1,2)] by auto
  then obtain calls where c: "tcp_dns_search (message ?ds) 1 True True (?z 13) ?z [sent a, x] =
      Some \<lparr>code = SUCCESS, message_sent = Some (?h @ message [?d]), calls_made = calls, buffer = message [?d] @ []\<rparr>"
    "mset (map fst calls) = {#0#}"
    using run [rule_format, of 1 s 0 5 x "[sent a]" "[x]"] s serv_sent [OF a(1)] unfolding append_Nil2 by (auto simp: example_name)
  have "serv (kache_lookup (\<lambda>_. empty_kache) (\<lambda>_. 9)) (?z 16) ?z [?h, message [?d]] = Some (Served False a)"
    using a(1) by (simp add: example_name)
  then show ?thesis using s(1,2) c(1) by (intro exI conjI) (assumption | simp add: c(2) [unfolded mset_map])+
qed

text \<open>A name with a character outside the set ends the search with \<open>NOT_IN_SET\<close> before anything is
  sent, over TCP and over UDP; the names before it may have been lowered.\<close>

theorem search_rejects_character:
  assumes "\<forall>d\<in>set ds. name_ok d" and "name_ok d" and "c \<noteq> 0" and "is_in_set c = None" and "length ds < n"
  shows "\<exists>r. dns_search (message ds @ d @ c # R) n connected written fresh_head fresh replies = Some r \<and>
    code r = NOT_IN_SET \<and> message_sent r = None \<and> calls_made r = []"
  using pre_do_bad [OF assms, of R] by (auto simp: dns_search_def tcp_dns_search_def udp_dns_search_def)

theorem search_rejects_character_witness:
  "\<exists>r. dns_search (message [[0x61]] @ [0x62] @ 0x2f # [0]) 2 True True [] (\<lambda>_. []) [] = Some r \<and>
    code r = NOT_IN_SET \<and> message_sent r = None \<and> calls_made r = []"
  by (rule search_rejects_character) (simp_all add: is_in_set_def)

text \<open>Over UDP the client walks along the caller's buffer from the offset that is the length of the
  answer, although the result is not used: unless the buffer is longer than the answer, the search
  reads past its end.\<close>

theorem udp_search_reads_past_buffer:
  assumes "client_names ds" and "13 \<le> length fresh_head" and "length (message ds) \<le> HEAD_LENGTH + 4 * length ds"
    and "length reply = HEAD_LENGTH + 4 * length ds" and "length ds \<le> TCP_OR_UDP"
  shows "dns_search (message ds) (length ds) connected True fresh_head fresh [reply] = None"
proof -
  let ?ls = "lowered ds"
  have p: "pre_do (message ds) (length ds) = Some (Prepared (message ?ls) (length (message ds) + HEAD_LENGTH) (offsets 0 ds))"
    using pre_do_ok [of ds "[]"] assms(1) by (simp add: client_names_def)
  have h: "build_head (take HEAD_LENGTH fresh_head) (of_nat (length (message ds) + HEAD_LENGTH)) = Some (request_head ?ls 1 RESERVED_BYTE)"
    using build_head_ok [OF assms(2), of ?ls ds] by simp
  have "[0..<length ds] = 0 # [1..<length ds]" using assms(1) by (simp add: client_names_def upt_conv_Cons)
  then have "udp_calls (message ?ls) ret (offsets 0 ds) [0..<length ds] (HEAD_LENGTH + 4 * length ds) = None" for ret
    using assms(3) by (simp add: c_strlen_def c_str_def)
  then show ?thesis using assms(4,5) h by (simp add: dns_search_def udp_dns_search_def p Let_def)
qed

theorem udp_search_reads_past_buffer_witness:
  "dns_search (message [[0x61, 0x62, 0x63]]) 1 True True (replicate 13 0) (\<lambda>n. replicate n 0) [replicate 17 0] = None"
  using udp_search_reads_past_buffer [of "[[0x61, 0x62, 0x63]]" "replicate 13 0" "replicate 17 0"]
  by (simp add: client_names_def is_in_set_def HEAD_LENGTH_def TCP_OR_UDP_def)

end
