(* ===== verification/Pipeline.thy ===== *)
theory Pipeline
  imports Client List2Tri
begin

text \<open>
  The programs together. \<open>src/server/list2tri.c\<close> builds the file of the trie, \<open>kache_init\<close> of
  \<open>src/server/dl_kache.c\<close> loads it with the list of addresses, the servers answer from the cache and the
  client calls its function: every stage here is the model of the program, and the file, the cache
  and the messages are what the stage before produced. Then two drivers of the repository,
  \<open>src/server/test_dl_kache.c\<close> and \<open>src/client/dns_show.c\<close>, as wholes.
\<close>

section \<open>The cache that is loaded\<close>

text \<open>The address of a domain: the line of \<open>ip.list\<close> with the number of the domain's line.\<close>

definition line_address :: "bytes list \<Rightarrow> nat list \<Rightarrow> bytes \<Rightarrow> uint32" where
  "line_address ls ips d = (case line_number ls d of None \<Rightarrow> 0 | Some v \<Rightarrow> of_nat (ips ! (nat v - 1)))"

lemma line_number_bounds:
  assumes "line_number ls d = Some v"
  shows "1 \<le> v \<and> v \<le> int (length ls)"
proof -
  have "(d, v) \<in> set (zip ls (map (\<lambda>i. 1 + int i) [0..<length ls]))"
    using map_of_SomeD [OF assms [unfolded line_number_def]] by simp
  then have "v \<in> set (map (\<lambda>i. 1 + int i) [0..<length ls])" by (rule set_zip_rightD)
  then show ?thesis by auto
qed

lemma line_number_in: "line_number ls d \<noteq> None \<longleftrightarrow> d \<in> set ls"
proof -
  let ?ps = "rev (zip ls (map (\<lambda>i. 1 + int i) [0..<length ls]))"
  have "line_number ls d \<noteq> None \<longleftrightarrow> d \<in> dom (map_of ?ps)" unfolding line_number_def domIff ..
  also have "\<dots> \<longleftrightarrow> d \<in> set (map fst ?ps)" unfolding dom_map_of_conv_image_fst set_map ..
  also have "map fst ?ps = rev ls" unfolding rev_map [symmetric] by (simp add: map_fst_zip)
  finally show ?thesis by simp
qed

lemma domain_line_ucast: "domain_line d \<Longrightarrow> map ucast d = list2tri_key d"
  by (auto simp: list2tri_key_def domain_line_def domain_char_cases(1))

text \<open>Whatever \<open>list2tri\<close> wrote, \<open>kache_init\<close> makes a cache of it that has just the domains of the
  file, each with its address and the current time.\<close>

definition loads_lines :: "bytes list \<Rightarrow> nat list \<Rightarrow> int \<Rightarrow> Kache \<Rightarrow> bool" where
  "loads_lines ls ips now k \<longleftrightarrow> kache_ok k \<and>
     (\<forall>d. domain_line d \<longrightarrow> home k d = (case line_number ls d of
        Some v \<Rightarrow> Main (nat v) | None \<Rightarrow> Hashed (the (hash_slot k (d @ [0]))))) \<and>
     (\<forall>d r. domain_line d \<and> d \<noteq> [] \<longrightarrow> kache_get k (d @ 0 # r) =
        Some (if d \<in> set ls then Some \<lparr>ip = line_address ls ips d, timestamp = now\<rparr> else None))"

lemma built_trie_loads:
  assumes ls: "\<forall>l\<in>set ls. domain_line l" "sum_list (map (\<lambda>l. length l + 2) ls) \<le> 2796000"
    and ips: "length ips = TRIESIZE - 1" "\<forall>v\<in>set ips. v < 2 ^ 32" and b: "length buff = 80"
  shows "\<exists>N k. loads_lines ls ips now k \<and>
    (\<forall>n\<ge>N. \<exists>tr f. list2tri_main (Some (file_of ls)) (Some (blank_file n)) = Some (0, tr, Some f) \<and>
       kache_init (Some (fseek_set 0 f)) (Some (ip_lines ips)) now fresh buff = Some k)"
proof -
  obtain N loaded where ok: "trie_ok loaded"
    and sv: "\<forall>n\<ge>N. \<exists>tr f. list2tri_main (Some (file_of ls)) (Some (blank_file n)) = Some (0, tr, Some f) \<and>
       trie_new_from_file (Some (fseek_set 0 f)) = Some (Some loaded)"
    and ret: "\<forall>d r. domain_line d \<longrightarrow> trie_retrieve loaded (list2tri_key d @ 0 # r) = Some (line_number ls d)"
    and bnd: "\<forall>k v. 0 \<notin> set k \<and> trie_retrieve loaded (k @ [0]) = Some (Some v) \<longrightarrow> 1 \<le> v \<and> v \<le> int (length ls)"
    using list2tri_saves [OF ls] by blast
  have "2 * length ls \<le> sum_list (map (\<lambda>l. length l + 2) ls)" by (induction ls) auto
  then have n: "length ls < TRIESIZE" using ls(2) by (simp add: TRIESIZE_def)
  obtain data where d: "load_ips (length ips) 1 buff (ip_lines ips) now fresh = Some data"
    "\<forall>j<length ips. data (1 + j) = \<lparr>ip = of_nat (ips ! j), timestamp = now\<rparr>"
    using load_ips_ok [OF ips(2) b] by blast
  let ?k = "\<lparr>main_tr = loaded, main_tr_data = data,
    hash_data = (\<lambda>_. \<lparr>h_data = \<lparr>ip = 0, timestamp = 0\<rparr>, part_key = replicate 4 0\<rparr>)\<rparr>"
  have kok: "kache_ok ?k" using ok bnd n by (fastforce simp: kache_ok_def)
  have hm: "home ?k d = (case line_number ls d of
      Some v \<Rightarrow> Main (nat v) | None \<Rightarrow> Hashed (the (hash_slot ?k (d @ [0]))))" if "domain_line d" for d
    using ret [rule_format, OF that, of "[]"] domain_line_ucast [OF that] by (simp add: home_def split: option.splits)
  have "kache_get ?k (d @ 0 # r) = Some (if d \<in> set ls then Some \<lparr>ip = line_address ls ips d, timestamp = now\<rparr> else None)"
    if dl: "domain_line d" "d \<noteq> []" for d r
  proof -
    have z: "0 \<notin> set d" using domain_line_key(4) [OF dl(1)] .
    show ?thesis
    proof (cases "line_number ls d")
      case None
      obtain c s where "d = c # s" using dl(2) by (cases d) auto
      then have "take (min 4 (length d)) (replicate 4 0) \<noteq> take 4 d" using z by (auto simp: eval_nat_numeral)
      then show ?thesis using get_home [OF kok z, of r] hm [OF dl(1)] None line_number_in [of ls d] by simp
    next
      case (Some v)
      have v: "1 \<le> v" "v \<le> int (length ls)" using line_number_bounds [OF Some] by simp_all
      have j: "nat v - 1 < length ips" "1 + (nat v - 1) = nat v" using v n ips(1) by auto
      have "data (nat v) = \<lparr>ip = of_nat (ips ! (nat v - 1)), timestamp = now\<rparr>"
        using d(2) [rule_format, OF j(1)] unfolding j(2) .
      then show ?thesis using get_home [OF kok z, of r] hm [OF dl(1)] Some line_number_in [of ls d] by (simp add: line_address_def)
    qed
  qed
  then have "loads_lines ls ips now ?k" using kok hm by (simp add: loads_lines_def)
  moreover have "kache_init f (Some (ip_lines ips)) now fresh buff = Some ?k" if "trie_new_from_file f = Some (Some loaded)" for f
    using that d(1) ips(1) by (simp add: kache_init_def)
  ultimately show ?thesis using sv by blast
qed

lemma loads_cached:
  assumes "loads_lines ls ips now k" and "\<forall>l\<in>set ls. domain_line l" and "d \<in> set ls" "d \<noteq> []" and "t \<le> now + TIME_OUT"
  shows "cached k t d = Some (line_address ls ips d)"
  using assms by (simp add: loads_lines_def cached_def)

text \<open>The example of the witnesses: a file with one domain, and a list of addresses.\<close>

abbreviation example_ips :: "nat list" where
  "example_ips \<equiv> replicate (TRIESIZE - 1) 7"

lemma example_lists:
  "\<forall>l\<in>set [[0x61, 0x62, 0x63]]. domain_line l" "sum_list (map (\<lambda>l. length l + 2) [[0x61 :: uint8, 0x62, 0x63]]) \<le> 2796000"
  "length example_ips = TRIESIZE - 1" "\<forall>v\<in>set example_ips. v < 2 ^ 32" "length (replicate 80 (0 :: uint8)) = 80"
  by (simp_all add: domain_line_def domain_char_def)

lemma example_address: "line_address [[0x61, 0x62, 0x63]] example_ips [0x61, 0x62, 0x63] = 7"
  by (simp add: line_address_def line_number_def TRIESIZE_def)

section \<open>A search of listed domains\<close>

lemma all_found:
  assumes "\<forall>d\<in>set ds. \<forall>i. L i d = Some (g d)"
  shows "misses_of L k ds = []" and "addresses L k ds = map g ds" and "hit_calls L ds = zip (offsets 0 ds) (map g ds)"
proof -
  show "misses_of L k ds = []" using assms by (induction ds arbitrary: k) auto
  show "addresses L k ds = map g ds" using assms by (induction ds arbitrary: k) auto
  have "filter (\<lambda>i. L i (ds ! i) \<noteq> None) [0..<length ds] = [0..<length ds]"
    by (rule filter_True) (use assms in auto)
  then have "hit_calls L ds = map (\<lambda>i. (offsets 0 ds ! i, the (L i (ds ! i)))) [0..<length ds]" by (simp add: hit_calls_def)
  also have "\<dots> = zip (offsets 0 ds) (map g ds)" by (rule nth_equalityI) (use assms in simp_all)
  finally show "hit_calls L ds = zip (offsets 0 ds) (map g ds)" .
qed

text \<open>Names a client may search for that the lists answer.\<close>

definition listed :: "bytes list \<Rightarrow> nat list \<Rightarrow> bytes list \<Rightarrow> bool" where
  "listed ls ips ds \<longleftrightarrow> client_names ds \<and> 13 + length (message ds) < 2 ^ 31 \<and>
     (\<forall>d\<in>set ds. 3 \<le> length d \<and> map lower d \<in> set ls \<and> line_address ls ips (map lower d) \<noteq> CACHE_MISS)"

lemma listed_found:
  assumes k: "loads_lines ls ips now k" "\<forall>l\<in>set ls. domain_line l" and ds: "listed ls ips ds"
    and t: "\<forall>i. clock i \<le> now + TIME_OUT"
  shows "\<forall>d\<in>set (lowered ds). \<forall>i. served_by (\<lambda>_. k) clock i d = Some (line_address ls ips d)"
    and "good_request (\<lambda>_. k) clock ds"
proof -
  have "cached k (clock i) d = Some (line_address ls ips d)" if "d \<in> set (lowered ds)" for i d
    using that ds t by (intro loads_cached [OF k]) (auto simp: listed_def)
  then show f: "\<forall>d\<in>set (lowered ds). \<forall>i. served_by (\<lambda>_. k) clock i d = Some (line_address ls ips d)"
    by (simp add: served_by_def)
  show "good_request (\<lambda>_. k) clock ds"
    using f ds k(1) by (auto simp: good_request_def listed_def loads_lines_def)
qed

text \<open>C6: The product as a whole, over TCP: take a file of domains, the file \<open>list2tri\<close> makes of it, a list of
  addresses, and the cache \<open>kache_init\<close> loads from both. A client searching for domains of the file
  within a day of the start, in any case of letters, is answered in one exchange however the body of its request
  and the answer are cut, and its function is called once for each name, in order, with the address on the line of
  the list that has the number of the domain's line. The conditions: the lines of the file are over the alphabet and
  of at most 78 characters, their characters and two more for each line are at most 2796000 (a smaller file than the
  one \<open>TRIESIZE\<close> is made for), the list has exactly \<open>TRIESIZE - 1\<close> lines, each a number below 2^32, the medium
  has room for the file of the trie, the names have at least three characters and not the address 127.0.0.2, the request
  is shorter than 2 GiB and its header arrives in one read. The server's block for the header has to be of
  at least 16 bytes, where it asks for 13: in a smaller one its behaviour is undefined.\<close>

theorem listed_domains_served:
  assumes lists: "\<forall>l\<in>set ls. domain_line l" "sum_list (map (\<lambda>l. length l + 2) ls) \<le> 2796000"
      "length ips = TRIESIZE - 1" "\<forall>v\<in>set ips. v < 2 ^ 32" "length buff = 80"
    and ds: "listed ls ips ds" "\<forall>i. clock i \<le> now + TIME_OUT"
    and mem: "\<forall>n. n \<le> length (fresh n)" "13 \<le> length client_head" "\<forall>n. n \<le> length (client_fresh n)"
    and body: "concat body = message (lowered ds)" "\<forall>c\<in>set body. c \<noteq> []"
  shows "\<exists>N k. \<forall>n\<ge>N. \<exists>tr f.
    list2tri_main (Some (file_of ls)) (Some (blank_file n)) = Some (0, tr, Some f) \<and>
    kache_init (Some (fseek_set 0 f)) (Some (ip_lines ips)) now fresh_data buff = Some k \<and>
    (if length fresh_head < 16
     then serv (kache_lookup (\<lambda>_. k) clock) fresh_head fresh (request_head (lowered ds) 1 RESERVED_BYTE # body) = None
     else \<exists>a. serv (kache_lookup (\<lambda>_. k) clock) fresh_head fresh (request_head (lowered ds) 1 RESERVED_BYTE # body) = Some (Served False a) \<and>
       (\<forall>reads. concat reads = sent a \<and> (\<forall>c\<in>set reads. c \<noteq> []) \<longrightarrow>
         tcp_dns_search (message ds @ R) (length ds) True True client_head client_fresh reads =
           Some \<lparr>code = SUCCESS, message_sent = Some (request_head (lowered ds) 1 RESERVED_BYTE @ message (lowered ds)),
             calls_made = zip (offsets 0 ds) (map (line_address ls ips) (lowered ds)), buffer = message (lowered ds) @ R\<rparr>))"
    (is "\<exists>N k. \<forall>n\<ge>N. \<exists>tr f. ?built n tr f \<and> ?loaded f k \<and> ?served k")
proof -
  obtain N k where k: "loads_lines ls ips now k"
    and run: "\<forall>n\<ge>N. \<exists>tr f. list2tri_main (Some (file_of ls)) (Some (blank_file n)) = Some (0, tr, Some f) \<and>
       kache_init (Some (fseek_set 0 f)) (Some (ip_lines ips)) now fresh_data buff = Some k"
    using built_trie_loads [OF lists] by blast
  note f = listed_found [OF k lists(1) ds]
  note a = all_found [OF f(1)]
  note served = all_cached_ok [OF f(2) a(1) mem body, of fresh_head R, unfolded a(3) offsets_lowered]
  show ?thesis
  proof (rule exI [of _ N], rule exI [of _ k], intro allI impI)
    fix n assume "N \<le> n"
    with run obtain tr f where "list2tri_main (Some (file_of ls)) (Some (blank_file n)) = Some (0, tr, Some f)"
      "kache_init (Some (fseek_set 0 f)) (Some (ip_lines ips)) now fresh_data buff = Some k" by blast
    then show "\<exists>tr f. list2tri_main (Some (file_of ls)) (Some (blank_file n)) = Some (0, tr, Some f) \<and>
      kache_init (Some (fseek_set 0 f)) (Some (ip_lines ips)) now fresh_data buff = Some k \<and> ?served k"
      using served by blast
  qed
qed

theorem listed_domains_served_witness:
  "\<exists>n tr f k a. list2tri_main (Some (file_of [[0x61, 0x62, 0x63]])) (Some (blank_file n)) = Some (0, tr, Some f) \<and>
    kache_init (Some (fseek_set 0 f)) (Some (ip_lines example_ips)) 5 (\<lambda>_. \<lparr>ip = 0, timestamp = 0\<rparr>) (replicate 80 0) = Some k \<and>
    serv (kache_lookup (\<lambda>_. k) (\<lambda>_. 9)) (replicate 16 0) (\<lambda>n. replicate n 0)
      [request_head [[0x61, 0x62, 0x63]] 1 RESERVED_BYTE, [0x61], [0x62, 0x63, 0]] = Some (Served False a) \<and>
    map_option calls_made (tcp_dns_search (message [[0x41, 0x62, 0x63]]) 1 True True (replicate 13 0) (\<lambda>n. replicate n 0) [sent a]) = Some [(0, 7)]"
proof -
  let ?ls = "[[0x61, 0x62, 0x63]] :: bytes list" and ?ds = "[[0x41, 0x62, 0x63]] :: bytes list"
  have 2: "listed ?ls example_ips ?ds" using example_address example_name by (simp add: listed_def CACHE_MISS_def)
  have 3: "\<forall>i :: nat. (9 :: int) \<le> 5 + TIME_OUT" by (simp add: TIME_OUT_def)
  have 4: "\<forall>n. n \<le> length (replicate n (0 :: uint8))" "16 \<le> length (replicate 16 (0 :: uint8))" "13 \<le> length (replicate 13 (0 :: uint8))"
    "concat [[0x61], [0x62, 0x63, 0]] = message (lowered ?ds)" "\<forall>c\<in>set [[0x61 :: uint8], [0x62, 0x63, 0]]. c \<noteq> []"
    by (simp_all add: example_name)
  have low: "lowered ?ds = ?ls" by (simp add: example_name)
  have long: "\<not> length (replicate 16 (0 :: uint8)) < 16" by simp
  have c: "zip (offsets 0 ?ds) (map (line_address ?ls example_ips) ?ls) = [(0, 7)]" using example_address by simp
  from listed_domains_served [OF example_lists 2 3 4(1,3,1,4,5), where fresh_head = "replicate 16 0" and fresh_data = "\<lambda>_. \<lparr>ip = 0, timestamp = 0\<rparr>" and R = "[]",
      unfolded if_not_P [OF long] low c append_Nil2]
  obtain N k where N: "\<forall>n\<ge>N. \<exists>tr f. list2tri_main (Some (file_of ?ls)) (Some (blank_file n)) = Some (0, tr, Some f) \<and>
    kache_init (Some (fseek_set 0 f)) (Some (ip_lines example_ips)) 5 (\<lambda>_. \<lparr>ip = 0, timestamp = 0\<rparr>) (replicate 80 0) = Some k \<and>
    (\<exists>a. serv (kache_lookup (\<lambda>_. k) (\<lambda>_. 9)) (replicate 16 0) (\<lambda>n. replicate n 0) [request_head ?ls 1 RESERVED_BYTE, [0x61], [0x62, 0x63, 0]] = Some (Served False a) \<and>
      (\<forall>reads. concat reads = sent a \<and> (\<forall>c\<in>set reads. c \<noteq> []) \<longrightarrow>
        tcp_dns_search (message ?ds) (length ?ds) True True (replicate 13 0) (\<lambda>n. replicate n 0) reads =
          Some \<lparr>code = SUCCESS, message_sent = Some (request_head ?ls 1 RESERVED_BYTE @ message ?ls),
            calls_made = [(0, 7)], buffer = message ?ls\<rparr>))" by (elim exE)
  obtain tr f a where a: "list2tri_main (Some (file_of ?ls)) (Some (blank_file N)) = Some (0, tr, Some f)"
    "kache_init (Some (fseek_set 0 f)) (Some (ip_lines example_ips)) 5 (\<lambda>_. \<lparr>ip = 0, timestamp = 0\<rparr>) (replicate 80 0) = Some k"
    "serv (kache_lookup (\<lambda>_. k) (\<lambda>_. 9)) (replicate 16 0) (\<lambda>n. replicate n 0) [request_head ?ls 1 RESERVED_BYTE, [0x61], [0x62, 0x63, 0]] = Some (Served False a)"
    and reads: "\<forall>reads. concat reads = sent a \<and> (\<forall>c\<in>set reads. c \<noteq> []) \<longrightarrow>
        tcp_dns_search (message ?ds) (length ?ds) True True (replicate 13 0) (\<lambda>n. replicate n 0) reads =
          Some \<lparr>code = SUCCESS, message_sent = Some (request_head ?ls 1 RESERVED_BYTE @ message ?ls),
            calls_made = [(0, 7)], buffer = message ?ls\<rparr>"
    using N [rule_format, OF order_refl] by (elim exE conjE)
  have "tcp_dns_search (message ?ds) (length ?ds) True True (replicate 13 0) (\<lambda>n. replicate n 0) [sent a] =
          Some \<lparr>code = SUCCESS, message_sent = Some (request_head ?ls 1 RESERVED_BYTE @ message ?ls),
            calls_made = [(0, 7)], buffer = message ?ls\<rparr>"
    by (rule reads [rule_format]) (simp add: serv_sent [OF a(3)])
  then have "map_option calls_made (tcp_dns_search (message ?ds) 1 True True (replicate 13 0) (\<lambda>n. replicate n 0) [sent a]) = Some [(0, 7)]"
    by simp
  with a show ?thesis by blast
qed

section \<open>The cache while the servers run\<close>

text \<open>C17: The cache of the running program is safe to use and makes nothing up. It is the cache \<open>kache_init\<close> loads
  from what \<open>list2tri\<close> built, after any sequence of stores of terminated keys, as the DNS threads make them: every store is
  defined; looking up any terminated key, over the alphabet or not, is defined, does not depend on the bytes behind
  the terminator, and a pointer it returns is an element of one of the two tables; and for a domain of one to 78
  characters of the alphabet the element holds the address of the domain's line with the time of the start, or
  data that one of the stores brought. The conditions are those on the lists: lines over the alphabet and of at
  most 78 characters, characters and two more for each line at most 2796000, exactly \<open>TRIESIZE - 1\<close> addresses
  below 2^32, and room for the file of the trie.\<close>

theorem served_cache_safe:
  assumes lists: "\<forall>l\<in>set ls. domain_line l" "sum_list (map (\<lambda>l. length l + 2) ls) \<le> 2796000"
      "length ips = TRIESIZE - 1" "\<forall>v\<in>set ips. v < 2 ^ 32" "length buff = 80"
    and stores: "\<forall>(key, d)\<in>set kds. terminated key"
  shows "\<exists>N k k'. (\<forall>n\<ge>N. \<exists>tr f.
      list2tri_main (Some (file_of ls)) (Some (blank_file n)) = Some (0, tr, Some f) \<and>
      kache_init (Some (fseek_set 0 f)) (Some (ip_lines ips)) now fresh_data buff = Some k) \<and>
    put_each (\<lambda>k key. kache_store k (Some key)) k kds = Some k' \<and>
    (\<forall>key. 0 \<notin> set key \<longrightarrow> (\<exists>res. (\<forall>r. kache_retrieve k' (Some (key @ 0 # r)) = Some res) \<and>
      (\<forall>p. res = Some p \<longrightarrow> (\<exists>e. slot_data k' p = Some e \<and>
        (domain_line key \<and> key \<noteq> [] \<longrightarrow>
          key \<in> set ls \<and> e = \<lparr>ip = line_address ls ips key, timestamp = now\<rparr> \<or> e \<in> snd ` set kds)))))"
proof -
  obtain N k where k: "loads_lines ls ips now k"
    and run: "\<forall>n\<ge>N. \<exists>tr f. list2tri_main (Some (file_of ls)) (Some (blank_file n)) = Some (0, tr, Some f) \<and>
       kache_init (Some (fseek_set 0 f)) (Some (ip_lines ips)) now fresh_data buff = Some k"
    using built_trie_loads [OF lists] by blast
  have "kache_ok k" using k by (simp add: loads_lines_def)
  from ac.put_each_ok [OF this stores] obtain k' where k': "put_each (\<lambda>k key. kache_store k (Some key)) k kds = Some k'" "kache_ok k'"
    and get: "\<forall>j. terminated j \<longrightarrow> kache_get k' j = kache_get k j \<or> kache_get k' j = Some None \<or>
      (\<exists>(key, d)\<in>set kds. kache_get k' j = Some (Some d))" by blast
  have safe: "\<exists>res. (\<forall>r. kache_retrieve k' (Some (key @ 0 # r)) = Some res) \<and>
      (\<forall>p. res = Some p \<longrightarrow> (\<exists>e. slot_data k' p = Some e \<and>
        (domain_line key \<and> key \<noteq> [] \<longrightarrow>
          key \<in> set ls \<and> e = \<lparr>ip = line_address ls ips key, timestamp = now\<rparr> \<or> e \<in> snd ` set kds)))"
    if key: "0 \<notin> set key" for key
  proof -
    obtain res where res: "\<forall>r. kache_retrieve k' (Some (key @ 0 # r)) = Some res"
      and slot: "\<forall>p. res = Some p \<longrightarrow> (\<exists>e. slot_data k' p = Some e)"
      using retrieve_slot [OF k'(2) key] by blast
    have data: "key \<in> set ls \<and> e = \<lparr>ip = line_address ls ips key, timestamp = now\<rparr> \<or> e \<in> snd ` set kds"
      if p: "res = Some p" "slot_data k' p = Some e" and d: "domain_line key" "key \<noteq> []" for p e
    proof -
      have "kache_get k' (key @ [0]) = Some (Some e)" using res p by (simp add: kache_get_def)
      moreover have "kache_get k (key @ [0]) =
          Some (if key \<in> set ls then Some \<lparr>ip = line_address ls ips key, timestamp = now\<rparr> else None)"
        using k d unfolding loads_lines_def by blast
      moreover have "terminated (key @ [0])" by (simp add: terminated_def)
      ultimately show ?thesis using get by (force split: if_splits)
    qed
    show ?thesis
    proof (rule exI [of _ res], intro conjI allI impI)
      show "kache_retrieve k' (Some (key @ 0 # r)) = Some res" for r using res by blast
      fix p assume p: "res = Some p"
      then obtain e where "slot_data k' p = Some e" using slot by blast
      then show "\<exists>e. slot_data k' p = Some e \<and> (domain_line key \<and> key \<noteq> [] \<longrightarrow>
          key \<in> set ls \<and> e = \<lparr>ip = line_address ls ips key, timestamp = now\<rparr> \<or> e \<in> snd ` set kds)" using data [OF p] by blast
    qed
  qed
  show ?thesis
    by (rule exI [of _ N], rule exI [of _ k], rule exI [of _ k'], intro conjI, rule run, rule k'(1), intro allI impI, rule safe)
qed

theorem served_cache_safe_witness:
  "\<exists>n tr f k k' res. list2tri_main (Some (file_of [[0x61, 0x62, 0x63]])) (Some (blank_file n)) = Some (0, tr, Some f) \<and>
    kache_init (Some (fseek_set 0 f)) (Some (ip_lines example_ips)) 5 (\<lambda>_. \<lparr>ip = 0, timestamp = 0\<rparr>) (replicate 80 0) = Some k \<and>
    put_each (\<lambda>k key. kache_store k (Some key)) k [([0x61, 0x62, 0x63, 0], \<lparr>ip = 8, timestamp = 6\<rparr>)] = Some k' \<and>
    (\<forall>r. kache_retrieve k' (Some ([0x2f] @ 0 # r)) = Some res)"
proof -
  have 1: "\<forall>(key, d)\<in>set [([0x61, 0x62, 0x63, 0], \<lparr>ip = 8, timestamp = 6\<rparr>)]. terminated key" by (simp add: terminated_def)
  have 2: "0 \<notin> set ([0x2f] :: bytes)" by simp
  from served_cache_safe [OF example_lists 1, of 5 "\<lambda>_. \<lparr>ip = 0, timestamp = 0\<rparr>"]
  obtain N k k' where run: "\<forall>n\<ge>N. \<exists>tr f. list2tri_main (Some (file_of [[0x61, 0x62, 0x63]])) (Some (blank_file n)) = Some (0, tr, Some f) \<and>
      kache_init (Some (fseek_set 0 f)) (Some (ip_lines example_ips)) 5 (\<lambda>_. \<lparr>ip = 0, timestamp = 0\<rparr>) (replicate 80 0) = Some k"
    and put: "put_each (\<lambda>k key. kache_store k (Some key)) k [([0x61, 0x62, 0x63, 0], \<lparr>ip = 8, timestamp = 6\<rparr>)] = Some k'"
    and get: "\<forall>key. 0 \<notin> set key \<longrightarrow> (\<exists>res. (\<forall>r. kache_retrieve k' (Some (key @ 0 # r)) = Some res) \<and>
      (\<forall>p. res = Some p \<longrightarrow> (\<exists>e. slot_data k' p = Some e \<and>
        (domain_line key \<and> key \<noteq> [] \<longrightarrow>
          key \<in> set [[0x61, 0x62, 0x63]] \<and> e = \<lparr>ip = line_address [[0x61, 0x62, 0x63]] example_ips key, timestamp = 5\<rparr> \<or>
          e \<in> snd ` set [([0x61, 0x62, 0x63, 0 :: uint8], \<lparr>ip = 8, timestamp = 6\<rparr>)]))))"
    by (elim exE conjE)
  obtain res where "\<forall>r. kache_retrieve k' (Some ([0x2f] @ 0 # r)) = Some res" using get [rule_format, OF 2] by (elim exE conjE)
  with run [rule_format, OF order_refl] put show ?thesis by blast
qed

section \<open>The driver dns\_show\<close>

definition SHOW_LINES :: nat where
  "SHOW_LINES = 6"

text \<open>
  The loop that reads the names: \<open>i\<close> lines are read, and the next name goes to offset \<open>readcount\<close> of
  \<open>buf\<close>. The last character of a line is cut, whatever it is; an empty string has none.
\<close>

function dns_show_loop :: "bytes \<Rightarrow> bytes \<Rightarrow> bytes \<Rightarrow> nat \<Rightarrow> nat \<Rightarrow> bytes option" where
  "dns_show_loop fp readbuf buf readcount i =
     (case c_fgets 4096 readbuf fp of
        None \<Rightarrow> Some buf
      | Some (readbuf, fp) \<Rightarrow>
          do {
            n \<leftarrow> c_strlen readbuf;
            readbuf \<leftarrow> (if n = 0 then None else put_byte readbuf (n - 1) 0);
            len \<leftarrow> c_strlen readbuf;
            buf \<leftarrow> put_bytes buf readcount (take (len + 1) readbuf);
            if SHOW_LINES \<le> i + 1 then Some buf
            else dns_show_loop fp readbuf buf (readcount + len + 1) (i + 1)
          })"
  by pat_completeness auto
termination
  by (relation "measure (\<lambda>(fp, readbuf, buf, readcount, i). length fp)") (auto dest: c_fgets_shorter [rotated])

declare dns_show_loop.simps [simp del]

text \<open>What \<open>inet_ntop\<close> writes for the four bytes of an address in the order of memory.\<close>

definition inet_ntop4 :: "uint32 \<Rightarrow> bytes" where
  "inet_ntop4 a =
     (let b = le32 a
      in decimal (unat (b ! 0)) @ [46] @ decimal (unat (b ! 1)) @ [46] @ decimal (unat (b ! 2)) @ [46] @ decimal (unat (b ! 3)))"

text \<open>The output of the calls of \<open>f\<close>: the domain, a tab, the address and a newline.\<close>

fun dns_show_f :: "bytes \<Rightarrow> calls \<Rightarrow> bytes option" where
  "dns_show_f buf [] = Some []"
| "dns_show_f buf ((p, a) # calls) =
     do {
       d \<leftarrow> c_str (drop p buf);
       rest \<leftarrow> dns_show_f buf calls;
       Some (d @ [9] @ inet_ntop4 a @ [10] @ rest)
     }"

text \<open>
  \<open>main\<close>: the message sent, if any, and the output. \<open>fresh_buf\<close> is what \<open>malloc\<close> returned. The program
  ends at once when there is no file, and prints that it is done whatever the search returned.
\<close>

definition dns_show_main ::
  "bytes option \<Rightarrow> bytes \<Rightarrow> bytes \<Rightarrow> bool \<Rightarrow> bool \<Rightarrow> bytes \<Rightarrow> (nat \<Rightarrow> bytes) \<Rightarrow> bytes list \<Rightarrow> (bytes option \<times> bytes) option" where
  "dns_show_main fp readbuf fresh_buf connected written fresh_head fresh replies =
     (case fp of
        None \<Rightarrow> Some (None, [])
      | Some fp \<Rightarrow>
          do {
            buf \<leftarrow> dns_show_loop fp readbuf (take (SHOW_LINES * 64) fresh_buf) 0 0;
            r \<leftarrow> dns_search buf SHOW_LINES connected written fresh_head fresh replies;
            out \<leftarrow> dns_show_f (buffer r) (calls_made r);
            Some (message_sent r, out @ [0x64, 0x6f, 0x6e, 0x65, 10])
          })"

lemma dns_show_loop_ok:
  assumes "ds \<noteq> []" "i + length ds = SHOW_LINES" and "\<forall>d\<in>set ds. 0 \<notin> set d \<and> 10 \<notin> set d \<and> length d \<le> 4093"
    and "length (message ds) \<le> length B"
  shows "dns_show_loop (file_of ds @ rest) readbuf (A @ B) (length A) i = Some (A @ message ds @ drop (length (message ds)) B)"
  using assms
proof (induction ds arbitrary: i readbuf A B)
  case (Cons d ds)
  have d: "0 \<notin> set d" "10 \<notin> set d" "length d \<le> 4093" using Cons.prems(3) by simp_all
  let ?rb = "d @ 10 # 0 # drop (length d + 2) readbuf" and ?B = "drop (length d + 1) B"
  have f: "c_fgets 4096 readbuf (file_of (d # ds) @ rest) = Some (?rb, file_of ds @ rest)"
    using c_fgets_line [OF d(2), of 4096 readbuf "file_of ds @ rest"] d(3) by (simp add: file_of_def)
  have n: "c_strlen ?rb = Some (length d + 1)" using c_strlen_terminated [of "d @ [10]"] d(1) by simp
  have p: "put_byte ?rb (length d) 0 = Some (d @ 0 # 0 # drop (length d + 2) readbuf)" by (simp add: put_byte_def)
  have w: "put_bytes (A @ B) (length A) (d @ [0]) = Some ((A @ d @ [0]) @ ?B)" using Cons.prems(4) by (simp add: put_bytes_def)
  have run: "dns_show_loop (file_of (d # ds) @ rest) readbuf (A @ B) (length A) i =
      (if SHOW_LINES \<le> i + 1 then Some ((A @ d @ [0]) @ ?B)
       else dns_show_loop (file_of ds @ rest) (d @ 0 # 0 # drop (length d + 2) readbuf) ((A @ d @ [0]) @ ?B) (length (A @ d @ [0])) (i + 1))"
    using f n p w d(1) by (subst dns_show_loop.simps) simp
  show ?case
  proof (cases "ds = []")
    case True
    then show ?thesis using run Cons.prems(2) by simp
  next
    case False
    have "dns_show_loop (file_of ds @ rest) (d @ 0 # 0 # drop (length d + 2) readbuf) ((A @ d @ [0]) @ ?B) (length (A @ d @ [0])) (i + 1) =
        Some ((A @ d @ [0]) @ message ds @ drop (length (message ds)) ?B)"
      by (rule Cons.IH [OF False]) (use Cons.prems in auto)
    moreover have "\<not> SHOW_LINES \<le> i + 1" using False Cons.prems(2) by (cases ds) auto
    ultimately show ?thesis using run by (simp add: add.commute add.left_commute)
  qed
qed simp

lemma dns_show_f_ok:
  assumes "\<forall>d\<in>set ds. 0 \<notin> set d" and "length as = length ds"
  shows "dns_show_f (A @ message ds @ R) (zip (offsets (length A) ds) as) =
    Some (concat (map (\<lambda>(d, a). d @ [9] @ inet_ntop4 a @ [10]) (zip ds as)))"
  using assms
proof (induction ds arbitrary: A as)
  case (Cons d ds)
  then obtain a bs where as: "as = a # bs" by (cases as) auto
  have "dns_show_f ((A @ d @ [0]) @ message ds @ R) (zip (offsets (length (A @ d @ [0])) ds) bs) =
      Some (concat (map (\<lambda>(d, a). d @ [9] @ inet_ntop4 a @ [10]) (zip ds bs)))"
    by (rule Cons.IH) (use Cons.prems as in simp_all)
  then show ?case using Cons.prems(1) as by simp
qed simp

lemma listed_names:
  assumes "listed ls ips ds" and "d \<in> set ds"
  shows "0 \<notin> set d" "10 \<notin> set d" "0 \<notin> set (map lower d)"
proof -
  have n: "name_ok d" using assms by (simp add: listed_def client_names_def)
  then show "0 \<notin> set d" "0 \<notin> set (map lower d)" using name_lower by auto
  have "is_in_set 10 = None" by (simp add: is_in_set_def)
  then show "10 \<notin> set d" using n by (auto simp: name_ok_def)
qed

lemma message_member: "d \<in> set ds \<Longrightarrow> length d < length (message ds)"
  by (induction ds) auto

definition shown :: "bytes list \<Rightarrow> nat list \<Rightarrow> bytes list \<Rightarrow> bytes" where
  "shown ls ips ds = concat (map (\<lambda>d. d @ [9] @ inet_ntop4 (line_address ls ips d) @ [10]) ds)"

text \<open>C7: The product as a whole, over UDP, with the repository's own client: six names of the file of domains in
  the file of \<open>dns_show\<close>, whose lines with terminators fit the 384 bytes of its buffer. It sends one datagram, and the
  UDP server with the cache loaded from the lists answers it, whatever was in its buffer. Then the walk along the buffer
  decides, which starts as far from its front as the answer is long, at byte 37: when six zeros follow, among what is left
  of the names and what \<open>malloc\<close> returned behind them, \<open>dns_show\<close> prints each name in lower case with the address
  of its line in dotted notation, and with fewer it reads past the buffer and nothing is defined. The conditions: the
  request comes within a day of the start; the lines of the file are over the alphabet and of at most 78 characters, their
  characters and two more for each line are at most 2796000, the list of addresses has exactly \<open>TRIESIZE - 1\<close>
  lines, each a number below 2^32, the medium has room for the file of the trie, and the names have at least three
  characters and not the address 127.0.0.2.\<close>

theorem dns_show_prints_addresses:
  assumes lists: "\<forall>l\<in>set ls. domain_line l" "sum_list (map (\<lambda>l. length l + 2) ls) \<le> 2796000"
      "length ips = TRIESIZE - 1" "\<forall>v\<in>set ips. v < 2 ^ 32" "length buff = 80"
    and ds: "listed ls ips ds" "\<forall>i. clock i \<le> now + TIME_OUT" "length ds = SHOW_LINES" "length (message ds) \<le> 384"
    and mem: "13 \<le> length client_head" "\<forall>n. n \<le> length (client_fresh n)" "length recv_buf = HEAD_LENGTH + MAX_UDP_LENGTH"
      "384 \<le> length show_buf"
  shows "\<exists>N k a b. (\<forall>n\<ge>N. \<exists>tr f.
      list2tri_main (Some (file_of ls)) (Some (blank_file n)) = Some (0, tr, Some f) \<and>
      kache_init (Some (fseek_set 0 f)) (Some (ip_lines ips)) now fresh_data buff = Some k) \<and>
    udp_turn (udp_lookup (\<lambda>_. k) clock) recv_buf (request_head (lowered ds) 1 RESERVED_BYTE @ message (lowered ds)) = Some (Some a, b) \<and>
    dns_show_main (Some (file_of ds @ rest)) readbuf show_buf connected True client_head client_fresh [sent a] =
      (if SHOW_LINES \<le> zeros (drop 37 (message (lowered ds) @ drop (length (message ds)) (take 384 show_buf)))
       then Some (Some (request_head (lowered ds) 1 RESERVED_BYTE @ message (lowered ds)), shown ls ips (lowered ds) @ [0x64, 0x6f, 0x6e, 0x65, 10])
       else None)"
proof -
  obtain N k where k: "loads_lines ls ips now k"
    and run: "\<forall>n\<ge>N. \<exists>tr f. list2tri_main (Some (file_of ls)) (Some (blank_file n)) = Some (0, tr, Some f) \<and>
       kache_init (Some (fseek_set 0 f)) (Some (ip_lines ips)) now fresh_data buff = Some k"
    using built_trie_loads [OF lists] by blast
  note f = listed_found [OF k lists(1) ds(1,2)]
  let ?L = "\<lambda>i. udp_cached k (clock i)" and ?g = "line_address ls ips" and ?h = "request_head (lowered ds) 1 RESERVED_BYTE"
  have "\<forall>d\<in>set (lowered ds). \<forall>i. ?L i d = Some (?g d)"
    using f(1) ds(1) by (auto simp: served_by_def udp_cached_def listed_def)
  note found = all_found(2) [OF this, of 0]
  have kok: "\<forall>i :: nat. kache_ok k" using k by (simp add: loads_lines_def)
  note len = ds(4)
  have put: "put_bytes recv_buf 0 (?h @ message (lowered ds)) =
      Some (?h @ message (lowered ds) @ drop (length (?h @ message (lowered ds))) recv_buf)"
    using mem(3) len by (simp add: put_bytes_def MAX_UDP_LENGTH_def HEAD_LENGTH_def)
  have size: "length (message (lowered ds)) \<le> MAX_UDP_LENGTH" "length (?h @ message (lowered ds)) \<le> HEAD_LENGTH + MAX_UDP_LENGTH"
    using len by (simp_all add: MAX_UDP_LENGTH_def HEAD_LENGTH_def)
  obtain b a where srv: "udp_turn (udp_lookup (\<lambda>_. k) clock) recv_buf (?h @ message (lowered ds)) = Some (Some a, b)"
    "sent a = first_reply ?h ?L (lowered ds)"
    using udp_turn_ok [OF udp_looks_up [OF kok, of clock] good_request_domains [OF f(2)] size(1) put size(2)] by auto
  let ?Z = "drop (length (message ds)) (take 384 show_buf)"
  have ne: "ds \<noteq> []" "client_names ds" using ds(1) by (auto simp: listed_def client_names_def)
  have names: "\<forall>d\<in>set ds. 0 \<notin> set d \<and> 10 \<notin> set d \<and> length d \<le> 4093" using listed_names [OF ds(1)] message_member [of _ ds] len by fastforce
  have loop: "dns_show_loop (file_of ds @ rest) readbuf (take 384 show_buf) 0 0 = Some (message ds @ ?Z)"
    using dns_show_loop_ok [OF ne(1) _ names, of 0 "take 384 show_buf" rest readbuf "[]"] ds(3) len mem(4) by simp
  have search: "dns_search (message ds @ ?Z) SHOW_LINES connected True client_head client_fresh [sent a] =
      (if SHOW_LINES \<le> zeros (drop 37 (message (lowered ds) @ ?Z))
       then Some \<lparr>code = SUCCESS, message_sent = Some (?h @ message (lowered ds)),
         calls_made = zip (offsets 0 ds) (map ?g (lowered ds)), buffer = message (lowered ds) @ ?Z\<rparr>
       else None)"
    using udp_search_result [OF ne(2) mem(1,2) _ refl, of ?h ?Z ?L] srv(2) found ds(3)
    by (simp add: dns_search_def SHOW_LINES_def TCP_OR_UDP_def HEAD_LENGTH_def)
  have "dns_show_f ([] @ message (lowered ds) @ ?Z) (zip (offsets (length ([] :: bytes)) (lowered ds)) (map ?g (lowered ds))) =
      Some (concat (map (\<lambda>(d, a). d @ [9] @ inet_ntop4 a @ [10]) (zip (lowered ds) (map ?g (lowered ds)))))"
    by (rule dns_show_f_ok) (use listed_names(3) [OF ds(1)] in auto)
  also have "map (\<lambda>(d, a). d @ [9] @ inet_ntop4 a @ [10]) (zip (lowered ds) (map ?g (lowered ds))) =
      map (\<lambda>d. d @ [9] @ inet_ntop4 (?g d) @ [10]) (lowered ds)"
    by (rule nth_equalityI) simp_all
  finally have out: "dns_show_f (message (lowered ds) @ ?Z) (zip (offsets 0 ds) (map ?g (lowered ds))) = Some (shown ls ips (lowered ds))"
    by (simp add: shown_def)
  have "dns_show_main (Some (file_of ds @ rest)) readbuf show_buf connected True client_head client_fresh [sent a] =
      (if SHOW_LINES \<le> zeros (drop 37 (message (lowered ds) @ ?Z))
       then Some (Some (?h @ message (lowered ds)), shown ls ips (lowered ds) @ [0x64, 0x6f, 0x6e, 0x65, 10]) else None)"
  proof -
    have "SHOW_LINES * 64 = 384" by (simp add: SHOW_LINES_def)
    then show ?thesis using out unfolding dns_show_main_def by (simp only:) (simp add: loop search del: drop_append take_append)
  qed
  with run srv(1) show ?thesis by blast
qed

lemma inet_ntop4_7: "inet_ntop4 7 = [0x37, 0x2e, 0x30, 0x2e, 0x30, 0x2e, 0x30]"
  by (simp add: inet_ntop4_def le32_def decimal.simps)

theorem dns_show_prints_addresses_witness:
  "\<exists>n tr f k a b m. list2tri_main (Some (file_of [[0x61, 0x62, 0x63]])) (Some (blank_file n)) = Some (0, tr, Some f) \<and>
    kache_init (Some (fseek_set 0 f)) (Some (ip_lines example_ips)) 5 (\<lambda>_. \<lparr>ip = 0, timestamp = 0\<rparr>) (replicate 80 0) = Some k \<and>
    udp_turn (udp_lookup (\<lambda>_. k) (\<lambda>_. 9)) (replicate (HEAD_LENGTH + MAX_UDP_LENGTH) 0) m = Some (Some a, b) \<and>
    dns_show_main (Some (file_of (replicate 6 [0x41, 0x62, 0x63]) @ [])) [] (replicate 384 0) True True (replicate 13 0) (\<lambda>n. replicate n 0) [sent a] =
      Some (Some m, concat (replicate 6 [0x61, 0x62, 0x63, 9, 0x37, 0x2e, 0x30, 0x2e, 0x30, 0x2e, 0x30, 10]) @ [0x64, 0x6f, 0x6e, 0x65, 10])"
proof -
  let ?ls = "[[0x61, 0x62, 0x63]] :: bytes list" and ?ds = "replicate 6 [0x41, 0x62, 0x63] :: bytes list"
  have low: "lowered ?ds = replicate 6 [0x61, 0x62, 0x63]" by (simp add: example_name)
  have len: "length (message ?ds) = 24" by (simp add: message_def length_concat sum_list_replicate)
  have 1: "listed ?ls example_ips ?ds" using example_address example_name len
    by (simp add: listed_def CACHE_MISS_def client_names_def)
  have 2: "\<forall>i :: nat. (9 :: int) \<le> 5 + TIME_OUT" "length ?ds = SHOW_LINES" "length (message ?ds) \<le> 384"
    unfolding len by (simp_all add: TIME_OUT_def SHOW_LINES_def)
  have 3: "13 \<le> length (replicate 13 (0 :: uint8))" "\<forall>n. n \<le> length (replicate n (0 :: uint8))"
    "length (replicate (HEAD_LENGTH + MAX_UDP_LENGTH) (0 :: uint8)) = HEAD_LENGTH + MAX_UDP_LENGTH" "384 \<le> length (replicate 384 (0 :: uint8))" by simp_all
  have out: "shown ?ls example_ips (lowered ?ds) = concat (replicate 6 [0x61, 0x62, 0x63, 9, 0x37, 0x2e, 0x30, 0x2e, 0x30, 0x2e, 0x30, 10])"
    unfolding low using example_address by (simp add: shown_def inet_ntop4_7)
  have z: "SHOW_LINES \<le> zeros (drop 37 (message (lowered ?ds) @ drop (length (message ?ds)) (take 384 (replicate 384 0))))"
    by (simp add: len zeros_def SHOW_LINES_def)
  show ?thesis
    using dns_show_prints_addresses [OF example_lists 1 2 3, of "\<lambda>_. \<lparr>ip = 0, timestamp = 0\<rparr>" "[]" "[]" True, unfolded if_P [OF z] out]
    by blast
qed

section \<open>The driver test\_dl\_kache\<close>

text \<open>The two keys of the test, \<open>asdffdsa.sds\<close> and \<open>asd.dsa\<close>.\<close>

definition stored_key :: bytes where
  "stored_key = [0x61, 0x73, 0x64, 0x66, 0x66, 0x64, 0x73, 0x61, 0x2e, 0x73, 0x64, 0x73]"

definition other_key :: bytes where
  "other_key = [0x61, 0x73, 0x64, 0x2e, 0x64, 0x73, 0x61]"

text \<open>
  The loop looks up every line and prints the address and the line; the result of a lookup that
  finds nothing is a null pointer, which the loop reads through.
\<close>

function test_dl_loop :: "Kache \<Rightarrow> bytes \<Rightarrow> bytes \<Rightarrow> (uint32 \<times> bytes) list option" where
  "test_dl_loop k buff domains =
     (case c_fgets 80 buff domains of
        None \<Rightarrow> Some []
      | Some (buff, domains) \<Rightarrow>
          (let buff = replace_n buff
           in do {
             data \<leftarrow> kache_retrieve k (Some buff);
             p \<leftarrow> data;
             d \<leftarrow> slot_data k p;
             s \<leftarrow> c_str buff;
             printed \<leftarrow> test_dl_loop k buff domains;
             Some ((ip d, s) # printed)
           }))"
  by pat_completeness auto
termination
  by (relation "measure (\<lambda>(k, buff, domains). length domains)") (auto dest: c_fgets_shorter [rotated])

declare test_dl_loop.simps [simp del]

text \<open>The four bytes behind the data of an entry: its part of the key in the table of hashes, the next
  address in the table of the trie.\<close>

definition behind :: "Kache \<Rightarrow> slot \<Rightarrow> bytes option" where
  "behind k p =
     (case p of
        Main i \<Rightarrow> map_option (\<lambda>d. le32 (ip d)) (slot_data k (Main (i + 1)))
      | Hashed h \<Rightarrow> if h < HASHSIZE then Some (part_key (hash_data k h)) else None)"

definition test_dl_kache_main ::
  "FILE option \<Rightarrow> bytes option \<Rightarrow> int \<Rightarrow> (nat \<Rightarrow> data_t) \<Rightarrow> bytes \<Rightarrow> bytes option \<Rightarrow> ((uint32 \<times> bytes) list \<times> data_t \<times> bytes) option" where
  "test_dl_kache_main triepath iplistpath now fresh_data fresh_buff out_list =
     do {
       k \<leftarrow> kache_init triepath iplistpath now fresh_data fresh_buff;
       domains \<leftarrow> out_list;
       printed \<leftarrow> test_dl_loop k (replicate 80 0) domains;
       k \<leftarrow> kache_store k (Some (stored_key @ [0])) \<lparr>ip = 12345678, timestamp = 87654321\<rparr>;
       found \<leftarrow> kache_retrieve k (Some (stored_key @ [0]));
       temp \<leftarrow> found;
       d \<leftarrow> slot_data k temp;
       key_bytes \<leftarrow> behind k temp;
       found \<leftarrow> kache_retrieve k (Some (other_key @ [0]));
       if found = None then Some (printed, d, key_bytes) else None
     }"

lemma get_found:
  assumes "kache_get k key = Some (Some d)"
  obtains p where "kache_retrieve k (Some key) = Some (Some p)" "slot_data k p = Some d"
  using assms by (auto simp: kache_get_def bind_eq_Some_conv split: option.splits)

lemma test_dl_loop_ok:
  assumes k: "loads_lines ls ips now k" "\<forall>l\<in>set ls. domain_line l" and "\<forall>m\<in>set ms. m \<in> set ls \<and> m \<noteq> []" and "length buff = 80"
  shows "test_dl_loop k buff (file_of ms) = Some (map (\<lambda>m. (line_address ls ips m, m)) ms)"
  using assms(3,4)
proof (induction ms arbitrary: buff)
  case Nil
  then show ?case by (simp add: test_dl_loop.simps file_of_def c_fgets_def)
next
  case (Cons m ms)
  have m: "domain_line m" "m \<in> set ls" "m \<noteq> []" using Cons.prems(1) k(2) by auto
  obtain buff' r where f: "c_fgets 80 buff (m @ 10 # file_of ms) = Some (buff', file_of ms)"
    "length (replace_n buff') = 80" "replace_n buff' = m @ 0 # r"
    using line_buffer [OF m(1) Cons.prems(2)] by blast
  have "kache_get k (m @ 0 # r) = Some (Some \<lparr>ip = line_address ls ips m, timestamp = now\<rparr>)"
    using k(1) m by (simp add: loads_lines_def)
  then obtain p where p: "kache_retrieve k (Some (m @ 0 # r)) = Some (Some p)"
    "slot_data k p = Some \<lparr>ip = line_address ls ips m, timestamp = now\<rparr>" by (rule get_found)
  have "test_dl_loop k (replace_n buff') (file_of ms) = Some (map (\<lambda>m. (line_address ls ips m, m)) ms)"
    using Cons.IH [OF _ f(2)] Cons.prems(1) by simp
  then show ?case using f p domain_line_key(4) [OF m(1)]
    by (subst test_dl_loop.simps) (simp add: file_of_def Let_def)
qed

lemma test_keys:
  "domain_line stored_key" "domain_line other_key" "0 \<notin> set stored_key" "0 \<notin> set other_key"
  "length stored_key = 12" "length other_key = 7" "take 4 stored_key = [0x61, 0x73, 0x64, 0x66]" "take 4 other_key = [0x61, 0x73, 0x64, 0x2e]"
  by (simp_all add: stored_key_def other_key_def domain_line_def domain_char_def)

text \<open>The second half of the test, on a cache without the two keys.\<close>

lemma test_dl_store:
  assumes k: "loads_lines ls ips now k" and new: "stored_key \<notin> set ls" "other_key \<notin> set ls"
  obtains k' h where "kache_store k (Some (stored_key @ [0])) d = Some k'"
    "kache_retrieve k' (Some (stored_key @ [0])) = Some (Some (Hashed h))" "slot_data k' (Hashed h) = Some d"
    "behind k' (Hashed h) = Some (take 4 stored_key)" "kache_retrieve k' (Some (other_key @ [0])) = Some None"
proof -
  have ok: "kache_ok k" using k by (simp add: loads_lines_def)
  have hashed: "\<exists>h. home k x = Hashed h" if "domain_line x" "x \<notin> set ls" for x
  proof -
    have "line_number ls x = None" using line_number_in [of ls x] that(2) by simp
    then show ?thesis using k that(1) unfolding loads_lines_def by auto
  qed
  obtain h j where h: "home k stored_key = Hashed h" and j: "home k other_key = Hashed j"
    using hashed test_keys(1,2) new by blast
  let ?k' = "k\<lparr>hash_data := (hash_data k)(h := \<lparr>h_data = d, part_key = take 4 stored_key\<rparr>)\<rparr>"
  have st: "kache_store k (Some (stored_key @ [0])) d = Some ?k'"
    using store_home [OF ok test_keys(3), of "[]" d] h ok test_keys(5) by (simp add: kache_ok_def)
  have ok': "kache_ok ?k'" using ok test_keys(5) by (simp add: kache_ok_def)
  have home: "home ?k' x = home k x" for x by (rule home_cong) simp
  have hs: "h < HASHSIZE" using retrieve_home(2) [OF ok test_keys(3)] h by (simp add: slot_in_def)
  have "kache_retrieve ?k' (Some (stored_key @ [0])) = Some (Some (Hashed h))"
    using retrieve_home(1) [OF ok' test_keys(3), of "[]"] h test_keys(5) by (simp add: home)
  moreover have "slot_data ?k' (Hashed h) = Some d" "behind ?k' (Hashed h) = Some (take 4 stored_key)"
    using hs by (simp_all add: slot_data_def behind_def)
  moreover have "kache_retrieve ?k' (Some (other_key @ [0])) = Some None"
  proof -
    have "kache_get k (other_key @ 0 # []) = Some None"
      using k test_keys(2,6) new(2) by (auto simp: loads_lines_def)
    then have "take 4 (part_key (hash_data k j)) \<noteq> take 4 other_key"
      using get_home [OF ok test_keys(4), of "[]"] j test_keys(6) by (auto split: if_splits)
    moreover have "home ?k' other_key = Hashed j" using home j by simp
    ultimately show ?thesis
      using retrieve_home(1) [OF ok' test_keys(4), of "[]"] test_keys(6-8) by simp
  qed
  ultimately show thesis using that [OF st] by blast
qed

text \<open>C13: \<open>test_dl_kache\<close> passes on what \<open>list2tri\<close> builds: for a file of domains without the two keys of the test, it
  prints the address of every line of a file that lists some of them, neither assertion fails, the data stored
  under the first key are found again, and the four bytes behind them are the start of the key. The conditions: the
  lines of the first file are over the alphabet and of at most 78 characters, their characters and two more for
  each line are at most 2796000, the list of addresses has exactly \<open>TRIESIZE - 1\<close> lines, each a number below 2^32,
  the lines of the second file are not empty, and the medium has room for the file of the trie.\<close>

theorem test_dl_kache_passes:
  assumes lists: "\<forall>l\<in>set ls. domain_line l" "sum_list (map (\<lambda>l. length l + 2) ls) \<le> 2796000"
      "length ips = TRIESIZE - 1" "\<forall>v\<in>set ips. v < 2 ^ 32" "length buff = 80"
    and ms: "\<forall>m\<in>set ms. m \<in> set ls \<and> m \<noteq> []" and new: "stored_key \<notin> set ls" "other_key \<notin> set ls"
  shows "\<exists>N. \<forall>n\<ge>N. \<exists>tr f.
    list2tri_main (Some (file_of ls)) (Some (blank_file n)) = Some (0, tr, Some f) \<and>
    test_dl_kache_main (Some (fseek_set 0 f)) (Some (ip_lines ips)) now fresh_data buff (Some (file_of ms)) =
      Some (map (\<lambda>m. (line_address ls ips m, m)) ms, \<lparr>ip = 12345678, timestamp = 87654321\<rparr>, take 4 stored_key)"
proof -
  obtain N k where k: "loads_lines ls ips now k"
    and run: "\<forall>n\<ge>N. \<exists>tr f. list2tri_main (Some (file_of ls)) (Some (blank_file n)) = Some (0, tr, Some f) \<and>
       kache_init (Some (fseek_set 0 f)) (Some (ip_lines ips)) now fresh_data buff = Some k"
    using built_trie_loads [OF lists] by blast
  have loop: "test_dl_loop k (replicate 80 0) (file_of ms) = Some (map (\<lambda>m. (line_address ls ips m, m)) ms)"
    by (rule test_dl_loop_ok [OF k lists(1) ms]) simp
  obtain k' h where s: "kache_store k (Some (stored_key @ [0])) \<lparr>ip = 12345678, timestamp = 87654321\<rparr> = Some k'"
    "kache_retrieve k' (Some (stored_key @ [0])) = Some (Some (Hashed h))"
    "slot_data k' (Hashed h) = Some \<lparr>ip = 12345678, timestamp = 87654321\<rparr>"
    "behind k' (Hashed h) = Some (take 4 stored_key)" "kache_retrieve k' (Some (other_key @ [0])) = Some None"
    using test_dl_store [OF k new] by metis
  have "test_dl_kache_main f (Some (ip_lines ips)) now fresh_data buff (Some (file_of ms)) =
      Some (map (\<lambda>m. (line_address ls ips m, m)) ms, \<lparr>ip = 12345678, timestamp = 87654321\<rparr>, take 4 stored_key)"
    if "kache_init f (Some (ip_lines ips)) now fresh_data buff = Some k" for f
    using that loop s by (simp add: test_dl_kache_main_def)
  note passes = this
  show ?thesis
  proof (intro exI [of _ N] allI impI)
    fix n assume "N \<le> n"
    then obtain tr f where "list2tri_main (Some (file_of ls)) (Some (blank_file n)) = Some (0, tr, Some f)"
      "kache_init (Some (fseek_set 0 f)) (Some (ip_lines ips)) now fresh_data buff = Some k"
      using run by blast
    with passes show "\<exists>tr f. list2tri_main (Some (file_of ls)) (Some (blank_file n)) = Some (0, tr, Some f) \<and>
      test_dl_kache_main (Some (fseek_set 0 f)) (Some (ip_lines ips)) now fresh_data buff (Some (file_of ms)) =
        Some (map (\<lambda>m. (line_address ls ips m, m)) ms, \<lparr>ip = 12345678, timestamp = 87654321\<rparr>, take 4 stored_key)" by blast
  qed
qed

theorem test_dl_kache_passes_witness:
  "\<exists>n tr f. list2tri_main (Some (file_of [[0x61, 0x62, 0x63]])) (Some (blank_file n)) = Some (0, tr, Some f) \<and>
    test_dl_kache_main (Some (fseek_set 0 f)) (Some (ip_lines example_ips)) 5 (\<lambda>_. \<lparr>ip = 0, timestamp = 0\<rparr>) (replicate 80 0)
      (Some (file_of [[0x61, 0x62, 0x63]])) =
    Some ([(7, [0x61, 0x62, 0x63])], \<lparr>ip = 12345678, timestamp = 87654321\<rparr>, take 4 stored_key)"
proof -
  let ?ls = "[[0x61, 0x62, 0x63]] :: bytes list"
  have 1: "\<forall>m\<in>set ?ls. m \<in> set ?ls \<and> m \<noteq> []" "stored_key \<notin> set ?ls" "other_key \<notin> set ?ls"
    by (simp_all add: stored_key_def other_key_def)
  have 2: "map (\<lambda>m. (line_address ?ls example_ips m, m)) ?ls = [(7, [0x61, 0x62, 0x63])]" using example_address by simp
  show ?thesis
    using test_dl_kache_passes [OF example_lists 1, of 5 "\<lambda>_. \<lparr>ip = 0, timestamp = 0\<rparr>"] unfolding 2 by blast
qed

end
