(* ===== verification/Errors.thy ===== *)
theory Errors
  imports CLib
begin

text \<open>
  The error functions, \<open>src/server/errors.c\<close>, and the wrappers of the thread library,
  \<open>src/server/wraps.c\<close>. A message is the text that its format prints. What \<open>strerror\<close> returns for a
  number, and what a call of the thread library returned, are arguments.
\<close>

section \<open>Messages\<close>

definition ascii :: "string \<Rightarrow> bytes" where
  "ascii s = map of_char s"

definition MAXLINE :: nat where
  "MAXLINE = 4096"

datatype level = LOG_INFO | LOG_ERR

record env =
  errno :: int
  daemon_proc :: bool
  err_out :: bytes
  sys_log :: "(level \<times> bytes) list"

text \<open>How an error function ends.\<close>

datatype ending = Returns env | Exits int env | Aborts env

text \<open>
  \<open>err_doit\<close>: the buffer has \<open>MAXLINE + 1\<close> bytes. Without \<open>HAVE_VSNPRINTF\<close>, which nothing defines, the
  text is written without a limit; the description of the error is cut to what \<open>MAXLINE\<close> leaves; the
  newline is appended without a limit. \<open>syslog\<close> takes the message for a format.
\<close>

definition err_doit :: "(int \<Rightarrow> bytes) \<Rightarrow> bool \<Rightarrow> level \<Rightarrow> bytes \<Rightarrow> env \<Rightarrow> env option" where
  "err_doit strerror errnoflag level text e =
     (if MAXLINE + 1 < length text + 1 then None
      else let buf = (if errnoflag then text @ take (MAXLINE - length text - 1) (ascii '': '' @ strerror (errno e)) else text)
           in if MAXLINE + 1 < length buf + 1 + 1 then None
              else let buf = buf @ [10]
                   in if \<not> daemon_proc e then Some (e\<lparr>err_out := err_out e @ buf\<rparr>)
                      else if 37 \<in> set buf then None
                      else Some (e\<lparr>sys_log := sys_log e @ [(level, buf)]\<rparr>))"

definition err_ret :: "(int \<Rightarrow> bytes) \<Rightarrow> bytes \<Rightarrow> env \<Rightarrow> ending option" where
  "err_ret strerror text e = map_option Returns (err_doit strerror True LOG_INFO text e)"

definition err_sys :: "(int \<Rightarrow> bytes) \<Rightarrow> bytes \<Rightarrow> env \<Rightarrow> ending option" where
  "err_sys strerror text e = map_option (Exits 1) (err_doit strerror True LOG_ERR text e)"

definition err_dump :: "(int \<Rightarrow> bytes) \<Rightarrow> bytes \<Rightarrow> env \<Rightarrow> ending option" where
  "err_dump strerror text e = map_option Aborts (err_doit strerror True LOG_ERR text e)"

definition err_msg :: "(int \<Rightarrow> bytes) \<Rightarrow> bytes \<Rightarrow> env \<Rightarrow> ending option" where
  "err_msg strerror text e = map_option Returns (err_doit strerror False LOG_INFO text e)"

definition err_quit :: "(int \<Rightarrow> bytes) \<Rightarrow> bytes \<Rightarrow> env \<Rightarrow> ending option" where
  "err_quit strerror text e = map_option (Exits 1) (err_doit strerror False LOG_ERR text e)"

section \<open>The wrappers\<close>

text \<open>The common body: \<open>n\<close> is what the call returned, which is also the number of the error.\<close>

definition wrapped :: "string \<Rightarrow> (int \<Rightarrow> bytes) \<Rightarrow> int \<Rightarrow> env \<Rightarrow> ending option" where
  "wrapped text strerror n e = (if n = 0 then Some (Returns e) else err_sys strerror (ascii text) (e\<lparr>errno := n\<rparr>))"

definition Pthread_create :: "(int \<Rightarrow> bytes) \<Rightarrow> int \<Rightarrow> env \<Rightarrow> ending option" where
  "Pthread_create = wrapped ''pthread_create error''"

definition Pthread_join :: "(int \<Rightarrow> bytes) \<Rightarrow> int \<Rightarrow> env \<Rightarrow> ending option" where
  "Pthread_join = wrapped ''pthread_join error''"

definition Pthread_detach :: "(int \<Rightarrow> bytes) \<Rightarrow> int \<Rightarrow> env \<Rightarrow> ending option" where
  "Pthread_detach = wrapped ''pthread_detach error''"

definition Pthread_kill :: "(int \<Rightarrow> bytes) \<Rightarrow> int \<Rightarrow> env \<Rightarrow> ending option" where
  "Pthread_kill = wrapped ''pthread_kill error''"

definition Pthread_mutexattr_init :: "(int \<Rightarrow> bytes) \<Rightarrow> int \<Rightarrow> env \<Rightarrow> ending option" where
  "Pthread_mutexattr_init = wrapped ''pthread_mutexattr_init error''"

definition Pthread_mutexattr_setpshared :: "(int \<Rightarrow> bytes) \<Rightarrow> int \<Rightarrow> env \<Rightarrow> ending option" where
  "Pthread_mutexattr_setpshared = wrapped ''pthread_mutexattr_setpshared error''"

definition Pthread_mutex_init :: "(int \<Rightarrow> bytes) \<Rightarrow> int \<Rightarrow> env \<Rightarrow> ending option" where
  "Pthread_mutex_init = wrapped ''pthread_mutex_init error''"

definition Pthread_mutex_lock :: "(int \<Rightarrow> bytes) \<Rightarrow> int \<Rightarrow> env \<Rightarrow> ending option" where
  "Pthread_mutex_lock = wrapped ''pthread_mutex_lock error''"

definition Pthread_mutex_unlock :: "(int \<Rightarrow> bytes) \<Rightarrow> int \<Rightarrow> env \<Rightarrow> ending option" where
  "Pthread_mutex_unlock = wrapped ''pthread_mutex_unlock error''"

definition Pthread_cond_broadcast :: "(int \<Rightarrow> bytes) \<Rightarrow> int \<Rightarrow> env \<Rightarrow> ending option" where
  "Pthread_cond_broadcast = wrapped ''pthread_cond_broadcast error''"

definition Pthread_cond_signal :: "(int \<Rightarrow> bytes) \<Rightarrow> int \<Rightarrow> env \<Rightarrow> ending option" where
  "Pthread_cond_signal = wrapped ''pthread_cond_signal error''"

definition Pthread_cond_wait :: "(int \<Rightarrow> bytes) \<Rightarrow> int \<Rightarrow> env \<Rightarrow> ending option" where
  "Pthread_cond_wait = wrapped ''pthread_cond_wait error''"

definition Pthread_cond_timedwait :: "(int \<Rightarrow> bytes) \<Rightarrow> int \<Rightarrow> env \<Rightarrow> ending option" where
  "Pthread_cond_timedwait = wrapped ''pthread_cond_timedwait error''"

definition Pthread_once :: "(int \<Rightarrow> bytes) \<Rightarrow> int \<Rightarrow> env \<Rightarrow> ending option" where
  "Pthread_once = wrapped ''pthread_once error''"

definition Pthread_key_create :: "(int \<Rightarrow> bytes) \<Rightarrow> int \<Rightarrow> env \<Rightarrow> ending option" where
  "Pthread_key_create = wrapped ''pthread_key_create error''"

definition Pthread_setspecific :: "(int \<Rightarrow> bytes) \<Rightarrow> int \<Rightarrow> env \<Rightarrow> ending option" where
  "Pthread_setspecific = wrapped ''pthread_setspecific error''"

lemmas wrapper_defs =
  Pthread_create_def Pthread_join_def Pthread_detach_def Pthread_kill_def Pthread_mutexattr_init_def Pthread_mutexattr_setpshared_def Pthread_mutex_init_def Pthread_mutex_lock_def
  Pthread_mutex_unlock_def Pthread_cond_broadcast_def Pthread_cond_signal_def Pthread_cond_wait_def Pthread_cond_timedwait_def Pthread_once_def Pthread_key_create_def Pthread_setspecific_def

text \<open>The wrappers by the names of what they call.\<close>

definition wrappers :: "(string \<times> ((int \<Rightarrow> bytes) \<Rightarrow> int \<Rightarrow> env \<Rightarrow> ending option)) list" where
  "wrappers =
    [(''pthread_create'', Pthread_create),
     (''pthread_join'', Pthread_join),
     (''pthread_detach'', Pthread_detach),
     (''pthread_kill'', Pthread_kill),
     (''pthread_mutexattr_init'', Pthread_mutexattr_init),
     (''pthread_mutexattr_setpshared'', Pthread_mutexattr_setpshared),
     (''pthread_mutex_init'', Pthread_mutex_init),
     (''pthread_mutex_lock'', Pthread_mutex_lock),
     (''pthread_mutex_unlock'', Pthread_mutex_unlock),
     (''pthread_cond_broadcast'', Pthread_cond_broadcast),
     (''pthread_cond_signal'', Pthread_cond_signal),
     (''pthread_cond_wait'', Pthread_cond_wait),
     (''pthread_cond_timedwait'', Pthread_cond_timedwait),
     (''pthread_once'', Pthread_once),
     (''pthread_key_create'', Pthread_key_create),
     (''pthread_setspecific'', Pthread_setspecific)]"

section \<open>Properties\<close>

lemma ascii_length [simp]: "length (ascii s) = length s"
  by (simp add: ascii_def)

lemma ascii_append: "ascii (s @ t) = ascii s @ ascii t"
  by (simp add: ascii_def)

text \<open>A wrapper returns when the call succeeded; otherwise the program ends with the status 1, having
  written the name of the call and the description of the error.\<close>

definition error_line :: "string \<Rightarrow> (int \<Rightarrow> bytes) \<Rightarrow> int \<Rightarrow> bytes" where
  "error_line name strerror n = ascii (name @ '' error: '') @ strerror n @ [10]"

lemma wrapped_ok:
  assumes "\<not> daemon_proc e" and "length name + 9 + length (strerror n) < MAXLINE"
  shows "wrapped (name @ '' error'') strerror n e =
    Some (if n = 0 then Returns e else Exits 1 (e\<lparr>errno := n, err_out := err_out e @ error_line name strerror n\<rparr>))"
  using assms by (simp add: wrapped_def err_sys_def err_doit_def Let_def error_line_def ascii_append MAXLINE_def) (simp add: ascii_def)

lemma wrappers_ok:
  assumes "(name, w) \<in> set wrappers" and "\<not> daemon_proc e" and "length (strerror n) \<le> 4000"
  shows "w strerror n e =
    Some (if n = 0 then Returns e else Exits 1 (e\<lparr>errno := n, err_out := err_out e @ error_line name strerror n\<rparr>))"
proof -
  have "w = wrapped (name @ '' error'')" "length name \<le> 40"
    using assms(1) unfolding wrappers_def wrapper_defs by auto
  then show ?thesis using wrapped_ok [OF assms(2), of name strerror n] assms(3) by (simp add: MAXLINE_def)
qed

end
