(* ===== verification/Startup.thy ===== *)
theory Startup
  imports Pipeline Errors
begin

text \<open>
  The start of the server: \<open>src/server/mainserver.c\<close>, \<open>init.c\<close>, and the functions that make the
  threads and open the UDP socket. What the system returned is an argument: of \<open>bind\<close> for both
  sockets, of \<open>getenv\<close>, and of the \<open>j\<close>-th \<open>pthread_create\<close>. What goes to the standard output is left out.
\<close>

section \<open>The program\<close>

definition MAXDNSTHREADS :: nat where
  "MAXDNSTHREADS = 50"

definition MAXSERVTHREADS :: nat where
  "MAXSERVTHREADS = 1000"

definition MAXLISTENQ :: int where
  "MAXLISTENQ = 4096"

record system =
  tcp_bind :: int
  listenq_env :: "bytes option"
  creates :: "nat \<Rightarrow> int"
  udp_bind :: int
  udp_errno :: int
  strerror :: "int \<Rightarrow> bytes"

text \<open>The memory manager that is linked has nothing to prepare.\<close>

definition init :: "FILE option \<Rightarrow> bytes option \<Rightarrow> int \<Rightarrow> (nat \<Rightarrow> data_t) \<Rightarrow> bytes \<Rightarrow> Kache option" where
  "init triepath iplistpath now fresh_data fresh_buff = kache_init triepath iplistpath now fresh_data fresh_buff"

definition thread_make_dns :: "system \<Rightarrow> nat \<Rightarrow> env \<Rightarrow> ending option" where
  "thread_make_dns s j e = Pthread_create (strerror s) (creates s j) e"

text \<open>It also sets the two addresses of the server, which the model has as constants.\<close>

definition thread_make_serv :: "system \<Rightarrow> nat \<Rightarrow> env \<Rightarrow> ending option" where
  "thread_make_serv s j e = Pthread_create (strerror s) (creates s j) e"

text \<open>The two loops: \<open>n\<close> threads are left, and the next call is number \<open>j\<close>.\<close>

fun make_threads :: "(nat \<Rightarrow> env \<Rightarrow> ending option) \<Rightarrow> nat \<Rightarrow> nat \<Rightarrow> env \<Rightarrow> ending option" where
  "make_threads create j 0 e = Some (Returns e)"
| "make_threads create j (Suc n) e =
     do {
       r \<leftarrow> create j e;
       case r of Returns e \<Rightarrow> make_threads create (j + 1) n e | _ \<Rightarrow> Some r
     }"

text \<open>The UDP server stays in its loop; when its socket cannot be bound, the program ends.\<close>

definition start_udp_server :: "system \<Rightarrow> env \<Rightarrow> ending" where
  "start_udp_server s e =
     (if udp_bind s = - 1
      then Exits 0 (e\<lparr>errno := udp_errno s, err_out := err_out e @ ascii ''udp bind: '' @ strerror s (udp_errno s) @ [10]\<rparr>)
      else Returns e)"

datatype launch = Serving int process | Ended ending

definition main_server ::
  "system \<Rightarrow> env \<Rightarrow> (nat \<Rightarrow> dns_thread_t) \<Rightarrow> FILE option \<Rightarrow> bytes option \<Rightarrow> int \<Rightarrow> (nat \<Rightarrow> data_t) \<Rightarrow> bytes \<Rightarrow> launch option" where
  "main_server s e arr triepath iplistpath now fresh_data fresh_buff =
     do {
       k \<leftarrow> init triepath iplistpath now fresh_data fresh_buff;
       if tcp_bind s \<noteq> 0 then Some (Ended (Exits 0 e))
       else do {
         backlog \<leftarrow> (case listenq_env s of
             None \<Rightarrow> Some MAXLISTENQ
           | Some v \<Rightarrow> do { b \<leftarrow> c_atol v; if is_int32 b then Some b else None });
         r \<leftarrow> make_threads (thread_make_dns s) 0 MAXDNSTHREADS e;
         case r of
           Returns e \<Rightarrow>
             do {
               r \<leftarrow> make_threads (thread_make_serv s) MAXDNSTHREADS MAXSERVTHREADS e;
               case r of
                 Returns e \<Rightarrow>
                   (case start_udp_server s e of
                      Returns e \<Rightarrow> Some (Serving backlog (started MAXDNSTHREADS k arr))
                    | r \<Rightarrow> Some (Ended r))
               | _ \<Rightarrow> Some (Ended r)
             }
         | _ \<Rightarrow> Some (Ended r)
       }
     }"

section \<open>Making the threads\<close>

definition create_failed :: "system \<Rightarrow> nat \<Rightarrow> env \<Rightarrow> ending" where
  "create_failed s j e = Exits 1 (e\<lparr>errno := creates s j,
     err_out := err_out e @ error_line ''pthread_create'' (strerror s) (creates s j)\<rparr>)"

lemma make_one:
  assumes "\<not> daemon_proc e" and "\<forall>n. length (strerror s n) \<le> 4000"
  shows "thread_make_dns s j e = Some (if creates s j = 0 then Returns e else create_failed s j e)"
    and "thread_make_serv s = thread_make_dns s"
proof -
  have "(''pthread_create'', Pthread_create) \<in> set wrappers" by (simp add: wrappers_def)
  from wrappers_ok [OF this assms(1), of "strerror s" "creates s j"] assms(2)
  show "thread_make_dns s j e = Some (if creates s j = 0 then Returns e else create_failed s j e)"
    by (simp add: thread_make_dns_def create_failed_def)
  show "thread_make_serv s = thread_make_dns s" by (simp add: fun_eq_iff thread_make_dns_def thread_make_serv_def)
qed

lemma make_threads_ok:
  assumes "\<not> daemon_proc e" and "\<forall>n. length (strerror s n) \<le> 4000"
  shows "(\<forall>i<n. creates s (j + i) = 0) \<Longrightarrow> make_threads (thread_make_dns s) j n e = Some (Returns e)"
    and "\<lbrakk>m < n; \<forall>i<m. creates s (j + i) = 0; creates s (j + m) \<noteq> 0\<rbrakk> \<Longrightarrow>
      make_threads (thread_make_dns s) j n e = Some (create_failed s (j + m) e)"
proof -
  note one = make_one(1) [OF assms]
  show "make_threads (thread_make_dns s) j n e = Some (Returns e)" if "\<forall>i<n. creates s (j + i) = 0"
    using that
  proof (induction n arbitrary: j)
    case (Suc n)
    have "\<forall>i<n. creates s (j + 1 + i) = 0" using Suc.prems by (metis Suc_less_eq add_Suc_right add.assoc plus_1_eq_Suc)
    moreover have "creates s j = 0" using Suc.prems [rule_format, of 0] by simp
    ultimately show ?case using Suc.IH [of "j + 1"] by (simp add: one)
  qed simp
  show "make_threads (thread_make_dns s) j n e = Some (create_failed s (j + m) e)"
    if "m < n" "\<forall>i<m. creates s (j + i) = 0" "creates s (j + m) \<noteq> 0"
    using that
  proof (induction n arbitrary: j m)
    case (Suc n)
    show ?case
    proof (cases m)
      case 0
      then show ?thesis using Suc.prems by (simp add: one create_failed_def)
    next
      case (Suc m')
      have "\<forall>i<m'. creates s (j + 1 + i) = 0" using Suc.prems(2) Suc by (metis Suc_less_eq add_Suc_right add.assoc plus_1_eq_Suc)
      moreover have "creates s j = 0" using Suc.prems(2) [rule_format, of 0] Suc by simp
      ultimately show ?thesis using Suc.IH [of m' "j + 1"] Suc.prems(1,3) Suc by (simp add: one)
    qed
  qed simp
qed

text \<open>The whole program, once the cache is loaded and the TCP socket bound.\<close>

lemma main_server_ok:
  assumes k: "kache_init triepath iplistpath now fresh_data fresh_buff = Some k" and b: "tcp_bind s = 0" "listenq_env s = None"
    and e: "\<not> daemon_proc e" "\<forall>n. length (strerror s n) \<le> 4000"
  shows "(\<forall>j<MAXDNSTHREADS + MAXSERVTHREADS. creates s j = 0) \<Longrightarrow>
      main_server s e arr triepath iplistpath now fresh_data fresh_buff =
      Some (if udp_bind s = - 1 then Ended (start_udp_server s e) else Serving MAXLISTENQ (started MAXDNSTHREADS k arr))"
    and "\<lbrakk>j < MAXDNSTHREADS + MAXSERVTHREADS; \<forall>i<j. creates s i = 0; creates s j \<noteq> 0\<rbrakk> \<Longrightarrow>
      main_server s e arr triepath iplistpath now fresh_data fresh_buff = Some (Ended (create_failed s j e))"
proof -
  note mk = make_threads_ok [OF e]
  have serv: "thread_make_serv s = thread_make_dns s" using make_one(2) [OF e] .
  show "main_server s e arr triepath iplistpath now fresh_data fresh_buff =
      Some (if udp_bind s = - 1 then Ended (start_udp_server s e) else Serving MAXLISTENQ (started MAXDNSTHREADS k arr))"
    if ok: "\<forall>j<MAXDNSTHREADS + MAXSERVTHREADS. creates s j = 0"
  proof -
    have "make_threads (thread_make_dns s) 0 MAXDNSTHREADS e = Some (Returns e)"
      "make_threads (thread_make_dns s) MAXDNSTHREADS MAXSERVTHREADS e = Some (Returns e)"
      using ok by (simp_all add: mk(1))
    then show ?thesis using k b by (simp add: main_server_def init_def serv start_udp_server_def)
  qed
  show "main_server s e arr triepath iplistpath now fresh_data fresh_buff = Some (Ended (create_failed s j e))"
    if f: "j < MAXDNSTHREADS + MAXSERVTHREADS" "\<forall>i<j. creates s i = 0" "creates s j \<noteq> 0"
  proof (cases "j < MAXDNSTHREADS")
    case True
    then have "make_threads (thread_make_dns s) 0 MAXDNSTHREADS e = Some (create_failed s j e)"
      using mk(2) [of j MAXDNSTHREADS 0] f by simp
    then show ?thesis using k b by (simp add: main_server_def init_def create_failed_def)
  next
    case False
    then have "make_threads (thread_make_dns s) 0 MAXDNSTHREADS e = Some (Returns e)"
      "make_threads (thread_make_dns s) MAXDNSTHREADS MAXSERVTHREADS e = Some (create_failed s j e)"
      using mk(1) [of MAXDNSTHREADS 0] mk(2) [of "j - MAXDNSTHREADS" MAXSERVTHREADS MAXDNSTHREADS] f by simp_all
    then show ?thesis using k b by (simp add: main_server_def init_def serv create_failed_def)
  qed
qed

section \<open>Properties\<close>

text \<open>C14: The start of the server on the file \<open>list2tri\<close> made: with the cache of the two lists loaded and the TCP
  socket bound, the server serves, in a reachable state of its threads, when all the threads can be made and
  the UDP socket bound; the first thread that cannot be made ends it with status 1 and a line that names
  the call and the error, and a UDP socket that cannot be bound ends it with status 0. The conditions: \<open>LISTENQ\<close>
  is not set in the environment, descriptions of errors have at most 4000 characters, and the process is not a
  daemon; the lines of the file are over the alphabet and of at most 78 characters, their characters and two more
  for each line are at most 2796000, the list has exactly \<open>TRIESIZE - 1\<close> addresses below 2^32, and the medium has
  room for the file of the trie.\<close>

theorem server_starts:
  assumes lists: "\<forall>l\<in>set ls. domain_line l" "sum_list (map (\<lambda>l. length l + 2) ls) \<le> 2796000"
      "length ips = TRIESIZE - 1" "\<forall>v\<in>set ips. v < 2 ^ 32" "length buff = 80"
    and sys: "tcp_bind s = 0" "listenq_env s = None" "\<forall>n. length (strerror s n) \<le> 4000" "\<not> daemon_proc e"
  shows "\<exists>N k. loads_lines ls ips now k \<and> reachable MAXDNSTHREADS (started MAXDNSTHREADS k arr) \<and> (\<forall>n\<ge>N. \<exists>tr f.
    list2tri_main (Some (file_of ls)) (Some (blank_file n)) = Some (0, tr, Some f) \<and>
    ((\<forall>j<MAXDNSTHREADS + MAXSERVTHREADS. creates s j = 0) \<longrightarrow>
       main_server s e arr (Some (fseek_set 0 f)) (Some (ip_lines ips)) now fresh_data buff =
       Some (if udp_bind s = - 1
         then Ended (Exits 0 (e\<lparr>errno := udp_errno s, err_out := err_out e @ ascii ''udp bind: '' @ strerror s (udp_errno s) @ [10]\<rparr>))
         else Serving 4096 (started MAXDNSTHREADS k arr))) \<and>
    (\<forall>j<MAXDNSTHREADS + MAXSERVTHREADS. (\<forall>i<j. creates s i = 0) \<and> creates s j \<noteq> 0 \<longrightarrow>
       main_server s e arr (Some (fseek_set 0 f)) (Some (ip_lines ips)) now fresh_data buff =
       Some (Ended (Exits 1 (e\<lparr>errno := creates s j,
         err_out := err_out e @ error_line ''pthread_create'' (strerror s) (creates s j)\<rparr>)))))"
proof -
  obtain N k where k: "loads_lines ls ips now k"
    and run: "\<forall>n\<ge>N. \<exists>tr f. list2tri_main (Some (file_of ls)) (Some (blank_file n)) = Some (0, tr, Some f) \<and>
       kache_init (Some (fseek_set 0 f)) (Some (ip_lines ips)) now fresh_data buff = Some k"
    using built_trie_loads [OF lists] by blast
  have r: "reachable MAXDNSTHREADS (started MAXDNSTHREADS k arr)"
    using k by (intro reachable.start) (simp add: loads_lines_def)
  show ?thesis
  proof (intro exI [of _ N] exI [of _ k] conjI k r allI impI)
    fix n assume "N \<le> n"
    then obtain tr f where f: "list2tri_main (Some (file_of ls)) (Some (blank_file n)) = Some (0, tr, Some f)"
      and i: "kache_init (Some (fseek_set 0 f)) (Some (ip_lines ips)) now fresh_data buff = Some k"
      using run by blast
    note m = main_server_ok [OF i sys(1,2,4,3), where arr = arr]
    show "\<exists>tr f. list2tri_main (Some (file_of ls)) (Some (blank_file n)) = Some (0, tr, Some f) \<and>
      ((\<forall>j<MAXDNSTHREADS + MAXSERVTHREADS. creates s j = 0) \<longrightarrow>
         main_server s e arr (Some (fseek_set 0 f)) (Some (ip_lines ips)) now fresh_data buff =
         Some (if udp_bind s = - 1
           then Ended (Exits 0 (e\<lparr>errno := udp_errno s, err_out := err_out e @ ascii ''udp bind: '' @ strerror s (udp_errno s) @ [10]\<rparr>))
           else Serving 4096 (started MAXDNSTHREADS k arr))) \<and>
      (\<forall>j<MAXDNSTHREADS + MAXSERVTHREADS. (\<forall>i<j. creates s i = 0) \<and> creates s j \<noteq> 0 \<longrightarrow>
         main_server s e arr (Some (fseek_set 0 f)) (Some (ip_lines ips)) now fresh_data buff =
         Some (Ended (Exits 1 (e\<lparr>errno := creates s j,
           err_out := err_out e @ error_line ''pthread_create'' (strerror s) (creates s j)\<rparr>))))"
      using f m by (intro exI [of _ tr] exI [of _ f]) (simp add: start_udp_server_def create_failed_def MAXLISTENQ_def)
  qed
qed

theorem server_starts_witness:
  "\<forall>arr. \<exists>n tr f k. list2tri_main (Some (file_of [[0x61, 0x62, 0x63]])) (Some (blank_file n)) = Some (0, tr, Some f) \<and>
    main_server \<lparr>tcp_bind = 0, listenq_env = None, creates = (\<lambda>_. 0), udp_bind = 0, udp_errno = 0, strerror = (\<lambda>_. [])\<rparr>
      \<lparr>errno = 0, daemon_proc = False, err_out = [], sys_log = []\<rparr> arr (Some (fseek_set 0 f)) (Some (ip_lines example_ips)) 5
      (\<lambda>_. \<lparr>ip = 0, timestamp = 0\<rparr>) (replicate 80 0) = Some (Serving 4096 (started MAXDNSTHREADS k arr)) \<and>
    reachable MAXDNSTHREADS (started MAXDNSTHREADS k arr)" (is "\<forall>arr. ?P arr")
proof
  fix arr
  let ?s = "\<lparr>tcp_bind = 0, listenq_env = None, creates = (\<lambda>_. 0), udp_bind = 0, udp_errno = 0, strerror = (\<lambda>_. [])\<rparr>"
  let ?e = "\<lparr>errno = 0, daemon_proc = False, err_out = [], sys_log = []\<rparr>"
  have sys: "tcp_bind ?s = 0" "listenq_env ?s = None" "\<forall>n. length (strerror ?s n) \<le> 4000" "\<not> daemon_proc ?e" by simp_all
  obtain N k where r: "reachable MAXDNSTHREADS (started MAXDNSTHREADS k arr)"
    and run: "\<forall>n\<ge>N. \<exists>tr f. list2tri_main (Some (file_of [[0x61, 0x62, 0x63]])) (Some (blank_file n)) = Some (0, tr, Some f) \<and>
      ((\<forall>j<MAXDNSTHREADS + MAXSERVTHREADS. creates ?s j = 0) \<longrightarrow>
        main_server ?s ?e arr (Some (fseek_set 0 f)) (Some (ip_lines example_ips)) 5 (\<lambda>_. \<lparr>ip = 0, timestamp = 0\<rparr>) (replicate 80 0) =
        Some (if udp_bind ?s = - 1 then Ended (Exits 0 (?e\<lparr>errno := udp_errno ?s,
              err_out := err_out ?e @ ascii ''udp bind: '' @ strerror ?s (udp_errno ?s) @ [10]\<rparr>))
          else Serving 4096 (started MAXDNSTHREADS k arr)))"
    using server_starts [OF example_lists sys, of 5 arr "\<lambda>_. \<lparr>ip = 0, timestamp = 0\<rparr>"] by blast
  show "?P arr" using run [rule_format, OF order_refl] r by auto
qed

end
