(* ===== verification/TailPool.thy ===== *)
theory TailPool
  imports Client
begin

text \<open>
  The pool of strings of the client's load generator, \<open>src/client/datrie_tail_pool.c\<close>, and the part of
  \<open>src/client/test_client.c\<close> that fills it from a file and draws the names of a search from it.

  The memory of the pool is a byte list; \<open>fresh i\<close> is what byte \<open>i\<close> of new memory holds. A pointer into
  the pool is the memory behind it.
\<close>

section \<open>The pool\<close>

record datrie_tail_pool =
  dt_pool :: bytes
  dt_next :: uint32
  dt_size :: uint32

definition DATRIE_TAIL_POOL_INITIAL_SIZE :: uint32 where
  "DATRIE_TAIL_POOL_INITIAL_SIZE = 512"

definition DATRIE_TAIL_POOL_INCREASING_RATE :: uint32 where
  "DATRIE_TAIL_POOL_INCREASING_RATE = 2"

definition resized :: "(nat \<Rightarrow> uint8) \<Rightarrow> nat \<Rightarrow> bytes \<Rightarrow> bytes" where
  "resized fresh n b = take n b @ map fresh [length b..<n]"

definition new_datrie_tail_pool :: "(nat \<Rightarrow> uint8) \<Rightarrow> datrie_tail_pool" where
  "new_datrie_tail_pool fresh =
     \<lparr>dt_pool = resized fresh (unat DATRIE_TAIL_POOL_INITIAL_SIZE) [], dt_next = 1, dt_size = DATRIE_TAIL_POOL_INITIAL_SIZE\<rparr>"

text \<open>The loop of \<open>dt_push_tail\<close> for a string of \<open>n\<close> characters; the size wraps at 32 bits.\<close>

partial_function (option) grow_pool :: "(nat \<Rightarrow> uint8) \<Rightarrow> nat \<Rightarrow> datrie_tail_pool \<Rightarrow> datrie_tail_pool option" where
  "grow_pool fresh n p =
     (if n + 1 > unat (dt_size p - dt_next p)
      then let sz = dt_size p * DATRIE_TAIL_POOL_INCREASING_RATE
           in grow_pool fresh n (p\<lparr>dt_size := sz, dt_pool := resized fresh (unat sz) (dt_pool p)\<rparr>)
      else Some p)"

definition dt_push_tail :: "(nat \<Rightarrow> uint8) \<Rightarrow> bytes \<Rightarrow> datrie_tail_pool \<Rightarrow> (int \<times> datrie_tail_pool) option" where
  "dt_push_tail fresh s p =
     do {
       let index = dt_next p;
       n \<leftarrow> c_strlen s;
       p \<leftarrow> grow_pool fresh n p;
       b \<leftarrow> put_bytes (dt_pool p) (unat (dt_next p)) (take (n + 1) s);
       Some (sint index, p\<lparr>dt_pool := b, dt_next := dt_next p + of_nat n + 1\<rparr>)
     }"

definition dt_get_tail :: "int \<Rightarrow> datrie_tail_pool \<Rightarrow> bytes option" where
  "dt_get_tail index p = (if 0 \<le> index \<and> nat index \<le> length (dt_pool p) then Some (drop (nat index) (dt_pool p)) else None)"

definition dt_remove_tail :: "int \<Rightarrow> datrie_tail_pool \<Rightarrow> datrie_tail_pool" where
  "dt_remove_tail index p = p"

text \<open>The blocks \<open>free_datp\<close> frees, in order.\<close>

datatype datp_block = Pool_memory | Pool_struct

definition free_datp :: "datrie_tail_pool option \<Rightarrow> datp_block list" where
  "free_datp p = (case p of None \<Rightarrow> [] | Some p \<Rightarrow> [Pool_memory, Pool_struct])"

section \<open>The pool on a file\<close>

text \<open>\<open>fseek\<close> from the start; it fails for a negative offset and leaves the position.\<close>

definition seek_set :: "FILE \<Rightarrow> int \<Rightarrow> int \<times> FILE" where
  "seek_set f offset = (if offset < 0 then (-1, f) else (0, fseek_set (nat offset) f))"

definition write_datp_to_file :: "FILE \<Rightarrow> int \<Rightarrow> datrie_tail_pool \<Rightarrow> (int \<times> FILE) option" where
  "write_datp_to_file f offset p =
     (let (sz, f) = seek_set f offset
      in if sz < 0 then Some (-1, f)
         else let (n, f) = fwrite (le32 (dt_next p)) f; sz = sz + int (n div 4)
              in if sz \<noteq> 1 then Some (-1, f)
                 else if length (dt_pool p) < unat (dt_next p) then None
                 else let sz = sz * 4; (n, f) = fwrite (take (unat (dt_next p)) (dt_pool p)) f
                      in Some (sz + int n, f))"

text \<open>\<open>temp\<close> is unsigned, so the test of the result of \<open>fseek\<close> is never true.\<close>

definition read_datp_from_file :: "(nat \<Rightarrow> uint8) \<Rightarrow> FILE \<Rightarrow> int \<Rightarrow> (datrie_tail_pool option \<times> FILE) option" where
  "read_datp_from_file fresh f offset =
     (let (temp, f) = seek_set f offset; (w, f) = fread 4 f
      in if length w div 4 = 0 then Some (None, f)
         else do {
           next \<leftarrow> get32 w 0;
           let (b, f) = fread (unat next) f;
           if length b = 0 then Some (None, f)
           else Some (Some \<lparr>dt_pool = b @ map fresh [length b..<unat next], dt_next = next, dt_size = next\<rparr>, f)
         })"

section \<open>The load generator\<close>

definition DN_NUM :: nat where
  "DN_NUM = 1843314"

definition DN_LENGTH :: nat where
  "DN_LENGTH = 63"

text \<open>The first newline of the buffer ends the string, and its last byte does in any case.\<close>

definition dtp_replace_n :: "bytes \<Rightarrow> bytes" where
  "dtp_replace_n buff =
     (let l = takeWhile (\<lambda>c. c \<noteq> 10) buff;
          buff = (if length l < length buff then buff[length l := 0] else buff)
      in buff[79 := 0])"

text \<open>The loop of \<open>init_dtp\<close> over the lines of the stream; \<open>buff\<close> is the global buffer of 80 bytes.\<close>

partial_function (option) init_loop ::
  "(nat \<Rightarrow> uint8) \<Rightarrow> bytes \<Rightarrow> bytes \<Rightarrow> nat \<Rightarrow> int list \<Rightarrow> datrie_tail_pool \<Rightarrow> (int list \<times> datrie_tail_pool) option" where
  "init_loop fresh s buff i key p =
     (case c_fgets 80 buff s of
        None \<Rightarrow> Some (key, p)
      | Some (buff, s) \<Rightarrow> do {
          let buff = dtp_replace_n buff;
          (j, p) \<leftarrow> dt_push_tail fresh buff p;
          key \<leftarrow> (if i < length key then Some (key[i := j]) else None);
          init_loop fresh s buff (i + 1) key p
        })"

definition init_dtp :: "(nat \<Rightarrow> uint8) \<Rightarrow> int list \<Rightarrow> bytes \<Rightarrow> (int list \<times> datrie_tail_pool) option" where
  "init_dtp fresh key domains = init_loop fresh domains (replicate 80 0) 0 key (new_datrie_tail_pool fresh)"

text \<open>\<open>create_buf\<close>: \<open>xs\<close> are the results of \<open>rand () % DN_NUM\<close>, \<open>at\<close> is how far the buffer is filled.\<close>

fun create_buf :: "int list \<Rightarrow> datrie_tail_pool \<Rightarrow> nat list \<Rightarrow> nat \<Rightarrow> bytes \<Rightarrow> bytes option" where
  "create_buf key p [] at dn_buf = Some dn_buf"
| "create_buf key p (x # xs) at dn_buf =
     do {
       j \<leftarrow> (if x < length key then Some (key ! x) else None);
       tem_buf \<leftarrow> dt_get_tail j p;
       n \<leftarrow> c_strlen tem_buf;
       dn_buf \<leftarrow> put_bytes dn_buf at (take (n + 1) tem_buf);
       create_buf key p xs (at + n + 1) dn_buf
     }"

section \<open>Pushing and getting\<close>

text \<open>\<open>ds\<close> are the strings of the pool, one behind the other from index 1.\<close>

definition datp_ok :: "bytes list \<Rightarrow> datrie_tail_pool \<Rightarrow> bool" where
  "datp_ok ds p \<longleftrightarrow> (\<exists>x r. dt_pool p = x # message ds @ r) \<and> unat (dt_next p) = 1 + length (message ds) \<and>
     length (dt_pool p) = unat (dt_size p) \<and> unat (dt_size p) < 2 ^ 31"

lemma message_append [simp]: "message (ds @ es) = message ds @ message es"
  by (simp add: message_def)

lemma datp_okE:
  assumes "datp_ok ds p"
  obtains x r where "dt_pool p = x # message ds @ r" "unat (dt_next p) = 1 + length (message ds)"
    "length (dt_pool p) = unat (dt_size p)" "unat (dt_size p) < 2 ^ 31" "unat (dt_next p) \<le> unat (dt_size p)"
  using assms that unfolding datp_ok_def by fastforce

lemma new_datp_ok: "datp_ok [] (new_datrie_tail_pool fresh)"
proof -
  have "[0..<512] = 0 # [1..<512]" by (simp add: upt_conv_Cons)
  then show ?thesis by (simp add: datp_ok_def new_datrie_tail_pool_def resized_def DATRIE_TAIL_POOL_INITIAL_SIZE_def)
qed

lemma grow_pool_ok:
  "datp_ok ds p \<Longrightarrow> unat (dt_next p) + n + 1 \<le> 2 ^ 30 \<Longrightarrow>
    \<exists>p'. grow_pool fresh n p = Some p' \<and> datp_ok ds p' \<and> dt_next p' = dt_next p \<and> unat (dt_next p') + n + 1 \<le> unat (dt_size p')"
proof (induction "2 ^ 30 - unat (dt_size p)" arbitrary: p rule: less_induct)
  case less
  obtain x r where p: "dt_pool p = x # message ds @ r" "unat (dt_next p) = 1 + length (message ds)"
    "length (dt_pool p) = unat (dt_size p)" "unat (dt_size p) < 2 ^ 31" "unat (dt_next p) \<le> unat (dt_size p)"
    by (rule datp_okE [OF less.prems(1)])
  have d: "unat (dt_size p - dt_next p) = unat (dt_size p) - unat (dt_next p)" using p(5) by (simp add: unat_sub word_le_nat_alt)
  show ?case
  proof (cases "n + 1 > unat (dt_size p - dt_next p)")
    case True
    let ?sz = "dt_size p * 2"
    let ?q = "p\<lparr>dt_size := ?sz, dt_pool := resized fresh (unat ?sz) (dt_pool p)\<rparr>"
    have small: "unat (dt_size p) < 2 ^ 30" using True d less.prems(2) by linarith
    then have sz: "unat ?sz = 2 * unat (dt_size p)" by (simp add: unat_word_ariths)
    have pos: "0 < unat (dt_size p)" using p(2,5) by linarith
    have "datp_ok ds ?q" using p sz small by (auto simp: datp_ok_def resized_def)
    moreover have "2 ^ 30 - unat (dt_size ?q) < 2 ^ 30 - unat (dt_size p)" using sz small pos by simp
    ultimately have "\<exists>p'. grow_pool fresh n ?q = Some p' \<and> datp_ok ds p' \<and> dt_next p' = dt_next ?q \<and>
        unat (dt_next p') + n + 1 \<le> unat (dt_size p')"
      using less.hyps [of ?q] less.prems(2) by simp
    moreover have "grow_pool fresh n p = grow_pool fresh n ?q"
      using True by (subst grow_pool.simps) (simp add: Let_def DATRIE_TAIL_POOL_INCREASING_RATE_def)
    ultimately show ?thesis by simp
  next
    case False
    then have "grow_pool fresh n p = Some p" by (subst grow_pool.simps) simp
    then show ?thesis using less.prems(1) False d p(5) by auto
  qed
qed

lemma dt_push_tail_ok:
  assumes ok: "datp_ok ds p" and d: "0 \<notin> set d" and room: "unat (dt_next p) + length d + 1 \<le> 2 ^ 30"
  shows "\<exists>p'. dt_push_tail fresh (d @ 0 # r) p = Some (int (1 + length (message ds)), p') \<and> datp_ok (ds @ [d]) p' \<and>
    unat (dt_next p') = unat (dt_next p) + length d + 1"
proof -
  obtain p' where g: "grow_pool fresh (length d) p = Some p'" "datp_ok ds p'" "dt_next p' = dt_next p"
    "unat (dt_next p') + length d + 1 \<le> unat (dt_size p')"
    using grow_pool_ok [OF ok room] by blast
  obtain x t where p: "dt_pool p' = x # message ds @ t" "unat (dt_next p') = 1 + length (message ds)"
    "length (dt_pool p') = unat (dt_size p')" "unat (dt_size p') < 2 ^ 31" "unat (dt_next p') \<le> unat (dt_size p')"
    by (rule datp_okE [OF g(2)])
  let ?n = "length d + 1"
  have len: "length d + 1 \<le> length t" using g(4) p(1-3) by simp
  have put: "put_bytes (dt_pool p') (unat (dt_next p')) (take ?n (d @ 0 # r)) = Some (x # message ds @ (d @ [0]) @ drop ?n t)"
    using put_bytes_middle [of "x # message ds" "unat (dt_next p')" "d @ [0]" t] p(1,2) len by simp
  have nx: "unat (dt_next p' + of_nat (length d) + 1) = unat (dt_next p') + length d + 1"
    using room g(3) by (simp add: unat_word_ariths unat_of_nat take_bit_eq_mod)
  have s: "sint (dt_next p) = int (unat (dt_next p))" by (rule sint_eq_unat) (use room in simp)
  have "unat (dt_next p) = 1 + length (message ds)" using p(2) g(3) by simp
  with s have "sint (dt_next p) = int (1 + length (message ds))" by (simp only:)
  then have "dt_push_tail fresh (d @ 0 # r) p = Some (int (1 + length (message ds)),
      p'\<lparr>dt_pool := x # message ds @ (d @ [0]) @ drop ?n t, dt_next := dt_next p' + of_nat (length d) + 1\<rparr>)"
    using g(1) put p(2) g(3) c_strlen_at [OF d, of r] by (simp add: dt_push_tail_def)
  moreover have "datp_ok (ds @ [d]) (p'\<lparr>dt_pool := x # message ds @ (d @ [0]) @ drop ?n t, dt_next := dt_next p' + of_nat (length d) + 1\<rparr>)"
    using p nx len by (simp add: datp_ok_def)
  ultimately show ?thesis using nx g(3) by simp
qed

lemma dt_get_tail_ok:
  assumes "datp_ok (ds @ d # es) p"
  shows "\<exists>r. dt_get_tail (int (1 + length (message ds))) p = Some (d @ 0 # r)"
proof -
  obtain x r where p: "dt_pool p = x # message (ds @ d # es) @ r" using datp_okE [OF assms] by metis
  then show ?thesis by (simp add: dt_get_tail_def nat_add_distrib)
qed

section \<open>Writing and reading\<close>

lemma fwrite_over:
  assumes "fpos f \<le> length (contents f)" and "fpos f + length v \<le> room f"
  shows "fwrite v f = (length v, f\<lparr>contents := take (fpos f) (contents f) @ v @ drop (fpos f + length v) (contents f),
    fpos := fpos f + length v\<rparr>)"
  using assms by (simp add: fwrite_def Let_def)

lemma write_datp_ok:
  assumes len: "unat (dt_next p) \<le> length (dt_pool p)" and off: "0 \<le> offset" "nat offset \<le> length (contents f)"
    and fits: "nat offset + 4 + unat (dt_next p) \<le> room f"
  shows "\<exists>f' r. write_datp_to_file f offset p = Some (4 + int (unat (dt_next p)), f') \<and>
    contents f' = take (nat offset) (contents f) @ le32 (dt_next p) @ take (unat (dt_next p)) (dt_pool p) @ r"
proof -
  let ?o = "nat offset" and ?n = "unat (dt_next p)" and ?w = "le32 (dt_next p)" and ?c = "contents f"
  let ?b = "take ?n (dt_pool p)"
  let ?f = "fseek_set ?o f"
  have 1: "fwrite ?w ?f = (4, ?f\<lparr>contents := take ?o ?c @ ?w @ drop (?o + 4) ?c, fpos := ?o + 4\<rparr>)"
    using fwrite_over [of ?f ?w] off(2) fits by (simp add: fseek_set_def)
  let ?g = "?f\<lparr>contents := take ?o ?c @ ?w @ drop (?o + 4) ?c, fpos := ?o + 4\<rparr>"
  have lb: "length ?b = ?n" using len by simp
  have "fpos ?g \<le> length (contents ?g)" "fpos ?g + length ?b \<le> room ?g" using off(2) fits lb by (simp_all add: fseek_set_def)
  then have 2: "fwrite ?b ?g = (?n, ?g\<lparr>contents := take (?o + 4) (contents ?g) @ ?b @ drop (?o + 4 + ?n) (contents ?g),
      fpos := ?o + 4 + ?n\<rparr>)"
    using fwrite_over [of ?g ?b] lb by simp
  have t: "take (?o + 4) (contents ?g) = take ?o ?c @ ?w" using off(2) by simp
  have "write_datp_to_file f offset p = Some (4 + int ?n, snd (fwrite ?b ?g))"
    using off(1) len unfolding write_datp_to_file_def seek_set_def by (simp add: 1 2 Let_def)
  moreover have "contents (snd (fwrite ?b ?g)) = take ?o ?c @ ?w @ ?b @ drop (?o + 4 + ?n) (contents ?g)"
    unfolding 2 using t by simp
  ultimately show ?thesis by blast
qed

lemma read_datp_ok:
  assumes off: "0 \<le> offset" and c: "contents f = a @ le32 w @ b @ r" "length a = nat offset" "length b = unat w" and w: "w \<noteq> 0"
  shows "\<exists>f'. read_datp_from_file fresh f offset = Some (Some \<lparr>dt_pool = b, dt_next = w, dt_size = w\<rparr>, f')"
proof -
  let ?f = "fseek_set (nat offset) f"
  have "ahead ?f = le32 w @ b @ r" using c(1,2) by (simp add: ahead_def fseek_set_def)
  then have 1: "fread (length (le32 w)) ?f = (le32 w, advanced (length (le32 w)) ?f)" "ahead (advanced (length (le32 w)) ?f) = b @ r"
    using fread_ahead ahead_advanced by blast+
  have 2: "fread (unat w) (advanced 4 ?f) = (b, advanced (unat w) (advanced 4 ?f))"
    using fread_ahead [of "advanced 4 ?f" b r] 1(2) c(3) by simp
  have g: "get32 (le32 w) 0 = Some w" using get32_le32 [of "[]" 0 w "[]"] by simp
  have "b \<noteq> []" using c(3) w by (auto simp: unat_eq_0)
  then show ?thesis using off 1(1) 2 g c(3) unfolding read_datp_from_file_def seek_set_def by (simp add: Let_def)
qed

section \<open>The load generator\<close>

definition text_lines :: "bytes list \<Rightarrow> bytes" where
  "text_lines ds = concat (map (\<lambda>d. d @ [10]) ds)"

lemma text_lines_simps [simp]: "text_lines [] = []" "text_lines (d # ds) = d @ 10 # text_lines ds"
  by (simp_all add: text_lines_def)

definition line_ok :: "bytes \<Rightarrow> bool" where
  "line_ok d \<longleftrightarrow> 0 \<notin> set d \<and> 10 \<notin> set d \<and> length d \<le> 78"

lemma dtp_replace_n_line:
  assumes d: "line_ok d" and len: "length d + 1 + length r = 80"
  shows "\<exists>r'. dtp_replace_n (d @ 10 # r) = d @ 0 # r' \<and> length (d @ 0 # r') = 80"
proof -
  have t: "takeWhile (\<lambda>c. c \<noteq> 10) (d @ 10 # r) = d" using d by (intro takeWhile_append_stop) (auto simp: line_ok_def)
  have "dtp_replace_n (d @ 10 # r) = (d @ 0 # r)[79 := 0]" using t by (simp add: dtp_replace_n_def Let_def)
  also have "79 - length d = Suc (78 - length d)" using d unfolding line_ok_def by linarith
  then have "(d @ 0 # r)[79 := 0] = d @ 0 # r[78 - length d := 0]" using d by (simp add: line_ok_def list_update_append)
  finally show ?thesis using len by simp
qed

definition index_of :: "bytes list \<Rightarrow> nat \<Rightarrow> int" where
  "index_of ds j = int (1 + length (message (take j ds)))"

lemma init_loop_ok:
  assumes "length buff = 80" and "\<forall>d\<in>set ds. line_ok d" and "datp_ok es p" and "length es + length ds \<le> length key"
    and "\<forall>j<length es. key ! j = index_of (es @ ds) j" and "1 + length (message (es @ ds)) \<le> 2 ^ 30"
  shows "\<exists>key' p'. init_loop fresh (text_lines ds) buff (length es) key p = Some (key', p') \<and> datp_ok (es @ ds) p' \<and>
    length key' = length key \<and> (\<forall>j<length (es @ ds). key' ! j = index_of (es @ ds) j)"
  using assms
proof (induction ds arbitrary: buff es key p)
  case Nil
  then show ?case by (subst init_loop.simps) (simp add: c_fgets_def)
next
  case (Cons d ds)
  have d: "line_ok d" using Cons.prems(2) by simp
  then have dd: "0 \<notin> set d" "10 \<notin> set d" "length d \<le> 78" by (auto simp: line_ok_def)
  let ?b = "d @ 10 # 0 # drop (length d + 2) buff"
  have get: "c_fgets 80 buff (text_lines (d # ds)) = Some (?b, text_lines ds)"
    using c_fgets_line [of d 80 buff "text_lines ds"] dd by simp
  have "length d + 1 + length (0 # drop (length d + 2) buff) = 80" using Cons.prems(1) dd(3) by simp
  then obtain r where r: "dtp_replace_n ?b = d @ 0 # r" "length (d @ 0 # r) = 80" using dtp_replace_n_line [OF d] by blast
  have nx: "unat (dt_next p) = 1 + length (message es)" by (rule datp_okE [OF Cons.prems(3)])
  have "unat (dt_next p) + length d + 1 \<le> 2 ^ 30" using Cons.prems(6) nx by simp
  then obtain p' where p': "dt_push_tail fresh (d @ 0 # r) p = Some (int (1 + length (message es)), p')" "datp_ok (es @ [d]) p'"
    using dt_push_tail_ok [OF Cons.prems(3) dd(1)] by blast
  let ?k = "key[length es := index_of (es @ d # ds) (length es)]"
  have ix: "index_of (es @ d # ds) (length es) = int (1 + length (message es))" by (simp add: index_of_def)
  have step: "init_loop fresh (text_lines (d # ds)) buff (length es) key p = init_loop fresh (text_lines ds) (d @ 0 # r) (length (es @ [d])) ?k p'"
    using get r(1) p'(1) ix Cons.prems(4) by (subst init_loop.simps) simp
  have "\<exists>key' p''. init_loop fresh (text_lines ds) (d @ 0 # r) (length (es @ [d])) ?k p' = Some (key', p'') \<and>
      datp_ok ((es @ [d]) @ ds) p'' \<and> length key' = length ?k \<and> (\<forall>j<length ((es @ [d]) @ ds). key' ! j = index_of ((es @ [d]) @ ds) j)"
    using Cons.prems r(2) p'(2) by (intro Cons.IH) (auto simp: nth_list_update less_Suc_eq)
  then show ?case using step by simp
qed

lemma create_buf_ok:
  assumes ok: "datp_ok ds p" and key: "length ds \<le> length key" "\<forall>j<length ds. key ! j = index_of ds j" and z: "\<forall>d\<in>set ds. 0 \<notin> set d"
  shows "\<forall>x\<in>set xs. x < length ds \<Longrightarrow> length a = n \<Longrightarrow> length (message (map ((!) ds) xs)) \<le> length b \<Longrightarrow>
    create_buf key p xs n (a @ b) = Some (a @ message (map ((!) ds) xs) @ drop (length (message (map ((!) ds) xs))) b)"
proof (induction xs arbitrary: n a b)
  case (Cons x xs)
  let ?d = "ds ! x"
  have x: "x < length ds" using Cons.prems(1) by simp
  have "datp_ok (take x ds @ ?d # drop (Suc x) ds) p" using ok id_take_nth_drop [OF x] by simp
  then obtain r where get: "dt_get_tail (index_of ds x) p = Some (?d @ 0 # r)"
    using dt_get_tail_ok unfolding index_of_def by blast
  have st: "c_strlen (?d @ 0 # r) = Some (length ?d)" using z x by (intro c_strlen_at) auto
  have len: "length (?d @ [0]) \<le> length b" using Cons.prems(3) by simp
  have put: "put_bytes (a @ b) n (?d @ [0]) = Some ((a @ ?d @ [0]) @ drop (length (?d @ [0])) b)"
    using put_bytes_middle [OF Cons.prems(2) len] by simp
  have "create_buf key p (x # xs) n (a @ b) = create_buf key p xs (n + length ?d + 1) ((a @ ?d @ [0]) @ drop (length (?d @ [0])) b)"
    using key x get st put by simp
  also have "\<dots> = Some ((a @ ?d @ [0]) @ message (map ((!) ds) xs) @ drop (length (message (map ((!) ds) xs))) (drop (length (?d @ [0])) b))"
    using Cons.prems by (intro Cons.IH) auto
  finally show ?case by (simp add: add.commute)
qed simp

section \<open>The properties\<close>

fun push_all :: "(nat \<Rightarrow> uint8) \<Rightarrow> bytes list \<Rightarrow> datrie_tail_pool \<Rightarrow> (int list \<times> datrie_tail_pool) option" where
  "push_all fresh [] p = Some ([], p)"
| "push_all fresh (d # ds) p =
     do { (i, p) \<leftarrow> dt_push_tail fresh (d @ [0]) p; (is, p) \<leftarrow> push_all fresh ds p; Some (i # is, p) }"

lemma push_all_ok:
  "datp_ok es p \<Longrightarrow> \<forall>d\<in>set ds. 0 \<notin> set d \<Longrightarrow> 1 + length (message (es @ ds)) \<le> 2 ^ 30 \<Longrightarrow>
    \<exists>is p'. push_all fresh ds p = Some (is, p') \<and> datp_ok (es @ ds) p' \<and>
      is = map (\<lambda>j. index_of (es @ ds) (length es + j)) [0..<length ds]"
proof (induction ds arbitrary: es p)
  case (Cons d ds)
  have nx: "unat (dt_next p) = 1 + length (message es)" by (rule datp_okE [OF Cons.prems(1)])
  have "unat (dt_next p) + length d + 1 \<le> 2 ^ 30" "0 \<notin> set d" using Cons.prems(2,3) nx by simp_all
  then obtain p' where p': "dt_push_tail fresh (d @ 0 # []) p = Some (int (1 + length (message es)), p')" "datp_ok (es @ [d]) p'"
    using dt_push_tail_ok [OF Cons.prems(1)] by blast
  obtain js p'' where js: "push_all fresh ds p' = Some (js, p'')" "datp_ok ((es @ [d]) @ ds) p''"
    "js = map (\<lambda>j. index_of ((es @ [d]) @ ds) (length (es @ [d]) + j)) [0..<length ds]"
    using Cons.IH [OF p'(2)] Cons.prems(2,3) by auto
  have "[0..<length (d # ds)] = 0 # map Suc [0..<length ds]" by (simp add: upt_conv_Cons map_Suc_upt del: upt_Suc)
  then show ?case using p'(1) js by (simp add: index_of_def comp_def)
qed simp

text \<open>the strings pushed into a new pool, as long as they fit in 2 to the 30 bytes, can be read at the indices
  \<open>dt_push_tail\<close> returned, also after the pool has grown; the indices are positive.\<close>

theorem pushed_strings_are_kept:
  assumes "\<forall>d\<in>set ds. 0 \<notin> set d" and "1 + length (message ds) \<le> 2 ^ 30"
  shows "\<exists>is p. push_all fresh ds (new_datrie_tail_pool fresh) = Some (is, p) \<and> length is = length ds \<and>
    (\<forall>j<length ds. 0 < is ! j \<and> (\<exists>r. dt_get_tail (is ! j) p = Some (ds ! j @ 0 # r)))"
proof -
  obtain js p where p: "push_all fresh ds (new_datrie_tail_pool fresh) = Some (js, p)" "datp_ok ds p"
    "js = map (\<lambda>j. index_of ds j) [0..<length ds]"
    using push_all_ok [OF new_datp_ok assms(1), of fresh fresh] assms(2) by auto
  have "0 < js ! j \<and> (\<exists>r. dt_get_tail (js ! j) p = Some (ds ! j @ 0 # r))" if j: "j < length ds" for j
  proof -
    have "datp_ok (take j ds @ ds ! j # drop (Suc j) ds) p" using p(2) id_take_nth_drop [OF j] by simp
    then show ?thesis using dt_get_tail_ok p(3) j by (auto simp: index_of_def)
  qed
  then show ?thesis using p by auto
qed

theorem pushed_strings_are_kept_witness:
  "\<exists>is p. push_all (\<lambda>_. 7) [[97, 98], [], [99]] (new_datrie_tail_pool (\<lambda>_. 7)) = Some (is, p) \<and>
     (\<exists>r. dt_get_tail (is ! 2) p = Some (99 # 0 # r))"
proof -
  obtain js p where p: "push_all (\<lambda>_. 7) [[97, 98], [], [99]] (new_datrie_tail_pool (\<lambda>_. 7)) = Some (js, p)"
    "\<forall>j<length [[97, 98], [], [99 :: uint8]]. 0 < js ! j \<and> (\<exists>r. dt_get_tail (js ! j) p = Some ([[97, 98], [], [99]] ! j @ 0 # r))"
    using pushed_strings_are_kept [of "[[97, 98], [], [99]]" "\<lambda>_. 7"] by auto
  show ?thesis using p(1) p(2) [rule_format, of 2] by (intro exI [of _ js] exI [of _ p]) simp
qed

text \<open>a pool written to a file at an offset within it and read back from the same offset holds the same strings
  at the same indices, with no room left.\<close>

theorem datp_file_roundtrip:
  assumes "datp_ok ds p" and "0 \<le> offset" and "nat offset \<le> length (contents f)" and "nat offset + 4 + unat (dt_next p) \<le> room f"
  shows "\<exists>f' p' f''. write_datp_to_file f offset p = Some (4 + int (unat (dt_next p)), f') \<and>
    read_datp_from_file fresh f' offset = Some (Some p', f'') \<and> datp_ok ds p' \<and> dt_next p' = dt_next p \<and> dt_size p' = dt_next p"
proof -
  obtain x r where p: "dt_pool p = x # message ds @ r" "unat (dt_next p) = 1 + length (message ds)"
    "length (dt_pool p) = unat (dt_size p)" "unat (dt_size p) < 2 ^ 31" "unat (dt_next p) \<le> unat (dt_size p)"
    by (rule datp_okE [OF assms(1)])
  let ?b = "take (unat (dt_next p)) (dt_pool p)"
  obtain f' t where f': "write_datp_to_file f offset p = Some (4 + int (unat (dt_next p)), f')"
    "contents f' = take (nat offset) (contents f) @ le32 (dt_next p) @ ?b @ t"
    using write_datp_ok [OF _ assms(2-4)] p(3,5) by auto
  have "dt_next p \<noteq> 0" using p(2) by auto
  then obtain f'' where "read_datp_from_file fresh f' offset = Some (Some \<lparr>dt_pool = ?b, dt_next = dt_next p, dt_size = dt_next p\<rparr>, f'')"
    using read_datp_ok [OF assms(2) f'(2)] assms(3) p(3,5) by auto
  moreover have "datp_ok ds \<lparr>dt_pool = ?b, dt_next = dt_next p, dt_size = dt_next p\<rparr>"
    using p by (simp add: datp_ok_def)
  ultimately show ?thesis using f'(1) by auto
qed

theorem datp_file_roundtrip_witness:
  "\<exists>f' p' f''. write_datp_to_file \<lparr>contents = [1, 2], fpos = 0, room = 100\<rparr> 2 (new_datrie_tail_pool (\<lambda>_. 7)) = Some (5, f') \<and>
     read_datp_from_file (\<lambda>_. 7) f' 2 = Some (Some p', f'') \<and> dt_next p' = 1"
  using datp_file_roundtrip [OF new_datp_ok [of "\<lambda>_. 7"], of 2 "\<lparr>contents = [1, 2], fpos = 0, room = 100\<rparr>" "\<lambda>_. 7"]
  by (simp add: new_datrie_tail_pool_def) blast

text \<open>C34: the load generator: from a file of lines of at most 62 characters, at most \<open>DN_NUM\<close> of them and less than 2 to the
  30 bytes, \<open>init_dtp\<close> fills the pool, and \<open>create_buf\<close> then fills the buffer of \<open>DN_LENGTH\<close> bytes for each name with the
  chosen names as the message a search expects.\<close>

theorem load_generator_fills_buffer:
  assumes "\<forall>d\<in>set ds. 0 \<notin> set d \<and> 10 \<notin> set d \<and> length d < DN_LENGTH" and "length ds \<le> length key"
    and "1 + length (message ds) \<le> 2 ^ 30" and "\<forall>x\<in>set xs. x < length ds" and "length dn_buf = DN_LENGTH * length xs"
  shows "\<exists>key' p r. init_dtp fresh key (text_lines ds) = Some (key', p) \<and>
    create_buf key' p xs 0 dn_buf = Some (message (map ((!) ds) xs) @ r)"
proof -
  have l: "\<forall>d\<in>set ds. line_ok d" using assms(1) by (auto simp: line_ok_def DN_LENGTH_def)
  obtain key' p where p: "init_dtp fresh key (text_lines ds) = Some (key', p)" "datp_ok ds p" "length key' = length key"
    "\<forall>j<length ds. key' ! j = index_of ds j"
    using init_loop_ok [OF _ l new_datp_ok [of fresh], of "replicate 80 0" key fresh] assms(2,3) unfolding init_dtp_def by auto
  have short: "length (ds ! x) < DN_LENGTH" if "x < length ds" for x using assms(1) that by simp
  have "length (message (map ((!) ds) xs)) \<le> DN_LENGTH * length xs"
    using assms(4)
  proof (induction xs)
    case (Cons x xs)
    then show ?case using short [of x] by simp
  qed simp
  then have "create_buf key' p xs 0 ([] @ dn_buf) =
      Some ([] @ message (map ((!) ds) xs) @ drop (length (message (map ((!) ds) xs))) dn_buf)"
    using p(2-4) assms(1,2,4,5) by (intro create_buf_ok) auto
  then show ?thesis using p(1) by auto
qed

theorem load_generator_fills_buffer_witness:
  "\<exists>key' p r. init_dtp (\<lambda>_. 7) [0, 0] (text_lines [[97, 98], [99]]) = Some (key', p) \<and>
     create_buf key' p [1, 0, 1] 0 (replicate 189 0) = Some ([99, 0, 97, 98, 0, 99, 0] @ r)"
  using load_generator_fills_buffer [of "[[97, 98], [99]]" "[0, 0]" "[1, 0, 1]" "replicate 189 0" "\<lambda>_. 7"]
  by (simp add: DN_LENGTH_def)

end
