(* ===== verification/Slist.thy ===== *)
theory Slist
  imports Prelude
begin

text \<open>
  The single linked list on preallocated nodes, \<open>src/server/slist.c\<close> and its copy
  \<open>src/client/slist.c\<close>, which the memory manager keeps its chunks in.

  The heap maps the address of a node to the node, if it is allocated; the allocator's results are
  arguments of the operations that call it. \<open>data\<close> pointers are numbers. The nodes of a block lie one
  after the other. The refinement to lists is stated with the contract of the list as a locale.
\<close>

section \<open>Nodes and lists\<close>

record sl_node =
  sl_data :: nat
  sl_next :: "nat option"

type_synonym sl_heap = "nat \<Rightarrow> sl_node option"

record slist =
  sl_head :: "nat option"
  sl_end :: "nat option"
  blank :: "nat option"
  sl_length :: nat
  sl_capacity :: nat
  memlist :: "nat option"

definition set_next :: "sl_heap \<Rightarrow> nat \<Rightarrow> nat option \<Rightarrow> sl_heap option" where
  "set_next h a v = (case h a of None \<Rightarrow> None | Some n \<Rightarrow> Some (h(a := Some (n\<lparr>sl_next := v\<rparr>))))"

definition set_data :: "sl_heap \<Rightarrow> nat \<Rightarrow> nat \<Rightarrow> sl_heap option" where
  "set_data h a v = (case h a of None \<Rightarrow> None | Some n \<Rightarrow> Some (h(a := Some (n\<lparr>sl_data := v\<rparr>))))"

section \<open>Making, expanding and freeing\<close>

text \<open>The loop that links the nodes of a block; it returns the last one.\<close>

fun link_nodes :: "sl_heap \<Rightarrow> nat \<Rightarrow> nat \<Rightarrow> (sl_heap \<times> nat) option" where
  "link_nodes h ptr capacity =
     (if 1 < capacity
      then do { h \<leftarrow> set_next h ptr (Some (ptr + 1)); link_nodes h (ptr + 1) (capacity - 1) }
      else Some (h, ptr))"

declare link_nodes.simps [simp del]

text \<open>\<open>p\<close> is the block for the list, \<open>first\<close> its first node and \<open>m\<close> the node for \<open>memlist\<close>.\<close>

definition mk_slist :: "sl_heap \<Rightarrow> nat \<Rightarrow> nat \<Rightarrow> nat \<Rightarrow> nat \<Rightarrow> (sl_heap \<times> slist) option" where
  "mk_slist h p first m capacity =
     do {
       h \<leftarrow> set_data h m p;
       h \<leftarrow> set_next h m None;
       (h, ptr) \<leftarrow> link_nodes h first capacity;
       h \<leftarrow> set_next h ptr None;
       Some (h, \<lparr>sl_head = None, sl_end = None, blank = Some first, sl_length = 0, sl_capacity = capacity, memlist = Some m\<rparr>)
     }"

definition sl_expand :: "sl_heap \<Rightarrow> slist \<Rightarrow> nat \<Rightarrow> nat \<Rightarrow> nat \<Rightarrow> (sl_heap \<times> slist) option" where
  "sl_expand h sl p m delta =
     do {
       let sl = sl\<lparr>sl_capacity := sl_capacity sl + delta\<rparr>;
       (h, ptr) \<leftarrow> link_nodes h p delta;
       h \<leftarrow> (if blank sl = None then set_next h ptr None else set_next h ptr (blank sl));
       let sl = sl\<lparr>blank := Some p\<rparr>;
       h \<leftarrow> set_data h m p;
       h \<leftarrow> set_next h m (memlist sl);
       Some (h, sl\<lparr>memlist := Some m\<rparr>)
     }"

text \<open>The addresses passed to \<open>my_free\<close>, in order: the block and the node of each entry of \<open>memlist\<close>.\<close>

partial_function (option) sl_free_from :: "sl_heap \<Rightarrow> nat option \<Rightarrow> nat list option" where
  "sl_free_from h ptr =
     (case ptr of
        None \<Rightarrow> Some []
      | Some a \<Rightarrow> do { n \<leftarrow> h a; rest \<leftarrow> sl_free_from h (sl_next n); Some (sl_data n # a # rest) })"

definition sl_free :: "sl_heap \<Rightarrow> slist \<Rightarrow> nat list option" where
  "sl_free h sl = sl_free_from h (memlist sl)"

section \<open>Elements\<close>

definition sl_append :: "nat \<Rightarrow> sl_heap \<times> slist \<Rightarrow> (nat \<times> sl_heap \<times> slist) option" where
  "sl_append d s = (case s of (h, sl) \<Rightarrow>
     if sl_length sl = sl_capacity sl then Some (1, h, sl)
     else do {
       ptr \<leftarrow> blank sl;
       n \<leftarrow> h ptr;
       let sl = sl\<lparr>blank := sl_next n\<rparr>;
       h \<leftarrow> set_data h ptr d;
       (h, sl) \<leftarrow> (if sl_head sl = None then Some (h, sl\<lparr>sl_head := Some ptr, sl_end := Some ptr\<rparr>)
                    else do { e \<leftarrow> sl_end sl; h \<leftarrow> set_next h e (Some ptr); Some (h, sl\<lparr>sl_end := Some ptr\<rparr>) });
       h \<leftarrow> set_next h ptr None;
       Some (0, h, sl\<lparr>sl_length := sl_length sl + 1\<rparr>)
     })"

definition sl_pop :: "sl_heap \<times> slist \<Rightarrow> (nat option \<times> sl_heap \<times> slist) option" where
  "sl_pop s = (case s of (h, sl) \<Rightarrow>
     (case sl_head sl of
        None \<Rightarrow> Some (None, h, sl)
      | Some ptr \<Rightarrow> do {
          n \<leftarrow> h ptr;
          let sl = sl\<lparr>sl_head := sl_next n\<rparr>;
          let sl = (if sl_head sl = None then sl\<lparr>sl_end := None\<rparr> else sl);
          h \<leftarrow> set_next h ptr (blank sl);
          Some (Some (sl_data n), h, sl\<lparr>blank := Some ptr, sl_length := sl_length sl - 1\<rparr>)
        }))"

definition sl_push :: "nat \<Rightarrow> sl_heap \<times> slist \<Rightarrow> (nat \<times> sl_heap \<times> slist) option" where
  "sl_push d s = (case s of (h, sl) \<Rightarrow>
     if sl_length sl = sl_capacity sl then Some (1, h, sl)
     else do {
       ptr \<leftarrow> blank sl;
       n \<leftarrow> h ptr;
       let sl = sl\<lparr>blank := sl_next n\<rparr>;
       h \<leftarrow> set_data h ptr d;
       h \<leftarrow> set_next h ptr (sl_head sl);
       let sl = sl\<lparr>sl_head := Some ptr\<rparr>;
       let sl = (if sl_end sl = None then sl\<lparr>sl_end := Some ptr\<rparr> else sl);
       Some (0, h, sl\<lparr>sl_length := sl_length sl + 1\<rparr>)
     })"

partial_function (option) find_from :: "sl_heap \<Rightarrow> nat \<Rightarrow> nat option \<Rightarrow> nat option" where
  "find_from h d ptr =
     (case ptr of
        None \<Rightarrow> Some 0
      | Some a \<Rightarrow> do { n \<leftarrow> h a; if sl_data n = d then Some 1 else find_from h d (sl_next n) })"

definition sl_find :: "nat \<Rightarrow> sl_heap \<times> slist \<Rightarrow> nat option" where
  "sl_find d s = (case s of (h, sl) \<Rightarrow> find_from h d (sl_head sl))"

partial_function (option) mv_from :: "sl_heap \<Rightarrow> slist \<Rightarrow> nat \<Rightarrow> nat \<Rightarrow> nat option \<Rightarrow> (nat \<times> sl_heap \<times> slist) option" where
  "mv_from h sl d pre cur =
     (case cur of
        None \<Rightarrow> Some (1, h, sl)
      | Some a \<Rightarrow> do {
          n \<leftarrow> h a;
          if sl_data n = d
          then do {
            let sl = (if sl_end sl = Some a then sl\<lparr>sl_end := Some pre\<rparr> else sl);
            h \<leftarrow> set_next h pre (sl_next n);
            h \<leftarrow> set_next h a (sl_head sl);
            Some (0, h, sl\<lparr>sl_head := Some a\<rparr>)
          }
          else mv_from h sl d a (sl_next n)
        })"

definition mv2head :: "nat \<Rightarrow> sl_heap \<times> slist \<Rightarrow> (nat \<times> sl_heap \<times> slist) option" where
  "mv2head d s = (case s of (h, sl) \<Rightarrow>
     do {
       cur \<leftarrow> sl_head sl;
       n \<leftarrow> h cur;
       if sl_data n = d then Some (0, h, sl) else mv_from h sl d cur (sl_next n)
     })"

text \<open>\<open>traverse\<close> is the list of the \<open>data\<close> of the nodes visited.\<close>

partial_function (option) traverse_from :: "sl_heap \<Rightarrow> nat option \<Rightarrow> nat list option" where
  "traverse_from h ptr =
     (case ptr of
        None \<Rightarrow> Some []
      | Some a \<Rightarrow> do { n \<leftarrow> h a; rest \<leftarrow> traverse_from h (sl_next n); Some (sl_data n # rest) })"

definition traverse :: "sl_heap \<times> slist \<Rightarrow> nat list option" where
  "traverse s = (case s of (h, sl) \<Rightarrow> traverse_from h (sl_head sl))"

section \<open>Chains of nodes\<close>

fun chain :: "sl_heap \<Rightarrow> nat option \<Rightarrow> nat list \<Rightarrow> nat option \<Rightarrow> bool" where
  "chain h p [] q \<longleftrightarrow> p = q"
| "chain h p (a # as) q \<longleftrightarrow> p = Some a \<and> h a \<noteq> None \<and> chain h (sl_next (the (h a))) as q"

abbreviation node_data :: "sl_heap \<Rightarrow> nat \<Rightarrow> nat" where
  "node_data h a \<equiv> sl_data (the (h a))"

lemma chain_append [simp]: "chain h p (xs @ ys) q \<longleftrightarrow> (\<exists>r. chain h p xs r \<and> chain h r ys q)"
  by (induction xs arbitrary: p) auto

lemma chain_update [simp]: "a \<notin> set xs \<Longrightarrow> chain (h(a := v)) p xs q = chain h p xs q"
  by (induction xs arbitrary: p) auto

lemma chain_allocated: "chain h p xs q \<Longrightarrow> a \<in> set xs \<Longrightarrow> h a \<noteq> None"
  by (induction xs arbitrary: p) auto

lemma data_update [simp]: "a \<notin> set xs \<Longrightarrow> map (node_data (h(a := v))) xs = map (node_data h) xs"
  by (simp add: map_eq_conv)

lemma set_next_Some: "h a = Some n \<Longrightarrow> set_next h a v = Some (h(a := Some (n\<lparr>sl_next := v\<rparr>)))"
  by (simp add: set_next_def)

lemma set_data_Some: "h a = Some n \<Longrightarrow> set_data h a v = Some (h(a := Some (n\<lparr>sl_data := v\<rparr>)))"
  by (simp add: set_data_def)

section \<open>The invariant\<close>

text \<open>\<open>xs\<close> are the nodes of the list, \<open>bs\<close> the blank ones, \<open>ms\<close> those of \<open>memlist\<close>.\<close>

definition sl_ok :: "sl_heap \<Rightarrow> slist \<Rightarrow> nat list \<Rightarrow> nat list \<Rightarrow> nat list \<Rightarrow> bool" where
  "sl_ok h sl xs bs ms \<longleftrightarrow> chain h (sl_head sl) xs None \<and> chain h (blank sl) bs None \<and> chain h (memlist sl) ms None \<and>
     distinct (xs @ bs @ ms) \<and> sl_end sl = (if xs = [] then None else Some (last xs)) \<and>
     sl_length sl = length xs \<and> sl_capacity sl = length xs + length bs"

lemma sl_okD:
  assumes "sl_ok h sl xs bs ms"
  shows "chain h (sl_head sl) xs None" "chain h (blank sl) bs None" "chain h (memlist sl) ms None" "distinct (xs @ bs @ ms)"
    "sl_end sl = (if xs = [] then None else Some (last xs))" "sl_length sl = length xs" "sl_capacity sl = length xs + length bs"
  using assms by (simp_all add: sl_ok_def)

lemma head_empty: "sl_ok h sl xs bs ms \<Longrightarrow> sl_head sl = None \<longleftrightarrow> xs = []"
  by (cases xs) (auto simp: sl_ok_def)

lemma traverse_from_ok: "chain h p xs None \<Longrightarrow> traverse_from h p = Some (map (node_data h) xs)"
  by (induction xs arbitrary: p) (subst traverse_from.simps, auto)+

lemma find_from_ok: "chain h p xs None \<Longrightarrow> find_from h d p = Some (if d \<in> set (map (node_data h) xs) then 1 else 0)"
  by (induction xs arbitrary: p) (subst find_from.simps, auto)+

lemma sl_free_from_ok: "chain h p ms None \<Longrightarrow> sl_free_from h p = Some (concat (map (\<lambda>a. [node_data h a, a]) ms))"
  by (induction ms arbitrary: p) (subst sl_free_from.simps, auto)+

lemma sl_push_ok:
  assumes ok: "sl_ok h sl xs (b # bs) ms"
  shows "\<exists>h' sl'. sl_push d (h, sl) = Some (0, h', sl') \<and> sl_ok h' sl' (b # xs) bs ms \<and>
    node_data h' b = d \<and> map (node_data h') xs = map (node_data h) xs \<and> sl_capacity sl' = sl_capacity sl"
proof -
  obtain n where n: "blank sl = Some b" "h b = Some n" "chain h (sl_next n) bs None" using sl_okD(2) [OF ok] by auto
  let ?h = "h(b := Some (n\<lparr>sl_data := d, sl_next := sl_head sl\<rparr>))"
  have b: "b \<notin> set xs" "b \<notin> set bs" "b \<notin> set ms" using sl_okD(4) [OF ok] by auto
  let ?sl = "sl\<lparr>blank := sl_next n, sl_head := Some b, sl_end := (if sl_end sl = None then Some b else sl_end sl),
    sl_length := sl_length sl + 1\<rparr>"
  have "sl_push d (h, sl) = Some (0, ?h, ?sl)"
    using sl_okD(6,7) [OF ok] n(1,2) by (simp add: sl_push_def Let_def set_data_def set_next_def)
  moreover have "sl_ok ?h ?sl (b # xs) bs ms"
    using sl_okD [OF ok] n b by (simp add: sl_ok_def)
  ultimately show ?thesis using b by (intro exI [of _ ?h] exI [of _ ?sl]) simp
qed

lemma sl_append_ok:
  assumes ok: "sl_ok h sl xs (b # bs) ms"
  shows "\<exists>h' sl'. sl_append d (h, sl) = Some (0, h', sl') \<and> sl_ok h' sl' (xs @ [b]) bs ms \<and>
    node_data h' b = d \<and> map (node_data h') xs = map (node_data h) xs \<and> sl_capacity sl' = sl_capacity sl"
proof -
  obtain n where n: "blank sl = Some b" "h b = Some n" "chain h (sl_next n) bs None" using sl_okD(2) [OF ok] by auto
  have b: "b \<notin> set xs" "b \<notin> set bs" "b \<notin> set ms" using sl_okD(4) [OF ok] by auto
  note room = sl_okD(6,7) [OF ok]
  show ?thesis
  proof (cases "xs = []")
    case True
    let ?h = "h(b := Some (n\<lparr>sl_data := d, sl_next := None\<rparr>))"
      and ?sl = "sl\<lparr>blank := sl_next n, sl_head := Some b, sl_end := Some b, sl_length := sl_length sl + 1\<rparr>"
    have "sl_append d (h, sl) = Some (0, ?h, ?sl)"
      using room n(1,2) head_empty [OF ok] True by (simp add: sl_append_def Let_def set_data_def set_next_def)
    moreover have "sl_ok ?h ?sl (xs @ [b]) bs ms" using sl_okD [OF ok] n b True by (simp add: sl_ok_def)
    ultimately show ?thesis using True by (intro exI [of _ ?h] exI [of _ ?sl]) simp
  next
    case False
    then obtain ys e where xs: "xs = ys @ [e]" by (metis rev_exhaust)
    obtain m where m: "h e = Some m" using chain_allocated [OF sl_okD(1) [OF ok], of e] xs by auto
    have e: "e \<noteq> b" "e \<notin> set ys" "e \<notin> set bs" "e \<notin> set ms" "b \<notin> set ys" using sl_okD(4) [OF ok] xs by auto
    obtain c where hd: "sl_head sl = Some c" using head_empty [OF ok] False by auto
    let ?h = "h(e := Some (m\<lparr>sl_next := Some b\<rparr>), b := Some (n\<lparr>sl_data := d, sl_next := None\<rparr>))"
      and ?sl = "sl\<lparr>blank := sl_next n, sl_end := Some b, sl_length := sl_length sl + 1\<rparr>"
    have "sl_append d (h, sl) = Some (0, ?h, ?sl)"
      using room n(1,2) hd sl_okD(5) [OF ok] xs m e(1)
      by (simp add: sl_append_def Let_def set_data_def set_next_def fun_upd_twist)
    moreover have "sl_ok ?h ?sl (xs @ [b]) bs ms" using sl_okD [OF ok] n b e m xs by (auto simp: sl_ok_def)
    ultimately show ?thesis using xs e b m by (intro exI [of _ ?h] exI [of _ ?sl]) simp
  qed
qed

lemma sl_pop_ok:
  assumes ok: "sl_ok h sl (x # xs) bs ms"
  shows "\<exists>h' sl'. sl_pop (h, sl) = Some (Some (node_data h x), h', sl') \<and> sl_ok h' sl' xs (x # bs) ms \<and>
    map (node_data h') xs = map (node_data h) xs \<and> sl_capacity sl' = sl_capacity sl"
proof -
  obtain n where n: "sl_head sl = Some x" "h x = Some n" "chain h (sl_next n) xs None" using sl_okD(1) [OF ok] by auto
  have x: "x \<notin> set xs" "x \<notin> set bs" "x \<notin> set ms" using sl_okD(4) [OF ok] by auto
  have e: "sl_next n = None \<longleftrightarrow> xs = []" using n(3) by (cases xs) auto
  let ?h = "h(x := Some (n\<lparr>sl_next := blank sl\<rparr>))"
    and ?sl = "sl\<lparr>sl_head := sl_next n, sl_end := (if sl_next n = None then None else sl_end sl), blank := Some x, sl_length := sl_length sl - 1\<rparr>"
  have "sl_pop (h, sl) = Some (Some (node_data h x), ?h, ?sl)"
    using n(1,2) by (simp add: sl_pop_def Let_def set_next_def)
  moreover have "sl_ok ?h ?sl xs (x # bs) ms" using sl_okD [OF ok] n x e by (simp add: sl_ok_def)
  ultimately show ?thesis using x by (intro exI [of _ ?h] exI [of _ ?sl]) simp
qed

lemma mv_from_missing:
  "chain h cur ys None \<Longrightarrow> d \<notin> set (map (node_data h) ys) \<Longrightarrow> mv_from h sl d pre cur = Some (1, h, sl)"
  by (induction ys arbitrary: pre cur) (subst mv_from.simps, auto)+

lemma mv_from_found:
  "chain h cur (ys @ a # zs) None \<Longrightarrow> d \<notin> set (map (node_data h) ys) \<Longrightarrow> node_data h a = d \<Longrightarrow>
    mv_from h sl d pre cur =
      (let p = last (pre # ys); sl = (if sl_end sl = Some a then sl\<lparr>sl_end := Some p\<rparr> else sl)
       in do { h \<leftarrow> set_next h p (sl_next (the (h a))); h \<leftarrow> set_next h a (sl_head sl); Some (0, h, sl\<lparr>sl_head := Some a\<rparr>) })"
proof (induction ys arbitrary: pre cur)
  case Nil
  then show ?case by (subst mv_from.simps) (auto simp: Let_def)
next
  case (Cons y ys)
  then obtain n where n: "cur = Some y" "h y = Some n" "chain h (sl_next n) (ys @ a # zs) None" by auto
  have "mv_from h sl d pre cur = mv_from h sl d y (sl_next n)"
    using n Cons.prems(2) by (subst mv_from.simps) auto
  then show ?case using Cons.IH [OF n(3), of y] Cons.prems(2,3) by simp
qed

lemma mv2head_ok:
  assumes ok: "sl_ok h sl xs bs ms" and ne: "xs \<noteq> []"
  defines "vs \<equiv> map (node_data h) xs"
  shows "\<exists>h' sl' xs'. mv2head d (h, sl) = Some (if d \<in> set vs then 0 else 1, h', sl') \<and> sl_ok h' sl' xs' bs ms \<and>
    map (node_data h') xs' = (if d \<in> set vs then d # remove1 d vs else vs) \<and> sl_capacity sl' = sl_capacity sl"
proof -
  obtain x ys where xs: "xs = x # ys" using ne by (cases xs) auto
  obtain n where n: "sl_head sl = Some x" "h x = Some n" "chain h (sl_next n) ys None" using sl_okD(1) [OF ok] xs by auto
  show ?thesis
  proof (cases "sl_data n = d")
    case True
    then have "mv2head d (h, sl) = Some (0, h, sl)" using n(1,2) by (simp add: mv2head_def)
    then show ?thesis using ok True n(2) by (intro exI [of _ h] exI [of _ sl] exI [of _ xs]) (simp add: vs_def xs)
  next
    case False
    then have run: "mv2head d (h, sl) = mv_from h sl d x (sl_next n)" using n(1,2) by (simp add: mv2head_def)
    show ?thesis
    proof (cases "d \<in> set (map (node_data h) ys)")
      case False
      then have "mv2head d (h, sl) = Some (1, h, sl)" unfolding run by (rule mv_from_missing [OF n(3)])
      then show ?thesis using ok False \<open>sl_data n \<noteq> d\<close> n(2)
        by (intro exI [of _ h] exI [of _ sl] exI [of _ xs]) (auto simp: vs_def xs)
    next
      case True
      then obtain as bs' where sp: "map (node_data h) ys = as @ d # bs'" "d \<notin> set as" by (metis split_list_first)
      then obtain us a zs where ys: "ys = us @ a # zs" "as = map (node_data h) us" "node_data h a = d" "bs' = map (node_data h) zs"
        by (auto simp: map_eq_append_conv)
      obtain ps p where ps: "x # us = ps @ [p]" by (metis list.discI rev_exhaust)
      then have lp: "last (x # us) = p" by (simp only: last_snoc)
      have xs': "xs = ps @ p # a # zs" using xs ys(1) ps by simp
      have al: "h v \<noteq> None" if "v \<in> set xs" for v using chain_allocated [OF sl_okD(1) [OF ok] that] .
      obtain m k where m: "h p = Some m" "h a = Some k" using al [of p] al [of a] xs' by auto
      have d: "p \<noteq> a" "p \<notin> set ps" "a \<notin> set ps" "p \<notin> set zs" "a \<notin> set zs" "set xs \<inter> set bs = {}" "set xs \<inter> set ms = {}"
        using sl_okD(4) [OF ok] unfolding xs' by auto
      have inb: "p \<notin> set bs" "a \<notin> set bs" "p \<notin> set ms" "a \<notin> set ms" using d(6,7) unfolding xs' by auto
      let ?h = "h(p := Some (m\<lparr>sl_next := sl_next k\<rparr>), a := Some (k\<lparr>sl_next := sl_head sl\<rparr>))"
        and ?sl = "sl\<lparr>sl_head := Some a, sl_end := (if sl_end sl = Some a then Some p else sl_end sl)\<rparr>"
      have "mv2head d (h, sl) = Some (0, ?h, ?sl)"
        unfolding run using mv_from_found [of h "sl_next n" us a zs d sl x] n(3) ys sp(2) m d(1) unfolding lp
        by (simp add: Let_def set_next_def)
      moreover have c: "chain h (sl_head sl) ps (Some p)" "chain h (sl_next k) zs None" "sl_next m = Some a"
        using sl_okD(1) [OF ok] m unfolding xs' by auto
      have "chain ?h (Some a) (a # ps @ p # zs) None" using c d(1-5) by auto
      then have "sl_ok ?h ?sl (a # ps @ p # zs) bs ms"
        using sl_okD [OF ok] d(1-5) inb unfolding xs' sl_ok_def by auto
      moreover have "map (node_data ?h) (a # ps @ p # zs) = d # remove1 d vs"
      proof -
        have "vs = (node_data h x # as) @ d # bs'" using sp(1) n(2) by (simp add: vs_def xs)
        moreover have "d \<notin> set (node_data h x # as)" using sp(2) \<open>sl_data n \<noteq> d\<close> n(2) by simp
        ultimately have "remove1 d vs = (node_data h x # as) @ bs'" by (simp add: remove1_append)
        also have "\<dots> = map (node_data h) (ps @ p # zs)" using ps ys(2,4) by (metis append_Cons append_Nil append_assoc list.simps(9) map_append)
        finally show ?thesis using ys(3) m d(1-5) by simp
      qed
      ultimately show ?thesis using True n(2)
        by (intro exI [of _ ?h] exI [of _ ?sl] exI [of _ "a # ps @ p # zs"]) (simp add: vs_def xs)
    qed
  qed
qed

lemma link_nodes_ok:
  "\<forall>i<n. h (p + i) \<noteq> None \<Longrightarrow> 0 < n \<Longrightarrow>
    \<exists>h'. link_nodes h p n = Some (h', p + n - 1) \<and> chain h' (Some p) [p..<p + n - 1] (Some (p + n - 1)) \<and>
      (\<forall>a. a < p \<or> p + n - 1 \<le> a \<longrightarrow> h' a = h a) \<and> (\<forall>i<n. h' (p + i) \<noteq> None)"
proof (induction n arbitrary: h p)
  case (Suc n)
  show ?case
  proof (cases "n = 0")
    case True
    then show ?thesis using Suc.prems by (subst link_nodes.simps) simp
  next
    case False
    obtain x where x: "h p = Some x" using Suc.prems(1) by (metis add_0_right not_None_eq zero_less_Suc)
    let ?h = "h(p := Some (x\<lparr>sl_next := Some (p + 1)\<rparr>))"
    have "\<forall>i<n. ?h ((p + 1) + i) \<noteq> None" using Suc.prems(1) by (metis Suc_eq_plus1_left Suc_mono add.assoc fun_upd_apply option.distinct(1))
    then obtain h' where h': "link_nodes ?h (p + 1) n = Some (h', (p + 1) + n - 1)"
      "chain h' (Some (p + 1)) [p + 1..<(p + 1) + n - 1] (Some ((p + 1) + n - 1))"
      "\<forall>a. a < p + 1 \<or> (p + 1) + n - 1 \<le> a \<longrightarrow> h' a = ?h a" "\<forall>i<n. h' ((p + 1) + i) \<noteq> None"
      using Suc.IH [of ?h "p + 1"] False by blast
    have "link_nodes h p (Suc n) = link_nodes ?h (p + 1) n"
      using False x by (subst link_nodes.simps) (simp add: set_next_def)
    moreover have hp: "h' p = Some (x\<lparr>sl_next := Some (p + 1)\<rparr>)" using h'(3) by simp
    moreover have "[p..<p + Suc n - 1] = p # [p + 1..<(p + 1) + n - 1]" using False by (simp add: upt_conv_Cons del: upt_Suc)
    moreover have "h' a = h a" if "a < p \<or> p + Suc n - 1 \<le> a" for a using h'(3) that False by auto
    moreover have "h' (p + i) \<noteq> None" if "i < Suc n" for i using hp h'(4) that by (cases i) auto
    ultimately show ?thesis using h'(1,2) by (intro exI [of _ h']) auto
  qed
qed simp

text \<open>A block of nodes linked up to the node \<open>q\<close> leads to.\<close>

lemma new_block_ok:
  assumes "\<forall>i<n. h (p + i) \<noteq> None" and "0 < n"
  shows "\<exists>h'. do { (h, ptr) \<leftarrow> link_nodes h p n; set_next h ptr q } = Some h' \<and> chain h' (Some p) [p..<p + n] q \<and>
    (\<forall>a. a \<notin> {p..<p + n} \<longrightarrow> h' a = h a)"
proof -
  let ?e = "p + n - 1"
  obtain h1 where h1: "link_nodes h p n = Some (h1, ?e)" "chain h1 (Some p) [p..<?e] (Some ?e)"
    "\<forall>a. a < p \<or> ?e \<le> a \<longrightarrow> h1 a = h a" "\<forall>i<n. h1 (p + i) \<noteq> None"
    using link_nodes_ok [OF assms] by blast
  obtain x where x: "h1 ?e = Some x" using h1(4) assms(2) by (metis Nat.add_diff_assoc One_nat_def Suc_leI diff_less not_None_eq zero_less_one)
  let ?h = "h1(?e := Some (x\<lparr>sl_next := q\<rparr>))"
  have "[p..<p + n] = [p..<?e] @ [?e]" using assms(2) by (simp flip: upt_Suc_append)
  then have "chain ?h (Some p) [p..<p + n] q" using h1(2) by simp
  moreover have "?h a = h a" if "a \<notin> {p..<p + n}" for a using h1(3) that assms(2) by auto
  ultimately show ?thesis using h1(1) x by (intro exI [of _ ?h]) (simp add: set_next_def)
qed

lemma chain_cong: "\<forall>a\<in>set xs. h' a = h a \<Longrightarrow> chain h' p xs q = chain h p xs q"
  by (induction xs arbitrary: p) auto

lemma mk_slist_ok:
  assumes "\<forall>i<capacity. h (first + i) \<noteq> None" and "0 < capacity" and "h m \<noteq> None" and "m \<notin> {first..<first + capacity}"
  shows "\<exists>h' sl. mk_slist h p first m capacity = Some (h', sl) \<and> sl_ok h' sl [] [first..<first + capacity] [m] \<and>
    node_data h' m = p \<and> sl_capacity sl = capacity \<and> (\<forall>a. h' a \<noteq> None \<longleftrightarrow> h a \<noteq> None)"
proof -
  obtain x where x: "h m = Some x" using assms(3) by auto
  let ?h = "h(m := Some (x\<lparr>sl_data := p, sl_next := None\<rparr>))"
  have "\<forall>i<capacity. ?h (first + i) \<noteq> None" using assms(1) by simp
  then obtain h' where h': "do { (h, ptr) \<leftarrow> link_nodes ?h first capacity; set_next h ptr None } = Some h'"
    "chain h' (Some first) [first..<first + capacity] None" "\<forall>a. a \<notin> {first..<first + capacity} \<longrightarrow> h' a = ?h a"
    using new_block_ok [OF _ assms(2), of ?h first None] by blast
  let ?sl = "\<lparr>sl_head = None, sl_end = None, blank = Some first, sl_length = 0, sl_capacity = capacity, memlist = Some m\<rparr>"
  have "mk_slist h p first m capacity = Some (h', ?sl)"
    using h'(1) x unfolding mk_slist_def
    by (auto simp: set_data_def set_next_def bind_eq_Some_conv split: option.splits)
  moreover have "h' m = ?h m" using h'(3) assms(4) by blast
  moreover have "h' a \<noteq> None \<longleftrightarrow> h a \<noteq> None" for a
  proof (cases "a \<in> {first..<first + capacity}")
    case True
    then have "h' a \<noteq> None" using chain_allocated [OF h'(2), of a] by simp
    moreover have "a - first < capacity" "first + (a - first) = a" using True by auto
    then have "h a \<noteq> None" using assms(1) by metis
    ultimately show ?thesis by simp
  next
    case False
    then show ?thesis using h'(3) x by auto
  qed
  ultimately show ?thesis using h'(2) assms(4) by (intro exI [of _ h'] exI [of _ ?sl]) (simp add: sl_ok_def)
qed

lemma sl_expand_ok:
  assumes ok: "sl_ok h sl xs bs ms" and new: "\<forall>i<delta. h (p + i) \<noteq> None" "0 < delta" "h m \<noteq> None" "m \<notin> {p..<p + delta}"
    and apart: "set (xs @ bs @ ms) \<inter> insert m {p..<p + delta} = {}"
  shows "\<exists>h' sl'. sl_expand h sl p m delta = Some (h', sl') \<and> sl_ok h' sl' xs ([p..<p + delta] @ bs) (m # ms) \<and>
    map (node_data h') xs = map (node_data h) xs \<and> sl_capacity sl' = sl_capacity sl + delta \<and>
    node_data h' m = p \<and> map (node_data h') ms = map (node_data h) ms"
proof -
  obtain h1 where h1: "do { (h, ptr) \<leftarrow> link_nodes h p delta; set_next h ptr (blank sl) } = Some h1"
    "chain h1 (Some p) [p..<p + delta] (blank sl)" "\<forall>a. a \<notin> {p..<p + delta} \<longrightarrow> h1 a = h a"
    using new_block_ok [OF new(1,2), of "blank sl"] by blast
  have out: "a \<notin> {p..<p + delta}" if "a \<in> set xs \<or> a \<in> set bs \<or> a \<in> set ms" for a
    using that apart unfolding set_append by blast
  have keep: "\<forall>a\<in>set xs. h1 a = h a" "\<forall>a\<in>set bs. h1 a = h a" "\<forall>a\<in>set ms. h1 a = h a" "h1 m = h m"
    using h1(3) out new(4) by blast+
  obtain x where x: "h1 m = Some x" using new(3) keep(4) by auto
  let ?h = "h1(m := Some (x\<lparr>sl_data := p, sl_next := memlist sl\<rparr>))"
    and ?sl = "sl\<lparr>sl_capacity := sl_capacity sl + delta, blank := Some p, memlist := Some m\<rparr>"
  obtain h2 ptr where h2: "link_nodes h p delta = Some (h2, ptr)" "set_next h2 ptr (blank sl) = Some h1"
    using h1(1) by (auto simp: bind_eq_Some_conv)
  then have "sl_expand h sl p m delta = Some (?h, ?sl)"
    using x by (cases "blank sl") (simp_all add: sl_expand_def Let_def set_data_def set_next_def)
  moreover have "sl_ok ?h ?sl xs ([p..<p + delta] @ bs) (m # ms)"
    using sl_okD [OF ok] chain_cong [OF keep(1)] chain_cong [OF keep(2)] chain_cong [OF keep(3)] h1(2) apart new(4)
    unfolding sl_ok_def by auto
  moreover have "map (node_data ?h) xs = map (node_data h) xs" "map (node_data ?h) ms = map (node_data h) ms"
    using keep(1,3) apart by (auto simp: map_eq_conv)
  ultimately show ?thesis by (intro exI [of _ ?h] exI [of _ ?sl]) simp
qed

section \<open>The contract\<close>

datatype sl_op = Append nat | Push nat | Pop | Find nat | Mv2head nat

datatype sl_result = Code nat | Popped "nat option"

text \<open>The operations on a list that never gets longer than \<open>cap\<close>; \<open>mv2head\<close> on the empty list follows \<open>NULL\<close>.\<close>

fun list_do :: "nat \<Rightarrow> sl_op \<Rightarrow> nat list \<Rightarrow> (sl_result \<times> nat list) option" where
  "list_do cap (Append d) xs = Some (if length xs < cap then (Code 0, xs @ [d]) else (Code 1, xs))"
| "list_do cap (Push d) xs = Some (if length xs < cap then (Code 0, d # xs) else (Code 1, xs))"
| "list_do cap Pop xs = Some (case xs of [] \<Rightarrow> (Popped None, []) | x # xs \<Rightarrow> (Popped (Some x), xs))"
| "list_do cap (Find d) xs = Some (Code (if d \<in> set xs then 1 else 0), xs)"
| "list_do cap (Mv2head d) xs =
     (if xs = [] then None else Some (if d \<in> set xs then (Code 0, d # remove1 d xs) else (Code 1, xs)))"

fun run_ops :: "('o \<Rightarrow> 's \<Rightarrow> ('r \<times> 's) option) \<Rightarrow> 'o list \<Rightarrow> 's \<Rightarrow> ('r list \<times> 's) option" where
  "run_ops f [] s = Some ([], s)"
| "run_ops f (x # xs) s = do { (r, s) \<leftarrow> f x s; (rs, s) \<leftarrow> run_ops f xs s; Some (r # rs, s) }"

locale bounded_list =
  fixes good :: "'s \<Rightarrow> bool"
    and items :: "'s \<Rightarrow> nat list"
    and cap :: "'s \<Rightarrow> nat"
    and do_op :: "sl_op \<Rightarrow> 's \<Rightarrow> (sl_result \<times> 's) option"
  assumes do_defined: "good s \<Longrightarrow> list_do (cap s) p (items s) = Some (r, xs) \<Longrightarrow>
      \<exists>s'. do_op p s = Some (r, s') \<and> good s' \<and> items s' = xs \<and> cap s' = cap s"
    and do_undefined: "good s \<Longrightarrow> list_do (cap s) p (items s) = None \<Longrightarrow> do_op p s = None"
begin

lemma run_refines:
  "good s \<Longrightarrow> map_option (apsnd items) (run_ops do_op ps s) = run_ops (list_do (cap s)) ps (items s)"
proof (induction ps arbitrary: s)
  case (Cons p ps)
  show ?case
  proof (cases "list_do (cap s) p (items s)")
    case None
    then show ?thesis using do_undefined [OF Cons.prems None] by simp
  next
    case (Some v)
    then obtain r xs where v: "list_do (cap s) p (items s) = Some (r, xs)" by (cases v) auto
    then obtain s' where s': "do_op p s = Some (r, s')" "good s'" "items s' = xs" "cap s' = cap s"
      using do_defined [OF Cons.prems v] by blast
    show ?thesis using Cons.IH [OF s'(2)] s' v
      by (cases "run_ops do_op ps s'"; cases "run_ops (list_do (cap s)) ps xs") auto
  qed
qed simp

end

fun sl_do :: "sl_op \<Rightarrow> sl_heap \<times> slist \<Rightarrow> (sl_result \<times> sl_heap \<times> slist) option" where
  "sl_do (Append d) s = map_option (apfst Code) (sl_append d s)"
| "sl_do (Push d) s = map_option (apfst Code) (sl_push d s)"
| "sl_do Pop s = map_option (apfst Popped) (sl_pop s)"
| "sl_do (Find d) s = map_option (\<lambda>r. (Code r, s)) (sl_find d s)"
| "sl_do (Mv2head d) s = map_option (apfst Code) (mv2head d s)"

definition sl_good :: "sl_heap \<times> slist \<Rightarrow> bool" where
  "sl_good s \<longleftrightarrow> (case s of (h, sl) \<Rightarrow> \<exists>xs bs ms. sl_ok h sl xs bs ms)"

definition sl_items :: "sl_heap \<times> slist \<Rightarrow> nat list" where
  "sl_items s = the (traverse s)"

definition sl_cap :: "sl_heap \<times> slist \<Rightarrow> nat" where
  "sl_cap s = sl_capacity (snd s)"

lemma sl_items_ok: "sl_ok h sl xs bs ms \<Longrightarrow> sl_items (h, sl) = map (node_data h) xs"
  by (simp add: sl_items_def traverse_def traverse_from_ok [OF sl_okD(1)])

lemma sl_full: "sl_ok h sl xs bs ms \<Longrightarrow> length xs < sl_capacity sl \<longleftrightarrow> bs \<noteq> []"
  by (simp add: sl_ok_def)

interpretation sl: bounded_list sl_good sl_items sl_cap sl_do
proof unfold_locales
  fix s :: "sl_heap \<times> slist" and p r vs
  assume good: "sl_good s" and run: "list_do (sl_cap s) p (sl_items s) = Some (r, vs)"
  obtain h sl where s: "s = (h, sl)" by (cases s)
  then obtain xs bs ms where ok: "sl_ok h sl xs bs ms" using good by (auto simp: sl_good_def)
  note items = sl_items_ok [OF ok]
  have fin: "\<exists>s'. sl_do p s = Some (r, s') \<and> sl_good s' \<and> sl_items s' = vs \<and> sl_cap s' = sl_cap s"
    if "sl_do p s = Some (r, h', sl')" "sl_ok h' sl' xs' bs' ms" "map (node_data h') xs' = vs" "sl_capacity sl' = sl_capacity sl"
    for h' sl' xs' bs'
    using that sl_items_ok [OF that(2)] s by (intro exI [of _ "(h', sl')"]) (auto simp: sl_good_def sl_cap_def)
  show "\<exists>s'. sl_do p s = Some (r, s') \<and> sl_good s' \<and> sl_items s' = vs \<and> sl_cap s' = sl_cap s"
  proof (cases p)
    case (Append d)
    show ?thesis
    proof (cases bs)
      case Nil
      then have "sl_append d (h, sl) = Some (1, h, sl)" using sl_okD(6,7) [OF ok] by (simp add: sl_append_def)
      then show ?thesis using run Append s items Nil sl_full [OF ok] ok
        by (intro fin [of h sl xs bs]) (auto simp: sl_cap_def)
    next
      case (Cons b bs')
      then obtain h' sl' where a: "sl_append d (h, sl) = Some (0, h', sl')" "sl_ok h' sl' (xs @ [b]) bs' ms" "node_data h' b = d"
        "map (node_data h') xs = map (node_data h) xs" "sl_capacity sl' = sl_capacity sl"
        using sl_append_ok [of h sl xs b bs' ms d] ok by blast
      then show ?thesis using run Append s items Cons sl_full [OF ok]
        by (intro fin [of h' sl' "xs @ [b]" bs']) (auto simp: sl_cap_def)
    qed
  next
    case (Push d)
    show ?thesis
    proof (cases bs)
      case Nil
      then have "sl_push d (h, sl) = Some (1, h, sl)" using sl_okD(6,7) [OF ok] by (simp add: sl_push_def)
      then show ?thesis using run Push s items Nil sl_full [OF ok] ok
        by (intro fin [of h sl xs bs]) (auto simp: sl_cap_def)
    next
      case (Cons b bs')
      then obtain h' sl' where a: "sl_push d (h, sl) = Some (0, h', sl')" "sl_ok h' sl' (b # xs) bs' ms" "node_data h' b = d"
        "map (node_data h') xs = map (node_data h) xs" "sl_capacity sl' = sl_capacity sl"
        using sl_push_ok [of h sl xs b bs' ms d] ok by blast
      then show ?thesis using run Push s items Cons sl_full [OF ok]
        by (intro fin [of h' sl' "b # xs" bs']) (auto simp: sl_cap_def)
    qed
  next
    case Pop
    show ?thesis
    proof (cases xs)
      case Nil
      then have "sl_pop (h, sl) = Some (None, h, sl)" using head_empty [OF ok] by (simp add: sl_pop_def)
      then show ?thesis using run Pop s items Nil ok by (intro fin [of h sl xs bs]) auto
    next
      case (Cons x ys)
      then obtain h' sl' where a: "sl_pop (h, sl) = Some (Some (node_data h x), h', sl')" "sl_ok h' sl' ys (x # bs) ms"
        "map (node_data h') ys = map (node_data h) ys" "sl_capacity sl' = sl_capacity sl"
        using sl_pop_ok [of h sl x ys bs ms] ok by blast
      then show ?thesis using run Pop s items Cons by (intro fin [of h' sl' ys "x # bs"]) auto
    qed
  next
    case (Find d)
    have "sl_find d (h, sl) = Some (if d \<in> set (sl_items s) then 1 else 0)"
      using find_from_ok [OF sl_okD(1) [OF ok], of d] s items by (simp add: sl_find_def)
    then show ?thesis using run Find s items ok by (intro fin [of h sl xs bs]) (auto split: if_splits)
  next
    case (Mv2head d)
    then have ne: "xs \<noteq> []" using run s items by auto
    obtain h' sl' xs' where a: "mv2head d (h, sl) = Some (if d \<in> set (sl_items s) then 0 else 1, h', sl')" "sl_ok h' sl' xs' bs ms"
      "map (node_data h') xs' = (if d \<in> set (sl_items s) then d # remove1 d (sl_items s) else sl_items s)"
      "sl_capacity sl' = sl_capacity sl"
      using mv2head_ok [OF ok ne, of d] s items by auto
    then show ?thesis using run Mv2head s by (intro fin [of h' sl' xs' bs]) (auto split: if_splits)
  qed
next
  fix s :: "sl_heap \<times> slist" and p
  assume good: "sl_good s" and none: "list_do (sl_cap s) p (sl_items s) = None"
  obtain h sl where s: "s = (h, sl)" by (cases s)
  then obtain xs bs ms where ok: "sl_ok h sl xs bs ms" using good by (auto simp: sl_good_def)
  obtain d where p: "p = Mv2head d" using none by (cases p) auto
  then have "xs = []" using none s sl_items_ok [OF ok] by (auto split: if_splits)
  then show "sl_do p s = None" using p s head_empty [OF ok] by (simp add: mv2head_def)
qed

lemma sl_free_ok: "sl_ok h sl xs bs ms \<Longrightarrow> sl_free h sl = Some (concat (map (\<lambda>a. [node_data h a, a]) ms))"
  unfolding sl_free_def by (rule sl_free_from_ok [OF sl_okD(3)])

lemma mk_slist_good:
  assumes "\<forall>i<capacity. h (first + i) \<noteq> None" and "0 < capacity" and "h m \<noteq> None" and "m \<notin> {first..<first + capacity}"
  shows "\<exists>s. mk_slist h p first m capacity = Some s \<and> sl_good s \<and> sl_items s = [] \<and> sl_cap s = capacity"
proof -
  obtain h' sl where s: "mk_slist h p first m capacity = Some (h', sl)" "sl_ok h' sl [] [first..<first + capacity] [m]"
    "sl_capacity sl = capacity"
    using mk_slist_ok [OF assms] by blast
  then show ?thesis using sl_items_ok [OF s(2)] by (auto simp: sl_good_def sl_cap_def)
qed

section \<open>The properties\<close>

text \<open>C28: any sequence of \<open>append\<close>, \<open>push\<close>, \<open>pop\<close>, \<open>find\<close> and \<open>mv2head\<close> on a well-formed list of nodes gives
  the results and leaves the data that the same operations give on a list bounded by the capacity, and it is
  undefined exactly when one of them is a \<open>mv2head\<close> on the empty list.\<close>

theorem slist_refines_list:
  "sl_good s \<Longrightarrow> map_option (apsnd sl_items) (run_ops sl_do ops s) = run_ops (list_do (sl_cap s)) ops (sl_items s)"
  by (rule sl.run_refines)

theorem slist_refines_list_witness:
  "\<exists>s. mk_slist (\<lambda>a. if a \<in> {10, 11, 20} then Some \<lparr>sl_data = a, sl_next = Some 99\<rparr> else None) 9 10 20 2 = Some s \<and>
     map_option (apsnd sl_items) (run_ops sl_do [Append 7, Push 8, Append 9, Mv2head 7, Pop, Find 8, Find 7] s) =
       Some ([Code 0, Code 0, Code 1, Code 0, Popped (Some 7), Code 1, Code 0], [8]) \<and>
     run_ops sl_do [Mv2head 7] s = None"
proof -
  let ?h = "\<lambda>a. if a \<in> {10, 11, 20} then Some \<lparr>sl_data = a, sl_next = Some 99\<rparr> else None"
  have "\<forall>i<2. ?h (10 + i) \<noteq> None" by (auto simp: less_2_cases_iff)
  then obtain s where s: "mk_slist ?h 9 10 20 2 = Some s" "sl_good s" "sl_items s = []" "sl_cap s = 2"
    using mk_slist_good [of 2 ?h 10 20 9] by auto
  have "map_option (apsnd sl_items) (run_ops sl_do [Append 7, Push 8, Append 9, Mv2head 7, Pop, Find 8, Find 7] s) =
      Some ([Code 0, Code 0, Code 1, Code 0, Popped (Some 7), Code 1, Code 0], [8])"
    unfolding slist_refines_list [OF s(2)] s(3,4) by simp
  moreover have "map_option (apsnd sl_items) (run_ops sl_do [Mv2head 7] s) = None"
    unfolding slist_refines_list [OF s(2)] s(3,4) by simp
  ultimately show ?thesis using s(1) by (intro exI [of _ s]) (simp only: map_option_is_None simp_thms)
qed

text \<open>\<open>sl_expand\<close> makes room for \<open>delta\<close> more elements: the elements and their nodes stay as they are, the new
  nodes are used before the old blank ones, and \<open>sl_free\<close> then returns the new block and its node before the others.\<close>

theorem sl_expand_room:
  assumes "sl_ok h sl xs bs ms" and "\<forall>i<delta. h (p + i) \<noteq> None" and "0 < delta" and "h m \<noteq> None" and "m \<notin> {p..<p + delta}"
    and "set (xs @ bs @ ms) \<inter> insert m {p..<p + delta} = {}"
  shows "\<exists>h' sl'. sl_expand h sl p m delta = Some (h', sl') \<and> sl_ok h' sl' xs ([p..<p + delta] @ bs) (m # ms) \<and>
    sl_items (h', sl') = sl_items (h, sl) \<and> sl_cap (h', sl') = sl_cap (h, sl) + delta \<and>
    sl_free h' sl' = map_option (\<lambda>rest. p # m # rest) (sl_free h sl)"
proof -
  obtain h' sl' where e: "sl_expand h sl p m delta = Some (h', sl')" "sl_ok h' sl' xs ([p..<p + delta] @ bs) (m # ms)"
    "map (node_data h') xs = map (node_data h) xs" "sl_capacity sl' = sl_capacity sl + delta" "node_data h' m = p"
    "map (node_data h') ms = map (node_data h) ms"
    using sl_expand_ok [OF assms] by blast
  have "map (\<lambda>a. [node_data h' a, a]) ms = map (\<lambda>a. [node_data h a, a]) ms" using e(6) by (simp add: map_eq_conv)
  then have "concat (map (\<lambda>a. [node_data h' a, a]) ms) = concat (map (\<lambda>a. [node_data h a, a]) ms)" by (rule arg_cong)
  then show ?thesis using e(1-5) sl_items_ok [OF e(2)] sl_items_ok [OF assms(1)] sl_free_ok [OF e(2)] sl_free_ok [OF assms(1)]
    by (intro exI [of _ h'] exI [of _ sl']) (simp add: sl_cap_def)
qed

theorem sl_expand_room_witness:
  "\<exists>h sl h' sl'. mk_slist (\<lambda>a. if a < 40 then Some \<lparr>sl_data = a, sl_next = Some 99\<rparr> else None) 9 10 20 2 = Some (h, sl) \<and>
     sl_expand h sl 30 21 3 = Some (h', sl') \<and> sl_cap (h', sl') = 5 \<and> sl_items (h', sl') = []"
proof -
  let ?h = "\<lambda>a. if a < 40 then Some \<lparr>sl_data = a, sl_next = Some 99\<rparr> else None"
  have "\<forall>i<2. ?h (10 + i) \<noteq> None" by simp
  then obtain h sl where s: "mk_slist ?h 9 10 20 2 = Some (h, sl)" "sl_ok h sl [] [10..<10 + 2] [20]" "sl_capacity sl = 2"
    "\<forall>a. h a \<noteq> None \<longleftrightarrow> a < 40"
    using mk_slist_ok [of 2 ?h 10 20 9] by auto
  have "\<forall>i<3. h (30 + i) \<noteq> None" "h 21 \<noteq> None" using s(4) by auto
  then obtain h' sl' where e: "sl_expand h sl 30 21 3 = Some (h', sl')" "sl_items (h', sl') = sl_items (h, sl)"
    "sl_cap (h', sl') = sl_cap (h, sl) + 3"
    using sl_expand_room [OF s(2), of 3 30 21] by auto
  then show ?thesis using s(1,3) sl_items_ok [OF s(2)] by (intro exI [of _ h] exI [of _ sl] exI [of _ h'] exI [of _ sl']) (simp add: sl_cap_def)
qed

end
