(* ===== verification/DcMM.thy ===== *)
theory DcMM
  imports Slist "HOL-Library.Log_Nat"
begin

text \<open>
  The memory manager, \<open>src/server/dc_mm1.c\<close> with the structures of \<open>src/server/dc_mm_structs.h\<close>.

  A block is what one call of \<open>malloc\<close> for a chunk returns: the word with the capacity, then the
  chunk. Blocks are named by their addresses; a chunk handed out is the address of its block plus 8.
  \<open>malloc\<close> is a parameter: from the state and the number of bytes it gives an address and the
  contents of the memory. The lists of chunks are the bounded lists that theory Slist proves
  \<open>slist.c\<close> to implement. A mutex is \<open>None\<close> before \<open>pthread_mutex_init\<close> and then says whether
  it is held; a thread that locks a mutex it holds never returns. The run is that of one thread.
\<close>

section \<open>The state\<close>

record chunk =
  chunk_cap :: nat
  chunk_data :: bytes

record chunk_list =
  elems :: "nat list"
  room :: nat

record chunks_manager =
  chunks_cap :: nat
  idle_num :: uint16
  idle_chunks :: chunk_list
  alloced_chunks :: chunk_list

record extra_list_manager =
  elm_idle :: uint16
  elm_total :: uint16
  chunks_list :: chunk_list

type_synonym mutex = "bool option"

record mm =
  blocks :: "(nat \<times> chunk) list"
  chunks_manager_table :: "chunks_manager list"
  elm_table :: "extra_list_manager option list"
  pre_alloc_mutex :: "mutex list"
  extra_mutex :: "mutex list"
  pre_alloc_apply :: "nat list"
  pre_alloc_free :: "nat list"
  extra_apply :: "nat list"
  extra_free :: "nat list"

type_synonym malloc = "mm \<Rightarrow> nat \<Rightarrow> nat \<times> bytes"

definition SMALL :: nat where "SMALL = 1"

definition BIG :: nat where "BIG = 20"

definition CHUNK_TYPE_NUM :: nat where "CHUNK_TYPE_NUM = BIG - SMALL + 1"

definition DEFAULT_EXTRA :: nat where "DEFAULT_EXTRA = 2"

definition BIGGEST_CAP :: nat where "BIGGEST_CAP = 30"

definition chunks_num :: "nat list" where
  "chunks_num = [512, 512, 512, 512, 512, 256, 256, 256, 256, 256, 128, 128, 128, 128, 128, 56, 56, 56, 56, 56]"

section \<open>Logarithms\<close>

definition first_bit :: "uint32 \<Rightarrow> uint32" where
  "first_bit n =
     (if n = 0 then 0
      else let
        c = 32;
        (c, n) = (if n AND 0xffff0000 = 0 then (c - 16, push_bit 16 n) else (c, n));
        (c, n) = (if n AND 0xff000000 = 0 then (c - 8, push_bit 8 n) else (c, n));
        (c, n) = (if n AND 0xf0000000 = 0 then (c - 4, push_bit 4 n) else (c, n));
        (c, n) = (if n AND 0xc0000000 = 0 then (c - 2, push_bit 2 n) else (c, n))
      in if n AND 0x80000000 = 0 then c - 1 else c)"

definition LOG2 :: "64 word \<Rightarrow> uint32" where
  "LOG2 x = first_bit (ucast x) - 1"

text \<open>The constant in \<open>POW2\<close> is an \<open>int\<close>, so the shift is defined below 31.\<close>

definition POW2 :: "nat \<Rightarrow> nat option" where
  "POW2 x = (if x < 31 then Some (2 ^ x) else None)"

text \<open>The capacity \<open>dc_alloc\<close> computes; \<open>uint64\<close> is a signed \<open>long\<close>.\<close>

definition alloc_cap :: "64 word \<Rightarrow> nat option" where
  "alloc_cap sz =
     do {
       let cap = unat (LOG2 sz);
       p \<leftarrow> POW2 cap;
       Some (if sint sz > int p then cap + 1 else cap)
     }"

section \<open>Lists, mutexes, counters\<close>

definition cl_do :: "sl_op \<Rightarrow> chunk_list \<Rightarrow> (sl_result \<times> chunk_list) option" where
  "cl_do p l = map_option (apsnd (\<lambda>xs. l\<lparr>elems := xs\<rparr>)) (list_do (room l) p (elems l))"

definition mutex_lock :: "nat \<Rightarrow> mutex list \<Rightarrow> mutex list option" where
  "mutex_lock i ms = do { m \<leftarrow> arr_get ms (int i); if m = Some False then Some (ms[i := Some True]) else None }"

definition mutex_unlock :: "nat \<Rightarrow> mutex list \<Rightarrow> mutex list option" where
  "mutex_unlock i ms = do { m \<leftarrow> arr_get ms (int i); if m = Some True then Some (ms[i := Some False]) else None }"

definition lock_pre :: "nat \<Rightarrow> mm \<Rightarrow> mm option" where
  "lock_pre i s = map_option (\<lambda>ms. s\<lparr>pre_alloc_mutex := ms\<rparr>) (mutex_lock i (pre_alloc_mutex s))"

definition unlock_pre :: "nat \<Rightarrow> mm \<Rightarrow> mm option" where
  "unlock_pre i s = map_option (\<lambda>ms. s\<lparr>pre_alloc_mutex := ms\<rparr>) (mutex_unlock i (pre_alloc_mutex s))"

definition lock_extra :: "nat \<Rightarrow> mm \<Rightarrow> mm option" where
  "lock_extra i s = map_option (\<lambda>ms. s\<lparr>extra_mutex := ms\<rparr>) (mutex_lock i (extra_mutex s))"

definition unlock_extra :: "nat \<Rightarrow> mm \<Rightarrow> mm option" where
  "unlock_extra i s = map_option (\<lambda>ms. s\<lparr>extra_mutex := ms\<rparr>) (mutex_unlock i (extra_mutex s))"

definition incr :: "nat \<Rightarrow> nat list \<Rightarrow> nat list" where
  "incr i xs = xs[i := xs ! i + 1]"

section \<open>Preallocation\<close>

definition new_chunk :: "malloc \<Rightarrow> nat \<Rightarrow> mm \<Rightarrow> (nat \<times> mm) option" where
  "new_chunk malloc cap s =
     do {
       n \<leftarrow> POW2 cap;
       let (a, bs) = malloc s (n + 8);
       Some (a, s\<lparr>blocks := (a, \<lparr>chunk_cap = cap, chunk_data = drop 8 bs\<rparr>) # blocks s\<rparr>)
     }"

primrec push_chunks :: "malloc \<Rightarrow> nat \<Rightarrow> nat \<Rightarrow> chunk_list \<Rightarrow> mm \<Rightarrow> (chunk_list \<times> mm) option" where
  "push_chunks malloc cap 0 l s = Some (l, s)"
| "push_chunks malloc cap (Suc counts) l s =
     do {
       (ptr, s) \<leftarrow> new_chunk malloc cap s;
       (r, l) \<leftarrow> cl_do (Push ptr) l;
       push_chunks malloc cap counts l s
     }"

definition mm_pre_alloc :: "malloc \<Rightarrow> nat \<Rightarrow> nat \<Rightarrow> mm \<Rightarrow> (chunk_list \<times> mm) option" where
  "mm_pre_alloc malloc cap counts s = push_chunks malloc cap counts \<lparr>elems = [], room = counts\<rparr> s"

primrec init_managers :: "malloc \<Rightarrow> nat \<Rightarrow> mm \<Rightarrow> mm option" where
  "init_managers malloc 0 s = Some s"
| "init_managers malloc (Suc i) s =
     do {
       (l, s) \<leftarrow> mm_pre_alloc malloc (SMALL + i) (chunks_num ! i) s;
       let m = \<lparr>chunks_cap = SMALL + i, idle_num = of_nat (chunks_num ! i), idle_chunks = l,
                alloced_chunks = \<lparr>elems = [], room = chunks_num ! i\<rparr>\<rparr>;
       init_managers malloc i (s\<lparr>chunks_manager_table := (chunks_manager_table s)[i := m],
         pre_alloc_mutex := (pre_alloc_mutex s)[i := Some False],
         pre_alloc_apply := (pre_alloc_apply s)[i := 0], pre_alloc_free := (pre_alloc_free s)[i := 0]\<rparr>)
     }"

primrec init_extra :: "nat \<Rightarrow> mm \<Rightarrow> mm" where
  "init_extra 0 s = s"
| "init_extra (Suc j) s =
     (let s = (if j = 0 then s
               else s\<lparr>extra_mutex := (extra_mutex s)[j := Some False],
                      extra_apply := (extra_apply s)[j := 0], extra_free := (extra_free s)[j := 0]\<rparr>)
      in init_extra j s)"

definition mm_init :: "malloc \<Rightarrow> mm \<Rightarrow> mm option" where
  "mm_init malloc s = map_option (init_extra (BIGGEST_CAP + 1)) (init_managers malloc CHUNK_TYPE_NUM s)"

section \<open>Allocating\<close>

text \<open>\<open>Inl n\<close> is the call \<open>dc_alloc (n)\<close> in tail position, \<open>Inr p\<close> the pointer returned.\<close>

definition select_pre_alloced :: "nat \<Rightarrow> mm \<Rightarrow> ((64 word + nat) \<times> mm) option" where
  "select_pre_alloced cap s =
     do {
       let pos = cap - SMALL;
       s \<leftarrow> lock_pre pos s;
       m \<leftarrow> arr_get (chunks_manager_table s) (int pos);
       if idle_num m = 0
       then do { s \<leftarrow> unlock_pre pos s; n \<leftarrow> POW2 cap; Some (Inl (of_nat n), s) }
       else do {
         (r, idle) \<leftarrow> cl_do Pop (idle_chunks m);
         ptr \<leftarrow> (case r of Popped p \<Rightarrow> p | Code _ \<Rightarrow> None);
         (r, alloced) \<leftarrow> cl_do (Push ptr) (alloced_chunks m);
         let m = m\<lparr>idle_num := idle_num m - 1, idle_chunks := idle, alloced_chunks := alloced\<rparr>;
         s \<leftarrow> unlock_pre pos (s\<lparr>chunks_manager_table := (chunks_manager_table s)[pos := m],
                               pre_alloc_apply := incr pos (pre_alloc_apply s)\<rparr>);
         Some (Inr (ptr + 8), s)
       }
     }"

definition select_extra :: "nat \<Rightarrow> mm \<Rightarrow> ((64 word + nat) \<times> mm) option" where
  "select_extra cap s =
     do {
       s \<leftarrow> lock_extra cap s;
       e \<leftarrow> arr_get (elm_table s) (int cap);
       (case e of
          None \<Rightarrow> do { s \<leftarrow> unlock_extra cap s; n \<leftarrow> POW2 cap; Some (Inl (of_nat n), s) }
        | Some m \<Rightarrow>
            if elm_idle m = 0
            then do { s \<leftarrow> unlock_extra cap s; n \<leftarrow> POW2 cap; Some (Inl (of_nat n), s) }
            else do {
              (r, l) \<leftarrow> cl_do Pop (chunks_list m);
              ptr \<leftarrow> (case r of Popped p \<Rightarrow> p | Code _ \<Rightarrow> None);
              (r, l) \<leftarrow> cl_do (Append ptr) l;
              let m = m\<lparr>elm_idle := elm_idle m - 1, chunks_list := l\<rparr>;
              s \<leftarrow> unlock_extra cap (s\<lparr>elm_table := (elm_table s)[cap := Some m], extra_apply := incr cap (extra_apply s)\<rparr>);
              Some (Inr (ptr + 8), s)
            })
     }"

definition mk_el :: "malloc \<Rightarrow> nat \<Rightarrow> mm \<Rightarrow> mm option" where
  "mk_el malloc cap s =
     do {
       e \<leftarrow> arr_get (elm_table s) (int cap);
       if e \<noteq> None then Some s
       else do {
         (l, s) \<leftarrow> mm_pre_alloc malloc cap DEFAULT_EXTRA s;
         Some (s\<lparr>elm_table := (elm_table s)[cap :=
           Some \<lparr>elm_idle = of_nat DEFAULT_EXTRA, elm_total = of_nat DEFAULT_EXTRA, chunks_list = l\<rparr>]\<rparr>)
       }
     }"

definition expand_el :: "malloc \<Rightarrow> nat \<Rightarrow> mm \<Rightarrow> mm option" where
  "expand_el malloc cap s =
     do {
       e \<leftarrow> arr_get (elm_table s) (int cap);
       m \<leftarrow> e;
       let l = chunks_list m;
       let l = l\<lparr>room := room l + DEFAULT_EXTRA\<rparr>;
       (l, s) \<leftarrow> push_chunks malloc cap DEFAULT_EXTRA l s;
       Some (s\<lparr>elm_table := (elm_table s)[cap := Some (m\<lparr>chunks_list := l,
         elm_idle := elm_idle m + of_nat DEFAULT_EXTRA, elm_total := elm_total m + of_nat DEFAULT_EXTRA\<rparr>)]\<rparr>)
     }"

text \<open>The branch for capacities without preallocated chunks, and the branch for those whose chunks are used up.\<close>

definition alloc_extra :: "malloc \<Rightarrow> nat \<Rightarrow> mm \<Rightarrow> ((64 word + nat) \<times> mm) option" where
  "alloc_extra malloc cap s =
     do {
       e \<leftarrow> arr_get (elm_table s) (int cap);
       (case e of
          None \<Rightarrow> do { s \<leftarrow> lock_extra cap s; s \<leftarrow> mk_el malloc cap s; s \<leftarrow> unlock_extra cap s; select_extra cap s }
        | Some m \<Rightarrow> do {
            s \<leftarrow> (if elm_idle m = 0
                  then do { s \<leftarrow> lock_extra cap s; s \<leftarrow> expand_el malloc cap s; unlock_extra cap s }
                  else Some s);
            select_extra cap s
          })
     }"

definition alloc_spill :: "malloc \<Rightarrow> nat \<Rightarrow> mm \<Rightarrow> ((64 word + nat) \<times> mm) option" where
  "alloc_spill malloc cap s =
     do {
       s \<leftarrow> lock_extra cap s;
       e \<leftarrow> arr_get (elm_table s) (int cap);
       (case e of
          None \<Rightarrow> do { s \<leftarrow> mk_el malloc cap s; s \<leftarrow> unlock_extra cap s; select_extra cap s }
        | Some m \<Rightarrow> do {
            s \<leftarrow> (if elm_idle m = 0 then expand_el malloc cap s else Some s);
            s \<leftarrow> unlock_extra cap s;
            select_extra cap s
          })
     }"

partial_function (option) dc_alloc :: "malloc \<Rightarrow> 64 word \<Rightarrow> mm \<Rightarrow> (nat option \<times> mm) option" where
  "dc_alloc malloc sz s =
     (if sz = 0 then Some (None, s)
      else do {
        cap \<leftarrow> alloc_cap sz;
        (r, s) \<leftarrow>
          (if cap < SMALL \<or> BIG < cap then alloc_extra malloc cap s
           else do {
             m \<leftarrow> arr_get (chunks_manager_table s) (int (cap - SMALL));
             if idle_num m = 0 then alloc_spill malloc cap s else select_pre_alloced cap s
           });
        (case r of Inl n \<Rightarrow> dc_alloc malloc n s | Inr p \<Rightarrow> Some (Some p, s))
      })"

section \<open>Freeing\<close>

text \<open>\<open>traverse (free_extra_data, l)\<close> on the elements of the list.\<close>

fun free_blocks :: "nat list \<Rightarrow> (nat \<times> chunk) list \<Rightarrow> (nat \<times> chunk) list option" where
  "free_blocks [] bl = Some bl"
| "free_blocks (a # as) bl = (if a \<in> fst ` set bl then free_blocks as (filter (\<lambda>(b, c). b \<noteq> a) bl) else None)"

text \<open>The chunk goes to the head of its list, and the list goes when all its chunks are idle; the mutex is held.\<close>

definition free_extra :: "nat \<Rightarrow> nat \<Rightarrow> extra_list_manager \<Rightarrow> mm \<Rightarrow> mm option" where
  "free_extra cap a m s =
     do {
       (r, l) \<leftarrow> cl_do (Mv2head a) (chunks_list m);
       let m = m\<lparr>chunks_list := l, elm_idle := elm_idle m + 1\<rparr>;
       s \<leftarrow> (if elm_idle m = elm_total m
             then do { bl \<leftarrow> free_blocks (elems l) (blocks s); Some (s\<lparr>blocks := bl, elm_table := (elm_table s)[cap := None]\<rparr>) }
             else Some (s\<lparr>elm_table := (elm_table s)[cap := Some m]\<rparr>));
       unlock_extra cap (s\<lparr>extra_free := incr cap (extra_free s)\<rparr>)
     }"

definition dc_free :: "nat option \<Rightarrow> mm \<Rightarrow> mm option" where
  "dc_free ptr s =
     (case ptr of
        None \<Rightarrow> Some s
      | Some p \<Rightarrow> if p < 8 then None else do {
          let a = p - 8;
          c \<leftarrow> map_of (blocks s) a;
          let cap = chunk_cap c;
          if cap < SMALL \<or> BIG < cap
          then do {
            e \<leftarrow> arr_get (elm_table s) (int cap);
            m \<leftarrow> e;
            s \<leftarrow> lock_extra cap s;
            free_extra cap a m s
          }
          else do {
            let pos = cap - SMALL;
            m \<leftarrow> arr_get (chunks_manager_table s) (int pos);
            (found, l) \<leftarrow> cl_do (Find a) (alloced_chunks m);
            if found \<noteq> Code 0
            then do {
              s \<leftarrow> lock_pre pos s;
              (r, l) \<leftarrow> cl_do (Mv2head a) l;
              (r, l) \<leftarrow> cl_do Pop l;
              b \<leftarrow> (case r of Popped b \<Rightarrow> b | Code _ \<Rightarrow> None);
              (r, idle) \<leftarrow> cl_do (Push b) (idle_chunks m);
              let m = m\<lparr>idle_num := idle_num m + 1, idle_chunks := idle, alloced_chunks := l\<rparr>;
              unlock_pre pos (s\<lparr>chunks_manager_table := (chunks_manager_table s)[pos := m],
                                pre_alloc_free := incr pos (pre_alloc_free s)\<rparr>)
            }
            else do {
              s \<leftarrow> lock_extra cap s;
              e \<leftarrow> arr_get (elm_table s) (int cap);
              (case e of None \<Rightarrow> unlock_extra cap s | Some m \<Rightarrow> free_extra cap a m s)
            }
          }
        })"

section \<open>Resizing\<close>

text \<open>\<open>memcpy\<close> between the chunks of two blocks.\<close>

definition copy_chunk :: "nat \<Rightarrow> nat \<Rightarrow> nat \<Rightarrow> mm \<Rightarrow> mm option" where
  "copy_chunk dst src n s =
     do {
       d \<leftarrow> map_of (blocks s) dst;
       c \<leftarrow> map_of (blocks s) src;
       if n \<le> length (chunk_data d) \<and> n \<le> length (chunk_data c) \<and> dst \<noteq> src
       then Some (s\<lparr>blocks := map (\<lambda>(b, k). (b, if b = dst
              then k\<lparr>chunk_data := take n (chunk_data c) @ drop n (chunk_data k)\<rparr> else k)) (blocks s)\<rparr>)
       else None
     }"

definition dc_realloc :: "malloc \<Rightarrow> nat option \<Rightarrow> 64 word \<Rightarrow> mm \<Rightarrow> (nat option \<times> mm) option" where
  "dc_realloc malloc ptr sz s =
     (case ptr of
        None \<Rightarrow> dc_alloc malloc sz s
      | Some p \<Rightarrow>
          if sz = 0 then do { s \<leftarrow> dc_free (Some p) s; Some (None, s) }
          else if p < 8 then None
          else do {
            c \<leftarrow> map_of (blocks s) (p - 8);
            n \<leftarrow> POW2 (chunk_cap c);
            (q, s) \<leftarrow> dc_alloc malloc sz s;
            new_ptr \<leftarrow> q;
            s \<leftarrow> copy_chunk (new_ptr - 8) (p - 8) n s;
            s \<leftarrow> dc_free (Some p) s;
            Some (Some new_ptr, s)
          })"

text \<open>The lines \<open>print_statics\<close> prints: the size of the chunks, how often they were allocated and freed.\<close>

definition print_statics :: "mm \<Rightarrow> (nat \<times> nat \<times> nat) list" where
  "print_statics s = map (\<lambda>i. let
       apply_count = extra_apply s ! i; free_count = extra_free s ! i;
       (apply_count, free_count) =
         (if SMALL \<le> i \<and> i \<le> BIG then (apply_count + pre_alloc_apply s ! (i - SMALL), free_count + pre_alloc_free s ! (i - SMALL))
          else (apply_count, free_count))
     in (2 ^ i, apply_count, free_count)) [1..<BIGGEST_CAP + 1]"

section \<open>The capacity is the logarithm rounded up\<close>

lemma and_high_zero:
  fixes n :: uint32
  assumes "k < 32"
  shows "n AND NOT (mask k) = 0 \<longleftrightarrow> unat n < 2 ^ k"
proof -
  have "n AND NOT (mask k) = 0 \<longleftrightarrow> take_bit k n = n"
    by (auto simp: bit_eq_iff bit_simps)
  also have "\<dots> \<longleftrightarrow> take_bit k (unat n) = unat n"
    using assms by (simp add: word_unat_eq_iff unsigned_take_bit_eq)
  also have "\<dots> \<longleftrightarrow> unat n < 2 ^ k" by (rule take_bit_nat_eq_self_iff)
  finally show ?thesis .
qed

lemma high_masks:
  "0xffff0000 = NOT (mask 16 :: uint32)" "0xff000000 = NOT (mask 24 :: uint32)" "0xf0000000 = NOT (mask 28 :: uint32)"
  "0xc0000000 = NOT (mask 30 :: uint32)" "0x80000000 = NOT (mask 31 :: uint32)"
  by (simp_all add: mask_eq_exp_minus_1)

text \<open>\<open>n\<close> is the argument moved up by the \<open>32 - c\<close> bits found to be zero.\<close>

definition shifted :: "nat \<Rightarrow> nat \<Rightarrow> uint32 \<times> uint32 \<Rightarrow> bool" where
  "shifted x lo cn \<longleftrightarrow> (case cn of (c, n) \<Rightarrow> unat c \<le> 32 \<and> unat n = x * 2 ^ (32 - unat c) \<and> 2 ^ lo \<le> unat n)"

lemma shift_step:
  assumes s: "shifted x (32 - 2 * w) (c, n)" and w: "0 < w" "w \<le> 16" "w' = of_nat w" "m = NOT (mask (32 - w))"
  shows "shifted x (32 - w) (if n AND m = 0 then (c - w', push_bit w n) else (c, n))"
proof (cases "unat n < 2 ^ (32 - w)")
  case True
  have z: "n AND m = 0" using and_high_zero [of "32 - w" n] True w by simp
  have n: "unat c \<le> 32" "unat n = x * 2 ^ (32 - unat c)" "2 ^ (32 - 2 * w) \<le> unat n" using s by (auto simp: shifted_def)
  have "x \<noteq> 0" using n(2,3) by (cases x) auto
  then have "2 ^ (32 - unat c) \<le> unat n" using n(2) by simp
  then have "(2::nat) ^ (32 - unat c) < 2 ^ (32 - w)" using True by (rule le_less_trans)
  then have c: "w < unat c" using n(1) w(2) by simp
  have uw: "unat w' = w" using w(2,3) by (simp add: unat_of_nat take_bit_eq_mod)
  have uc: "unat (c - w') = unat c - w" using c uw by (simp add: unat_sub word_le_nat_alt)
  have "unat n * 2 ^ w < 2 ^ (32 - w) * 2 ^ w" using True by simp
  also have "\<dots> = 2 ^ 32" using w(2) by (simp flip: power_add)
  finally have p: "unat (push_bit w n) = unat n * 2 ^ w"
    by (subst unsigned_push_bit_eq) (simp add: push_bit_eq_mult take_bit_eq_mod)
  have "unat (push_bit w n) = x * 2 ^ (32 - (unat c - w))" using p c n(1,2) by (simp flip: power_add)
  moreover have "(2::nat) ^ (32 - w) = 2 ^ (32 - 2 * w) * 2 ^ w" using w(2) by (simp flip: power_add)
  then have "2 ^ (32 - w) \<le> unat (push_bit w n)" using n(3) p by simp
  ultimately show ?thesis using z uc n(1) unfolding shifted_def by simp
next
  case False
  then have "n AND m \<noteq> 0" using and_high_zero [of "32 - w" n] w by simp
  then show ?thesis using s False by (auto simp: shifted_def)
qed

lemma shifted_bounds:
  assumes "shifted x 31 (c, n)"
  shows "0 < unat c" "2 ^ (unat c - 1) \<le> x" "x < 2 ^ unat c"
proof -
  have n: "unat c \<le> 32" "unat n = x * 2 ^ (32 - unat c)" "2 ^ 31 \<le> unat n" using assms by (auto simp: shifted_def)
  have lt: "unat n < 2 ^ LENGTH(32)" by (rule unsigned_less)
  have "x * 2 ^ (32 - unat c) < 2 ^ unat c * 2 ^ (32 - unat c)"
    using n(1) lt unfolding n(2) [symmetric] by (simp flip: power_add)
  then show x: "x < 2 ^ unat c" by simp
  show c: "0 < unat c" using x n(2,3) by (cases "unat c") auto
  have "(2::nat) ^ (unat c - 1) * 2 ^ (32 - unat c) \<le> x * 2 ^ (32 - unat c)"
    using n c by (simp flip: power_add)
  then show "2 ^ (unat c - 1) \<le> x" by simp
qed

lemma first_bit_bounds:
  assumes "n \<noteq> 0"
  shows "0 < unat (first_bit n) \<and> 2 ^ (unat (first_bit n) - 1) \<le> unat n \<and> unat n < 2 ^ unat (first_bit n)"
proof -
  have pos: "0 < unat n" using assms by (simp add: unat_gt_0)
  define a :: "uint32 \<times> uint32" where "a = (if n AND 0xffff0000 = 0 then (32 - 16, push_bit 16 n) else (32, n))"
  have a: "shifted (unat n) 16 a"
    using shift_step [of "unat n" 16 32 n 16 "NOT (mask 16)"] pos by (simp add: a_def shifted_def high_masks)
  define b where "b = (case a of (c, n) \<Rightarrow> if n AND 0xff000000 = 0 then (c - 8, push_bit 8 n) else (c, n))"
  have b: "shifted (unat n) 24 b"
    using shift_step [of "unat n" 8 "fst a" "snd a" 8 "NOT (mask 24)"] a by (simp add: b_def high_masks split_beta)
  define d where "d = (case b of (c, n) \<Rightarrow> if n AND 0xf0000000 = 0 then (c - 4, push_bit 4 n) else (c, n))"
  have d: "shifted (unat n) 28 d"
    using shift_step [of "unat n" 4 "fst b" "snd b" 4 "NOT (mask 28)"] b by (simp add: d_def high_masks split_beta)
  define e where "e = (case d of (c, n) \<Rightarrow> if n AND 0xc0000000 = 0 then (c - 2, push_bit 2 n) else (c, n))"
  have e: "shifted (unat n) 30 e"
    using shift_step [of "unat n" 2 "fst d" "snd d" 2 "NOT (mask 30)"] d by (simp add: e_def high_masks split_beta)
  define f where "f = (case e of (c, n) \<Rightarrow> if n AND 0x80000000 = 0 then (c - 1, push_bit 1 n) else (c, n))"
  have f: "shifted (unat n) 31 f"
    using shift_step [of "unat n" 1 "fst e" "snd e" 1 "NOT (mask 31)"] e by (simp add: f_def high_masks split_beta)
  obtain ca na cb nb cd nd ce ne cf nf where p: "a = (ca, na)" "b = (cb, nb)" "d = (cd, nd)" "e = (ce, ne)" "f = (cf, nf)"
    by (metis surj_pair)
  note q = a_def [symmetric, unfolded p] b_def [symmetric, unfolded p prod.case] d_def [symmetric, unfolded p prod.case]
    e_def [symmetric, unfolded p prod.case] f_def [symmetric, unfolded p prod.case]
  have "first_bit n = (if ne AND 0x80000000 = 0 then ce - 1 else ce)"
    by (simp only: first_bit_def Let_def assms if_False q prod.case)
  also have "\<dots> = fst f" using q(5) p(5) by (auto split: if_splits)
  finally have "first_bit n = fst f" .
  then show ?thesis using shifted_bounds [of "unat n" "fst f" "snd f"] f by simp
qed

lemma alloc_cap_ceillog2:
  assumes "2 \<le> unat sz" "unat sz < 2 ^ 31"
  shows "alloc_cap sz = Some (ceillog2 (unat sz))"
proof -
  define k where "k = unat (first_bit (ucast sz))"
  have u: "unat (ucast sz :: uint32) = unat sz" using assms(2) by (simp add: unat_ucast_mod)
  have nz: "(ucast sz :: uint32) \<noteq> 0" using u assms(1) by auto
  have k: "0 < k" "2 ^ (k - 1) \<le> unat sz" "unat sz < 2 ^ k" using first_bit_bounds [OF nz] u by (auto simp: k_def)
  have "unat (LOG2 sz) = k - 1"
    using k(1) by (simp add: LOG2_def k_def unat_sub word_le_nat_alt)
  moreover have "(2::nat) ^ (k - 1) < 2 ^ 31" using k(2) assms(2) by linarith
  then have "k - 1 < 31" by (rule power_less_imp_less_exp [rotated]) simp
  moreover have "sint sz = int (unat sz)" by (rule sint_eq_unat) (use assms(2) in simp)
  then have "sint sz > int (2 ^ (k - 1)) \<longleftrightarrow> unat sz > 2 ^ (k - 1)" by (simp only: of_nat_less_iff)
  moreover have "ceillog2 (unat sz) = (if unat sz > 2 ^ (k - 1) then k else k - 1)"
  proof -
    have "(2::nat) ^ k = 2 * 2 ^ (k - 1)" using k(1) by (simp flip: power_Suc)
    then have "ceillog2 (unat sz) = k" if "unat sz > 2 ^ (k - 1)" using k(3) that by (intro ceillog2_eqI) simp_all
    moreover have "ceillog2 (unat sz) = k - 1" if "\<not> unat sz > 2 ^ (k - 1)"
      using k(2) that assms(1) by (intro ceillog2_eqI) simp_all
    ultimately show ?thesis by simp
  qed
  ultimately show ?thesis using k(1) unfolding alloc_cap_def POW2_def Let_def by (simp split: if_splits)
qed

section \<open>The invariant\<close>

definition pre_at :: "mm \<Rightarrow> nat \<Rightarrow> chunks_manager option" where
  "pre_at s c = (if c < SMALL \<or> BIG < c then None else Some (chunks_manager_table s ! (c - SMALL)))"

definition ex_at :: "mm \<Rightarrow> nat \<Rightarrow> extra_list_manager option" where
  "ex_at s c = elm_table s ! c"

definition blocks_of :: "(nat \<times> chunk) list \<Rightarrow> nat \<Rightarrow> nat set" where
  "blocks_of bl c = {a. \<exists>k. (a, k) \<in> set bl \<and> chunk_cap k = c}"

definition pre_ok :: "chunks_manager \<Rightarrow> bool" where
  "pre_ok m \<longleftrightarrow> unat (idle_num m) = length (elems (idle_chunks m)) \<and> room (idle_chunks m) = room (alloced_chunks m) \<and>
     length (elems (idle_chunks m)) + length (elems (alloced_chunks m)) = room (idle_chunks m) \<and> room (idle_chunks m) < 2 ^ 16"

definition ex_ok :: "extra_list_manager \<Rightarrow> bool" where
  "ex_ok m \<longleftrightarrow> unat (elm_total m) = length (elems (chunks_list m)) \<and> room (chunks_list m) = length (elems (chunks_list m)) \<and>
     elm_idle m \<le> elm_total m \<and> elems (chunks_list m) \<noteq> []"

definition pre_chunks :: "chunks_manager option \<Rightarrow> nat list" where
  "pre_chunks m = (case m of None \<Rightarrow> [] | Some m \<Rightarrow> elems (idle_chunks m) @ elems (alloced_chunks m))"

definition ex_chunks :: "extra_list_manager option \<Rightarrow> nat list" where
  "ex_chunks m = (case m of None \<Rightarrow> [] | Some m \<Rightarrow> elems (chunks_list m))"

text \<open>What is said of one capacity: its counters, and that its lists hold its blocks, each once.\<close>

definition cap_ok :: "chunks_manager option \<Rightarrow> extra_list_manager option \<Rightarrow> nat set \<Rightarrow> bool" where
  "cap_ok pre ex B \<longleftrightarrow> pred_option pre_ok pre \<and> pred_option ex_ok ex \<and>
     distinct (pre_chunks pre @ ex_chunks ex) \<and> set (pre_chunks pre @ ex_chunks ex) = B"

text \<open>The mutexes after \<open>mm_init\<close>, none of them held: \<open>extra_mutex[0]\<close> is never made.\<close>

definition free_mutexes :: "mutex list" where
  "free_mutexes = None # replicate BIGGEST_CAP (Some False)"

definition tables_ok :: "mm \<Rightarrow> bool" where
  "tables_ok s \<longleftrightarrow> length (chunks_manager_table s) = CHUNK_TYPE_NUM \<and> length (elm_table s) = BIGGEST_CAP + 1 \<and>
     pre_alloc_mutex s = replicate CHUNK_TYPE_NUM (Some False) \<and> extra_mutex s = free_mutexes"

definition blocks_ok :: "(nat \<times> chunk) list \<Rightarrow> bool" where
  "blocks_ok bl \<longleftrightarrow> distinct (map fst bl) \<and>
     (\<forall>(a, k) \<in> set bl. chunk_cap k \<in> {1..BIGGEST_CAP} \<and> length (chunk_data k) = 2 ^ chunk_cap k)"

definition mm_ok :: "mm \<Rightarrow> bool" where
  "mm_ok s \<longleftrightarrow> tables_ok s \<and> blocks_ok (blocks s) \<and>
     (\<forall>c\<in>{1..BIGGEST_CAP}. cap_ok (pre_at s c) (ex_at s c) (blocks_of (blocks s) c))"

text \<open>The idle chunks of an extra list are at its head.\<close>

definition used :: "chunks_manager option \<Rightarrow> extra_list_manager option \<Rightarrow> nat set" where
  "used pre ex = (case pre of None \<Rightarrow> {} | Some m \<Rightarrow> set (elems (alloced_chunks m))) \<union>
     (case ex of None \<Rightarrow> {} | Some m \<Rightarrow> set (drop (unat (elm_idle m)) (elems (chunks_list m))))"

definition in_use :: "mm \<Rightarrow> nat set" where
  "in_use s = (\<Union>c\<in>{1..BIGGEST_CAP}. used (pre_at s c) (ex_at s c))"

text \<open>What the client holds: the chunks in use, with their contents.\<close>

definition held :: "mm \<Rightarrow> nat \<Rightarrow> bytes option" where
  "held s p = (if 8 \<le> p \<and> p - 8 \<in> in_use s then map_option chunk_data (map_of (blocks s) (p - 8)) else None)"

lemmas mm_consts = SMALL_def BIG_def CHUNK_TYPE_NUM_def BIGGEST_CAP_def DEFAULT_EXTRA_def

lemma blocks_of_map_of: "distinct (map fst bl) \<Longrightarrow> blocks_of bl c = {a. \<exists>k. map_of bl a = Some k \<and> chunk_cap k = c}"
  by (auto simp: blocks_of_def)

lemma blocks_of_unique:
  "blocks_ok bl \<Longrightarrow> a \<in> blocks_of bl c \<Longrightarrow> a \<in> blocks_of bl d \<Longrightarrow> c = d"
  by (auto simp: blocks_of_def blocks_ok_def dest: eq_key_imp_eq_value)

lemma used_subset: "used pre ex \<subseteq> set (pre_chunks pre @ ex_chunks ex)"
  by (auto simp: used_def pre_chunks_def ex_chunks_def split: option.splits dest: in_set_dropD)

lemma mm_okD:
  assumes "mm_ok s"
  shows "tables_ok s" "blocks_ok (blocks s)"
    "c \<in> {1..BIGGEST_CAP} \<Longrightarrow> cap_ok (pre_at s c) (ex_at s c) (blocks_of (blocks s) c)"
  using assms by (auto simp: mm_ok_def)

lemma used_at:
  assumes ok: "mm_ok s" and c: "c \<in> {1..BIGGEST_CAP}" and a: "a \<in> blocks_of (blocks s) c"
  shows "a \<in> in_use s \<longleftrightarrow> a \<in> used (pre_at s c) (ex_at s c)"
proof
  assume "a \<in> in_use s"
  then obtain d where d: "d \<in> {1..BIGGEST_CAP}" "a \<in> used (pre_at s d) (ex_at s d)" by (auto simp: in_use_def)
  then have "a \<in> blocks_of (blocks s) d" using used_subset mm_okD(3) [OF ok d(1)] unfolding cap_ok_def by blast
  then have "d = c" using a blocks_of_unique [OF mm_okD(2) [OF ok]] by blast
  then show "a \<in> used (pre_at s c) (ex_at s c)" using d(2) by simp
qed (use c in \<open>auto simp: in_use_def\<close>)

lemma in_use_block:
  assumes ok: "mm_ok s" and a: "a \<in> in_use s"
  obtains c k where "c \<in> {1..BIGGEST_CAP}" "a \<in> used (pre_at s c) (ex_at s c)" "a \<in> blocks_of (blocks s) c"
    "map_of (blocks s) a = Some k" "chunk_cap k = c" "length (chunk_data k) = 2 ^ c"
proof -
  obtain c where c: "c \<in> {1..BIGGEST_CAP}" "a \<in> used (pre_at s c) (ex_at s c)" using a by (auto simp: in_use_def)
  then have b: "a \<in> blocks_of (blocks s) c" using used_subset mm_okD(3) [OF ok c(1)] unfolding cap_ok_def by blast
  then obtain k where k: "map_of (blocks s) a = Some k" "chunk_cap k = c"
    using mm_okD(2) [OF ok] by (auto simp: blocks_ok_def blocks_of_map_of)
  then have "length (chunk_data k) = 2 ^ c" using mm_okD(2) [OF ok] map_of_SomeD [of "blocks s" a k] by (auto simp: blocks_ok_def)
  with c b k show thesis by (rule that)
qed

text \<open>A step that only concerns one capacity.\<close>

lemma mm_okI:
  assumes ok: "mm_ok s" and c: "c \<in> {1..BIGGEST_CAP}" and t: "tables_ok s'" and b: "blocks_ok (blocks s')"
    and same: "\<forall>d\<in>{1..BIGGEST_CAP} - {c}. pre_at s' d = pre_at s d \<and> ex_at s' d = ex_at s d \<and> blocks_of (blocks s') d = blocks_of (blocks s) d"
    and cap: "cap_ok (pre_at s' c) (ex_at s' c) (blocks_of (blocks s') c)"
  shows "mm_ok s'"
proof -
  have "cap_ok (pre_at s' d) (ex_at s' d) (blocks_of (blocks s') d)" if "d \<in> {1..BIGGEST_CAP}" for d
    using cap same mm_okD(3) [OF ok that] that by (cases "d = c") auto
  then show ?thesis using t b by (simp add: mm_ok_def)
qed

lemma in_use_step:
  assumes c: "c \<in> {1..BIGGEST_CAP}"
    and same: "\<forall>d\<in>{1..BIGGEST_CAP} - {c}. pre_at s' d = pre_at s d \<and> ex_at s' d = ex_at s d"
  shows "in_use s' = used (pre_at s' c) (ex_at s' c) \<union> (\<Union>d\<in>{1..BIGGEST_CAP} - {c}. used (pre_at s d) (ex_at s d))"
proof -
  have "{1..BIGGEST_CAP} = insert c ({1..BIGGEST_CAP} - {c})" using c by blast
  then have "in_use s' = used (pre_at s' c) (ex_at s' c) \<union> (\<Union>d\<in>{1..BIGGEST_CAP} - {c}. used (pre_at s' d) (ex_at s' d))"
    unfolding in_use_def by (metis UN_insert)
  then show ?thesis using same by auto
qed

lemma in_use_insert:
  assumes c: "c \<in> {1..BIGGEST_CAP}"
    and same: "\<forall>d\<in>{1..BIGGEST_CAP} - {c}. pre_at s' d = pre_at s d \<and> ex_at s' d = ex_at s d"
    and u: "used (pre_at s' c) (ex_at s' c) = insert a (used (pre_at s c) (ex_at s c))"
  shows "in_use s' = insert a (in_use s)"
  using in_use_step [OF c same] in_use_step [OF c, of s s] u by auto

lemma in_use_remove:
  assumes ok: "mm_ok s" and c: "c \<in> {1..BIGGEST_CAP}"
    and same: "\<forall>d\<in>{1..BIGGEST_CAP} - {c}. pre_at s' d = pre_at s d \<and> ex_at s' d = ex_at s d"
    and a: "a \<in> used (pre_at s c) (ex_at s c)"
    and u: "used (pre_at s' c) (ex_at s' c) = used (pre_at s c) (ex_at s c) - {a}"
  shows "in_use s' = in_use s - {a}"
proof -
  have B: "a \<in> blocks_of (blocks s) c" using a used_subset mm_okD(3) [OF ok c] unfolding cap_ok_def by blast
  have "a \<notin> used (pre_at s d) (ex_at s d)" if "d \<in> {1..BIGGEST_CAP} - {c}" for d
  proof
    assume "a \<in> used (pre_at s d) (ex_at s d)"
    then have "a \<in> blocks_of (blocks s) d" using used_subset mm_okD(3) [OF ok, of d] that unfolding cap_ok_def by blast
    then show False using B that blocks_of_unique [OF mm_okD(2) [OF ok]] by blast
  qed
  then show ?thesis using in_use_step [OF c same] in_use_step [OF c, of s s] u by auto
qed

lemma held_insert:
  assumes "in_use s' = insert a (in_use s)" and "\<forall>b\<in>in_use s. map_of (blocks s') b = map_of (blocks s) b"
    and "map_of (blocks s') a = Some k"
  shows "held s' = (held s)(a + 8 \<mapsto> chunk_data k)"
proof
  fix p show "held s' p = ((held s)(a + 8 \<mapsto> chunk_data k)) p"
    using assms by (cases "p = a + 8") (auto simp: held_def)
qed

lemma held_remove:
  assumes "in_use s' = in_use s - {a}" and "\<forall>b\<in>in_use s - {a}. map_of (blocks s') b = map_of (blocks s) b"
  shows "held s' = (held s)(a + 8 := None)"
proof
  fix p show "held s' p = ((held s)(a + 8 := None)) p"
    using assms by (cases "p = a + 8") (auto simp: held_def)
qed

lemma held_iff:
  assumes "mm_ok s"
  shows "p \<in> dom (held s) \<longleftrightarrow> 8 \<le> p \<and> p - 8 \<in> in_use s"
proof
  assume p: "8 \<le> p \<and> p - 8 \<in> in_use s"
  then obtain k where "map_of (blocks s) (p - 8) = Some k" using in_use_block [OF assms, of "p - 8"] by blast
  then show "p \<in> dom (held s)" using p by (simp add: held_def dom_def)
qed (auto simp: held_def split: if_splits)

section \<open>Lists of chunks\<close>

text \<open>A list of chunks keeps the contract of \<open>slist.c\<close>, so it behaves as a list of nodes with the same elements.\<close>

interpretation cl: bounded_list "\<lambda>_. True" elems room cl_do
  by unfold_locales (auto simp: cl_do_def)

lemma chunk_list_is_slist:
  assumes "sl_good s" and "sl_items s = elems l" and "sl_cap s = room l"
  shows "map_option (apsnd sl_items) (run_ops sl_do ops s) = map_option (apsnd elems) (run_ops cl_do ops l)"
  using sl.run_refines [OF assms(1), of ops] cl.run_refines [where s = l and ps = ops] assms(2,3) by simp

section \<open>Fresh chunks\<close>

text \<open>What \<open>malloc\<close> promises: memory of the size asked for, apart from the blocks allocated before.\<close>

definition malloc_ok :: "malloc \<Rightarrow> bool" where
  "malloc_ok malloc \<longleftrightarrow> (\<forall>s n. fst (malloc s n) \<notin> fst ` set (blocks s) \<and> length (snd (malloc s n)) = n)"

definition fresh_chunks :: "nat \<Rightarrow> (nat \<times> chunk) list \<Rightarrow> (nat \<times> chunk) list \<Rightarrow> bool" where
  "fresh_chunks c ns bl \<longleftrightarrow> distinct (map fst ns) \<and> fst ` set ns \<inter> fst ` set bl = {} \<and>
     (\<forall>(a, k) \<in> set ns. chunk_cap k = c \<and> length (chunk_data k) = 2 ^ c)"

lemma cl_do_push: "length (elems l) < room l \<Longrightarrow> cl_do (Push a) l = Some (Code 0, l\<lparr>elems := a # elems l\<rparr>)"
  by (simp add: cl_do_def)

lemma cl_do_append: "length (elems l) < room l \<Longrightarrow> cl_do (Append a) l = Some (Code 0, l\<lparr>elems := elems l @ [a]\<rparr>)"
  by (simp add: cl_do_def)

lemma cl_do_pop: "elems l = a # xs \<Longrightarrow> cl_do Pop l = Some (Popped (Some a), l\<lparr>elems := xs\<rparr>)"
  by (simp add: cl_do_def)

lemma cl_do_find: "cl_do (Find a) l = Some (Code (if a \<in> set (elems l) then 1 else 0), l)"
  by (simp add: cl_do_def)

lemma cl_do_mv2head: "a \<in> set (elems l) \<Longrightarrow> cl_do (Mv2head a) l = Some (Code 0, l\<lparr>elems := a # remove1 a (elems l)\<rparr>)"
  by (auto simp: cl_do_def)

lemmas cl_do_simps = cl_do_push cl_do_append cl_do_pop cl_do_find cl_do_mv2head

lemma push_chunks_ok:
  assumes m: "malloc_ok malloc" and c: "c \<in> {1..BIGGEST_CAP}"
  shows "length (elems l) + n \<le> room l \<Longrightarrow>
    \<exists>ns. push_chunks malloc c n l s = Some (l\<lparr>elems := map fst ns @ elems l\<rparr>, s\<lparr>blocks := ns @ blocks s\<rparr>) \<and>
      length ns = n \<and> fresh_chunks c ns (blocks s)"
proof (induction n arbitrary: l s)
  case 0
  then show ?case by (simp add: fresh_chunks_def)
next
  case (Suc n)
  obtain a bs where ab: "malloc s (2 ^ c + 8) = (a, bs)" by fastforce
  then have a: "a \<notin> fst ` set (blocks s)" "length bs = 2 ^ c + 8"
    using m unfolding malloc_ok_def by (metis fst_conv, metis snd_conv)
  let ?k = "\<lparr>chunk_cap = c, chunk_data = drop 8 bs\<rparr>"
  let ?s = "s\<lparr>blocks := (a, ?k) # blocks s\<rparr>" and ?l = "l\<lparr>elems := a # elems l\<rparr>"
  have "length (elems ?l) + n \<le> room ?l" using Suc.prems by simp
  from Suc.IH [OF this, of ?s] obtain ns where ns:
    "push_chunks malloc c n ?l ?s = Some (?l\<lparr>elems := map fst ns @ elems ?l\<rparr>, ?s\<lparr>blocks := ns @ blocks ?s\<rparr>)"
    "length ns = n" "fresh_chunks c ns (blocks ?s)" by blast
  have "new_chunk malloc c s = Some (a, ?s)" using c ab by (simp add: new_chunk_def POW2_def BIGGEST_CAP_def)
  moreover have "cl_do (Push a) l = Some (Code 0, ?l)" using Suc.prems by (intro cl_do_push) simp
  ultimately have "push_chunks malloc c (Suc n) l s =
      Some (l\<lparr>elems := map fst (ns @ [(a, ?k)]) @ elems l\<rparr>, s\<lparr>blocks := (ns @ [(a, ?k)]) @ blocks s\<rparr>)"
    using ns(1) by simp
  moreover have "fresh_chunks c (ns @ [(a, ?k)]) (blocks s)" using ns(3) a by (auto simp: fresh_chunks_def)
  moreover have "length (ns @ [(a, ?k)]) = Suc n" using ns(2) by simp
  ultimately show ?case by blast
qed

lemma mm_pre_alloc_ok:
  assumes "malloc_ok malloc" and "c \<in> {1..BIGGEST_CAP}"
  shows "\<exists>ns. mm_pre_alloc malloc c n s = Some (\<lparr>elems = map fst ns, room = n\<rparr>, s\<lparr>blocks := ns @ blocks s\<rparr>) \<and>
      length ns = n \<and> fresh_chunks c ns (blocks s)"
  using push_chunks_ok [OF assms, of "\<lparr>elems = [], room = n\<rparr>" n s] by (simp add: mm_pre_alloc_def)

lemma fresh_blocks_ok:
  "blocks_ok bl \<Longrightarrow> fresh_chunks c ns bl \<Longrightarrow> c \<in> {1..BIGGEST_CAP} \<Longrightarrow> blocks_ok (ns @ bl)"
  by (auto simp: blocks_ok_def fresh_chunks_def)

lemma fresh_blocks_of:
  "fresh_chunks c ns bl \<Longrightarrow> blocks_of (ns @ bl) d = (if d = c then fst ` set ns \<union> blocks_of bl c else blocks_of bl d)"
  by (force simp: blocks_of_def fresh_chunks_def)

lemma fresh_apart: "fresh_chunks c ns bl \<Longrightarrow> fst ` set ns \<inter> blocks_of bl d = {}"
  by (force simp: blocks_of_def fresh_chunks_def)

lemma fresh_map_of: "fresh_chunks c ns bl \<Longrightarrow> map_of bl a = Some k \<Longrightarrow> map_of (ns @ bl) a = Some k"
  by (auto simp: fresh_chunks_def map_add_def dest!: map_of_SomeD split: option.splits) force+

section \<open>Mutexes\<close>

lemma free_mutexes_at:
  assumes "c \<in> {1..BIGGEST_CAP}"
  shows "c < length free_mutexes" "free_mutexes ! c = Some False" "free_mutexes[c := Some False] = free_mutexes"
proof -
  show a: "c < length free_mutexes" "free_mutexes ! c = Some False" using assms by (auto simp: free_mutexes_def nth_Cons')
  show "free_mutexes[c := Some False] = free_mutexes" unfolding a(2) [symmetric] by (rule list_update_id)
qed

lemma lock_extra_ok: "extra_mutex s = free_mutexes \<Longrightarrow> c \<in> {1..BIGGEST_CAP} \<Longrightarrow>
    lock_extra c s = Some (s\<lparr>extra_mutex := free_mutexes[c := Some True]\<rparr>)"
  using free_mutexes_at [of c] by (simp add: lock_extra_def mutex_lock_def arr_get_in)

lemma unlock_extra_ok: "extra_mutex s = free_mutexes[c := Some True] \<Longrightarrow> c \<in> {1..BIGGEST_CAP} \<Longrightarrow>
    unlock_extra c s = Some (s\<lparr>extra_mutex := free_mutexes\<rparr>)"
  using free_mutexes_at [of c] by (simp add: unlock_extra_def mutex_unlock_def arr_get_in)

lemma lock_pre_ok: "pre_alloc_mutex s = replicate CHUNK_TYPE_NUM (Some False) \<Longrightarrow> i < CHUNK_TYPE_NUM \<Longrightarrow>
    lock_pre i s = Some (s\<lparr>pre_alloc_mutex := (replicate CHUNK_TYPE_NUM (Some False))[i := Some True]\<rparr>)"
  by (simp add: lock_pre_def mutex_lock_def arr_get_in)

lemma unlock_pre_ok: "pre_alloc_mutex s = (replicate CHUNK_TYPE_NUM (Some False))[i := Some True] \<Longrightarrow> i < CHUNK_TYPE_NUM \<Longrightarrow>
    unlock_pre i s = Some (s\<lparr>pre_alloc_mutex := replicate CHUNK_TYPE_NUM (Some False)\<rparr>)"
  by (simp add: unlock_pre_def mutex_unlock_def arr_get_in list_update_same_conv)

lemmas lock_simps = lock_extra_ok unlock_extra_ok lock_pre_ok unlock_pre_ok

section \<open>Extra lists\<close>

definition room_for :: "nat \<Rightarrow> mm \<Rightarrow> bool" where
  "room_for k s \<longleftrightarrow> 2 * k < 2 ^ 16 \<and>
     (\<forall>c\<in>{1..BIGGEST_CAP}. \<forall>m. ex_at s c = Some m \<longrightarrow> unat (elm_total m) + 2 * k < 2 ^ 16)"

lemma elm_get: "tables_ok s \<Longrightarrow> c \<in> {1..BIGGEST_CAP} \<Longrightarrow> arr_get (elm_table s) (int c) = Some (ex_at s c)"
  by (simp add: arr_get_in tables_ok_def ex_at_def)

lemma extra_step:
  assumes ok: "mm_ok s" and c: "c \<in> {1..BIGGEST_CAP}"
    and s': "tables_ok s'" "blocks_ok (blocks s')" "chunks_manager_table s' = chunks_manager_table s"
      "elm_table s' = (elm_table s)[c := e]" "\<forall>d\<in>{1..BIGGEST_CAP} - {c}. blocks_of (blocks s') d = blocks_of (blocks s) d"
    and e: "cap_ok (pre_at s c) e (blocks_of (blocks s') c)"
  shows "mm_ok s'" "pre_at s' d = pre_at s d" "ex_at s' c = e" "d \<noteq> c \<Longrightarrow> ex_at s' d = ex_at s d"
proof -
  have len: "c < length (elm_table s)" using c mm_okD(1) [OF ok] by (simp add: tables_ok_def)
  show p: "pre_at s' d = pre_at s d" for d by (simp add: pre_at_def s'(3))
  show x: "ex_at s' c = e" using len by (simp add: ex_at_def s'(4))
  show y: "d \<noteq> c \<Longrightarrow> ex_at s' d = ex_at s d" for d by (simp add: ex_at_def s'(4))
  show "mm_ok s'" using e s'(5) p x y by (intro mm_okI [OF ok c s'(1,2)]) auto
qed

lemma grow_ok:
  assumes ok: "mm_ok s" and c: "c \<in> {1..BIGGEST_CAP}" and ns: "fresh_chunks c ns (blocks s)"
    and m: "ex_ok m" "elems (chunks_list m) = map fst ns @ ex_chunks (ex_at s c)"
      "set (drop (unat (elm_idle m)) (elems (chunks_list m))) = used None (ex_at s c)"
    and s': "s' = s\<lparr>blocks := ns @ blocks s, elm_table := (elm_table s)[c := Some m]\<rparr>"
  shows "mm_ok s' \<and> held s' = held s \<and> ex_at s' c = Some m \<and> (\<forall>d. d \<noteq> c \<longrightarrow> ex_at s' d = ex_at s d)"
proof -
  have old: "cap_ok (pre_at s c) (ex_at s c) (blocks_of (blocks s) c)" by (rule mm_okD(3) [OF ok c])
  have "cap_ok (pre_at s c) (Some m) (fst ` set ns \<union> blocks_of (blocks s) c)"
  proof -
    have "distinct (map fst ns)" "fst ` set ns \<inter> blocks_of (blocks s) c = {}"
      using ns fresh_apart [OF ns] by (auto simp: fresh_chunks_def)
    then show ?thesis using old m(1,2) unfolding cap_ok_def by (auto simp: ex_chunks_def [of "Some m"])
  qed
  then have cap: "cap_ok (pre_at s c) (Some m) (blocks_of (blocks s') c)" by (simp add: s' fresh_blocks_of [OF ns])
  have t: "tables_ok s'" "blocks_ok (blocks s')" "chunks_manager_table s' = chunks_manager_table s"
      "elm_table s' = (elm_table s)[c := Some m]" "\<forall>d\<in>{1..BIGGEST_CAP} - {c}. blocks_of (blocks s') d = blocks_of (blocks s) d"
    using mm_okD(1,2) [OF ok] fresh_blocks_ok [OF _ ns c] fresh_blocks_of [OF ns] by (auto simp: s' tables_ok_def)
  note st = extra_step [OF ok c t cap]
  have "used (pre_at s' c) (ex_at s' c) = used (pre_at s c) (ex_at s c)"
    using st(2) m(3) unfolding st(3) by (simp add: used_def)
  then have u: "in_use s' = in_use s"
    using in_use_step [OF c, of s' s] in_use_step [OF c, of s s] st(2,4) by auto
  have "held s' p = held s p" for p
  proof (cases "8 \<le> p \<and> p - 8 \<in> in_use s")
    case True
    then obtain k where "map_of (blocks s) (p - 8) = Some k" using in_use_block [OF ok, of "p - 8"] by blast
    then show ?thesis using fresh_map_of [OF ns] u by (simp add: held_def s')
  qed (use u in \<open>auto simp: held_def\<close>)
  then show ?thesis using st by auto
qed

end
