(* ===== verification/DcMMProps.thy ===== *)
theory DcMMProps
  imports DcMM
begin

text \<open>
  The memory manager implements an allocator: \<open>dc_alloc\<close>, \<open>dc_free\<close> and \<open>dc_realloc\<close> against the contents of the chunks
  the client holds, the contract as a locale with a client that runs any sequence of requests, and the sizes at which the
  code leaves it.
\<close>

text \<open>A chunk of capacity \<open>c\<close> handed to the client.\<close>

definition granted :: "nat \<Rightarrow> mm \<Rightarrow> nat \<Rightarrow> mm \<Rightarrow> bool" where
  "granted c s p s' \<longleftrightarrow> mm_ok s' \<and> p \<notin> dom (held s) \<and> (\<exists>d. length d = 2 ^ c \<and> held s' = (held s)(p \<mapsto> d))"

lemma grantedI:
  assumes ok: "mm_ok s" and ok': "mm_ok s'" and c: "c \<in> {1..BIGGEST_CAP}"
    and same: "\<forall>d\<in>{1..BIGGEST_CAP} - {c}. pre_at s' d = pre_at s d \<and> ex_at s' d = ex_at s d"
    and u: "used (pre_at s' c) (ex_at s' c) = insert a (used (pre_at s c) (ex_at s c))"
    and a: "a \<notin> used (pre_at s c) (ex_at s c)" "a \<in> blocks_of (blocks s) c" and b: "blocks s' = blocks s"
  shows "granted c s (a + 8) s'"
proof -
  have i: "in_use s' = insert a (in_use s)" by (rule in_use_insert [OF c same u])
  then have "a \<in> in_use s'" by simp
  then obtain d k where k: "a \<in> blocks_of (blocks s') d" "map_of (blocks s') a = Some k" "length (chunk_data k) = 2 ^ d"
    using in_use_block [OF ok'] by metis
  then have "d = c" using a(2) b blocks_of_unique [OF mm_okD(2) [OF ok]] by metis
  moreover have "held s' = (held s)(a + 8 \<mapsto> chunk_data k)" by (rule held_insert [OF i _ k(2)]) (simp add: b)
  moreover have "a + 8 \<notin> dom (held s)" using used_at [OF ok c a(2)] a(1) by (simp add: held_iff [OF ok])
  ultimately show ?thesis using k(3) ok' unfolding granted_def by blast
qed

lemma select_extra_ok:
  assumes ok: "mm_ok s" and c: "c \<in> {1..BIGGEST_CAP}" and m: "ex_at s c = Some m" "elm_idle m \<noteq> 0"
  shows "\<exists>p s'. select_extra c s = Some (Inr p, s') \<and> granted c s p s' \<and> (\<forall>k. room_for k s \<longrightarrow> room_for k s')"
proof -
  have cap: "cap_ok (pre_at s c) (Some m) (blocks_of (blocks s) c)" using mm_okD(3) [OF ok c] m(1) by simp
  then have mo: "ex_ok m" by (simp add: cap_ok_def)
  let ?l = "chunks_list m"
  obtain a xs where l: "elems ?l = a # xs" using mo by (cases "elems ?l") (auto simp: ex_ok_def)
  have len: "unat (elm_total m) = Suc (length xs)" "room ?l = Suc (length xs)" "elm_idle m \<le> elm_total m"
    using mo l by (auto simp: ex_ok_def)
  define i where "i = unat (elm_idle m) - 1"
  have i: "unat (elm_idle m) = Suc i" "unat (elm_idle m - 1) = i"
    using m(2) by (simp_all add: i_def unat_gt_0 unat_minus_one)
  have ix: "i \<le> length xs" using len i(1) by (simp add: word_le_nat_alt)
  let ?m = "m\<lparr>elm_idle := elm_idle m - 1, chunks_list := ?l\<lparr>elems := xs @ [a]\<rparr>\<rparr>"
  let ?s = "s\<lparr>elm_table := (elm_table s)[c := Some ?m], extra_apply := incr c (extra_apply s), extra_mutex := free_mutexes\<rparr>"
  have t: "tables_ok s" by (rule mm_okD(1) [OF ok])
  then have e: "arr_get (elm_table s) (int c) = Some (Some m)" using elm_get [OF t c] m(1) by simp
  have run: "select_extra c s = Some (Inr (a + 8), ?s)"
    using t c m(2) l len(2) e by (simp add: select_extra_def lock_simps cl_do_pop cl_do_append tables_ok_def)
  have "ex_ok ?m" using len i ix by (simp add: ex_ok_def word_le_nat_alt)
  then have cap': "cap_ok (pre_at s c) (Some ?m) (blocks_of (blocks ?s) c)"
    using cap l by (auto simp: cap_ok_def ex_chunks_def)
  have s': "tables_ok ?s" "blocks_ok (blocks ?s)" "chunks_manager_table ?s = chunks_manager_table s"
      "elm_table ?s = (elm_table s)[c := Some ?m]" "\<forall>d\<in>{1..BIGGEST_CAP} - {c}. blocks_of (blocks ?s) d = blocks_of (blocks s) d"
    using t mm_okD(2) [OF ok] by (simp_all add: tables_ok_def)
  note st = extra_step [OF ok c s' cap']
  have d: "distinct (pre_chunks (pre_at s c) @ a # xs)" "set (pre_chunks (pre_at s c) @ a # xs) = blocks_of (blocks s) c"
    using cap l by (simp_all add: cap_ok_def ex_chunks_def)
  have "used (pre_at ?s c) (ex_at ?s c) = insert a (used (pre_at s c) (ex_at s c))"
    unfolding st(2) st(3) m(1) using l i ix by (simp add: used_def)
  moreover have "a \<notin> used (pre_at s c) (ex_at s c)"
    using d(1) l i(1) unfolding m(1) by (auto simp: used_def pre_chunks_def split: option.splits dest: in_set_dropD)
  ultimately have "granted c s (a + 8) ?s" using st d(2) by (intro grantedI [OF ok st(1) c]) auto
  moreover have "room_for k ?s" if "room_for k s" for k
    using that st(3,4) m(1) unfolding room_for_def by (metis (no_types, lifting) extra_list_manager.select_convs(2)
      extra_list_manager.surjective extra_list_manager.update_convs(1) extra_list_manager.update_convs(3) option.inject)
  ultimately show ?thesis using run by blast
qed

lemma mk_el_ok:
  assumes m: "malloc_ok malloc" and c: "c \<in> {1..BIGGEST_CAP}" and e: "arr_get (elm_table s) (int c) = Some None"
  shows "\<exists>ns. mk_el malloc c s = Some (s\<lparr>blocks := ns @ blocks s, elm_table := (elm_table s)[c :=
      Some \<lparr>elm_idle = 2, elm_total = 2, chunks_list = \<lparr>elems = map fst ns, room = 2\<rparr>\<rparr>]\<rparr>) \<and>
    length ns = 2 \<and> fresh_chunks c ns (blocks s)"
proof -
  obtain ns where "mm_pre_alloc malloc c 2 s = Some (\<lparr>elems = map fst ns, room = 2\<rparr>, s\<lparr>blocks := ns @ blocks s\<rparr>)"
    "length ns = 2" "fresh_chunks c ns (blocks s)" using mm_pre_alloc_ok [OF m c] by blast
  then show ?thesis using e by (intro exI [of _ ns]) (simp add: mk_el_def DEFAULT_EXTRA_def)
qed

lemma expand_el_ok:
  assumes ml: "malloc_ok malloc" and c: "c \<in> {1..BIGGEST_CAP}" and e: "arr_get (elm_table s) (int c) = Some (Some m)"
    and m: "ex_ok m"
  shows "\<exists>ns. expand_el malloc c s = Some (s\<lparr>blocks := ns @ blocks s, elm_table := (elm_table s)[c :=
      Some (m\<lparr>elm_idle := elm_idle m + 2, elm_total := elm_total m + 2,
        chunks_list := \<lparr>elems = map fst ns @ elems (chunks_list m), room = length (elems (chunks_list m)) + 2\<rparr>\<rparr>)]\<rparr>) \<and>
    length ns = 2 \<and> fresh_chunks c ns (blocks s)"
proof -
  let ?l = "chunks_list m\<lparr>room := room (chunks_list m) + 2\<rparr>"
  obtain ns where "push_chunks malloc c 2 ?l s = Some (?l\<lparr>elems := map fst ns @ elems ?l\<rparr>, s\<lparr>blocks := ns @ blocks s\<rparr>)"
    "length ns = 2" "fresh_chunks c ns (blocks s)"
    using push_chunks_ok [OF ml c, of ?l 2 s] m by (auto simp: ex_ok_def)
  then show ?thesis using e m 
    by (intro exI [of _ ns]) (cases m, cases "chunks_list m", simp add: expand_el_def DEFAULT_EXTRA_def ex_ok_def Let_def)
qed

text \<open>After \<open>mk_el\<close> or \<open>expand_el\<close> and the release of the mutex there is an idle chunk, and the client sees no change.\<close>

definition grown :: "nat \<Rightarrow> mm \<Rightarrow> mm \<Rightarrow> bool" where
  "grown c s s' \<longleftrightarrow> mm_ok s' \<and> held s' = held s \<and> (\<exists>m. ex_at s' c = Some m \<and> elm_idle m \<noteq> 0) \<and>
     (\<forall>k. room_for (Suc k) s \<longrightarrow> room_for k s')"

lemma grownI:
  assumes g: "mm_ok s' \<and> held s' = held s \<and> ex_at s' c = Some m \<and> (\<forall>d. d \<noteq> c \<longrightarrow> ex_at s' d = ex_at s d)"
    and m: "elm_idle m \<noteq> 0" "\<And>k. room_for (Suc k) s \<Longrightarrow> unat (elm_total m) + 2 * k < 2 ^ 16"
  shows "grown c s s'"
proof -
  have "room_for k s'" if r: "room_for (Suc k) s" for k
  proof -
    have "unat (elm_total n) + 2 * k < 2 ^ 16" if "d \<in> {1..BIGGEST_CAP}" "ex_at s' d = Some n" for d n
    proof (cases "d = c")
      case True
      then show ?thesis using that g m(2) [OF r] by auto
    next
      case False
      then have "ex_at s d = Some n" using that g by auto
      then have "unat (elm_total n) + 2 * Suc k < 2 ^ 16" using r that(1) unfolding room_for_def by blast
      then show ?thesis by simp
    qed
    then show ?thesis using r by (auto simp: room_for_def)
  qed
  then show ?thesis using g m(1) unfolding grown_def by blast
qed

lemma grow_new:
  assumes ok: "mm_ok s" and ml: "malloc_ok malloc" and c: "c \<in> {1..BIGGEST_CAP}" and e: "ex_at s c = None"
    and r: "room_for (Suc k) s"
  shows "\<exists>s'. do { s \<leftarrow> lock_extra c s; s \<leftarrow> mk_el malloc c s; unlock_extra c s } = Some s' \<and> grown c s s'"
proof -
  let ?s = "s\<lparr>extra_mutex := free_mutexes[c := Some True]\<rparr>"
  have t: "tables_ok s" by (rule mm_okD(1) [OF ok])
  have get: "arr_get (elm_table ?s) (int c) = Some None" using elm_get [OF t c] e by simp
  let ?m = "\<lambda>ns. \<lparr>elm_idle = 2, elm_total = 2, chunks_list = \<lparr>elems = map fst ns, room = 2\<rparr>\<rparr>"
  obtain ns where ns: "mk_el malloc c ?s = Some (?s\<lparr>blocks := ns @ blocks ?s, elm_table := (elm_table ?s)[c := Some (?m ns)]\<rparr>)"
    "length ns = 2" "fresh_chunks c ns (blocks ?s)" using mk_el_ok [OF ml c get] by blast
  let ?s' = "s\<lparr>blocks := ns @ blocks s, elm_table := (elm_table s)[c := Some (?m ns)]\<rparr>"
  have ns': "fresh_chunks c ns (blocks s)" using ns(3) by simp
  have "ex_ok (?m ns)" using ns(2) by (auto simp: ex_ok_def)
  then have g: "mm_ok ?s' \<and> held ?s' = held s \<and> ex_at ?s' c = Some (?m ns) \<and> (\<forall>d. d \<noteq> c \<longrightarrow> ex_at ?s' d = ex_at s d)"
    using ns(2) e by (intro grow_ok [OF ok c ns' _ _ _ refl]) (simp_all add: ex_chunks_def used_def)
  have "do { s \<leftarrow> lock_extra c s; s \<leftarrow> mk_el malloc c s; unlock_extra c s } = Some (?s'\<lparr>extra_mutex := free_mutexes\<rparr>)"
    using ns(1) t c by (simp add: lock_simps tables_ok_def)
  moreover have "?s'\<lparr>extra_mutex := free_mutexes\<rparr> = ?s'" using t by (simp add: tables_ok_def)
  moreover have "grown c s ?s'" by (rule grownI [OF g]) (auto simp: room_for_def)
  ultimately show ?thesis by metis
qed

lemma grow_more:
  assumes ok: "mm_ok s" and ml: "malloc_ok malloc" and c: "c \<in> {1..BIGGEST_CAP}" and e: "ex_at s c = Some m" "elm_idle m = 0"
    and r: "room_for (Suc k) s"
  shows "\<exists>s'. do { s \<leftarrow> lock_extra c s; s \<leftarrow> expand_el malloc c s; unlock_extra c s } = Some s' \<and> grown c s s'"
proof -
  let ?s = "s\<lparr>extra_mutex := free_mutexes[c := Some True]\<rparr>"
  have t: "tables_ok s" by (rule mm_okD(1) [OF ok])
  have get: "arr_get (elm_table ?s) (int c) = Some (Some m)" using elm_get [OF t c] e by simp
  have m: "ex_ok m" using mm_okD(3) [OF ok c] e(1) by (simp add: cap_ok_def)
  let ?m = "\<lambda>ns. m\<lparr>elm_idle := elm_idle m + 2, elm_total := elm_total m + 2,
        chunks_list := \<lparr>elems = map fst ns @ elems (chunks_list m), room = length (elems (chunks_list m)) + 2\<rparr>\<rparr>"
  obtain ns where ns: "expand_el malloc c ?s = Some (?s\<lparr>blocks := ns @ blocks ?s, elm_table := (elm_table ?s)[c := Some (?m ns)]\<rparr>)"
    "length ns = 2" "fresh_chunks c ns (blocks ?s)" using expand_el_ok [OF ml c get m] by blast
  let ?s' = "s\<lparr>blocks := ns @ blocks s, elm_table := (elm_table s)[c := Some (?m ns)]\<rparr>"
  have ns': "fresh_chunks c ns (blocks s)" using ns(3) by simp
  have "unat (elm_total m) + 2 * Suc k < 2 ^ 16" using r c e(1) unfolding room_for_def by blast
  then have tot: "unat (elm_total m + 2) = unat (elm_total m) + 2" by (simp add: unat_word_ariths)
  have "ex_ok (?m ns)" using m ns(2) tot e(2) by (auto simp: ex_ok_def word_le_nat_alt)
  then have g: "mm_ok ?s' \<and> held ?s' = held s \<and> ex_at ?s' c = Some (?m ns) \<and> (\<forall>d. d \<noteq> c \<longrightarrow> ex_at ?s' d = ex_at s d)"
    using ns(2) e by (intro grow_ok [OF ok c ns' _ _ _ refl]) (simp_all add: ex_chunks_def used_def)
  have "do { s \<leftarrow> lock_extra c s; s \<leftarrow> expand_el malloc c s; unlock_extra c s } = Some (?s'\<lparr>extra_mutex := free_mutexes\<rparr>)"
    using ns(1) t c by (simp add: lock_simps tables_ok_def)
  moreover have "?s'\<lparr>extra_mutex := free_mutexes\<rparr> = ?s'" using t by (simp add: tables_ok_def)
  moreover have "unat (elm_total (?m ns)) + 2 * j < 2 ^ 16" if "room_for (Suc j) s" for j
  proof -
    have "unat (elm_total m) + 2 * Suc j < 2 ^ 16" using that c e(1) unfolding room_for_def by blast
    then show ?thesis using tot by simp
  qed
  then have "grown c s ?s'" by (intro grownI [OF g]) (simp_all add: e(2))
  ultimately show ?thesis by metis
qed

lemma granted_grown: "grown c s s' \<Longrightarrow> granted c s' p s'' \<Longrightarrow> granted c s p s''"
  by (simp add: granted_def grown_def)

text \<open>What the two branches of \<open>dc_alloc\<close> give.\<close>

definition serves :: "nat \<Rightarrow> mm \<Rightarrow> ((64 word + nat) \<times> mm) option \<Rightarrow> bool" where
  "serves c s res \<longleftrightarrow> (\<exists>p s'. res = Some (Inr p, s') \<and> granted c s p s' \<and> (\<forall>k. room_for (Suc k) s \<longrightarrow> room_for k s'))"

lemma room_for_less: "room_for (Suc k) s \<Longrightarrow> room_for k s"
  by (auto simp: room_for_def)

lemma serves_extra:
  assumes "grown c s s'" and c: "c \<in> {1..BIGGEST_CAP}"
  shows "serves c s (select_extra c s')"
proof -
  obtain m where m: "mm_ok s'" "ex_at s' c = Some m" "elm_idle m \<noteq> 0" using assms by (auto simp: grown_def)
  obtain p s'' where "select_extra c s' = Some (Inr p, s'')" "granted c s' p s''" "\<forall>k. room_for k s' \<longrightarrow> room_for k s''"
    using select_extra_ok [OF m(1) c m(2,3)] by blast
  then show ?thesis using granted_grown [OF assms(1)] assms(1) unfolding serves_def grown_def by blast
qed

lemma grown_refl: "mm_ok s \<Longrightarrow> ex_at s c = Some m \<Longrightarrow> elm_idle m \<noteq> 0 \<Longrightarrow> grown c s s"
  by (simp add: grown_def room_for_less)

lemma alloc_extra_ok:
  assumes ok: "mm_ok s" and ml: "malloc_ok malloc" and c: "c \<in> {1..BIGGEST_CAP}" and r: "room_for (Suc k) s"
  shows "serves c s (alloc_extra malloc c s)"
proof -
  have get: "arr_get (elm_table s) (int c) = Some (ex_at s c)" by (rule elm_get [OF mm_okD(1) [OF ok] c])
  show ?thesis
  proof (cases "ex_at s c")
    case None
    then obtain s' where "do { s \<leftarrow> lock_extra c s; s \<leftarrow> mk_el malloc c s; unlock_extra c s } = Some s'" "grown c s s'"
      using grow_new [OF ok ml c _ r] by blast
    moreover then have "alloc_extra malloc c s = select_extra c s'"
      using get None by (auto simp: alloc_extra_def bind_eq_Some_conv)
    ultimately show ?thesis using serves_extra [OF _ c] by simp
  next
    case (Some m)
    show ?thesis
    proof (cases "elm_idle m = 0")
      case True
      then obtain s' where s': "do { s \<leftarrow> lock_extra c s; s \<leftarrow> expand_el malloc c s; unlock_extra c s } = Some s'" "grown c s s'"
        using grow_more [OF ok ml c Some _ r] by blast
      then have "alloc_extra malloc c s = select_extra c s'" using get Some True by (simp add: alloc_extra_def)
      then show ?thesis using serves_extra [OF s'(2) c] by simp
    next
      case False
      then have "alloc_extra malloc c s = select_extra c s" using get Some by (simp add: alloc_extra_def)
      then show ?thesis using serves_extra [OF grown_refl [OF ok Some False] c] by simp
    qed
  qed
qed

lemma lock_unlock: "mm_ok s \<Longrightarrow> c \<in> {1..BIGGEST_CAP} \<Longrightarrow> unlock_extra c (s\<lparr>extra_mutex := free_mutexes[c := Some True]\<rparr>) = Some s"
  using mm_okD(1) [of s] by (simp add: unlock_extra_ok tables_ok_def)

lemma alloc_spill_ok:
  assumes ok: "mm_ok s" and ml: "malloc_ok malloc" and c: "c \<in> {1..BIGGEST_CAP}" and r: "room_for (Suc k) s"
  shows "serves c s (alloc_spill malloc c s)"
proof -
  let ?s = "s\<lparr>extra_mutex := free_mutexes[c := Some True]\<rparr>"
  have lock: "lock_extra c s = Some ?s" using mm_okD(1) [OF ok] c by (simp add: lock_extra_ok tables_ok_def)
  have get: "arr_get (elm_table ?s) (int c) = Some (ex_at s c)" using elm_get [OF mm_okD(1) [OF ok] c] by simp
  show ?thesis
  proof (cases "ex_at s c")
    case None
    then obtain s' where s': "do { s \<leftarrow> lock_extra c s; s \<leftarrow> mk_el malloc c s; unlock_extra c s } = Some s'" "grown c s s'"
      using grow_new [OF ok ml c _ r] by blast
    then have "alloc_spill malloc c s = select_extra c s'"
      using get None lock by (auto simp: alloc_spill_def bind_eq_Some_conv)
    then show ?thesis using serves_extra [OF s'(2) c] by simp
  next
    case (Some m)
    show ?thesis
    proof (cases "elm_idle m = 0")
      case True
      then obtain s' where s': "do { s \<leftarrow> lock_extra c s; s \<leftarrow> expand_el malloc c s; unlock_extra c s } = Some s'" "grown c s s'"
        using grow_more [OF ok ml c Some _ r] by blast
      then have "alloc_spill malloc c s = select_extra c s'"
        using get Some True lock by (auto simp: alloc_spill_def bind_eq_Some_conv)
      then show ?thesis using serves_extra [OF s'(2) c] by simp
    next
      case False
      then have "alloc_spill malloc c s = select_extra c s"
        using get Some lock lock_unlock [OF ok c] by (simp add: alloc_spill_def)
      then show ?thesis using serves_extra [OF grown_refl [OF ok Some False] c] by simp
    qed
  qed
qed

section \<open>Preallocated chunks\<close>

lemma pre_step:
  assumes ok: "mm_ok s" and c: "c \<in> {SMALL..BIG}"
    and s': "tables_ok s'" "blocks s' = blocks s" "elm_table s' = elm_table s"
      "chunks_manager_table s' = (chunks_manager_table s)[c - SMALL := m]"
    and m: "cap_ok (Some m) (ex_at s c) (blocks_of (blocks s) c)"
  shows "mm_ok s'" "ex_at s' d = ex_at s d" "pre_at s' c = Some m" "d \<noteq> c \<Longrightarrow> pre_at s' d = pre_at s d"
proof -
  have len: "c - SMALL < length (chunks_manager_table s)" and c': "c \<in> {1..BIGGEST_CAP}"
    using c mm_okD(1) [OF ok] by (auto simp: tables_ok_def mm_consts)
  show x: "ex_at s' d = ex_at s d" for d by (simp add: ex_at_def s'(3))
  show p: "pre_at s' c = Some m" using len c by (simp add: pre_at_def s'(4))
  show y: "d \<noteq> c \<Longrightarrow> pre_at s' d = pre_at s d" for d using c by (auto simp: pre_at_def s'(4) nth_list_update)
  show "mm_ok s'" using m p x y s'(2) mm_okD(2) [OF ok] by (intro mm_okI [OF ok c' s'(1)]) auto
qed

lemma pre_get:
  assumes "mm_ok s" and "c \<in> {SMALL..BIG}"
  shows "arr_get (chunks_manager_table s) (int (c - SMALL)) = pre_at s c"
proof -
  have "c - SMALL < length (chunks_manager_table s)" using assms mm_okD(1) [of s] by (auto simp: tables_ok_def mm_consts)
  then have "arr_get (chunks_manager_table s) (int (c - SMALL)) = Some (chunks_manager_table s ! (c - SMALL))"
    by (subst arr_get_in) (simp_all only: of_nat_0_le_iff of_nat_less_iff nat_int)
  then show ?thesis using assms(2) by (simp only: pre_at_def) auto
qed

lemma room_for_same: "(\<And>d. ex_at s' d = ex_at s d) \<Longrightarrow> room_for k s' = room_for k s"
  by (simp add: room_for_def)

lemma select_pre_alloced_ok:
  assumes ok: "mm_ok s" and c: "c \<in> {SMALL..BIG}" and m: "pre_at s c = Some m" "idle_num m \<noteq> 0"
  shows "serves c s (select_pre_alloced c s)"
proof -
  have c': "c \<in> {1..BIGGEST_CAP}" "c - SMALL < CHUNK_TYPE_NUM" using c by (auto simp: mm_consts)
  have cap: "cap_ok (Some m) (ex_at s c) (blocks_of (blocks s) c)" using mm_okD(3) [OF ok c'(1)] m(1) by simp
  then have mo: "pre_ok m" by (simp add: cap_ok_def)
  have "0 < unat (idle_num m)" using m(2) by (simp add: unat_gt_0)
  then obtain a xs where l: "elems (idle_chunks m) = a # xs" using mo by (cases "elems (idle_chunks m)") (auto simp: pre_ok_def)
  let ?as = "elems (alloced_chunks m)"
  have len: "unat (idle_num m) = Suc (length xs)" "room (idle_chunks m) = Suc (length xs) + length ?as"
    "room (alloced_chunks m) = Suc (length xs) + length ?as" "Suc (length xs) + length ?as < 2 ^ 16" using mo l by (auto simp: pre_ok_def)
  let ?m = "m\<lparr>idle_num := idle_num m - 1, idle_chunks := (idle_chunks m)\<lparr>elems := xs\<rparr>, alloced_chunks := (alloced_chunks m)\<lparr>elems := a # ?as\<rparr>\<rparr>"
  let ?s = "s\<lparr>chunks_manager_table := (chunks_manager_table s)[c - SMALL := ?m], pre_alloc_apply := incr (c - SMALL) (pre_alloc_apply s),
    pre_alloc_mutex := replicate CHUNK_TYPE_NUM (Some False)\<rparr>"
  have t: "tables_ok s" by (rule mm_okD(1) [OF ok])
  have run: "select_pre_alloced c s = Some (Inr (a + 8), ?s)"
    using t c'(2) m pre_get [OF ok c] l len
    by (simp add: select_pre_alloced_def Let_def lock_simps cl_do_pop cl_do_push tables_ok_def)
  have "pre_ok ?m" using len m(2) by (simp add: pre_ok_def unat_minus_one)
  then have cap': "cap_ok (Some ?m) (ex_at s c) (blocks_of (blocks s) c)"
    using cap l by (auto simp: cap_ok_def pre_chunks_def)
  have st: "mm_ok ?s" "ex_at ?s d = ex_at s d" "pre_at ?s c = Some ?m" "d \<noteq> c \<Longrightarrow> pre_at ?s d = pre_at s d" for d
    using pre_step [OF ok c _ _ _ _ cap', of ?s] t by (auto simp: tables_ok_def)
  have d: "distinct ((a # xs) @ ?as @ ex_chunks (ex_at s c))" "a \<in> blocks_of (blocks s) c"
    using cap l by (auto simp: cap_ok_def pre_chunks_def)
  have "used (pre_at ?s c) (ex_at ?s c) = insert a (used (pre_at s c) (ex_at s c))"
    unfolding st(2) st(3) m(1) by (simp add: used_def)
  moreover have "a \<notin> used (pre_at s c) (ex_at s c)"
    using d(1) unfolding m(1) by (auto simp: used_def ex_chunks_def split: option.splits dest: in_set_dropD)
  ultimately have "granted c s (a + 8) ?s" using st d(2) by (intro grantedI [OF ok st(1) c'(1)]) auto
  then show ?thesis using run room_for_same [OF st(2)] unfolding serves_def by (metis room_for_less)
qed

section \<open>Allocating\<close>

lemma dc_alloc_ok:
  assumes ok: "mm_ok s" and ml: "malloc_ok malloc" and sz: "2 \<le> unat sz" "unat sz \<le> 2 ^ 30" and r: "room_for (Suc k) s"
  shows "\<exists>p s'. dc_alloc malloc sz s = Some (Some p, s') \<and> granted (ceillog2 (unat sz)) s p s' \<and> (\<forall>k. room_for (Suc k) s \<longrightarrow> room_for k s')"
proof -
  define c where "c = ceillog2 (unat sz)"
  have cap: "alloc_cap sz = Some c" unfolding c_def by (rule alloc_cap_ceillog2) (use sz in auto)
  have "c \<le> 30" using sz ceillog2_le_iff [of "unat sz" 30] by (simp add: c_def)
  moreover have "1 \<le> c" using sz ceillog2_le_iff [of "unat sz" 0] by (simp add: c_def)
  ultimately have c: "c \<in> {1..BIGGEST_CAP}" by (simp add: BIGGEST_CAP_def)
  have nz: "sz \<noteq> 0" using sz(1) by auto
  let ?res = "if c < SMALL \<or> BIG < c then alloc_extra malloc c s
     else do { m \<leftarrow> arr_get (chunks_manager_table s) (int (c - SMALL)); if idle_num m = 0 then alloc_spill malloc c s else select_pre_alloced c s }"
  have "serves c s ?res"
  proof (cases "c < SMALL \<or> BIG < c")
    case True
    then show ?thesis using alloc_extra_ok [OF ok ml c r] by simp
  next
    case False
    then have b: "c \<in> {SMALL..BIG}" by simp
    then obtain m where m: "pre_at s c = Some m" by (simp add: pre_at_def)
    have "?res = (if idle_num m = 0 then alloc_spill malloc c s else select_pre_alloced c s)"
      by (simp only: False if_False pre_get [OF ok b] m Option.bind.bind_lunit)
    then show ?thesis using alloc_spill_ok [OF ok ml c r] select_pre_alloced_ok [OF ok b m] by simp
  qed
  then obtain p s' where p: "?res = Some (Inr p, s')" "granted c s p s'" "\<forall>k. room_for (Suc k) s \<longrightarrow> room_for k s'"
    unfolding serves_def by blast
  have "dc_alloc malloc sz s = Some (Some p, s')"
    by (subst dc_alloc.simps) (simp only: nz if_False cap p(1) Option.bind.bind_lunit prod.case sum.case)
  then show ?thesis using p(2,3) unfolding c_def by blast
qed

section \<open>Freeing\<close>

lemma free_blocks_ok:
  "distinct xs \<Longrightarrow> set xs \<subseteq> fst ` set bl \<Longrightarrow> free_blocks xs bl = Some (filter (\<lambda>(b, k). b \<notin> set xs) bl)"
proof (induction xs arbitrary: bl)
  case Nil
  then show ?case by (simp add: split_beta)
next
  case (Cons a xs)
  let ?bl = "filter (\<lambda>(b, k). b \<noteq> a) bl"
  have "set xs \<subseteq> fst ` set ?bl" using Cons.prems by force
  then have "free_blocks xs ?bl = Some (filter (\<lambda>(b, k). b \<notin> set xs) ?bl)" using Cons by simp
  then show ?case using Cons.prems(2) by (auto simp: split_beta intro: filter_cong)
qed

definition released :: "nat \<Rightarrow> mm \<Rightarrow> mm \<Rightarrow> bool" where
  "released p s s' \<longleftrightarrow> mm_ok s' \<and> held s' = (held s)(p := None) \<and> (\<forall>k. room_for k s \<longrightarrow> room_for k s')"

lemma distinct_remove_late:
  assumes "distinct xs" and "a \<in> set (drop i xs)"
  shows "set (drop (Suc i) (a # remove1 a xs)) = set (drop i xs) - {a}"
proof -
  have d: "distinct (take i xs @ drop i xs)" using assms(1) by simp
  then have "a \<notin> set (take i xs)" using assms(2) unfolding distinct_append by blast
  then have "remove1 a xs = take i xs @ remove1 a (drop i xs)" by (metis append_take_drop_id remove1_append)
  moreover have "length (take i xs) = i" using assms(2) by (cases "i \<le> length xs") auto
  ultimately have "drop i (remove1 a xs) = remove1 a (drop i xs)" by simp
  then show ?thesis using d by simp
qed

lemma map_of_filter_keys: "map_of (filter (\<lambda>(b, k). b \<notin> X) bl) a = (if a \<in> X then None else map_of bl a)"
  by (induction bl) auto

lemma blocks_of_filter: "blocks_of (filter (\<lambda>(b, k). b \<notin> X) bl) c = blocks_of bl c - X"
  by (auto simp: blocks_of_def)

lemma extra_facts:
  assumes ok: "mm_ok s" and c: "c \<in> {1..BIGGEST_CAP}" and m: "ex_at s c = Some m"
    and a: "a \<in> set (drop (unat (elm_idle m)) (elems (chunks_list m)))"
  defines "xs \<equiv> elems (chunks_list m)" and "ys \<equiv> a # remove1 a (elems (chunks_list m))"
  shows "distinct (pre_chunks (pre_at s c) @ xs)" "set (pre_chunks (pre_at s c) @ xs) = blocks_of (blocks s) c" "a \<in> set xs"
    "unat (elm_total m) = length xs" "room (chunks_list m) = length xs" "unat (elm_idle m) < length xs"
    "unat (elm_idle m + 1) = Suc (unat (elm_idle m))" "distinct ys" "set ys = set xs" "length ys = length xs"
    "used (pre_at s c) (ex_at s c) = used (pre_at s c) None \<union> set (drop (unat (elm_idle m)) xs)" "a \<notin> used (pre_at s c) None"
    "cl_do (Mv2head a) (chunks_list m) = Some (Code 0, (chunks_list m)\<lparr>elems := ys\<rparr>)" "pred_option pre_ok (pre_at s c)"
proof -
  have cap: "cap_ok (pre_at s c) (Some m) (blocks_of (blocks s) c)" using mm_okD(3) [OF ok c] m by simp
  then have mo: "ex_ok m" and "pred_option pre_ok (pre_at s c)" by (simp_all add: cap_ok_def)
  then show "pred_option pre_ok (pre_at s c)" by simp
  show d: "distinct (pre_chunks (pre_at s c) @ xs)" "set (pre_chunks (pre_at s c) @ xs) = blocks_of (blocks s) c"
    using cap by (simp_all add: cap_ok_def ex_chunks_def xs_def)
  show ax: "a \<in> set xs" using a unfolding xs_def by (rule in_set_dropD)
  show il: "unat (elm_idle m) < length xs" using a by (cases "unat (elm_idle m) < length xs") (auto simp: xs_def)
  show len: "unat (elm_total m) = length xs" "room (chunks_list m) = length xs" using mo by (simp_all add: ex_ok_def xs_def)
  have lt: "length xs < 2 ^ LENGTH(16)" unfolding len(1) [symmetric] by (rule unsigned_less)
  then show "unat (elm_idle m + 1) = Suc (unat (elm_idle m))" using il by (simp add: unat_word_ariths)
  show "distinct ys" "set ys = set xs" "length ys = length xs"
    using d(1) ax length_pos_if_in_set [OF ax] by (auto simp: length_remove1 ys_def xs_def)
  show "used (pre_at s c) (ex_at s c) = used (pre_at s c) None \<union> set (drop (unat (elm_idle m)) xs)"
    unfolding m xs_def by (simp add: used_def)
  show "a \<notin> used (pre_at s c) None" using d(1) ax by (auto simp: used_def pre_chunks_def split: option.splits)
  show "cl_do (Mv2head a) (chunks_list m) = Some (Code 0, (chunks_list m)\<lparr>elems := ys\<rparr>)"
    unfolding ys_def by (rule cl_do_mv2head) (use ax in \<open>simp add: xs_def\<close>)
qed

text \<open>The last chunk of a list comes back: the list and its blocks go.\<close>

lemma free_extra_last:
  assumes ok: "mm_ok s" and c: "c \<in> {1..BIGGEST_CAP}" and m: "ex_at s c = Some m"
    and a: "a \<in> set (drop (unat (elm_idle m)) (elems (chunks_list m)))"
    and last: "Suc (unat (elm_idle m)) = length (elems (chunks_list m))"
  shows "\<exists>s'. free_extra c a m (s\<lparr>extra_mutex := free_mutexes[c := Some True]\<rparr>) = Some s' \<and> released (a + 8) s s'"
proof -
  let ?xs = "elems (chunks_list m)" and ?i = "unat (elm_idle m)" and ?s = "s\<lparr>extra_mutex := free_mutexes[c := Some True]\<rparr>"
  let ?ys = "a # remove1 a ?xs"
  note f = extra_facts [OF ok c m a] and t = mm_okD(1) [OF ok]
  have all: "elm_idle m + 1 = elm_total m" using f(4,7) last by (simp add: word_unat_eq_iff)
  let ?bl = "filter (\<lambda>(b, k). b \<notin> set ?ys) (blocks s)"
  let ?s' = "s\<lparr>blocks := ?bl, elm_table := (elm_table s)[c := None], extra_free := incr c (extra_free s)\<rparr>"
  have "set ?ys \<subseteq> fst ` set (blocks s)" using f(2,9) by (force simp: blocks_of_def)
  then have "free_blocks ?ys (blocks s) = Some ?bl" using f(8) by (intro free_blocks_ok)
  then have "free_extra c a m ?s = Some (?s'\<lparr>extra_mutex := free_mutexes\<rparr>)"
    using f(13) all c by (simp add: free_extra_def Let_def lock_simps del: free_blocks.simps)
  moreover have "?s'\<lparr>extra_mutex := free_mutexes\<rparr> = ?s'" using t by (simp add: tables_ok_def)
  moreover have "released (a + 8) s ?s'"
  proof -
    have cap': "cap_ok (pre_at s c) None (blocks_of (blocks ?s') c)"
      using f(1,2,9,14) unfolding cap_ok_def by (auto simp: blocks_of_filter ex_chunks_def)
    have ob: "blocks_of (blocks ?s') e = blocks_of (blocks s) e" if "e \<noteq> c" for e
    proof -
      have bl: "blocks ?s' = ?bl" by simp
      have "blocks_of (blocks s) e \<inter> blocks_of (blocks s) c = {}" using blocks_of_unique [OF mm_okD(2) [OF ok]] that by blast
      moreover have "set ?ys \<subseteq> blocks_of (blocks s) c" using f(2,9) by auto
      ultimately have "blocks_of (blocks s) e - set ?ys = blocks_of (blocks s) e" by blast
      moreover have "blocks_of (blocks ?s') e = blocks_of (blocks s) e - set ?ys"
        unfolding bl by (rule blocks_of_filter)
      ultimately show ?thesis by (simp only:)
    qed
    have s': "tables_ok ?s'" "blocks_ok (blocks ?s')" "chunks_manager_table ?s' = chunks_manager_table s"
        "elm_table ?s' = (elm_table s)[c := None]" "\<forall>d\<in>{1..BIGGEST_CAP} - {c}. blocks_of (blocks ?s') d = blocks_of (blocks s) d"
      using t mm_okD(2) [OF ok] ob by (auto simp: tables_ok_def blocks_ok_def distinct_map_filter)
    note st = extra_step [OF ok c s' cap']
    have "length (drop ?i ?xs) = Suc 0" using last by simp
    then obtain z where z: "drop ?i ?xs = [z]" unfolding length_Suc_conv length_0_conv by blast
    then have one: "set (drop ?i ?xs) = {a}" using a unfolding z by simp
    then have "used (pre_at ?s' c) (ex_at ?s' c) = used (pre_at s c) (ex_at s c) - {a}"
      unfolding st(2) st(3) f(11) using f(12) by auto
    then have iu: "in_use ?s' = in_use s - {a}" using st f(11) a by (intro in_use_remove [OF ok c]) auto
    have "map_of (blocks ?s') b = map_of (blocks s) b" if b: "b \<in> in_use s - {a}" for b
    proof -
      have "b \<in> used (pre_at s c) (ex_at s c)" if "b \<in> set ?xs" using used_at [OF ok c] f(2) b that by auto
      then have "b \<notin> set ?xs" using b one f(1) unfolding f(11) by (auto simp: used_def pre_chunks_def split: option.splits)
      then show ?thesis using f(9) by (simp add: map_of_filter_keys)
    qed
    then have "held ?s' = (held s)(a + 8 := None)" by (intro held_remove [OF iu]) blast
    moreover have "room_for k ?s'" if "room_for k s" for k
      using that st(3,4) unfolding room_for_def by (metis option.distinct(1))
    ultimately show ?thesis using st(1) unfolding released_def by blast
  qed
  ultimately show ?thesis by metis
qed

lemma free_extra_more:
  assumes ok: "mm_ok s" and c: "c \<in> {1..BIGGEST_CAP}" and m: "ex_at s c = Some m"
    and a: "a \<in> set (drop (unat (elm_idle m)) (elems (chunks_list m)))"
    and more: "Suc (unat (elm_idle m)) \<noteq> length (elems (chunks_list m))"
  shows "\<exists>s'. free_extra c a m (s\<lparr>extra_mutex := free_mutexes[c := Some True]\<rparr>) = Some s' \<and> released (a + 8) s s'"
proof -
  let ?xs = "elems (chunks_list m)" and ?i = "unat (elm_idle m)" and ?s = "s\<lparr>extra_mutex := free_mutexes[c := Some True]\<rparr>"
  let ?m = "m\<lparr>chunks_list := (chunks_list m)\<lparr>elems := a # remove1 a ?xs\<rparr>, elm_idle := elm_idle m + 1\<rparr>"
  note f = extra_facts [OF ok c m a] and t = mm_okD(1) [OF ok]
  have some: "elm_idle m + 1 \<noteq> elm_total m" using f(4,7) more by metis
  let ?s' = "s\<lparr>elm_table := (elm_table s)[c := Some ?m], extra_free := incr c (extra_free s)\<rparr>"
  have "free_extra c a m ?s = Some (?s'\<lparr>extra_mutex := free_mutexes\<rparr>)"
    using f(13) some c by (simp add: free_extra_def Let_def lock_simps)
  moreover have "?s'\<lparr>extra_mutex := free_mutexes\<rparr> = ?s'" using t by (simp add: tables_ok_def)
  moreover have "released (a + 8) s ?s'"
  proof -
    have "ex_ok ?m" using f(4,5,6,7,10) by (simp add: ex_ok_def word_le_nat_alt)
    then have cap': "cap_ok (pre_at s c) (Some ?m) (blocks_of (blocks ?s') c)"
      using f(1,2,8,9,14) unfolding cap_ok_def by (auto simp: ex_chunks_def)
    have s': "tables_ok ?s'" "blocks_ok (blocks ?s')" "chunks_manager_table ?s' = chunks_manager_table s"
        "elm_table ?s' = (elm_table s)[c := Some ?m]" "\<forall>d\<in>{1..BIGGEST_CAP} - {c}. blocks_of (blocks ?s') d = blocks_of (blocks s) d"
      using t mm_okD(2) [OF ok] by (simp_all add: tables_ok_def)
    note st = extra_step [OF ok c s' cap']
    have "used (pre_at ?s' c) (ex_at ?s' c) = used (pre_at s c) None \<union> (set (drop ?i ?xs) - {a})"
      unfolding st(2) st(3) using distinct_remove_late [of ?xs a ?i] a f(1,7) by (simp add: used_def)
    then have "used (pre_at ?s' c) (ex_at ?s' c) = used (pre_at s c) (ex_at s c) - {a}"
      unfolding f(11) using f(12) by auto
    then have iu: "in_use ?s' = in_use s - {a}" using st f(11) a by (intro in_use_remove [OF ok c]) auto
    have "held ?s' = (held s)(a + 8 := None)" by (intro held_remove [OF iu]) simp
    moreover have "room_for k ?s'" if "room_for k s" for k
      using that st(3,4) m unfolding room_for_def by (metis (no_types, lifting) extra_list_manager.select_convs(2)
        extra_list_manager.surjective extra_list_manager.update_convs(1) extra_list_manager.update_convs(3) option.inject)
    ultimately show ?thesis using st(1) unfolding released_def by blast
  qed
  ultimately show ?thesis by metis
qed

lemma free_extra_ok:
  assumes "mm_ok s" and "c \<in> {1..BIGGEST_CAP}" and "ex_at s c = Some m"
    and "a \<in> set (drop (unat (elm_idle m)) (elems (chunks_list m)))"
  shows "\<exists>s'. do { s \<leftarrow> lock_extra c s; free_extra c a m s } = Some s' \<and> released (a + 8) s s'"
proof -
  have "lock_extra c s = Some (s\<lparr>extra_mutex := free_mutexes[c := Some True]\<rparr>)"
    using mm_okD(1) [OF assms(1)] assms(2) by (simp add: lock_extra_ok tables_ok_def)
  then show ?thesis using free_extra_last [OF assms] free_extra_more [OF assms] by fastforce
qed

lemma free_pre_ok:
  assumes ok: "mm_ok s" and c: "c \<in> {SMALL..BIG}" and m: "pre_at s c = Some m" and a: "a \<in> set (elems (alloced_chunks m))"
  shows "\<exists>s'. do {
      s \<leftarrow> lock_pre (c - SMALL) s;
      (r, l) \<leftarrow> cl_do (Mv2head a) (alloced_chunks m);
      (r, l) \<leftarrow> cl_do Pop l;
      b \<leftarrow> (case r of Popped b \<Rightarrow> b | Code _ \<Rightarrow> None);
      (r, idle) \<leftarrow> cl_do (Push b) (idle_chunks m);
      let m = m\<lparr>idle_num := idle_num m + 1, idle_chunks := idle, alloced_chunks := l\<rparr>;
      unlock_pre (c - SMALL) (s\<lparr>chunks_manager_table := (chunks_manager_table s)[c - SMALL := m],
                        pre_alloc_free := incr (c - SMALL) (pre_alloc_free s)\<rparr>)
    } = Some s' \<and> released (a + 8) s s'" (is "\<exists>s'. ?run = Some s' \<and> _")
proof -
  have c': "c \<in> {1..BIGGEST_CAP}" "c - SMALL < CHUNK_TYPE_NUM" using c by (auto simp: mm_consts)
  have cap: "cap_ok (Some m) (ex_at s c) (blocks_of (blocks s) c)" using mm_okD(3) [OF ok c'(1)] m by simp
  then have mo: "pre_ok m" by (simp add: cap_ok_def)
  let ?as = "elems (alloced_chunks m)" and ?is = "elems (idle_chunks m)"
  have len: "unat (idle_num m) = length ?is" "room (idle_chunks m) = length ?is + length ?as"
    "room (alloced_chunks m) = length ?is + length ?as" "length ?is + length ?as < 2 ^ 16" "0 < length ?as"
    using mo length_pos_if_in_set [OF a] by (auto simp: pre_ok_def)
  have "Suc (length ?is) < 2 ^ 16" using len(4,5) by linarith
  then have inc: "unat (idle_num m + 1) = Suc (length ?is)" using len(1) by (simp add: unat_word_ariths)
  let ?m = "m\<lparr>idle_num := idle_num m + 1, idle_chunks := (idle_chunks m)\<lparr>elems := a # ?is\<rparr>,
    alloced_chunks := (alloced_chunks m)\<lparr>elems := remove1 a ?as\<rparr>\<rparr>"
  let ?s = "s\<lparr>chunks_manager_table := (chunks_manager_table s)[c - SMALL := ?m], pre_alloc_free := incr (c - SMALL) (pre_alloc_free s),
    pre_alloc_mutex := replicate CHUNK_TYPE_NUM (Some False)\<rparr>"
  have t: "tables_ok s" by (rule mm_okD(1) [OF ok])
  have run: "?run = Some ?s"
    using t c'(2) len a by (simp add: Let_def lock_simps cl_do_pop cl_do_push cl_do_mv2head tables_ok_def)
  have d: "distinct (?is @ ?as @ ex_chunks (ex_at s c))" using cap by (simp add: cap_ok_def pre_chunks_def)
  have "pre_ok ?m" using len inc a by (simp add: pre_ok_def length_remove1)
  then have cap': "cap_ok (Some ?m) (ex_at s c) (blocks_of (blocks s) c)"
    using cap d a unfolding cap_ok_def by (auto simp: pre_chunks_def)
  have st: "mm_ok ?s" "ex_at ?s e = ex_at s e" "pre_at ?s c = Some ?m" "e \<noteq> c \<Longrightarrow> pre_at ?s e = pre_at s e" for e
    using pre_step [OF ok c _ _ _ _ cap', of ?s] t by (auto simp: tables_ok_def)
  have "used (pre_at ?s c) (ex_at ?s c) = used (pre_at s c) (ex_at s c) - {a}"
    unfolding st(2) st(3) m using d a by (auto simp: used_def ex_chunks_def split: option.splits dest: in_set_dropD)
  then have iu: "in_use ?s = in_use s - {a}"
    using st m a by (intro in_use_remove [OF ok c'(1)]) (auto simp: used_def)
  have "held ?s = (held s)(a + 8 := None)" by (intro held_remove [OF iu]) simp
  then have "released (a + 8) s ?s" using st(1) room_for_same [OF st(2)] unfolding released_def by blast
  then show ?thesis using run by blast
qed

lemma dc_free_ok:
  assumes ok: "mm_ok s" and p: "p \<in> dom (held s)"
  shows "\<exists>s'. dc_free (Some p) s = Some s' \<and> released p s s'"
proof -
  define a where "a = p - 8"
  have pa: "p = a + 8" "a \<in> in_use s" using p held_iff [OF ok, of p] by (auto simp: a_def)
  obtain c k where c: "c \<in> {1..BIGGEST_CAP}" and u: "a \<in> used (pre_at s c) (ex_at s c)"
    and k: "map_of (blocks s) a = Some k" "chunk_cap k = c"
    using in_use_block [OF ok pa(2)] by metis
  have get: "arr_get (elm_table s) (int c) = Some (ex_at s c)" by (rule elm_get [OF mm_okD(1) [OF ok] c])
  show ?thesis
  proof (cases "c < SMALL \<or> BIG < c")
    case True
    then have pre: "pre_at s c = None" by (simp add: pre_at_def)
    then obtain m where m: "ex_at s c = Some m" "a \<in> set (drop (unat (elm_idle m)) (elems (chunks_list m)))"
      using u by (auto simp: used_def split: option.splits)
    have "dc_free (Some p) s = do { s \<leftarrow> lock_extra c s; free_extra c a m s }"
      using pa(1) k True get m(1) by (simp add: dc_free_def)
    then show ?thesis using free_extra_ok [OF ok c m] pa(1) by simp
  next
    case False
    then have b: "c \<in> {SMALL..BIG}" by simp
    then obtain m where m: "pre_at s c = Some m" by (simp add: pre_at_def)
    note gp = pre_get [OF ok b, unfolded m]
    show ?thesis
    proof (cases "a \<in> set (elems (alloced_chunks m))")
      case True
      show ?thesis using free_pre_ok [OF ok b m True] pa(1) k False gp True
        by (simp add: dc_free_def Let_def cl_do_find del: of_nat_diff)
    next
      case out: False
      then obtain n where n: "ex_at s c = Some n" "a \<in> set (drop (unat (elm_idle n)) (elems (chunks_list n)))"
        using u m by (auto simp: used_def split: option.splits)
      obtain s' where s': "do { s \<leftarrow> lock_extra c s; free_extra c a n s } = Some s'" "released (a + 8) s s'"
        using free_extra_ok [OF ok c n] by blast
      have lock: "lock_extra c s = Some (s\<lparr>extra_mutex := free_mutexes[c := Some True]\<rparr>)"
        using mm_okD(1) [OF ok] c by (simp add: lock_extra_ok tables_ok_def)
      have "dc_free (Some p) s = Some s'"
        using pa(1) k False gp out get n(1) s'(1) lock
        by (simp add: dc_free_def Let_def cl_do_find del: of_nat_diff)
      then show ?thesis using s'(2) pa(1) by blast
    qed
  qed
qed

section \<open>Initialising\<close>

text \<open>The globals before \<open>mm_init\<close>: no extra list and no mutex; \<open>mm_init\<close> makes the managers.\<close>

definition zero_globals :: "mm \<Rightarrow> bool" where
  "zero_globals s \<longleftrightarrow> blocks s = [] \<and> length (chunks_manager_table s) = CHUNK_TYPE_NUM \<and>
     elm_table s = replicate (BIGGEST_CAP + 1) None \<and> length (pre_alloc_mutex s) = CHUNK_TYPE_NUM \<and>
     extra_mutex s = replicate (BIGGEST_CAP + 1) None"

text \<open>The managers from \<open>i\<close> on are made.\<close>

definition made_from :: "nat \<Rightarrow> mm \<Rightarrow> bool" where
  "made_from i s \<longleftrightarrow> length (chunks_manager_table s) = CHUNK_TYPE_NUM \<and> length (pre_alloc_mutex s) = CHUNK_TYPE_NUM \<and>
     blocks_ok (blocks s) \<and> (\<forall>c. c \<notin> {SMALL..BIG} \<longrightarrow> blocks_of (blocks s) c = {}) \<and>
     (\<forall>j<i. blocks_of (blocks s) (SMALL + j) = {}) \<and>
     (\<forall>j. i \<le> j \<longrightarrow> j < CHUNK_TYPE_NUM \<longrightarrow> pre_alloc_mutex s ! j = Some False \<and>
        elems (alloced_chunks (chunks_manager_table s ! j)) = [] \<and>
        cap_ok (Some (chunks_manager_table s ! j)) None (blocks_of (blocks s) (SMALL + j)))"

lemma chunks_num_bound: "i < CHUNK_TYPE_NUM \<Longrightarrow> chunks_num ! i < 2 ^ 16"
proof -
  assume "i < CHUNK_TYPE_NUM"
  then have "chunks_num ! i \<in> set chunks_num" by (intro nth_mem) (simp add: chunks_num_def mm_consts)
  moreover have "\<forall>x\<in>set chunks_num. x < 2 ^ 16" by (simp add: chunks_num_def)
  ultimately show ?thesis by blast
qed

lemma made_from_step:
  assumes made: "made_from (Suc i) s" and i: "Suc i \<le> CHUNK_TYPE_NUM" and ml: "malloc_ok malloc"
  shows "\<exists>s'. init_managers malloc (Suc i) s = init_managers malloc i s' \<and> made_from i s' \<and>
    elm_table s' = elm_table s \<and> extra_mutex s' = extra_mutex s"
proof -
  let ?c = "SMALL + i" and ?n = "chunks_num ! i"
  have c: "?c \<in> {1..BIGGEST_CAP}" "?c \<in> {SMALL..BIG}" using i by (auto simp: mm_consts)
  obtain ns where ns: "mm_pre_alloc malloc ?c ?n s = Some (\<lparr>elems = map fst ns, room = ?n\<rparr>, s\<lparr>blocks := ns @ blocks s\<rparr>)"
    "length ns = ?n" "fresh_chunks ?c ns (blocks s)" using mm_pre_alloc_ok [OF ml c(1)] by blast
  let ?m = "\<lparr>chunks_cap = ?c, idle_num = of_nat ?n, idle_chunks = \<lparr>elems = map fst ns, room = ?n\<rparr>, alloced_chunks = \<lparr>elems = [], room = ?n\<rparr>\<rparr>"
  let ?s = "s\<lparr>blocks := ns @ blocks s, chunks_manager_table := (chunks_manager_table s)[i := ?m], pre_alloc_mutex := (pre_alloc_mutex s)[i := Some False],
      pre_alloc_apply := (pre_alloc_apply s)[i := 0], pre_alloc_free := (pre_alloc_free s)[i := 0]\<rparr>"
  have n: "?n < 2 ^ 16" using chunks_num_bound i by simp
  have "pre_ok ?m" using ns(2) n by (simp add: pre_ok_def unat_of_nat take_bit_eq_mod)
  then have cap: "cap_ok (Some ?m) None (fst ` set ns)"
    using ns(3) by (simp add: cap_ok_def pre_chunks_def ex_chunks_def fresh_chunks_def)
  have bs: "blocks_of (blocks ?s) d = (if d = ?c then fst ` set ns else blocks_of (blocks s) d)" for d
    using fresh_blocks_of [OF ns(3)] made by (simp add: made_from_def)
  have "blocks_ok (blocks ?s)" using fresh_blocks_ok [OF _ ns(3) c(1)] made by (simp add: made_from_def)
  then have "made_from i ?s" using made cap c(2) i unfolding made_from_def bs by (auto simp: nth_list_update)
  moreover have "init_managers malloc (Suc i) s = init_managers malloc i ?s" using ns(1) by simp
  ultimately show ?thesis by (intro exI [of _ ?s]) simp
qed

lemma init_managers_ok:
  "malloc_ok malloc \<Longrightarrow> made_from i s \<Longrightarrow> i \<le> CHUNK_TYPE_NUM \<Longrightarrow>
    \<exists>s'. init_managers malloc i s = Some s' \<and> made_from 0 s' \<and> elm_table s' = elm_table s \<and> extra_mutex s' = extra_mutex s"
proof (induction i arbitrary: s)
  case (Suc i)
  then obtain s' where s': "init_managers malloc (Suc i) s = init_managers malloc i s'" "made_from i s'"
    "elm_table s' = elm_table s" "extra_mutex s' = extra_mutex s" using made_from_step by blast
  then show ?case using Suc.IH [OF Suc.prems(1) s'(2)] Suc.prems(3) by simp
qed simp

lemma init_extra_frame:
  "blocks (init_extra j s) = blocks s \<and> chunks_manager_table (init_extra j s) = chunks_manager_table s \<and>
   elm_table (init_extra j s) = elm_table s \<and> pre_alloc_mutex (init_extra j s) = pre_alloc_mutex s"
  by (induction j arbitrary: s) (simp_all add: Let_def)

lemma init_extra_mutexes:
  "length (extra_mutex (init_extra j s)) = length (extra_mutex s) \<and>
   (k < length (extra_mutex s) \<longrightarrow> extra_mutex (init_extra j s) ! k = (if 0 < k \<and> k < j then Some False else extra_mutex s ! k))"
  by (induction j arbitrary: s) (auto simp: Let_def nth_list_update less_Suc_eq)

lemma mm_init_ok:
  assumes z: "zero_globals s" and ml: "malloc_ok malloc"
  shows "\<exists>s'. mm_init malloc s = Some s' \<and> mm_ok s' \<and> held s' = Map.empty \<and> room_for 32767 s'"
proof -
  have "made_from CHUNK_TYPE_NUM s" using z by (auto simp: made_from_def zero_globals_def blocks_ok_def blocks_of_def)
  then obtain s1 where s1: "init_managers malloc CHUNK_TYPE_NUM s = Some s1" "made_from 0 s1" "elm_table s1 = elm_table s"
    "extra_mutex s1 = extra_mutex s" using init_managers_ok [OF ml] by blast
  define s' where "s' = init_extra (BIGGEST_CAP + 1) s1"
  note fr = init_extra_frame [of "BIGGEST_CAP + 1" s1, folded s'_def]
  have mx: "extra_mutex s' = free_mutexes"
  proof (rule nth_equalityI)
    show "length (extra_mutex s') = length free_mutexes"
      using init_extra_mutexes [of "BIGGEST_CAP + 1" s1] s1(4) z by (simp add: s'_def zero_globals_def free_mutexes_def)
    show "extra_mutex s' ! k = free_mutexes ! k" if "k < length (extra_mutex s')" for k
      using that init_extra_mutexes [of "BIGGEST_CAP + 1" s1] s1(4) z
      by (auto simp: s'_def zero_globals_def free_mutexes_def nth_Cons')
  qed
  have "pre_alloc_mutex s' = replicate CHUNK_TYPE_NUM (Some False)"
    using s1(2) fr by (intro nth_equalityI) (auto simp: made_from_def)
  then have t: "tables_ok s'" using mx s1 fr z by (simp add: tables_ok_def made_from_def zero_globals_def)
  have ex: "ex_at s' c = None" if "c \<in> {1..BIGGEST_CAP}" for c
    using that fr s1(3) z by (simp add: ex_at_def zero_globals_def del: replicate.simps)
  have pre: "pre_at s' c = None \<and> blocks_of (blocks s') c = {} \<or>
      (\<exists>m. pre_at s' c = Some m \<and> elems (alloced_chunks m) = [] \<and> cap_ok (Some m) None (blocks_of (blocks s') c))"
    if "c \<in> {1..BIGGEST_CAP}" for c
  proof (cases "c \<in> {SMALL..BIG}")
    case True
    then have "SMALL + (c - SMALL) = c" "c - SMALL < CHUNK_TYPE_NUM" by (auto simp: mm_consts)
    then show ?thesis using True s1(2) fr unfolding made_from_def pre_at_def by (metis atLeastAtMost_iff le0 not_less)
  next
    case False
    then have "pre_at s' c = None" by (auto simp: pre_at_def)
    moreover have "blocks_of (blocks s') c = {}" using False s1(2) fr by (auto simp: made_from_def)
    ultimately show ?thesis by blast
  qed
  have "cap_ok (pre_at s' c) (ex_at s' c) (blocks_of (blocks s') c)" if "c \<in> {1..BIGGEST_CAP}" for c
    using pre [OF that] ex [OF that] by (auto simp: cap_ok_def pre_chunks_def ex_chunks_def)
  then have ok: "mm_ok s'" using t s1(2) fr by (simp add: mm_ok_def made_from_def)
  have "used (pre_at s' c) (ex_at s' c) = {}" if "c \<in> {1..BIGGEST_CAP}" for c
    using pre [OF that] ex [OF that] by (auto simp: used_def)
  then have "in_use s' = {}" by (simp add: in_use_def)
  then have "held s' = Map.empty" by (auto simp: held_def)
  moreover have "room_for 32767 s'" using ex by (simp add: room_for_def)
  ultimately show ?thesis using ok s1(1) by (simp add: mm_init_def s'_def)
qed

section \<open>Resizing\<close>

lemma map_of_map_keys: "map_of (map (\<lambda>(b, k). (b, g b k)) bl) a = map_option (g a) (map_of bl a)"
  by (induction bl) auto

lemma copy_chunk_ok:
  assumes ok: "mm_ok s" and p: "held s (a + 8) = Some d" and q: "held s (b + 8) = Some e" and ab: "a \<noteq> b" and n: "n \<le> length d" "n \<le> length e"
  shows "\<exists>s'. copy_chunk b a n s = Some s' \<and> mm_ok s' \<and> held s' = (held s)(b + 8 \<mapsto> take n d @ drop n e) \<and>
    (\<forall>k. room_for k s \<longrightarrow> room_for k s')"
proof -
  let ?g = "\<lambda>c k. if c = b then k\<lparr>chunk_data := take n d @ drop n (chunk_data k)\<rparr> else k"
  let ?bl = "map (\<lambda>(c, k). (c, ?g c k)) (blocks s)"
  let ?s = "s\<lparr>blocks := ?bl\<rparr>"
  obtain ka where ka: "map_of (blocks s) a = Some ka" "chunk_data ka = d" using p by (auto simp: held_def split: if_splits)
  obtain kb where kb: "map_of (blocks s) b = Some kb" "chunk_data kb = e" using q by (auto simp: held_def split: if_splits)
  have run: "copy_chunk b a n s = Some ?s" using ka kb ab n by (auto simp: copy_chunk_def)
  have bd: "k = kb" if "(b, k) \<in> set (blocks s)" for k
    using that kb(1) mm_okD(2) [OF ok] by (auto simp: blocks_ok_def dest: map_of_is_SomeI)
  have bo: "blocks_of ?bl c = blocks_of (blocks s) c" for c by (force simp: blocks_of_def split: if_splits)
  have fst: "map fst ?bl = map fst (blocks s)" by auto
  have "chunk_cap k \<in> {1..BIGGEST_CAP} \<and> length (chunk_data k) = 2 ^ chunk_cap k" if ck: "(c, k) \<in> set ?bl" for c k
  proof -
    obtain x where x: "x \<in> set (blocks s)" "(c, k) = (\<lambda>(c, k). (c, ?g c k)) x" using ck unfolding set_map by blast
    obtain c0 k0 where "x = (c0, k0)" by (rule prod.exhaust)
    with x have k0: "(c, k0) \<in> set (blocks s)" "k = ?g c k0" by simp_all
    then have "chunk_cap k0 \<in> {1..BIGGEST_CAP} \<and> length (chunk_data k0) = 2 ^ chunk_cap k0"
      using mm_okD(2) [OF ok] by (auto simp: blocks_ok_def)
    then show ?thesis using k0 bd [of k0] kb(2) n by (cases "c = b") auto
  qed
  then have "\<forall>(a, k) \<in> set ?bl. chunk_cap k \<in> {1..BIGGEST_CAP} \<and> length (chunk_data k) = 2 ^ chunk_cap k" by blast
  moreover have "distinct (map fst ?bl)" unfolding fst using mm_okD(2) [OF ok] by (simp add: blocks_ok_def)
  ultimately have "blocks_ok ?bl" unfolding blocks_ok_def by blast
  moreover have same: "pre_at ?s c = pre_at s c" "ex_at ?s c = ex_at s c" for c by (simp_all add: pre_at_def ex_at_def)
  ultimately have ok': "mm_ok ?s" using ok bo by (simp add: mm_ok_def tables_ok_def)
  have "in_use ?s = in_use s" by (simp add: in_use_def same)
  then have "held ?s x = ((held s)(b + 8 \<mapsto> take n d @ drop n e)) x" for x
  proof (cases "x = b + 8")
    case True
    then show ?thesis using \<open>in_use ?s = in_use s\<close> q kb by (simp add: held_def map_of_map_keys split: if_splits)
  next
    case False
    then have "8 \<le> x \<Longrightarrow> x - 8 \<noteq> b" by auto
    then show ?thesis using \<open>in_use ?s = in_use s\<close> False by (simp add: held_def map_of_map_keys option.map_comp comp_def)
  qed
  then have "held ?s = (held s)(b + 8 \<mapsto> take n d @ drop n e)" by blast
  then show ?thesis using run ok' room_for_same [of ?s s] same(2) by blast
qed

lemma held_nonnull: "p \<in> dom (held s) \<Longrightarrow> 8 \<le> p"
  by (auto simp: held_def split: if_splits)

lemma held_chunk:
  assumes ok: "mm_ok s" and p: "held s p = Some d"
  obtains k where "map_of (blocks s) (p - 8) = Some k" "chunk_data k = d" "length d = 2 ^ chunk_cap k" "chunk_cap k \<le> 30"
proof -
  have u: "p - 8 \<in> in_use s" and k: "map_option chunk_data (map_of (blocks s) (p - 8)) = Some d"
    using p by (auto simp: held_def split: if_splits)
  obtain c k' where "map_of (blocks s) (p - 8) = Some k'" "chunk_cap k' = c" "length (chunk_data k') = 2 ^ c" "c \<in> {1..BIGGEST_CAP}"
    using in_use_block [OF ok u] by metis
  then show thesis using k that by (auto simp: BIGGEST_CAP_def)
qed

lemma dc_realloc_start:
  assumes ok: "mm_ok s" and ml: "malloc_ok malloc" and p: "held s p = Some d"
    and sz: "2 \<le> unat sz" "unat sz \<le> 2 ^ 30" and r: "room_for (Suc k) s"
  obtains q s' e where "granted (ceillog2 (unat sz)) s q s'" "room_for k s'" "8 \<le> q" "q \<noteq> p" "mm_ok s'"
    "held s' = (held s)(q \<mapsto> e)" "length e = 2 ^ ceillog2 (unat sz)" "q \<notin> dom (held s)"
    "dc_realloc malloc (Some p) sz s = do { s \<leftarrow> copy_chunk (q - 8) (p - 8) (length d) s'; s \<leftarrow> dc_free (Some p) s; Some (Some q, s) }"
proof -
  obtain q s' where q: "dc_alloc malloc sz s = Some (Some q, s')" "granted (ceillog2 (unat sz)) s q s'" "room_for k s'"
    using dc_alloc_ok [OF ok ml sz r] r by blast
  then obtain e where e: "mm_ok s'" "held s' = (held s)(q \<mapsto> e)" "length e = 2 ^ ceillog2 (unat sz)" "q \<notin> dom (held s)"
    by (auto simp: granted_def)
  obtain c where c: "map_of (blocks s) (p - 8) = Some c" "length d = 2 ^ chunk_cap c" "chunk_cap c \<le> 30"
    using held_chunk [OF ok p] by metis
  have "8 \<le> p" using p held_nonnull by blast
  moreover have "sz \<noteq> 0" using sz(1) by auto
  ultimately have "dc_realloc malloc (Some p) sz s =
      do { s \<leftarrow> copy_chunk (q - 8) (p - 8) (length d) s'; s \<leftarrow> dc_free (Some p) s; Some (Some q, s) }"
    using c q(1) by (simp add: dc_realloc_def POW2_def)
  moreover have "8 \<le> q" using e(2) held_nonnull [of q s'] by simp
  moreover have "q \<noteq> p" using e(4) p by auto
  ultimately show thesis using that q e by blast
qed

lemma copy_too_long:
  assumes "held s (b + 8) = Some e" and "length e < n"
  shows "copy_chunk b a n s = None"
  using assms by (cases "map_of (blocks s) a") (auto simp: copy_chunk_def held_def split: if_splits)

section \<open>The contract of an allocator\<close>

datatype request = Alloc "64 word" | Release nat

fun is_alloc :: "request \<Rightarrow> bool" where
  "is_alloc (Alloc sz) = True"
| "is_alloc (Release i) = False"

fun good_request :: "request \<Rightarrow> bool" where
  "good_request (Alloc sz) \<longleftrightarrow> 2 \<le> unat sz \<and> unat sz \<le> 2 ^ 30"
| "good_request (Release i) \<longleftrightarrow> True"

text \<open>A client that frees only what it holds: \<open>Release i\<close> frees the \<open>i\<close>-th of its pointers, if there is one.\<close>

fun run_client :: "(64 word \<Rightarrow> 's \<Rightarrow> (nat option \<times> 's) option) \<Rightarrow> (nat option \<Rightarrow> 's \<Rightarrow> 's option) \<Rightarrow>
    request list \<Rightarrow> nat list \<Rightarrow> 's \<Rightarrow> (nat list \<times> 's) option" where
  "run_client alloc rel [] ps s = Some (ps, s)"
| "run_client alloc rel (Alloc sz # rs) ps s =
     do { (p, s) \<leftarrow> alloc sz s; p \<leftarrow> p; run_client alloc rel rs (ps @ [p]) s }"
| "run_client alloc rel (Release i # rs) ps s =
     (if i < length ps then do { s \<leftarrow> rel (Some (ps ! i)) s; run_client alloc rel rs (take i ps @ drop (Suc i) ps) s }
      else run_client alloc rel rs ps s)"

locale allocator =
  fixes good :: "'s \<Rightarrow> bool"
    and holds :: "'s \<Rightarrow> nat \<Rightarrow> bytes option"
    and budget :: "nat \<Rightarrow> 's \<Rightarrow> bool"
    and alloc :: "64 word \<Rightarrow> 's \<Rightarrow> (nat option \<times> 's) option"
    and rel :: "nat option \<Rightarrow> 's \<Rightarrow> 's option"
  assumes alloc_law: "good s \<Longrightarrow> 2 \<le> unat sz \<Longrightarrow> unat sz \<le> 2 ^ 30 \<Longrightarrow> budget (Suc k) s \<Longrightarrow>
      \<exists>p d s'. alloc sz s = Some (Some p, s') \<and> good s' \<and> budget k s' \<and> p \<notin> dom (holds s) \<and> unat sz \<le> length d \<and>
        holds s' = (holds s)(p \<mapsto> d)"
    and release_law: "good s \<Longrightarrow> p \<in> dom (holds s) \<Longrightarrow> budget k s \<Longrightarrow>
      \<exists>s'. rel (Some p) s = Some s' \<and> good s' \<and> budget k s' \<and> holds s' = (holds s)(p := None)"
begin

lemma client_safe:
  "good s \<Longrightarrow> budget (length (filter is_alloc rs)) s \<Longrightarrow> \<forall>r\<in>set rs. good_request r \<Longrightarrow> distinct ps \<Longrightarrow> set ps = dom (holds s) \<Longrightarrow>
    \<exists>ps' s'. run_client alloc rel rs ps s = Some (ps', s') \<and> good s' \<and> distinct ps' \<and> set ps' = dom (holds s')"
proof (induction rs arbitrary: ps s)
  case (Cons r rs)
  show ?case
  proof (cases r)
    case (Alloc sz)
    then obtain p d s' where "alloc sz s = Some (Some p, s')" "good s'" "budget (length (filter is_alloc rs)) s'"
      "p \<notin> dom (holds s)" "holds s' = (holds s)(p \<mapsto> d)"
      using alloc_law [OF Cons.prems(1), of sz "length (filter is_alloc rs)"] Cons.prems(2,3) by auto
    note step = this
    then have "distinct (ps @ [p])" "set (ps @ [p]) = dom (holds s')" using Cons.prems(4,5) by auto
    from Cons.IH [OF step(2,3) _ this] have "\<exists>ps' s''. run_client alloc rel rs (ps @ [p]) s' = Some (ps', s'') \<and> good s'' \<and>
        distinct ps' \<and> set ps' = dom (holds s'')" using Cons.prems(3) by simp
    then show ?thesis using step(1) Alloc by simp
  next
    case (Release i)
    show ?thesis
    proof (cases "i < length ps")
      case True
      then have ps: "ps = take i ps @ ps ! i # drop (Suc i) ps" by (rule id_take_nth_drop)
      let ?qs = "take i ps @ drop (Suc i) ps"
      have d: "distinct (take i ps @ ps ! i # drop (Suc i) ps)" using Cons.prems(4) ps by simp
      then have qs: "distinct ?qs" "set ?qs = set ps - {ps ! i}" by (simp, subst (3) ps, auto)
      have "ps ! i \<in> dom (holds s)" using True Cons.prems(5) nth_mem by blast
      then obtain s' where s': "rel (Some (ps ! i)) s = Some s'" "good s'" "budget (length (filter is_alloc rs)) s'"
        "holds s' = (holds s)(ps ! i := None)"
        using release_law [OF Cons.prems(1), of "ps ! i" "length (filter is_alloc rs)"] Cons.prems(2) Release by auto
      have "set ?qs = dom (holds s')" using qs(2) s'(4) Cons.prems(5) by auto
      then show ?thesis using Cons.IH [OF s'(2,3) _ qs(1)] Cons.prems(3) s'(1) True Release by simp
    next
      case False
      then show ?thesis using Cons.IH [of s ps] Cons.prems Release by simp
    qed
  qed
qed simp

end

interpretation mm: allocator "\<lambda>s. malloc_ok malloc \<and> mm_ok s" held room_for "dc_alloc malloc" dc_free for malloc
proof unfold_locales
  fix s k and sz :: "64 word"
  assume ok: "malloc_ok malloc \<and> mm_ok s" and sz: "2 \<le> unat sz" "unat sz \<le> 2 ^ 30" and r: "room_for (Suc k) s"
  then obtain p s' d where p: "dc_alloc malloc sz s = Some (Some p, s')" "room_for k s'" "mm_ok s'" "p \<notin> dom (held s)"
    "length d = 2 ^ ceillog2 (unat sz)" "held s' = (held s)(p \<mapsto> d)"
    using dc_alloc_ok [of s malloc sz k] unfolding granted_def by blast
  have "unat sz \<le> length d" unfolding p(5) by (rule le_two_power_ceillog2)
  then show "\<exists>p d s'. dc_alloc malloc sz s = Some (Some p, s') \<and> (malloc_ok malloc \<and> mm_ok s') \<and> room_for k s' \<and>
      p \<notin> dom (held s) \<and> unat sz \<le> length d \<and> held s' = (held s)(p \<mapsto> d)"
    using ok p by blast
next
  fix s k p
  assume "malloc_ok malloc \<and> mm_ok s" and "p \<in> dom (held s)" and "room_for k s"
  then show "\<exists>s'. dc_free (Some p) s = Some s' \<and> (malloc_ok malloc \<and> mm_ok s') \<and> room_for k s' \<and> held s' = (held s)(p := None)"
    using dc_free_ok [of s p] unfolding released_def by blast
qed

section \<open>The properties\<close>

text \<open>A \<open>malloc\<close> for the concrete runs: above every block, zeroed.\<close>

definition bump :: malloc where
  "bump s n = (Max (insert 0 (fst ` set (blocks s))) + 1, replicate n 0)"

lemma bump_ok: "malloc_ok bump"
proof -
  have "Max (insert 0 (fst ` set bl)) + 1 \<notin> fst ` set bl" for bl :: "(nat \<times> chunk) list"
  proof
    assume "Max (insert 0 (fst ` set bl)) + 1 \<in> fst ` set bl"
    then have "Max (insert 0 (fst ` set bl)) + 1 \<le> Max (insert 0 (fst ` set bl))" by (intro Max_ge) auto
    then show False by simp
  qed
  then show ?thesis by (simp add: malloc_ok_def bump_def)
qed

definition globals :: mm where
  "globals = \<lparr>blocks = [], chunks_manager_table = replicate CHUNK_TYPE_NUM
       \<lparr>chunks_cap = 0, idle_num = 0, idle_chunks = \<lparr>elems = [], room = 0\<rparr>, alloced_chunks = \<lparr>elems = [], room = 0\<rparr>\<rparr>,
     elm_table = replicate (BIGGEST_CAP + 1) None, pre_alloc_mutex = replicate CHUNK_TYPE_NUM None,
     extra_mutex = replicate (BIGGEST_CAP + 1) None, pre_alloc_apply = replicate CHUNK_TYPE_NUM 0,
     pre_alloc_free = replicate CHUNK_TYPE_NUM 0, extra_apply = replicate (BIGGEST_CAP + 1) 0, extra_free = replicate (BIGGEST_CAP + 1) 0\<rparr>"

lemma globals_ok: "zero_globals globals"
  by (simp add: zero_globals_def globals_def)

lemma started:
  obtains s where "mm_init bump globals = Some s" "mm_ok s" "held s = Map.empty" "room_for 32767 s"
  using mm_init_ok [OF globals_ok bump_ok] by blast

text \<open>the capacity \<open>dc_alloc\<close> computes with \<open>first_bit\<close>, \<open>LOG2\<close> and the comparison is the binary logarithm of the
  size rounded up, for all sizes from 2 that \<open>POW2\<close> is defined for.\<close>

theorem capacity_is_ceillog2:
  "2 \<le> unat sz \<Longrightarrow> unat sz < 2 ^ 31 \<Longrightarrow> alloc_cap sz = Some (ceillog2 (unat sz))"
  by (rule alloc_cap_ceillog2)

theorem capacity_is_ceillog2_witness: "alloc_cap 4 = Some 2 \<and> alloc_cap 1000000 = Some (ceillog2 1000000)"
  using capacity_is_ceillog2 [of 4] capacity_is_ceillog2 [of 1000000] ceillog2_2_power [of 2] by simp

text \<open>C24: from a well-formed state \<open>dc_alloc\<close> of a size from 2 to 2 to the 30 returns a chunk the client did not hold,
  of the least power of two that is large enough, leaves the contents of all the others and keeps the state
  well-formed; the extra lists have to be below the 65536 chunks their 16-bit counters can count.\<close>

theorem dc_alloc_grants:
  assumes "mm_ok s" and "malloc_ok malloc" and "2 \<le> unat sz" and "unat sz \<le> 2 ^ 30" and "room_for (Suc k) s"
  shows "\<exists>p d s'. dc_alloc malloc sz s = Some (Some p, s') \<and> mm_ok s' \<and> room_for k s' \<and> p \<notin> dom (held s) \<and>
    held s' = (held s)(p \<mapsto> d) \<and> unat sz \<le> length d \<and> length d < 2 * unat sz"
proof -
  obtain p s' where p: "dc_alloc malloc sz s = Some (Some p, s')" "granted (ceillog2 (unat sz)) s p s'" "room_for k s'"
    using dc_alloc_ok [OF assms] assms(5) by blast
  moreover have "unat sz \<le> 2 ^ ceillog2 (unat sz)" "(2::nat) ^ ceillog2 (unat sz) < 2 * unat sz"
    using le_two_power_ceillog2 two_power_ceillog2_gt assms(3) by simp_all
  ultimately show ?thesis unfolding granted_def by metis
qed

theorem dc_alloc_grants_witness:
  "\<exists>s p d s'. mm_init bump globals = Some s \<and> dc_alloc bump 10 s = Some (Some p, s') \<and> held s' = [p \<mapsto> d] \<and>
     10 \<le> length d \<and> length d < 20"
proof -
  obtain s where s: "mm_init bump globals = Some s" "mm_ok s" "held s = Map.empty" "room_for 32767 s" by (rule started)
  have "room_for (Suc 32766) s" using s(4) by simp
  then show ?thesis using dc_alloc_grants [OF s(2) bump_ok, of 10 32766] s(1,3) by auto
qed

text \<open>C25: from a well-formed state \<open>dc_free\<close> of a pointer the client holds returns, takes just that chunk from the
  client and keeps the state well-formed; also when the chunk is the last one in use of its list and the list is freed.\<close>

theorem dc_free_releases:
  "mm_ok s \<Longrightarrow> p \<in> dom (held s) \<Longrightarrow> \<exists>s'. dc_free (Some p) s = Some s' \<and> mm_ok s' \<and> held s' = (held s)(p := None)"
  using dc_free_ok unfolding released_def by blast

theorem dc_free_releases_witness:
  "\<exists>s p s' s''. mm_init bump globals = Some s \<and> dc_alloc bump 0x200000 s = Some (Some p, s') \<and> dc_free (Some p) s' = Some s'' \<and>
     held s'' = Map.empty"
proof -
  obtain s where s: "mm_init bump globals = Some s" "mm_ok s" "held s = Map.empty" "room_for 32767 s" by (rule started)
  have r: "room_for (Suc 32766) s" using s(4) by simp
  obtain p d s' where p: "dc_alloc bump 0x200000 s = Some (Some p, s')" "mm_ok s'" "held s' = [p \<mapsto> d]"
    using dc_alloc_ok [OF s(2) bump_ok _ _ r, of "0x200000"] s(3) unfolding granted_def by auto
  then show ?thesis using dc_free_releases [OF p(2)] s(1) by auto
qed

text \<open>C23: after \<open>mm_init\<close> any sequence of at most 32767 allocations of 2 to 2 to the 30 bytes and of frees of pointers
  held runs without undefined behaviour and without a deadlock on the mutexes; the pointers held are distinct.\<close>

theorem mm_client_safe:
  assumes "zero_globals s" and "malloc_ok malloc" and "\<forall>r\<in>set rs. good_request r" and "length (filter is_alloc rs) \<le> 32767"
  shows "\<exists>s0 ps s'. mm_init malloc s = Some s0 \<and> run_client (dc_alloc malloc) dc_free rs [] s0 = Some (ps, s') \<and>
    distinct ps \<and> set ps = dom (held s') \<and> mm_ok s'"
proof -
  obtain s0 where s0: "mm_init malloc s = Some s0" "mm_ok s0" "held s0 = Map.empty" "room_for 32767 s0"
    using mm_init_ok [OF assms(1,2)] by blast
  have "room_for (length (filter is_alloc rs)) s0" using s0(4) assms(4) by (fastforce simp: room_for_def)
  then show ?thesis using mm.client_safe [of malloc s0 rs "[]"] assms(2,3) s0 by simp blast
qed

theorem mm_client_safe_witness:
  "\<exists>s0 ps s'. mm_init bump globals = Some s0 \<and>
     run_client (dc_alloc bump) dc_free [Alloc 10, Alloc 0x200000, Release 0, Alloc 9, Release 1, Release 7] [] s0 = Some (ps, s') \<and>
     distinct ps \<and> set ps = dom (held s')"
  using mm_client_safe [OF globals_ok bump_ok, of "[Alloc 10, Alloc 0x200000, Release 0, Alloc 9, Release 1, Release 7]"]
  by simp blast

text \<open>C26: \<open>dc_realloc\<close> to a size whose chunk is at least as large always moves the block: the old chunk is freed and
  the new one starts with all of its contents. To a size with a smaller chunk the copy, which takes the length of the old
  chunk, writes past the new one.\<close>

theorem dc_realloc_copies:
  assumes "mm_ok s" and "malloc_ok malloc" and "held s p = Some d" and "2 \<le> unat sz" and "unat sz \<le> 2 ^ 30" and "room_for (Suc k) s"
  shows "if length d \<le> 2 ^ ceillog2 (unat sz)
    then \<exists>q e s'. dc_realloc malloc (Some p) sz s = Some (Some q, s') \<and> mm_ok s' \<and> q \<noteq> p \<and>
      held s' = (held s)(p := None, q \<mapsto> e) \<and> take (length d) e = d \<and> length e = 2 ^ ceillog2 (unat sz)
    else dc_realloc malloc (Some p) sz s = None"
proof -
  obtain q s' e where q: "8 \<le> q" "q \<noteq> p" "mm_ok s'" "held s' = (held s)(q \<mapsto> e)" "length e = 2 ^ ceillog2 (unat sz)" "q \<notin> dom (held s)"
    "dc_realloc malloc (Some p) sz s = do { s \<leftarrow> copy_chunk (q - 8) (p - 8) (length d) s'; s \<leftarrow> dc_free (Some p) s; Some (Some q, s) }"
    by (rule dc_realloc_start [OF assms(1-3,4-6)]) (rule that)
  have p: "8 \<le> p" using assms(3) held_nonnull [of p s] by auto
  then have hp: "held s' (p - 8 + 8) = Some d" using assms(3) q(2,4) by simp
  have e: "held s' (q - 8 + 8) = Some e" using q(1,4) by simp
  show ?thesis
  proof (cases "length d \<le> length e")
    case True
    obtain s2 where s2: "copy_chunk (q - 8) (p - 8) (length d) s' = Some s2" "mm_ok s2"
      "held s2 = (held s')(q - 8 + 8 \<mapsto> take (length d) d @ drop (length d) e)"
      using copy_chunk_ok [OF q(3) hp e, of "length d"] q(1,2) p True by (auto simp: eq_diff_iff)
    then have "p \<in> dom (held s2)" using q(1,2,4) assms(3) by auto
    then obtain s3 where s3: "dc_free (Some p) s2 = Some s3" "mm_ok s3" "held s3 = (held s2)(p := None)"
      using dc_free_ok [OF s2(2)] unfolding released_def by blast
    have "held s3 = (held s)(p := None, q \<mapsto> d @ drop (length d) e)" using s3(3) s2(3) q(1,2,4) by (auto simp: fun_eq_iff)
    then show ?thesis using True q(2,5,7) s2(1) s3(1,2)
      by (auto intro!: exI [of _ "d @ drop (length d) e"])
  next
    case False
    then show ?thesis using q(5,7) copy_too_long [OF e, of "length d" "p - 8"] by simp
  qed
qed

theorem dc_realloc_copies_witness:
  "\<exists>s p s'. mm_init bump globals = Some s \<and> dc_alloc bump 10 s = Some (Some p, s') \<and>
     dc_realloc bump (Some p) 5 s' = None \<and> (\<exists>q s''. dc_realloc bump (Some p) 16 s' = Some (Some q, s'') \<and> q \<noteq> p)"
proof -
  obtain s where s: "mm_init bump globals = Some s" "mm_ok s" "held s = Map.empty" "room_for 32767 s" by (rule started)
  have r: "room_for (Suc 32766) s" using s(4) by simp
  have l: "ceillog2 10 = 4" "ceillog2 5 = 3" "ceillog2 16 = 4" by (rule ceillog2_eqI; simp)+
  obtain p d s' where p: "dc_alloc bump 10 s = Some (Some p, s')" "mm_ok s'" "held s' = [p \<mapsto> d]" "length d = 2 ^ 4" "room_for 32766 s'"
    using dc_alloc_ok [OF s(2) bump_ok _ _ r, of 10] s(3) r l unfolding granted_def by auto
  have r': "room_for (Suc 32765) s'" using p(5) by simp
  have h: "held s' p = Some d" using p(3) by simp
  show ?thesis using dc_realloc_copies [OF p(2) bump_ok h _ _ r', of 5] dc_realloc_copies [OF p(2) bump_ok h _ _ r', of 16] l p(1,4) s(1)
    by auto
qed

text \<open>C27: the sizes \<open>dc_alloc\<close> does not serve: 1 byte locks the mutex \<open>mm_init\<close> did not make, more than 2 to the 30
  bytes (and less than 2 to the 31) reads past the table of extra lists, and 4 GiB and 2 bytes, a size that is
  truncated to 32 bits, are served with a chunk of 4 bytes.\<close>

theorem dc_alloc_size_limits:
  assumes "mm_ok s" and "malloc_ok malloc" and "room_for (Suc k) s" and "2 ^ 30 < unat sz" and "unat sz < 2 ^ 31"
  shows "dc_alloc malloc 1 s = None \<and> dc_alloc malloc sz s = None \<and>
    (\<exists>p d s'. dc_alloc malloc 0x100000002 s = Some (Some p, s') \<and> held s' = (held s)(p \<mapsto> d) \<and> length d = 4)"
proof (intro conjI)
  note t = mm_okD(1) [OF assms(1)]
  have "alloc_cap 1 = Some 0" by code_simp
  moreover have "lock_extra 0 s = None"
    using t by (simp add: lock_extra_def mutex_lock_def arr_get_in free_mutexes_def tables_ok_def)
  moreover have "arr_get (elm_table s) (int 0) = Some (elm_table s ! 0)" using t by (simp add: arr_get_in tables_ok_def)
  ultimately have "alloc_extra malloc 0 s = None"
    by (cases "elm_table s ! 0") (auto simp: alloc_extra_def select_extra_def)
  then show "dc_alloc malloc 1 s = None" using \<open>alloc_cap 1 = Some 0\<close> by (subst dc_alloc.simps) (simp add: SMALL_def)
  have "ceillog2 (unat sz) = 31" using assms(4,5) by (intro ceillog2_eqI) simp_all
  then have "alloc_cap sz = Some 31" using alloc_cap_ceillog2 [of sz] assms(4,5) by simp
  moreover have "arr_get (elm_table s) (int 31) = None" using t by (simp add: arr_get_def tables_ok_def BIGGEST_CAP_def)
  moreover have "sz \<noteq> 0" using assms(4) by auto
  ultimately show "dc_alloc malloc sz s = None" by (subst dc_alloc.simps) (simp add: alloc_extra_def BIG_def)
  have "alloc_cap 0x100000002 = Some 2" "alloc_cap 4 = Some 2" by code_simp+
  then have same: "dc_alloc malloc 0x100000002 s = dc_alloc malloc 4 s"
    by (subst (1 2) dc_alloc.simps) simp
  have "ceillog2 4 = 2" using ceillog2_2_power [of 2] by simp
  then show "\<exists>p d s'. dc_alloc malloc 0x100000002 s = Some (Some p, s') \<and> held s' = (held s)(p \<mapsto> d) \<and> length d = 4"
    using dc_alloc_ok [OF assms(1,2) _ _ assms(3), of 4] unfolding same granted_def by auto
qed

theorem dc_alloc_size_limits_witness:
  "\<exists>s. mm_init bump globals = Some s \<and> dc_alloc bump 1 s = None \<and> dc_alloc bump 0x40000001 s = None"
proof -
  obtain s where s: "mm_init bump globals = Some s" "mm_ok s" "held s = Map.empty" "room_for 32767 s" by (rule started)
  have "room_for (Suc 32766) s" using s(4) by simp
  then show ?thesis using dc_alloc_size_limits [OF s(2) bump_ok, of 32766 "0x40000001"] s(1) by auto
qed

end
