(* ===== verification/Spec2Isabelle.thy ===== *)
theory Spec2Isabelle
  imports Startup TailPool DcMMProps
begin

text \<open>
  A verification library for dnscache, a caching DNS server and its client library.

  \<^bold>\<open>The program.\<close> Off line, \<open>list2tri\<close> stores the popular domains in a trie, with their line numbers as
  data, and saves it. The server loads the trie and a table with the addresses of those domains; together with a
  hash table for all other domains that is the address cache. A client sends a request of one or more domains
  over TCP or UDP. The server answers in place: over the request it writes an address for each domain, the address
  127.0.0.2 where the cache has none. Missed domains of a TCP request go to an array used as a queue; DNS threads
  take them, ask the resolver, store the result in the cache and count down; the last one of a request sends a
  second message with the missed addresses and releases what the threads shared. Beside this there are a memory
  manager that the Makefiles do not link, and a load generator for the client with a pool of strings.

  \<^bold>\<open>The theories\<close>, in the order the components call each other (sources under \<open>src/\<close>):

  \<^item> \<open>Prelude\<close>: machine integers, guarded arrays, 32-bit sums, and the collections \<open>accessors\<close> and \<open>updates\<close>.
  \<^item> \<open>FileUtils\<close> (\<open>server/fileutils.c\<close>): integers and characters on a stream; the locale \<open>file_codec\<close> of a writer
    and a reader that undo each other, which every serialiser below interprets.
  \<^item> \<open>TrieDefs\<close>, \<open>AlphaMap\<close> (\<open>server/triedefs.h\<close>, \<open>alpha-map.c\<close>): the alphabet as a list of ranges and the
    translation of characters. \<open>alpha_map_ok\<close> says sorted and disjoint; adding a range is set union.
  \<^item> \<open>Tail\<close> (\<open>server/tail.c\<close>): suffixes in blocks with a free list; the locale \<open>suffix_store\<close>.
  \<^item> \<open>DArray\<close>, \<open>FreeList\<close>, \<open>Branching\<close>, \<open>DArrayOps\<close> (\<open>server/darray.c\<close>): the operations; the circular free list; the
    cells as a tree whose nodes are renamed by a relocation; pruning, enumeration and files.
  \<^item> \<open>Trie\<close>, \<open>TrieMap\<close>, \<open>TrieStore\<close>, \<open>Dictionary\<close> (\<open>server/trie.c\<close>): the operations; which strings a trie holds; what
    storing and deleting do to them; the locale \<open>string_map\<close>, interpreted on the trie, and the properties.
  \<^item> \<open>TrieFiles\<close>: storing keeps suffixes, data and links within the types of the file, so what is built can be saved.
  \<^item> \<open>CLib\<close>, \<open>List2Tri\<close> (\<open>server/list2tri.c\<close>, \<open>test_tri.c\<close>): what is used of the C library; the program that builds the
    trie, and the test that loads it.
  \<^item> \<open>Kache\<close> (\<open>server/dl_kache.c\<close>, \<open>hash.c\<close>): the address cache; the locale \<open>address_cache\<close>.
  \<^item> \<open>Server\<close> (\<open>server/serv_thread_make.c\<close>, \<open>udp_server.c\<close>): reading requests and answering in place.
  \<^item> \<open>DnsQueue\<close> (\<open>server/server.h\<close> and the three files that use the array): the locale \<open>bounded_fifo\<close>.
  \<^item> \<open>DnsThreads\<close> (\<open>server/dns_thread_make.c\<close>, both \<open>do_dns_search\<close>): the process as a step relation; \<open>process_ok\<close> is
    its invariant, over the history of what was submitted and found.
  \<^item> \<open>Client\<close> (\<open>client/dc_client.c\<close>): preparing, sending, reading both messages; the properties run client, server and
    DNS threads together.
  \<^item> \<open>Pipeline\<close> (\<open>server/test_dl_kache.c\<close>, \<open>client/dns_show.c\<close>): the programs one after the other: the file of domains, the
    saved trie, the loaded cache, the server, the client; \<open>loads_lines\<close> is the contract between the first three and
    the others.
  \<^item> \<open>Errors\<close> (\<open>server/errors.c\<close>, \<open>wraps.c\<close>): the error functions and the wrappers of the thread library, as runs that
    return, exit or abort; \<open>Startup\<close> (\<open>server/mainserver.c\<close>, \<open>init.c\<close>): \<open>main\<close> up to the loops of the threads.
  \<^item> \<open>TailPool\<close> (\<open>client/datrie_tail_pool.c\<close>, \<open>client/test_client.c\<close>): the pool of strings and the load generator.
  \<^item> \<open>Slist\<close> (\<open>server/slist.c\<close> and the identical \<open>client/slist.c\<close>): lists of preallocated nodes in a heap; the locale
    \<open>bounded_list\<close>, interpreted on the nodes.
  \<^item> \<open>DcMM\<close>, \<open>DcMMProps\<close> (\<open>server/dc_mm1.c\<close>): the memory manager; its lists of chunks interpret \<open>bounded_list\<close> too, and the
    manager interprets the locale \<open>allocator\<close>, in which any client that frees only what it holds is safe.

  \<^bold>\<open>Conventions.\<close> \<open>None\<close> is a run that leaves defined behaviour or does not end; error codes are ordinary results. A
  theorem that a function gives \<open>Some\<close> is therefore one of memory safety and termination. The loops are structural,
  have a measure, or are partial functions in the option monad, for which the theorems prove that they end; no model
  uses fuel. Allocation succeeds; the contents of fresh memory are arguments, of any length from what was asked for on. For the
  header of a TCP request the server asks for 13 bytes and reads 16: the theorems on TCP requests say for every length of that block
  what happens, nothing defined below 16 bytes and the answer from 16 on. Over UDP the client walks along its buffer: the theorem
  on \<open>dns_show\<close> counts the zeros (\<open>zeros\<close>) that decide whether the walk ends inside it. The targets are little-endian LP64 with a
  signed \<open>char\<close>. What a socket delivers is the list of the results of successive reads; the resolver, the clock, \<open>malloc\<close>
  and the success of writes are arguments of the steps that use them.

  \<^bold>\<open>Bounds.\<close> The trie theorems ask for \<open>trie_fits\<close>: 768 cells of the double array for each character stored, because
  a branch node moves at most once for each character and then extends the pool by at most one alphabet, and indices below
  the limit of the source. From the empty trie
  this is 2796000 for the characters and two more for each key, less than a file of \<open>TRIESIZE\<close> domains has; the theorems
  that start from the lists ask for it, for lines over the alphabet of at most 78 characters, which two buffers of 80 bytes hold, and for
  exactly \<open>TRIESIZE - 1\<close> addresses, which \<open>kache_init\<close> reads. Requests are below 2 GB, and their domains have at
  least three characters, so that an address fits where its domain was. The queue holds fewer than \<open>ARRAYSIZE\<close> entries. The
  memory manager serves 2 to 2 to the 30 bytes as long as no list of chunks reaches 65536, the range of its counters. The
  pool of strings is below 2 to the 30 bytes, where its 32-bit sizes do not wrap.

  \<^bold>\<open>What the groups of lemmas show.\<close> Each component has an invariant (\<open>alpha_map_ok\<close>, \<open>tail_ok\<close>, \<open>ring_ok\<close>, \<open>da_ok\<close>,
  \<open>trie_ok\<close>, \<open>kache_ok\<close>, \<open>process_ok\<close>, \<open>sl_ok\<close>, \<open>mm_ok\<close>, \<open>datp_ok\<close>), a lemma for each operation that it keeps the invariant
  and what it does to an abstraction (a set, a finite map, a queue, a list, the contents of the chunks held), and an
  interpretation of the contract the next component relies on. The theorems marked with a claim number follow from those.
  The files fit together because storing keeps \<open>tail_fits\<close>, the ranges of the fields of the saved trie; \<open>loads_lines\<close> then
  carries the lines of the two lists to the answers of the servers. Several of them state
  defects: reads and writes past a buffer, a request answered twice, blocks released too early, an error flag that sticks.

  \<^bold>\<open>Not modelled.\<close> The sockets themselves: creating them, accepting connections, and the standard output of the server. The
  resolver (\<open>dnsrequest.c\<close>) and the allocation stubs (\<open>dc_mm.c\<close>): one library call each, parameters of the models.
  \<open>server/lirs.c\<close>: never compiled, and not valid C. The threads and the timing of \<open>test_client.c\<close>.
  \<open>dl_kache.c\<close> is used by many threads without a lock; the models take each of its operations as one
  step.
\<close>

end
